(* ===== verification/Prelude.thy ===== *)
theory Prelude
  imports Main "HOL-Library.Word" "HOL-Library.Monad_Syntax"
begin

text \<open>
  Shared vocabulary of the development: the fixed-width integer types of
  \<^verbatim>\<open>include/types.h\<close>, the index loop \<open>for (i = 0; i < N; i++) if (P(a[i])) ...\<close> that
  every table of the kernel uses, and generic facts on words and lists.  The collections
  \<open>mem_simps\<close> and \<open>slot_simps\<close> carry the memory and the table proofs of the
  component theories.
\<close>

unbundle bit_operations_syntax

type_synonym u8 = "8 word"
type_synonym u16 = "16 word"
type_synonym u32 = "32 word"
type_synonym u64 = "64 word"

named_theorems mem_simps
named_theorems slot_simps

section \<open>The first-match index loop\<close>

text \<open>
  \<open>find_slot P xs\<close> is the index at which the loop
  \<^verbatim>\<open>for (int i = 0; i < N; i++) if (P(xs[i])) return i;\<close> stops, or \<open>None\<close> when it
  falls through.
\<close>

fun find_slot :: "('a \<Rightarrow> bool) \<Rightarrow> 'a list \<Rightarrow> nat option" where
  "find_slot P [] = None"
| "find_slot P (x # xs) = (if P x then Some 0 else map_option Suc (find_slot P xs))"

lemma find_slot_None [slot_simps]: "find_slot P xs = None \<longleftrightarrow> (\<forall>x \<in> set xs. \<not> P x)"
  by (induction xs) auto

lemma find_slot_Some:
  "find_slot P xs = Some i \<longleftrightarrow> i < length xs \<and> P (xs ! i) \<and> (\<forall>j < i. \<not> P (xs ! j))"
proof (induction xs arbitrary: i)
  case Nil
  then show ?case by simp
next
  case (Cons x xs)
  show ?case
  proof (cases i)
    case 0
    then show ?thesis by auto
  next
    case (Suc k)
    with Cons.IH [of k] show ?thesis by (auto simp: less_Suc_eq_0_disj)
  qed
qed

lemma find_slot_SomeD:
  assumes "find_slot P xs = Some i"
  shows "i < length xs" and "P (xs ! i)" and "j < i \<Longrightarrow> \<not> P (xs ! j)"
  using assms by (auto simp: find_slot_Some)

lemma find_slot_ex: "x \<in> set xs \<Longrightarrow> P x \<Longrightarrow> \<exists>i. find_slot P xs = Some i"
  by (cases "find_slot P xs") (auto simp: find_slot_None)

lemma find_slot_cong:
  assumes "length xs = length ys" and "\<And>i. i < length xs \<Longrightarrow> P (xs ! i) = Q (ys ! i)"
  shows "find_slot P xs = find_slot Q ys"
  using assms
proof (induction xs ys rule: list_induct2')
  case (4 x xs y ys)
  from "4.prems"(2) [of 0] have "P x = Q y" by simp
  moreover have "find_slot P xs = find_slot Q ys"
  proof (rule "4.IH")
    show "length xs = length ys" using "4.prems"(1) by simp
  next
    fix i assume "i < length xs"
    then show "P (xs ! i) = Q (ys ! i)" using "4.prems"(2) [of "Suc i"] by simp
  qed
  ultimately show ?case by simp
qed auto

lemma all_nth_update:
  "\<forall>i < length xs. P (xs ! i) \<Longrightarrow> (i < length xs \<Longrightarrow> P e) \<Longrightarrow> j < length xs \<Longrightarrow> P (xs[i := e] ! j)"
  by (cases "i < length xs") (auto simp: nth_list_update)

text \<open>A counter over a table: \<^verbatim>\<open>for (...) if (P(a[i])) c++;\<close>.\<close>

primrec count_slots :: "('a \<Rightarrow> bool) \<Rightarrow> 'a list \<Rightarrow> nat" where
  "count_slots P [] = 0"
| "count_slots P (x # xs) = (if P x then 1 else 0) + count_slots P xs"

lemma count_slots_filter: "count_slots P xs = length (filter P xs)"
  by (induction xs) auto

lemma count_slots_le: "count_slots P xs \<le> length xs"
  by (simp add: count_slots_filter)

lemma count_slots_update:
  assumes "i < length xs"
  shows "count_slots P (xs[i := y]) + (if P (xs ! i) then 1 else 0)
       = count_slots P xs + (if P y then 1 else 0)"
  using assms
proof (induction xs arbitrary: i)
  case (Cons x xs)
  then show ?case by (cases i) auto
qed simp

section \<open>Words\<close>

lemma unat_of_nat32: "x < 2 ^ 32 \<Longrightarrow> unat (of_nat x :: u32) = x"
  by (simp add: unat_of_nat)

lemma unat_u32: "unat (x :: u32) < 4294967296"
  by (rule order_less_le_trans [OF unsigned_less]) simp

lemma unat_u16: "unat (x :: u16) < 65536"
  by (rule order_less_le_trans [OF unsigned_less]) simp

lemma unat_u8: "unat (x :: u8) < 256"
  by (rule order_less_le_trans [OF unsigned_less]) simp

lemma of_nat_eq_u32: "x < 4294967296 \<Longrightarrow> of_nat x = (q :: u32) \<longleftrightarrow> x = unat q"
  using unat_of_nat32 [of x] by auto

lemma word_gap_add:
  fixes d :: "'a::len word"
  assumes "k \<le> d" "k \<le> - d" "j < k"
  shows "k \<le> d + j"
proof -
  have "d \<noteq> 0" using assms by auto
  then have "unat (0 - d) = 2 ^ LENGTH('a) - unat d"
    by (simp only: unat_sub_if') (auto simp: unat_gt_0)
  with assms have "unat d + unat j < 2 ^ LENGTH('a)"
    by (simp add: word_le_nat_alt word_less_nat_alt)
  then have "d \<le> d + j" by (simp add: no_olen_add_nat)
  with assms(1) show ?thesis by simp
qed

lemma unat_offset_step:
  fixes p d :: u32
  shows "unat (p - (d + 1)) = (if p = d then 4294967295 else unat (p - d) - 1)"
proof (cases "p = d")
  case True
  then have "p - (d + 1) = - 1" by simp
  then show ?thesis using True by (simp add: unsigned_minus_1_eq_mask mask_eq_exp_minus_1)
next
  case False
  then have "p - d \<noteq> 0" by simp
  then have "unat (p - d - 1) = unat (p - d) - 1" by (rule unat_minus_one)
  then show ?thesis using False by (simp add: diff_diff_add)
qed

lemma unat_diff_pos: "p \<noteq> (d :: 'a::len word) \<Longrightarrow> 0 < unat (p - d)"
  by (simp add: unat_gt_0)

lemma unat_outside:
  fixes p :: u32
  assumes "x < 4294967296" "x < unat p \<or> unat p + n \<le> x" "unat p + n \<le> 4294967296"
  shows "n \<le> unat (of_nat x - p)"
proof (cases "x < unat p")
  case True
  then have "unat (of_nat x - p) = 4294967296 + x - unat p"
    using assms(1) by (simp add: unat_sub_if' unat_of_nat32)
  then show ?thesis using assms True by linarith
next
  case False
  then have "unat (of_nat x - p) = x - unat p"
    using assms(1) by (simp add: unat_sub_if' unat_of_nat32)
  then show ?thesis using assms False by linarith
qed

lemma unat_add_nowrap:
  fixes a b :: "'a::len word"
  shows "unat a + unat b < 2 ^ LENGTH('a) \<Longrightarrow> unat (a + b) = unat a + unat b"
  by (simp add: unat_word_ariths)

lemma unat_and_mask: "unat (x AND mask n) = unat (x :: u32) mod 2 ^ n"
  unfolding take_bit_eq_mask [symmetric] unsigned_take_bit_eq by (simp add: take_bit_eq_mod)

lemma unat_drop: "unat (drop_bit n (x :: u32)) = unat x div 2 ^ n"
  unfolding unat_drop_bit_eq by (simp add: drop_bit_eq_div)

end
