(* ===== verification/Cstring.thy ===== *)
theory Cstring
  imports Prelude
begin

text \<open>
  The string routines of \<^verbatim>\<open>include/types.h\<close>.  A \<^verbatim>\<open>char*\<close> is the list of the characters
  from the pointer on; a string parameter may be given without its terminator, so reading past
  the end of the list reads the terminating NUL.  A fixed array \<^verbatim>\<open>char a[n]\<close> is a list of
  length \<open>n\<close>.  A routine that writes gets the destination array as an argument and returns it
  updated; \<open>strcpy\<close> and \<open>strcat\<close>, which have no bound, return \<open>None\<close> when they would write
  past the end of the array.
\<close>

section \<open>Definitions\<close>

abbreviation NUL :: char where "NUL \<equiv> CHR 0x00"

text \<open>\<^verbatim>\<open>*s\<close>, and the contents of a C string.\<close>

definition deref :: "string \<Rightarrow> char" where
  "deref s = (case s of [] \<Rightarrow> NUL | c # _ \<Rightarrow> c)"

definition c_str :: "string \<Rightarrow> string" where
  "c_str s = takeWhile (\<lambda>c. c \<noteq> NUL) s"

text \<open>The value of a character as \<^verbatim>\<open>unsigned char\<close> and as the signed \<^verbatim>\<open>char\<close> of the target.\<close>

definition uchar :: "char \<Rightarrow> int" where
  "uchar c = of_char c"

definition schar :: "char \<Rightarrow> int" where
  "schar c = (if uchar c < 128 then uchar c else uchar c - 256)"

fun strlen :: "string \<Rightarrow> nat" where
  "strlen [] = 0"
| "strlen (c # s) = (if c = NUL then 0 else Suc (strlen s))"

function strcmp :: "string \<Rightarrow> string \<Rightarrow> int" where
  "strcmp a b = (if deref a \<noteq> NUL \<and> deref a = deref b then strcmp (tl a) (tl b)
                 else uchar (deref a) - uchar (deref b))"
  by pat_completeness auto
termination
  by (relation "measure (\<lambda>(a, b). length a)") (auto simp: deref_def split: list.splits)

fun strncmp :: "string \<Rightarrow> string \<Rightarrow> nat \<Rightarrow> int" where
  "strncmp a b 0 = 0"
| "strncmp a b (Suc n) =
     (if deref a \<noteq> deref b \<or> deref a = NUL then uchar (deref a) - uchar (deref b)
      else strncmp (tl a) (tl b) n)"

text \<open>The copying loop writes up to and including the terminator.\<close>

fun strcpy :: "string \<Rightarrow> string \<Rightarrow> string option" where
  "strcpy [] src = None"
| "strcpy (d # dst) src =
     (if deref src = NUL then Some (NUL # dst) else map_option ((#) (deref src)) (strcpy dst (tl src)))"

fun strncpy :: "string \<Rightarrow> string \<Rightarrow> nat \<Rightarrow> string" where
  "strncpy dst src 0 = dst"
| "strncpy [] src (Suc n) = []"
| "strncpy (d # dst) src (Suc n) =
     (if deref src \<noteq> NUL then deref src # strncpy dst (tl src) n
      else NUL # strncpy dst [] n)"

definition strcat :: "string \<Rightarrow> string \<Rightarrow> string option" where
  "strcat dst src = map_option ((@) (take (strlen dst) dst)) (strcpy (drop (strlen dst) dst) src)"

fun strchr :: "string \<Rightarrow> char \<Rightarrow> string option" where
  "strchr [] c = (if c = NUL then Some [] else None)"
| "strchr (x # s) c =
     (if x = NUL then (if c = NUL then Some (x # s) else None)
      else if x = c then Some (x # s) else strchr s c)"

definition isdigit :: "char \<Rightarrow> bool" where
  "isdigit c \<longleftrightarrow> schar c \<ge> 48 \<and> schar c \<le> 57"

definition isalpha :: "char \<Rightarrow> bool" where
  "isalpha c \<longleftrightarrow> (schar c \<ge> 97 \<and> schar c \<le> 122) \<or> (schar c \<ge> 65 \<and> schar c \<le> 90)"

definition isspace :: "char \<Rightarrow> bool" where
  "isspace c \<longleftrightarrow> c = CHR '' '' \<or> c = CHR 0x09 \<or> c = CHR 0x0A \<or> c = CHR 0x0D"

definition tolower :: "char \<Rightarrow> char" where
  "tolower c = (if schar c \<ge> 65 \<and> schar c \<le> 90 then char_of (uchar c + 32) else c)"

definition toupper :: "char \<Rightarrow> char" where
  "toupper c = (if schar c \<ge> 97 \<and> schar c \<le> 122 then char_of (uchar c - 32) else c)"

text \<open>The two loops of \<open>atoi\<close>; the accumulator is a 32-bit \<^verbatim>\<open>int\<close>.\<close>

fun skip_spaces :: "string \<Rightarrow> string" where
  "skip_spaces [] = []"
| "skip_spaces (c # s) = (if isspace c then skip_spaces s else c # s)"

fun atoi_digits :: "u32 \<Rightarrow> string \<Rightarrow> u32" where
  "atoi_digits n [] = n"
| "atoi_digits n (c # s) =
     (if isdigit c then atoi_digits (n * 10 + word_of_int (schar c - 48)) s else n)"

definition atoi :: "string \<Rightarrow> u32" where
  "atoi s0 =
     (let s = skip_spaces s0;
          neg = (deref s = CHR ''-'');
          s = (if neg then tl s else if deref s = CHR ''+'' then tl s else s);
          n = atoi_digits 0 s
      in if neg then - n else n)"

section \<open>Facts\<close>

lemma deref_simps [simp]: "deref [] = NUL" "deref (c # s) = c"
  by (simp_all add: deref_def)

lemma c_str_simps [simp]: "c_str [] = []" "c_str (c # s) = (if c = NUL then [] else c # c_str s)"
  by (simp_all add: c_str_def)

lemma NUL_c_str [simp]: "NUL \<notin> set (c_str s)"
  by (induction s) auto

lemma c_str_id: "NUL \<notin> set s \<Longrightarrow> c_str s = s"
  by (induction s) auto

lemma c_str_c_str [simp]: "c_str (c_str s) = c_str s"
  by (induction s) auto

lemma c_str_append: "NUL \<notin> set s \<Longrightarrow> c_str (s @ t) = s @ c_str t"
  by (induction s) auto

lemma length_c_str_less: "NUL \<in> set s \<Longrightarrow> length (c_str s) < length s"
  by (induction s) auto

lemma strlen_c_str: "strlen s = length (c_str s)"
  by (induction s) auto

lemma uchar_eq [simp]: "uchar a = uchar b \<longleftrightarrow> a = b"
  by (simp add: uchar_def)

declare strcmp.simps [simp del]

lemma strcmp_eq_0: "strcmp a b = 0 \<longleftrightarrow> c_str a = c_str b"
proof (induction a b rule: strcmp.induct)
  case (1 a b)
  have step: "strcmp a b = (if deref a \<noteq> NUL \<and> deref a = deref b then strcmp (tl a) (tl b)
      else uchar (deref a) - uchar (deref b))" by (rule strcmp.simps)
  show ?case
  proof (cases "deref a \<noteq> NUL \<and> deref a = deref b")
    case True
    with 1 step show ?thesis by (cases a; cases b) auto
  next
    case False
    with step have "strcmp a b = 0 \<longleftrightarrow> deref a = deref b" by auto
    with False show ?thesis by (cases a; cases b) auto
  qed
qed

lemma strncmp_eq_0: "strncmp a b n = 0 \<longleftrightarrow> take n (c_str a) = take n (c_str b)"
proof (induction a b n rule: strncmp.induct)
  case (2 a b n)
  then show ?case by (cases a; cases b) auto
qed simp

lemma strcpy_eq:
  "strcpy dst src = (if length (c_str src) < length dst
     then Some (c_str src @ NUL # drop (Suc (length (c_str src))) dst) else None)"
proof (induction dst src rule: strcpy.induct)
  case (2 d dst src)
  then show ?case by (cases src) auto
qed simp

lemma length_strncpy [simp]: "length (strncpy dst src n) = length dst"
  by (induction dst src n rule: strncpy.induct) auto

lemma strncpy_eq:
  assumes "n \<le> length dst"
  shows "strncpy dst src n = take n (c_str src) @ replicate (n - length (c_str src)) NUL @ drop n dst"
  using assms
proof (induction dst src n rule: strncpy.induct)
  case (3 d dst src n)
  then show ?case by (cases src) auto
qed auto

text \<open>Storing a string in a terminated array.\<close>

lemma strncpy_terminated:
  assumes "length buf = Suc n" "last buf = NUL"
  shows "last (strncpy buf s n) = NUL" "c_str (strncpy buf s n) = take n (c_str s)"
proof -
  have "drop n buf = [NUL]" using assms by (metis append_butlast_last_id append_eq_conv_conj length_butlast
      diff_Suc_1 length_0_conv nat.distinct(1))
  then have e: "strncpy buf s n = take n (c_str s) @ replicate (n - length (c_str s)) NUL @ [NUL]"
    using strncpy_eq [of n buf s] assms(1) by simp
  then show "last (strncpy buf s n) = NUL" by simp
  have "NUL \<notin> set (take n (c_str s))" using NUL_c_str [of s] by (meson in_set_takeD)
  then show "c_str (strncpy buf s n) = take n (c_str s)"
    unfolding e by (cases "n - length (c_str s)") (simp_all add: c_str_append)
qed


end
