(* ===== verification/Slots.thy ===== *)
theory Slots
  imports Cstring
begin

text \<open>
  Fixed tables of named entries.  The environment, the service registry and the user table are
  arrays of structs with an \<^verbatim>\<open>active\<close> flag and a name (the ARP cache has an address instead); a lookup is the first active entry with
  that name, an insertion overwrites that entry or takes the first inactive one.  The facts on
  such arrays are proved here for any entry type, and the locales \<open>key_table\<close>, \<open>name_table\<close> and
  \<open>name_table_del\<close> are the contract a client of such a table relies on.
\<close>

definition find_key :: "('a \<Rightarrow> bool) \<Rightarrow> ('a \<Rightarrow> 'k) \<Rightarrow> 'a list \<Rightarrow> 'k \<Rightarrow> nat option" where
  "find_key act nm xs k = find_slot (\<lambda>e. act e \<and> nm e = k) xs"

definition keys_unique :: "('a \<Rightarrow> bool) \<Rightarrow> ('a \<Rightarrow> 'k) \<Rightarrow> 'a list \<Rightarrow> bool" where
  "keys_unique act nm xs \<longleftrightarrow> distinct (map nm (filter act xs))"

lemma keys_unique_nth:
  "keys_unique act nm xs \<longleftrightarrow>
     (\<forall>i < length xs. \<forall>j < length xs. act (xs ! i) \<and> act (xs ! j) \<and> nm (xs ! i) = nm (xs ! j) \<longrightarrow> i = j)"
proof (induction xs)
  case (Cons x xs)
  have "keys_unique act nm (x # xs) \<longleftrightarrow>
      keys_unique act nm xs \<and> (act x \<longrightarrow> (\<forall>j < length xs. act (xs ! j) \<longrightarrow> nm x \<noteq> nm (xs ! j)))"
    by (auto simp: keys_unique_def in_set_conv_nth)
  with Cons.IH show ?case by (auto simp: All_less_Suc2)
qed (simp add: keys_unique_def)

lemma find_key_SomeD:
  assumes "find_key act nm xs k = Some i"
  shows "i < length xs" "act (xs ! i)" "nm (xs ! i) = k"
  using find_slot_SomeD [OF assms [unfolded find_key_def]] by auto

lemma find_key_Some:
  assumes "keys_unique act nm xs"
  shows "find_key act nm xs k = Some i \<longleftrightarrow> i < length xs \<and> act (xs ! i) \<and> nm (xs ! i) = k"
proof
  assume r: "i < length xs \<and> act (xs ! i) \<and> nm (xs ! i) = k"
  then obtain j where "find_key act nm xs k = Some j"
    using find_slot_ex [of "xs ! i" xs "\<lambda>e. act e \<and> nm e = k"] by (auto simp: find_key_def)
  moreover from find_key_SomeD [OF this] r assms have "i = j" by (auto simp: keys_unique_nth)
  ultimately show "find_key act nm xs k = Some i" by simp
qed (auto dest: find_key_SomeD)

lemma find_key_None:
  "find_key act nm xs k = None \<longleftrightarrow> (\<forall>i < length xs. act (xs ! i) \<longrightarrow> nm (xs ! i) \<noteq> k)"
  by (auto simp: find_key_def find_slot_None all_set_conv_all_nth)

lemma find_key_cong_None:
  assumes "\<And>i. find_key act nm xs k = Some i \<longleftrightarrow> find_key act nm ys k' = Some i"
  shows "find_key act nm xs k = find_key act nm ys k'"
  using assms by (metis not_Some_eq)

text \<open>Storing an active entry named \<open>k\<close> at the index of \<open>k\<close>, or at an inactive index when
  \<open>k\<close> is absent; clearing the entry of \<open>k\<close>.\<close>

lemma keys_unique_put:
  assumes "keys_unique act nm xs" "i < length xs" "act e" "nm e = k"
    and "find_key act nm xs k = Some i \<or> find_key act nm xs k = None"
  shows "keys_unique act nm (xs[i := e])"
proof -
  have "j = i" if "j < length xs" "act (xs ! j)" "nm (xs ! j) = k" for j
  proof -
    from that have "find_key act nm xs k = Some j" by (simp only: find_key_Some [OF assms(1)])
    with assms(5) show ?thesis by simp
  qed
  note here = this
  show ?thesis
    unfolding keys_unique_nth length_list_update
  proof (intro allI impI, elim conjE)
    fix x y assume xy: "x < length xs" "y < length xs" "act (xs[i := e] ! x)" "act (xs[i := e] ! y)"
      "nm (xs[i := e] ! x) = nm (xs[i := e] ! y)"
    have upd: "xs[i := e] ! z = (if z = i then e else xs ! z)" for z
      using assms(2) by (simp add: nth_list_update)
    consider "x = i" "y = i" | "x = i" "y \<noteq> i" | "x \<noteq> i" "y = i" | "x \<noteq> i" "y \<noteq> i" by blast
    then show "x = y"
    proof cases
      case 2
      with xy(4,5) have "act (xs ! y)" "nm (xs ! y) = k" using assms(4) by (simp_all add: upd)
      from here [OF xy(2) this] 2 show ?thesis by simp
    next
      case 3
      with xy(3,5) have "act (xs ! x)" "nm (xs ! x) = k" using assms(4) by (simp_all add: upd)
      from here [OF xy(1) this] 3 show ?thesis by simp
    next
      case 4
      with xy have "act (xs ! x)" "act (xs ! y)" "nm (xs ! x) = nm (xs ! y)" by (simp_all add: upd)
      with assms(1) xy(1,2) show ?thesis unfolding keys_unique_nth by blast
    qed simp
  qed
qed

lemma find_key_put:
  assumes "keys_unique act nm xs" "i < length xs" "act e" "nm e = k"
    and "find_key act nm xs k = Some i \<or> find_key act nm xs k = None \<and> \<not> act (xs ! i)"
  shows "find_key act nm (xs[i := e]) k' = (if k' = k then Some i else find_key act nm xs k')"
proof -
  have u: "keys_unique act nm (xs[i := e])" by (rule keys_unique_put [OF assms(1-4)]) (use assms(5) in auto)
  have "find_key act nm (xs[i := e]) k' = find_key act nm xs k'" if "k' \<noteq> k"
  proof (rule find_key_cong_None)
    have "\<not> act (xs ! i) \<or> nm (xs ! i) = k" using assms(5) find_key_SomeD [of act nm xs k i] by auto
    with that assms(2-4) show "find_key act nm (xs[i := e]) k' = Some j \<longleftrightarrow> find_key act nm xs k' = Some j" for j
      unfolding find_key_Some [OF u] find_key_Some [OF assms(1)] by (cases "j = i") auto
  qed
  moreover have "find_key act nm (xs[i := e]) k = Some i" using u assms by (simp add: find_key_Some)
  ultimately show ?thesis by simp
qed

lemma keys_unique_clear:
  "keys_unique act nm xs \<Longrightarrow> \<not> act e \<Longrightarrow> keys_unique act nm (xs[i := e])"
  by (cases "i < length xs") (auto simp: keys_unique_nth nth_list_update)

lemma find_key_clear:
  assumes "keys_unique act nm xs" "\<not> act e" "find_key act nm xs k = Some i"
  shows "find_key act nm (xs[i := e]) k' = (if k' = k then None else find_key act nm xs k')"
proof (cases "k' = k")
  case True
  with assms show ?thesis
    by (auto simp: find_key_None find_key_Some nth_list_update keys_unique_nth) 
next
  case False
  note i = find_key_SomeD [OF assms(3)] and u = keys_unique_clear [OF assms(1,2), of i]
  have "find_key act nm (xs[i := e]) k' = Some j \<longleftrightarrow> find_key act nm xs k' = Some j" for j
    using i False assms(2) unfolding find_key_Some [OF u] find_key_Some [OF assms(1)] by (cases "j = i") auto
  then have "find_key act nm (xs[i := e]) k' = find_key act nm xs k'" by (rule find_key_cong_None)
  with False show ?thesis by simp
qed

section \<open>The contract of a table\<close>

text \<open>\<open>okey\<close> says which keys are proper, \<open>fits\<close> that a key and a value fit the fixed arrays that store
  them, \<open>room\<close> counts the free entries.\<close>

locale key_table =
  fixes lookup :: "'t \<Rightarrow> 'k \<Rightarrow> 'v option"
    and put :: "'k \<Rightarrow> 'v \<Rightarrow> 't \<Rightarrow> 't"
    and inv :: "'t \<Rightarrow> bool"
    and room :: "'t \<Rightarrow> nat"
    and fits :: "'k \<Rightarrow> 'v \<Rightarrow> bool"
    and okey :: "'k \<Rightarrow> bool"
  assumes fits_key: "fits k v \<Longrightarrow> okey k"
    and lookup_put: "inv t \<Longrightarrow> fits k v \<Longrightarrow> lookup t k \<noteq> None \<or> 0 < room t \<Longrightarrow>
      lookup (put k v t) k' = (if k' = k then Some v else lookup t k')"
    and put_full: "inv t \<Longrightarrow> okey k \<Longrightarrow> lookup t k = None \<Longrightarrow> room t = 0 \<Longrightarrow> put k v t = t"
    and inv_put: "inv t \<Longrightarrow> fits k v \<Longrightarrow> inv (put k v t)"
    and room_put: "inv t \<Longrightarrow> fits k v \<Longrightarrow> room (put k v t) = (if lookup t k = None then room t - 1 else room t)"
begin

text \<open>A sequence of insertions that does not run out of room behaves as a finite map.\<close>

definition put_all :: "('k \<times> 'v) list \<Rightarrow> 't \<Rightarrow> 't" where
  "put_all kvs t = fold (\<lambda>(k, v). put k v) kvs t"

lemma inv_put_all: "inv t \<Longrightarrow> \<forall>(k, v) \<in> set kvs. fits k v \<Longrightarrow> inv (put_all kvs t)"
  by (induction kvs arbitrary: t) (auto simp: put_all_def inv_put)

lemma lookup_put_all:
  assumes "inv t" "\<forall>(k, v) \<in> set kvs. fits k v" "length kvs \<le> room t"
  shows "lookup (put_all kvs t) k = (case map_of (rev kvs) k of Some v \<Rightarrow> Some v | None \<Rightarrow> lookup t k)"
  using assms
proof (induction kvs rule: rev_induct)
  case (snoc kv kvs)
  obtain k' v where kv: "kv = (k', v)" by force
  have "room t - length xs \<le> room (put_all xs t)" if "\<forall>(k, v) \<in> set xs. fits k v" for xs
    using that
  proof (induction xs rule: rev_induct)
    case (snoc x xs)
    obtain kx vx where "x = (kx, vx)" by force
    with snoc show ?case using room_put [OF inv_put_all [OF assms(1)], of xs kx vx]
      by (auto simp: put_all_def)
  qed (simp add: put_all_def)
  from this [of kvs] snoc.prems have "0 < room (put_all kvs t)" by (auto simp: kv)
  then have "lookup (put_all (kvs @ [kv]) t) k = (if k = k' then Some v else lookup (put_all kvs t) k)"
    using lookup_put [OF inv_put_all [OF assms(1)], of kvs k' v k] snoc.prems by (auto simp: put_all_def kv)
  with snoc show ?case by (auto simp: kv split: option.splits)
qed (simp add: put_all_def)

end

text \<open>Tables whose keys are C strings.\<close>

locale name_table = key_table lookup put inv room fits "\<lambda>k. NUL \<notin> set k"
  for lookup :: "'t \<Rightarrow> string \<Rightarrow> 'v option" and put and inv and room and fits

locale name_table_del = name_table lookup put inv room fits
  for lookup :: "'t \<Rightarrow> string \<Rightarrow> 'v option" and put and inv and room and fits +
  fixes remove :: "string \<Rightarrow> 't \<Rightarrow> 't"
  assumes lookup_remove: "inv t \<Longrightarrow> NUL \<notin> set k \<Longrightarrow> lookup (remove k t) k' = (if k' = k then None else lookup t k')"
    and inv_remove: "inv t \<Longrightarrow> inv (remove k t)"
    and room_remove: "inv t \<Longrightarrow> NUL \<notin> set k \<Longrightarrow> lookup t k \<noteq> None \<Longrightarrow> room (remove k t) = Suc (room t)"
begin

text \<open>Removing a name always makes the next insertion succeed.\<close>

lemma put_after_remove:
  assumes "inv t" "NUL \<notin> set k" "lookup t k \<noteq> None" "fits k' v"
  shows "lookup (put k' v (remove k t)) k' = Some v"
  using assms by (simp add: lookup_put inv_remove room_remove)

end

end
