(* ===== verification/Env.thy ===== *)
theory Env
  imports Slots
begin

text \<open>
  The environment variables of \<^verbatim>\<open>src/env.c\<close>: a table of 64 entries with a 32-byte key and a
  128-byte value.  The table is shown to implement a finite map on names that fit
  (\<open>interpretation env: name_table_del\<close>), and the expansion of \<open>$NAME\<close> and \<open>${NAME}\<close> to
  stay inside its output buffer.
\<close>

section \<open>Definitions\<close>

definition ENV_MAX_VARS :: nat where "ENV_MAX_VARS = 64"
definition ENV_KEY_LEN :: nat where "ENV_KEY_LEN = 32"
definition ENV_VAL_LEN :: nat where "ENV_VAL_LEN = 128"

record env_var =
  ev_key :: string
  ev_val :: string
  ev_active :: bool

type_synonym env_table = "env_var list"

definition env_cleared :: env_table where
  "env_cleared = replicate ENV_MAX_VARS
     \<lparr>ev_key = replicate ENV_KEY_LEN NUL, ev_val = replicate ENV_VAL_LEN NUL, ev_active = False\<rparr>"

definition env_match :: "string \<Rightarrow> env_var \<Rightarrow> bool" where
  "env_match k e \<longleftrightarrow> ev_active e \<and> strcmp (ev_key e) k = 0"

definition env_get :: "env_table \<Rightarrow> string \<Rightarrow> string option" where
  "env_get vars k = map_option (\<lambda>i. ev_val (vars ! i)) (find_slot (env_match k) vars)"

definition env_set :: "string \<Rightarrow> string \<Rightarrow> env_table \<Rightarrow> env_table" where
  "env_set k v vars =
     (case find_slot (env_match k) vars of
        Some i \<Rightarrow> vars[i := (vars ! i)\<lparr>ev_val := strncpy (ev_val (vars ! i)) v (ENV_VAL_LEN - 1)\<rparr>]
      | None \<Rightarrow>
          (case find_slot (\<lambda>e. \<not> ev_active e) vars of
             Some i \<Rightarrow> vars[i := \<lparr>ev_key = strncpy (ev_key (vars ! i)) k (ENV_KEY_LEN - 1),
                                   ev_val = strncpy (ev_val (vars ! i)) v (ENV_VAL_LEN - 1), ev_active = True\<rparr>]
           | None \<Rightarrow> vars))"

definition env_unset :: "string \<Rightarrow> env_table \<Rightarrow> env_table" where
  "env_unset k vars =
     (case find_slot (env_match k) vars of
        Some i \<Rightarrow> vars[i := (vars ! i)\<lparr>ev_active := False\<rparr>] | None \<Rightarrow> vars)"

definition env_count :: "env_table \<Rightarrow> nat" where
  "env_count vars = count_slots ev_active vars"

definition env_defaults :: "(string \<times> string) list" where
  "env_defaults = [(''PATH'', ''/bin''), (''HOME'', ''/home''), (''USER'', ''root''),
     (''HOSTNAME'', ''microkernel''), (''SHELL'', ''/bin/sh''),
     (''PS1'', CHR 0x5C # ''u@'' @ CHR 0x5C # ''h:'' @ CHR 0x5C # ''w$ ''),
     (''TERM'', ''vga''), (''EDITOR'', ''edit''), (''VERSION'', ''0.2.0'')]"

definition env_init :: env_table where
  "env_init = fold (\<lambda>(k, v). env_set k v) env_defaults env_cleared"

text \<open>The inner loop of \<open>env_expand\<close> reads a name of at most 31 characters; it returns the name and
  the rest of the input.\<close>

function expand_name :: "bool \<Rightarrow> string \<Rightarrow> string \<Rightarrow> string \<times> string" where
  "expand_name braced name input =
     (if deref input \<noteq> NUL \<and> length name < ENV_KEY_LEN - 1 then
        if braced \<and> deref input = CHR ''}'' then (name, tl input)
        else if \<not> braced \<and> \<not> isalpha (deref input) \<and> deref input \<noteq> CHR ''_'' \<and> \<not> isdigit (deref input)
        then (name, input)
        else expand_name braced (name @ [deref input]) (tl input)
      else (name, input))"
  by pat_completeness auto
termination
  by (relation "measure (\<lambda>(b, n, i). length i)") (auto simp: deref_def split: list.splits)

declare expand_name.simps [simp del]

lemma expand_name_shorter: "length (snd (expand_name braced name input)) \<le> length input"
proof (induction braced name input rule: expand_name.induct)
  case (1 braced name input)
  then show ?case by (subst expand_name.simps) (auto intro: order.trans)
qed

function expand_loop :: "env_table \<Rightarrow> nat \<Rightarrow> string \<Rightarrow> string \<Rightarrow> string" where
  "expand_loop vars lim input out =
     (if deref input \<noteq> NUL \<and> length out < lim then
        if deref input = CHR ''$'' then
          let input = tl input;
              braced = (deref input = CHR ''{'');
              input = (if braced then tl input else input);
              (name, input) = expand_name braced [] input
          in case env_get vars name of
               Some v \<Rightarrow> expand_loop vars lim input (out @ take (lim - length out) (c_str v))
             | None \<Rightarrow> expand_loop vars lim input out
        else expand_loop vars lim (tl input) (out @ [deref input])
      else out)"
  by pat_completeness auto
termination
proof (relation "measure (\<lambda>(v, l, i, out). length i)", goal_cases)
  case (2 vars lim input out x xa xb xc xd xe)
  then have "length xe \<le> length xb" using expand_name_shorter [of xa "[]" xb] by (metis snd_conv)
  with 2 show ?case by (cases input) (auto split: if_splits)
next
  case (3 vars lim input out x xa xb xc xd xe)
  then have "length xe \<le> length xb" using expand_name_shorter [of xa "[]" xb] by (metis snd_conv)
  with 3 show ?case by (cases input) (auto split: if_splits)
qed (auto simp: deref_def split: list.splits)

declare expand_loop.simps [simp del]

text \<open>\<open>env_expand\<close> writes the returned string and a terminator to \<^verbatim>\<open>output\<close>; \<open>max - 1\<close> is
  computed in \<^verbatim>\<open>size_t\<close>.\<close>

definition env_expand :: "env_table \<Rightarrow> string \<Rightarrow> u32 \<Rightarrow> string" where
  "env_expand vars input mx = expand_loop vars (unat (mx - 1)) input []"

section \<open>The table\<close>

definition env_inv :: "env_table \<Rightarrow> bool" where
  "env_inv vars \<longleftrightarrow> length vars = ENV_MAX_VARS
     \<and> (\<forall>e \<in> set vars. length (ev_key e) = ENV_KEY_LEN \<and> last (ev_key e) = NUL
          \<and> length (ev_val e) = ENV_VAL_LEN \<and> last (ev_val e) = NUL)
     \<and> keys_unique ev_active (\<lambda>e. c_str (ev_key e)) vars"

definition env_lookup :: "env_table \<Rightarrow> string \<Rightarrow> string option" where
  "env_lookup vars k = (if NUL \<in> set k then None else map_option c_str (env_get vars k))"

definition env_room :: "env_table \<Rightarrow> nat" where
  "env_room vars = count_slots (\<lambda>e. \<not> ev_active e) vars"

definition env_fits :: "string \<Rightarrow> string \<Rightarrow> bool" where
  "env_fits k v \<longleftrightarrow> NUL \<notin> set k \<and> NUL \<notin> set v \<and> length k < ENV_KEY_LEN \<and> length v < ENV_VAL_LEN"

lemma find_env_match:
  "find_slot (env_match k) vars = find_key ev_active (\<lambda>e. c_str (ev_key e)) vars (c_str k)"
  by (simp add: find_key_def env_match_def [abs_def] strcmp_eq_0)

lemma env_lookup_key:
  "NUL \<notin> set k \<Longrightarrow> env_lookup vars k
     = map_option (\<lambda>i. c_str (ev_val (vars ! i))) (find_key ev_active (\<lambda>e. c_str (ev_key e)) vars k)"
  by (simp add: env_lookup_def env_get_def find_env_match c_str_id option.map_comp comp_def)

lemma env_lookup_None: "NUL \<notin> set k \<Longrightarrow>
   env_lookup vars k = None \<longleftrightarrow> find_key ev_active (\<lambda>e. c_str (ev_key e)) vars k = None"
  by (simp add: env_lookup_key)

definition env_wf :: "env_var \<Rightarrow> bool" where
  "env_wf e \<longleftrightarrow> length (ev_key e) = ENV_KEY_LEN \<and> last (ev_key e) = NUL
     \<and> length (ev_val e) = ENV_VAL_LEN \<and> last (ev_val e) = NUL"

lemma env_inv_alt: "env_inv vars \<longleftrightarrow> length vars = ENV_MAX_VARS \<and> (\<forall>i < length vars. env_wf (vars ! i))
     \<and> keys_unique ev_active (\<lambda>e. c_str (ev_key e)) vars"
  by (simp add: env_inv_def env_wf_def all_set_conv_all_nth)

lemma env_set_cases:
  assumes inv: "env_inv vars" and fits: "env_fits k v"
  obtains (put) i e where "env_set k v vars = vars[i := e]" "i < length vars" "ev_active e"
      "c_str (ev_key e) = k" "c_str (ev_val e) = v" "env_wf e"
      "find_key ev_active (\<lambda>e. c_str (ev_key e)) vars k = Some i
       \<or> find_key ev_active (\<lambda>e. c_str (ev_key e)) vars k = None \<and> \<not> ev_active (vars ! i)"
  | (full) "env_set k v vars = vars" "find_key ev_active (\<lambda>e. c_str (ev_key e)) vars k = None"
      "\<forall>e \<in> set vars. ev_active e"
proof -
  let ?find = "find_key ev_active (\<lambda>e. c_str (ev_key e)) vars k"
  have ck: "c_str k = k" "c_str v = v" and len: "length k \<le> 31" "length v \<le> 127"
    using fits by (auto simp: env_fits_def ENV_KEY_LEN_def ENV_VAL_LEN_def c_str_id)
  have wf: "env_wf (vars ! i)" if "i < length vars" for i using inv that by (simp add: env_inv_alt)
  have st: "c_str (strncpy (ev_key (vars ! i)) k 31) = k" "c_str (strncpy (ev_val (vars ! i)) v 127) = v"
    "last (strncpy (ev_key (vars ! i)) k 31) = NUL" "last (strncpy (ev_val (vars ! i)) v 127) = NUL"
    if "i < length vars" for i
    using wf [OF that] strncpy_terminated [of "ev_key (vars ! i)" 31 k] strncpy_terminated [of "ev_val (vars ! i)" 127 v]
      ck len by (simp_all add: env_wf_def ENV_KEY_LEN_def ENV_VAL_LEN_def)
  show thesis
  proof (cases ?find)
    case (Some i)
    note i = find_key_SomeD [OF Some]
    show thesis
    proof (rule put [of i "(vars ! i)\<lparr>ev_val := strncpy (ev_val (vars ! i)) v (ENV_VAL_LEN - 1)\<rparr>"])
    qed (use i Some st(2,4) [of i] wf [of i] ck in \<open>simp_all add: env_set_def find_env_match env_wf_def ENV_VAL_LEN_def\<close>)
  next
    case None
    show thesis
    proof (cases "find_slot (\<lambda>e. \<not> ev_active e) vars")
      case n: None
      then have "\<forall>e \<in> set vars. ev_active e" by (simp add: find_slot_None)
      then show thesis using None ck n full by (simp add: env_set_def find_env_match)
    next
      case (Some i)
      note i = find_slot_SomeD [OF Some]
      show thesis
      proof (rule put [of i "\<lparr>ev_key = strncpy (ev_key (vars ! i)) k (ENV_KEY_LEN - 1),
          ev_val = strncpy (ev_val (vars ! i)) v (ENV_VAL_LEN - 1), ev_active = True\<rparr>"])
      qed (use i None Some st [of i] wf [of i] ck in
        \<open>simp_all add: env_set_def find_env_match env_wf_def ENV_VAL_LEN_def ENV_KEY_LEN_def\<close>)
    qed
  qed
qed

lemma env_room_0: "env_room vars = 0 \<longleftrightarrow> (\<forall>e \<in> set vars. ev_active e)"
  by (simp add: env_room_def count_slots_filter filter_empty_conv)

lemma env_inv_update:
  assumes "env_inv vars" "env_wf e" "keys_unique ev_active (\<lambda>e. c_str (ev_key e)) (vars[i := e])"
  shows "env_inv (vars[i := e])"
  using assms by (cases "i < length vars") (auto simp: env_inv_alt nth_list_update)

interpretation env: name_table_del env_lookup env_set env_inv env_room env_fits env_unset
proof (unfold_locales, goal_cases)
  case (1 k v)
  then show ?case by (simp add: env_fits_def)
next
  case (2 t k v k')
  have k: "NUL \<notin> set k" using 2(2) by (simp add: env_fits_def)
  from 2(1,2) show ?case
  proof (cases rule: env_set_cases)
    case (put i e)
    have "keys_unique ev_active (\<lambda>e. c_str (ev_key e)) t" using 2(1) by (simp add: env_inv_def)
    note fk = find_key_put [OF this put(2,3), of k, OF put(4,7)]
    show ?thesis
    proof (cases "NUL \<in> set k'")
      case False
      have "j \<noteq> i" if "find_key ev_active (\<lambda>e. c_str (ev_key e)) t k' = Some j" "k' \<noteq> k" for j
        using that put(7) find_key_SomeD [OF that(1)] find_key_SomeD [of ev_active _ t k i] by auto
      then show ?thesis using False put k fk [of k'] 
        by (cases "find_key ev_active (\<lambda>e. c_str (ev_key e)) t k'") (auto simp: env_lookup_key)
    qed (use k in \<open>auto simp: env_lookup_def\<close>)
  next
    case full
    with 2(3) k show ?thesis by (auto simp: env_lookup_key env_room_0 [THEN iffD2])
  qed
next
  case (3 t k v)
  then have "find_slot (\<lambda>e. \<not> ev_active e) t = None" by (simp add: find_slot_None env_room_0)
  with 3 show ?case by (simp add: env_set_def find_env_match env_lookup_None c_str_id)
next
  case (4 t k v)
  then show ?case
  proof (cases rule: env_set_cases)
    case (put i e)
    have "keys_unique ev_active (\<lambda>e. c_str (ev_key e)) (t[i := e])"
      using 4(1) put(2-4,7) by (intro keys_unique_put [where k = k]) (auto simp: env_inv_def)
    then show ?thesis using 4(1) put env_inv_update by simp
  qed (use 4 in simp)
next
  case (5 t k v)
  have k: "NUL \<notin> set k" using 5(2) by (simp add: env_fits_def)
  from 5 show ?case
  proof (cases rule: env_set_cases)
    case (put i e)
    with count_slots_update [OF put(2), of "\<lambda>e. \<not> ev_active e" e] k show ?thesis
      by (auto simp: env_room_def env_lookup_None dest: find_key_SomeD)
  next
    case full
    with k show ?thesis by (simp add: env_lookup_None env_room_0 [THEN iffD2])
  qed
next
  case (6 t k k')
  have u: "keys_unique ev_active (\<lambda>e. c_str (ev_key e)) t" using 6(1) by (simp add: env_inv_def)
  show ?case
  proof (cases "find_slot (env_match k) t")
    case None
    then show ?thesis using 6(2) by (auto simp: env_unset_def env_lookup_key find_env_match c_str_id)
  next
    case (Some i)
    then have i: "find_key ev_active (\<lambda>e. c_str (ev_key e)) t k = Some i" using 6(2) by (simp add: find_env_match c_str_id)
    have fk: "find_key ev_active (\<lambda>e. c_str (ev_key e)) (t[i := (t ! i)\<lparr>ev_active := False\<rparr>]) k''
      = (if k'' = k then None else find_key ev_active (\<lambda>e. c_str (ev_key e)) t k'')" for k''
      by (rule find_key_clear [OF u _ i]) simp
    show ?thesis
    proof (cases "NUL \<in> set k'")
      case False
      have "j \<noteq> i" if "find_key ev_active (\<lambda>e. c_str (ev_key e)) t k' = Some j" "k' \<noteq> k" for j
        using that find_key_SomeD [OF that(1)] find_key_SomeD [OF i] by auto
      then show ?thesis using Some False fk [of k']
        by (cases "find_key ev_active (\<lambda>e. c_str (ev_key e)) t k'") (auto simp: env_unset_def env_lookup_key)
    qed (use 6 in \<open>auto simp: env_lookup_def\<close>)
  qed
next
  case (7 t k)
  show ?case
  proof (cases "find_slot (env_match k) t")
    case (Some i)
    have "env_wf ((t ! i)\<lparr>ev_active := False\<rparr>)"
      using 7 find_slot_SomeD(1) [OF Some] by (simp add: env_inv_alt env_wf_def)
    then show ?thesis using 7 Some
      by (simp add: env_unset_def) (intro env_inv_update keys_unique_clear, auto simp: env_inv_def)
  qed (use 7 in \<open>simp add: env_unset_def\<close>)
next
  case (8 t k)
  then obtain i where i: "find_key ev_active (\<lambda>e. c_str (ev_key e)) t k = Some i"
    by (auto simp: env_lookup_key)
  with count_slots_update [OF find_key_SomeD(1) [OF i], of "\<lambda>e. \<not> ev_active e" "(t ! i)\<lparr>ev_active := False\<rparr>"] 8(2)
  show ?case using find_key_SomeD [OF i] by (simp add: env_unset_def find_env_match c_str_id env_room_def)
qed

lemma env_cleared_inv: "env_inv env_cleared" "env_room env_cleared = 64" "env_lookup env_cleared k = None"
proof -
  show "env_inv env_cleared"
    by (auto simp: env_cleared_def env_inv_def keys_unique_def ENV_KEY_LEN_def ENV_VAL_LEN_def ENV_MAX_VARS_def)
  show "env_room env_cleared = 64"
    by (simp add: env_cleared_def env_room_def count_slots_filter ENV_MAX_VARS_def)
  have "find_slot (env_match k) env_cleared = None" for k
    by (auto simp: find_slot_None env_cleared_def env_match_def)
  then show "env_lookup env_cleared k = None" by (simp add: env_lookup_def env_get_def)
qed

lemma env_init_put_all: "env_init = env.put_all env_defaults env_cleared"
  by (simp add: env_init_def env.put_all_def)

lemma env_defaults_fit: "\<forall>(k, v) \<in> set env_defaults. env_fits k v"
  by (simp add: env_defaults_def env_fits_def ENV_KEY_LEN_def ENV_VAL_LEN_def)

lemma env_init_spec: "env_inv env_init" "env_lookup env_init k = map_of (rev env_defaults) k"
proof -
  show "env_inv env_init"
    unfolding env_init_put_all using env.inv_put_all [OF env_cleared_inv(1) env_defaults_fit] .
  have "length env_defaults \<le> env_room env_cleared" by (simp add: env_cleared_inv(2) env_defaults_def)
  then show "env_lookup env_init k = map_of (rev env_defaults) k"
    unfolding env_init_put_all
    by (simp add: env.lookup_put_all [OF env_cleared_inv(1) env_defaults_fit] env_cleared_inv(3) split: option.splits)
qed

section \<open>Expansion\<close>

lemma expand_loop_bound: "length out \<le> lim \<Longrightarrow> length (expand_loop vars lim input out) \<le> lim"
proof (induction vars lim input out rule: expand_loop.induct)
  case (1 vars lim input out)
  show ?case
  proof (cases "deref input \<noteq> NUL \<and> length out < lim")
    case True
    show ?thesis
    proof (cases "deref input = CHR ''$''")
      case d: True
      define i2 where "i2 = (if deref (tl input) = CHR ''{'' then tl (tl input) else tl input)"
      obtain name rest where en: "expand_name (deref (tl input) = CHR ''{'') [] i2 = (name, rest)" by force
      note IH = "1.IH"(1,2) [OF True d refl refl i2_def en [symmetric] refl]
      have "length (out @ take (lim - length out) w) \<le> lim" for w using True by (auto simp: min_def)
      then show ?thesis using True d en IH "1.prems" i2_def
        by (subst expand_loop.simps) (simp add: Let_def split: option.split)
    next
      case False
      with True "1.IH"(3) [OF True False] show ?thesis by (subst expand_loop.simps) simp
    qed
  next
    case False
    with "1.prems" show ?thesis by (subst expand_loop.simps) auto
  qed
qed

lemma expand_loop_plain:
  assumes "CHR ''$'' \<notin> set s" "NUL \<notin> set s"
  shows "expand_loop vars lim (s @ t) out = (if length out + length s \<le> lim then expand_loop vars lim t (out @ s)
     else take lim (out @ s)) \<or> lim < length out"
  using assms
proof (induction s arbitrary: out)
  case (Cons c s)
  show ?case
  proof (cases "length out < lim")
    case True
    with Cons show ?thesis
      by (subst expand_loop.simps) (use Cons.IH [of "out @ [c]"] in auto)
  next
    case False
    with Cons.prems show ?thesis by (subst expand_loop.simps) auto
  qed
qed auto

lemma expand_name_ident:
  assumes "\<forall>c \<in> set s. isalpha c \<or> c = CHR ''_'' \<or> isdigit c" "NUL \<notin> set s" "length name + length s < ENV_KEY_LEN"
    and "deref t = NUL \<or> \<not> isalpha (deref t) \<and> deref t \<noteq> CHR ''_'' \<and> \<not> isdigit (deref t)"
  shows "expand_name False name (s @ t) = (name @ s, t)"
  using assms
proof (induction s arbitrary: name)
  case Nil
  then show ?case by (subst expand_name.simps) auto
next
  case (Cons c s)
  then show ?case by (subst expand_name.simps) (auto simp: ENV_KEY_LEN_def)
qed

section \<open>Properties\<close>

text \<open>C27. The environment behaves as a finite map: setting a name that fits, when it exists or an
  entry is free, makes \<open>env_get\<close> return that value for it and leaves every other name alone;
  unsetting removes exactly that name; both keep the table well formed.\<close>

theorem env_map:
  assumes "env_inv vars" "env_fits k v" "env_get vars k \<noteq> None \<or> env_count vars < ENV_MAX_VARS" "NUL \<notin> set k'"
  shows "map_option c_str (env_get (env_set k v vars) k') = (if k' = k then Some v else map_option c_str (env_get vars k'))
    \<and> map_option c_str (env_get (env_unset k vars) k') = (if k' = k then None else map_option c_str (env_get vars k'))
    \<and> env_inv (env_set k v vars) \<and> env_inv (env_unset k vars)"
proof (intro conjI)
  have k: "NUL \<notin> set k" using assms(2) by (simp add: env_fits_def)
  have "env_count vars + env_room vars = length vars"
    by (simp add: env_count_def env_room_def count_slots_filter sum_length_filter_compl)
  then have "env_lookup vars k \<noteq> None \<or> 0 < env_room vars"
    using assms(1,3) k by (auto simp: env_lookup_def env_inv_def)
  from env.lookup_put [OF assms(1,2) this, of k'] k assms(4)
  show "map_option c_str (env_get (env_set k v vars) k') = (if k' = k then Some v else map_option c_str (env_get vars k'))"
    by (simp add: env_lookup_def)
  from env.lookup_remove [OF assms(1) k, of k'] k assms(4)
  show "map_option c_str (env_get (env_unset k vars) k') = (if k' = k then None else map_option c_str (env_get vars k'))"
    by (simp add: env_lookup_def)
qed (use assms env.inv_put env.inv_remove in blast)+

lemma env_map_witness:
  "env_inv env_init \<and> env_fits ''LANG'' ''en'' \<and> env_get env_init ''HOME'' \<noteq> None
   \<and> map_option c_str (env_get (env_set ''HOME'' ''/tmp'' env_init) ''HOME'') = Some ''/tmp''
   \<and> map_option c_str (env_get (env_set ''HOME'' ''/tmp'' env_init) ''USER'') = Some ''root''"
proof -
  have d: "map_option c_str (env_get env_init ''HOME'') = Some ''/home''" "map_option c_str (env_get env_init ''USER'') = Some ''root''"
    using env_init_spec(2) [of "''HOME''"] env_init_spec(2) [of "''USER''"]
    by (simp_all add: env_lookup_def env_defaults_def)
  then have h: "env_get env_init ''HOME'' \<noteq> None" by auto
  have f: "env_fits ''HOME'' ''/tmp''" "env_fits ''LANG'' ''en''"
    by (simp_all add: env_fits_def ENV_KEY_LEN_def ENV_VAL_LEN_def)
  from env_map [OF env_init_spec(1) f(1), of "''HOME''"] env_map [OF env_init_spec(1) f(1), of "''USER''"] h d f
  show ?thesis using env_init_spec(1) by simp
qed

text \<open>A name of 32 or more characters is stored cut to 31, so the variable just set is never
  found again under the name it was set with.\<close>

theorem env_set_long_name_lost:
  assumes "env_inv vars" "NUL \<notin> set k" "ENV_KEY_LEN \<le> length k"
  shows "env_get (env_set k v vars) k = None"
proof -
  have short: "c_str (ev_key e) \<noteq> k" if "env_wf e" for e
  proof -
    have "length (c_str (ev_key e)) < length (ev_key e)"
      using that last_in_set [of "ev_key e"]
      by (intro length_c_str_less) (cases "ev_key e = []", auto simp: env_wf_def ENV_KEY_LEN_def)
    then show ?thesis using that assms(3) by (auto simp: env_wf_def)
  qed
  have wf: "\<forall>i < length vars. env_wf (vars ! i)" using assms(1) by (simp add: env_inv_alt)
  then have none: "find_key ev_active (\<lambda>e. c_str (ev_key e)) vars k = None"
    using short by (auto simp: find_key_None)
  have wf': "env_wf \<lparr>ev_key = strncpy (ev_key (vars ! i)) k 31, ev_val = strncpy (ev_val (vars ! i)) v 127, ev_active = True\<rparr>"
    if "i < length vars" for i
    using wf that strncpy_terminated(1) [of "ev_key (vars ! i)" 31 k] strncpy_terminated(1) [of "ev_val (vars ! i)" 127 v]
    by (auto simp: env_wf_def ENV_KEY_LEN_def ENV_VAL_LEN_def)
  have "\<forall>i < length vars. env_wf (env_set k v vars ! i)" "length (env_set k v vars) = length vars"
    using wf wf' none assms(2)
    by (auto simp: env_set_def find_env_match c_str_id ENV_KEY_LEN_def ENV_VAL_LEN_def
        intro: all_nth_update split: option.splits)
  then have "find_key ev_active (\<lambda>e. c_str (ev_key e)) (env_set k v vars) k = None"
    using short by (auto simp: find_key_None)
  then show ?thesis using assms(2) by (simp add: env_get_def find_env_match c_str_id)
qed

lemma env_set_long_name_lost_witness:
  "env_get (env_set (replicate 32 CHR ''A'') ''1'' env_init) (replicate 32 CHR ''A'') = None"
  using env_set_long_name_lost [OF env_init_spec(1), of "replicate 32 CHR ''A''" "''1''"]
  by (simp add: ENV_KEY_LEN_def)

text \<open>C36. \<open>env_expand\<close> terminates on every input and with a non-empty buffer never writes past it:
  the text and its terminator take at most \<open>max\<close> bytes; text without \<open>$\<close> that fits is copied
  unchanged, and \<open>$NAME\<close> is replaced by the value of the variable.\<close>

theorem env_expand_correct:
  assumes "0 < mx"
  shows "length (env_expand vars input mx) < unat mx
    \<and> (CHR ''$'' \<notin> set s \<and> NUL \<notin> set s \<and> length s < unat mx \<longrightarrow> env_expand vars s mx = s)
    \<and> ((\<forall>c \<in> set k. isalpha c \<or> c = CHR ''_'' \<or> isdigit c) \<and> NUL \<notin> set k \<and> length k < ENV_KEY_LEN
       \<and> env_get vars k = Some v \<and> length (c_str v) < unat mx \<and> 1 < unat mx
       \<longrightarrow> env_expand vars (CHR ''$'' # k) mx = c_str v)"
proof (intro conjI impI; (elim conjE)?)
  have mx: "unat (mx - 1) = unat mx - 1" "0 < unat mx"
    using assms by (simp_all add: unat_minus_one word_gt_0 unat_gt_0)
  show "length (env_expand vars input mx) < unat mx"
    using expand_loop_bound [of "[]" "unat (mx - 1)" vars input] mx by (simp add: env_expand_def)
  show "env_expand vars s mx = s" if "CHR ''$'' \<notin> set s" "NUL \<notin> set s" "length s < unat mx"
    using expand_loop_plain [OF that(1,2), of vars "unat (mx - 1)" "[]" "[]"] that(3) mx
    by (auto simp: env_expand_def expand_loop.simps [of _ _ "[]"])
  show "env_expand vars (CHR ''$'' # k) mx = c_str v"
    if k: "\<forall>c \<in> set k. isalpha c \<or> c = CHR ''_'' \<or> isdigit c" "NUL \<notin> set k" "length k < ENV_KEY_LEN"
      and v: "env_get vars k = Some v" "length (c_str v) < unat mx" "1 < unat mx"
  proof -
    have "\<not> isalpha (CHR ''{'')" "\<not> isdigit (CHR ''{'')" by (simp_all add: isalpha_def isdigit_def schar_def uchar_def)
    then have "deref k \<noteq> CHR ''{''" using k(1) by (cases k) auto
    moreover have "expand_name False [] k = (k, [])"
      using expand_name_ident [OF k(1,2), of "[]" "[]"] k(3) by simp
    moreover have "take (unat (mx - 1)) (c_str v) = c_str v" using v(2) mx by simp
    ultimately show ?thesis
      using v(1,3) mx unfolding env_expand_def
      by (subst expand_loop.simps) (simp add: expand_loop.simps [of _ _ "[]"])
  qed
qed

lemma env_expand_correct_witness:
  "map_option c_str (env_get env_init ''HOME'') = Some ''/home'' \<and> env_expand env_init ''$HOME'' 64 = ''/home''"
proof -
  obtain v where v: "env_get env_init ''HOME'' = Some v" "c_str v = ''/home''"
    using env_init_spec(2) [of "''HOME''"] by (auto simp: env_lookup_def env_defaults_def)
  with env_expand_correct [of 64 env_init _ _ "''HOME''" v] show ?thesis
    by (simp add: isalpha_def schar_def uchar_def ENV_KEY_LEN_def)
qed

end
