(* ===== verification/Keyboard.thy ===== *)
theory Keyboard
  imports Cstring
begin

text \<open>
  The keyboard driver \<^verbatim>\<open>src/keyboard.c\<close>: the scancode decoder run by the interrupt handler,
  the ring buffer between the interrupt and the readers, and the line editor
  \<open>keyboard_readline\<close>.  The ring is shown to be a bounded FIFO queue (locale
  \<open>bounded_queue\<close>) under any interleaving of interrupts and reads, and the line editor to
  be a text with a cursor that never outgrows the caller's buffer.  Drawing on the terminal is
  not modelled.
\<close>

section \<open>Definitions\<close>

definition KEY_BUF_SIZE :: nat where "KEY_BUF_SIZE = 256"

record kbd_state =
  key_buffer :: string
  key_head :: u32
  key_tail :: u32
  shift_held :: bool
  ctrl_held :: bool
  alt_held :: bool
  caps_lock :: bool
  extended :: bool

abbreviation BS :: char where "BS \<equiv> CHR 0x08"
abbreviation TAB :: char where "TAB \<equiv> CHR 0x09"
abbreviation LF :: char where "LF \<equiv> CHR 0x0A"

definition KEY_LEFT :: char where "KEY_LEFT = CHR 0x82"
definition KEY_RIGHT :: char where "KEY_RIGHT = CHR 0x83"

definition scancode_lower :: string where
  "scancode_lower =
     [NUL, CHR 0x1B] @ ''1234567890-='' @ [BS, TAB] @ ''qwertyuiop[]'' @ [LF, NUL]
     @ ''asdfghjkl;'' @ [CHR 0x27, CHR 0x60, NUL] @ ''#zxcvbnm,./'' @ [NUL, CHR ''*'', NUL, CHR '' '', NUL]
     @ replicate 12 NUL @ ''789-456+1230.'' @ [NUL, NUL, CHR 0x5C, NUL, NUL] @ replicate 39 NUL"

definition scancode_upper :: string where
  "scancode_upper =
     [NUL, CHR 0x1B] @ ''!'' @ [CHR 0x22, CHR 0x9C] @ ''$%^&*()_+'' @ [BS, TAB] @ ''QWERTYUIOP{}'' @ [LF, NUL]
     @ ''ASDFGHJKL:'' @ ''@~'' @ [NUL] @ ''~ZXCVBNM<>?'' @ [NUL, CHR ''*'', NUL, CHR '' '', NUL]
     @ replicate 12 NUL @ ''789-456+1230.'' @ [NUL, NUL, CHR ''|'', NUL, NUL] @ replicate 39 NUL"

definition buf_put :: "char \<Rightarrow> kbd_state \<Rightarrow> kbd_state" where
  "buf_put c s =
     (let next = (key_head s + 1) mod 256 in
      if next \<noteq> key_tail s
      then s\<lparr>key_buffer := (key_buffer s)[unat (key_head s) := c], key_head := next\<rparr>
      else s)"

text \<open>The codes of the extended keys (prefix \<open>0xE0\<close>).\<close>

definition extended_key :: "u8 \<Rightarrow> char option" where
  "extended_key sc =
     (if sc = 0x48 then Some (CHR 0x80) else if sc = 0x50 then Some (CHR 0x81)
      else if sc = 0x4B then Some KEY_LEFT else if sc = 0x4D then Some KEY_RIGHT
      else if sc = 0x47 then Some (CHR 0x84) else if sc = 0x4F then Some (CHR 0x85)
      else if sc = 0x49 then Some (CHR 0x86) else if sc = 0x51 then Some (CHR 0x87)
      else if sc = 0x53 then Some (CHR 0x88) else if sc = 0x52 then Some (CHR 0x89)
      else None)"

text \<open>The decoder: what one scancode does to the modifier flags, and the character it passes to
  \<open>buf_put\<close>, if any.  Every path of the handler calls \<open>buf_put\<close> at most once, last.\<close>

definition is_lower :: "char \<Rightarrow> bool" where
  "is_lower c \<longleftrightarrow> schar c \<ge> 97 \<and> schar c \<le> 122"

definition kbd_decode :: "u8 \<Rightarrow> kbd_state \<Rightarrow> kbd_state \<times> char option" where
  "kbd_decode sc s =
     (if sc = 0xE0 then (s\<lparr>extended := True\<rparr>, None)
      else if extended s then (s\<lparr>extended := False\<rparr>, extended_key sc)
      else if sc AND 0x80 \<noteq> 0 then
        let released = sc AND 0x7F;
            s = (if released = 0x2A \<or> released = 0x36 then s\<lparr>shift_held := False\<rparr> else s);
            s = (if released = 0x1D then s\<lparr>ctrl_held := False\<rparr> else s);
            s = (if released = 0x38 then s\<lparr>alt_held := False\<rparr> else s)
        in (s, None)
      else if sc = 0x2A \<or> sc = 0x36 then (s\<lparr>shift_held := True\<rparr>, None)
      else if sc = 0x1D then (s\<lparr>ctrl_held := True\<rparr>, None)
      else if sc = 0x38 then (s\<lparr>alt_held := True\<rparr>, None)
      else if sc = 0x3A then (s\<lparr>caps_lock := \<not> caps_lock s\<rparr>, None)
      else if sc \<ge> 0x3B \<and> sc \<le> 0x44 then (s, Some (char_of (0x90 + (unat sc - 0x3B))))
      else if sc = 0x57 then (s, Some (CHR 0x9A))
      else if sc = 0x58 then (s, Some (CHR 0x9B))
      else
        let c = scancode_lower ! unat sc in
        if ctrl_held s \<and> is_lower c then (s, Some (char_of (nat (uchar c - 97 + 1))))
        else
          let upper = (if is_lower c then shift_held s \<noteq> caps_lock s else shift_held s);
              c = (if upper then scancode_upper ! unat sc else scancode_lower ! unat sc)
          in (s, if c \<noteq> NUL then Some c else None))"

definition keyboard_callback :: "u8 \<Rightarrow> kbd_state \<Rightarrow> kbd_state" where
  "keyboard_callback sc s =
     (case kbd_decode sc s of (s, None) \<Rightarrow> s | (s, Some c) \<Rightarrow> buf_put c s)"

definition keyboard_haskey :: "kbd_state \<Rightarrow> bool" where
  "keyboard_haskey s \<longleftrightarrow> key_head s \<noteq> key_tail s"

text \<open>\<open>keyboard_getchar\<close> spins on \<open>hlt\<close> while the ring is empty; \<open>None\<close> is that wait.\<close>

definition keyboard_getchar :: "kbd_state \<Rightarrow> (char \<times> kbd_state) option" where
  "keyboard_getchar s =
     (if \<not> keyboard_haskey s then None
      else Some (key_buffer s ! unat (key_tail s), s\<lparr>key_tail := (key_tail s + 1) mod 256\<rparr>))"

definition keyboard_trychar :: "kbd_state \<Rightarrow> char \<times> kbd_state" where
  "keyboard_trychar s =
     (if \<not> keyboard_haskey s then (NUL, s)
      else (key_buffer s ! unat (key_tail s), s\<lparr>key_tail := (key_tail s + 1) mod 256\<rparr>))"

text \<open>The two shifting loops of \<open>keyboard_readline\<close>.\<close>

function shift_left :: "string \<Rightarrow> nat \<Rightarrow> nat \<Rightarrow> string" where
  "shift_left buf i lim = (if i < lim then shift_left (buf[i := buf ! (i + 1)]) (i + 1) lim else buf)"
  by pat_completeness auto
termination by (relation "measure (\<lambda>(b, i, l). l - i)") auto

declare shift_left.simps [simp del]

fun shift_right :: "string \<Rightarrow> nat \<Rightarrow> nat \<Rightarrow> string" where
  "shift_right buf 0 pos = buf"
| "shift_right buf (Suc i) pos = (if Suc i > pos then shift_right (buf[Suc i := buf ! i]) i pos else buf)"

text \<open>The loop of \<open>keyboard_readline\<close> on the characters that successive calls of
  \<open>keyboard_getchar\<close> return; \<open>None\<close> when the input ends before the line does.\<close>

primrec readline_loop :: "string \<Rightarrow> nat \<Rightarrow> string \<Rightarrow> nat \<Rightarrow> nat \<Rightarrow> (string \<times> string) option" where
  "readline_loop [] mx buf pos len = None"
| "readline_loop (c # ks) mx buf pos len =
     (if c = LF then Some (buf[len := NUL], ks)
      else if c = BS then
        (if pos > 0 then readline_loop ks mx (shift_left buf (pos - 1) (len - 1)) (pos - 1) (len - 1)
         else readline_loop ks mx buf pos len)
      else if c = KEY_LEFT then
        (if pos > 0 then readline_loop ks mx buf (pos - 1) len else readline_loop ks mx buf pos len)
      else if c = KEY_RIGHT then
        (if pos < len then readline_loop ks mx buf (pos + 1) len else readline_loop ks mx buf pos len)
      else if c = CHR 0x03 \<or> c = CHR 0x0C then Some (buf[0 := NUL], ks)
      else if uchar c \<ge> 32 \<and> c \<noteq> CHR 0x7F \<and> len < mx - 1
      then readline_loop ks mx ((shift_right buf len pos)[pos := c]) (pos + 1) (len + 1)
      else readline_loop ks mx buf pos len)"

definition keyboard_readline :: "string \<Rightarrow> nat \<Rightarrow> string \<Rightarrow> (string \<times> string) option" where
  "keyboard_readline buf mx ks = readline_loop ks mx buf 0 0"

section \<open>The ring is a bounded queue\<close>

locale bounded_queue =
  fixes qput :: "'a \<Rightarrow> 's \<Rightarrow> 's"
    and qget :: "'s \<Rightarrow> ('a \<times> 's) option"
    and contents :: "'s \<Rightarrow> 'a list"
    and inv :: "'s \<Rightarrow> bool"
    and cap :: nat
  assumes inv_put: "inv s \<Longrightarrow> inv (qput x s)"
    and inv_get: "inv s \<Longrightarrow> qget s = Some (x, s') \<Longrightarrow> inv s'"
    and put_contents: "inv s \<Longrightarrow>
      contents (qput x s) = (if length (contents s) < cap then contents s @ [x] else contents s)"
    and get_none: "inv s \<Longrightarrow> qget s = None \<longleftrightarrow> contents s = []"
    and get_some: "inv s \<Longrightarrow> qget s = Some (x, s') \<Longrightarrow> contents s = x # contents s'"
begin

text \<open>A producer and a consumer interleaved: \<open>Some x\<close> is a put, \<open>None\<close> a read that skips an
  empty queue.\<close>

fun run :: "'a option list \<Rightarrow> 's \<Rightarrow> 'a list \<times> 's" where
  "run [] s = ([], s)"
| "run (Some x # es) s = run es (qput x s)"
| "run (None # es) s =
     (case qget s of None \<Rightarrow> run es s | Some (x, s') \<Rightarrow> let (out, s'') = run es s' in (x # out, s''))"

fun accepted :: "'a option list \<Rightarrow> nat \<Rightarrow> 'a list" where
  "accepted [] n = []"
| "accepted (Some x # es) n = (if n < cap then x # accepted es (Suc n) else accepted es n)"
| "accepted (None # es) n = accepted es (n - 1)"

lemma run_fifo:
  assumes "inv s"
  shows "inv (snd (run es s))
    \<and> contents s @ accepted es (length (contents s)) = fst (run es s) @ contents (snd (run es s))"
  using assms
proof (induction es s rule: run.induct)
  case (2 x es s)
  then show ?case using inv_put [of s x] put_contents [of s x] by (auto split: if_splits)
next
  case (3 es s)
  show ?case
  proof (cases "qget s")
    case None
    with 3 get_none [of s] show ?thesis by simp
  next
    case (Some p)
    obtain x s' where p: "p = (x, s')" by force
    with Some 3 inv_get [of s x s'] get_some [of s x s'] show ?thesis
      by (cases "run es s'") auto
  qed
qed simp

end

definition kbd_inv :: "kbd_state \<Rightarrow> bool" where
  "kbd_inv s \<longleftrightarrow> length (key_buffer s) = KEY_BUF_SIZE \<and> key_head s < 256 \<and> key_tail s < 256"

definition kbd_queue :: "kbd_state \<Rightarrow> string" where
  "kbd_queue s = map (\<lambda>i. key_buffer s ! ((unat (key_tail s) + i) mod 256))
     [0..<(unat (key_head s) + 256 - unat (key_tail s)) mod 256]"

lemma unat_succ_mod256: "(x :: u32) < 256 \<Longrightarrow> unat ((x + 1) mod 256) = (unat x + 1) mod 256"
proof -
  assume "x < 256"
  then have "unat x < 256" by (simp add: word_less_nat_alt)
  then have "unat (x + 1) = unat x + 1" by (subst unat_add_nowrap) simp_all
  then show ?thesis by (simp add: unat_mod)
qed

interpretation kbd: bounded_queue buf_put keyboard_getchar kbd_queue kbd_inv 255
proof (unfold_locales, goal_cases)
  case (1 s x)
  then show ?case by (auto simp: kbd_inv_def buf_put_def Let_def word_less_nat_alt unat_mod)
next
  case (2 s x s')
  then show ?case by (auto simp: kbd_inv_def keyboard_getchar_def word_less_nat_alt unat_mod split: if_splits)
next
  case (3 s x)
  define h t where "h = unat (key_head s)" and "t = unat (key_tail s)"
  have ht: "h < 256" "t < 256" using 3 by (auto simp: kbd_inv_def word_less_nat_alt h_def t_def)
  have len: "length (kbd_queue s) = (h + 256 - t) mod 256" by (simp add: kbd_queue_def h_def t_def)
  have nx: "unat ((key_head s + 1) mod 256) = (h + 1) mod 256"
    using 3 by (simp add: unat_succ_mod256 kbd_inv_def h_def)
  have full: "(key_head s + 1) mod 256 = key_tail s \<longleftrightarrow> \<not> (h + 256 - t) mod 256 < 255"
  proof -
    have "(key_head s + 1) mod 256 = key_tail s \<longleftrightarrow> (h + 1) mod 256 = t"
      using nx by (metis t_def word_unat_eq_iff)
    also have "\<dots> \<longleftrightarrow> \<not> (h + 256 - t) mod 256 < 255" using ht by (simp add: mod_if) linarith
    finally show ?thesis .
  qed
  show ?case
  proof (cases "(key_head s + 1) mod 256 = key_tail s")
    case True
    then show ?thesis using full len by (simp add: buf_put_def)
  next
    case False
    let ?n = "(h + 256 - t) mod 256"
    have n: "?n < 255" using False full by simp
    have e: "((h + 1) mod 256 + 256 - t) mod 256 = Suc ?n" and k: "(t + ?n) mod 256 = h"
      using ht n by (auto simp: mod_if split: if_splits)
    have ne: "(t + i) mod 256 \<noteq> h" if "i < ?n" for i using ht n that by (auto simp: mod_if split: if_splits)
    have "kbd_queue (buf_put x s) = map (\<lambda>i. (key_buffer s)[h := x] ! ((t + i) mod 256)) [0..<Suc ?n]"
      using False nx e unfolding kbd_queue_def buf_put_def by (simp add: Let_def h_def t_def)
    also have "\<dots> = map (\<lambda>i. (key_buffer s)[h := x] ! ((t + i) mod 256)) [0..<?n] @ [x]"
      using k ht(1) 3 by (simp add: kbd_inv_def KEY_BUF_SIZE_def)
    also have "\<dots> = map (\<lambda>i. key_buffer s ! ((t + i) mod 256)) [0..<?n] @ [x]"
      using nth_list_update_neq [OF ne [THEN not_sym]] by (auto simp del: nth_list_update_neq)
    also have "\<dots> = kbd_queue s @ [x]" by (simp add: kbd_queue_def h_def t_def)
    finally show ?thesis using n len by simp
  qed
next
  case (4 s)
  define h t where "h = unat (key_head s)" and "t = unat (key_tail s)"
  have ht: "h < 256" "t < 256" using 4 by (auto simp: kbd_inv_def word_less_nat_alt h_def t_def)
  have "key_head s = key_tail s \<longleftrightarrow> h = t" by (simp add: h_def t_def word_unat_eq_iff)
  moreover have "h = t \<longleftrightarrow> (h + 256 - t) mod 256 = 0" using ht by (auto simp: mod_if split: if_splits)
  ultimately show ?case by (simp add: keyboard_getchar_def keyboard_haskey_def kbd_queue_def h_def t_def)
next
  case (5 s x s')
  define h t where "h = unat (key_head s)" and "t = unat (key_tail s)"
  have ht: "h < 256" "t < 256" using 5 by (auto simp: kbd_inv_def word_less_nat_alt h_def t_def)
  have ne: "h \<noteq> t" and x: "x = key_buffer s ! t" and s': "s' = s\<lparr>key_tail := (key_tail s + 1) mod 256\<rparr>"
    using 5(2) by (auto simp: keyboard_getchar_def keyboard_haskey_def h_def t_def word_unat_eq_iff split: if_splits)
  have t': "unat (key_tail s') = (t + 1) mod 256" using 5(1) s' by (simp add: unat_succ_mod256 kbd_inv_def t_def)
  have n: "(h + 256 - t) mod 256 = Suc ((h + 256 - (t + 1) mod 256) mod 256)"
    using ht ne by (auto simp: mod_if split: if_splits)
  have shift: "(t + Suc i) mod 256 = ((t + 1) mod 256 + i) mod 256" for i by (simp add: mod_add_left_eq)
  have "kbd_queue s = key_buffer s ! (t mod 256) # map (\<lambda>i. key_buffer s ! (((t + 1) mod 256 + i) mod 256))
      [0..<(h + 256 - (t + 1) mod 256) mod 256]"
    unfolding kbd_queue_def h_def [symmetric] t_def [symmetric] n
    by (simp only: map_upt_Suc shift) simp
  then show ?case using x ht t' s' by (simp add: kbd_queue_def h_def)
qed

section \<open>The line editor\<close>

text \<open>The reference editor: the text left and right of the cursor.\<close>

primrec edit_line :: "string \<Rightarrow> nat \<Rightarrow> string \<Rightarrow> string \<Rightarrow> (string \<times> string) option" where
  "edit_line [] mx l r = None"
| "edit_line (c # ks) mx l r =
     (if c = LF then Some (l @ r, ks)
      else if c = BS then edit_line ks mx (butlast l) r
      else if c = KEY_LEFT then (if l = [] then edit_line ks mx l r else edit_line ks mx (butlast l) (last l # r))
      else if c = KEY_RIGHT then (if r = [] then edit_line ks mx l r else edit_line ks mx (l @ [hd r]) (tl r))
      else if c = CHR 0x03 \<or> c = CHR 0x0C then Some ([], ks)
      else if uchar c \<ge> 32 \<and> c \<noteq> CHR 0x7F \<and> length l + length r < mx - 1 then edit_line ks mx (l @ [c]) r
      else edit_line ks mx l r)"

lemma length_shift_left [simp]: "length (shift_left buf i lim) = length buf"
  by (induction buf i lim rule: shift_left.induct) (subst shift_left.simps, simp)

lemma nth_shift_left:
  "lim < length buf \<Longrightarrow> k < length buf \<Longrightarrow>
   shift_left buf i lim ! k = (if i \<le> k \<and> k < lim then buf ! (k + 1) else buf ! k)"
proof (induction buf i lim rule: shift_left.induct)
  case (1 buf i lim)
  show ?case
  proof (cases "i < lim")
    case True
    with 1 show ?thesis by (subst shift_left.simps) (auto simp: nth_list_update)
  next
    case False
    then show ?thesis by (subst shift_left.simps) auto
  qed
qed

lemma length_shift_right [simp]: "length (shift_right buf i pos) = length buf"
  by (induction buf i pos rule: shift_right.induct) auto

lemma nth_shift_right:
  "i < length buf \<Longrightarrow> k < length buf \<Longrightarrow>
   shift_right buf i pos ! k = (if pos < k \<and> k \<le> i then buf ! (k - 1) else buf ! k)"
  by (induction buf i pos rule: shift_right.induct) (auto simp: nth_list_update le_Suc_eq)

definition holds_text :: "nat \<Rightarrow> string \<Rightarrow> string \<Rightarrow> string \<Rightarrow> bool" where
  "holds_text mx buf0 buf txt \<longleftrightarrow> length buf = length buf0 \<and> mx \<le> length buf \<and> length txt < mx
     \<and> NUL \<notin> set txt \<and> (\<forall>i < length txt. buf ! i = txt ! i) \<and> (\<forall>i. mx \<le> i \<longrightarrow> i < length buf \<longrightarrow> buf ! i = buf0 ! i)"

lemma holds_text_end:
  assumes "holds_text mx buf0 buf txt"
  shows "c_str (buf[length txt := NUL]) = txt" "drop mx (buf[length txt := NUL]) = drop mx buf0"
proof -
  have l: "length txt < length buf" using assms by (simp add: holds_text_def)
  then have "buf[length txt := NUL] = txt @ NUL # drop (Suc (length txt)) buf"
    using assms by (intro nth_equalityI) (auto simp: holds_text_def nth_append nth_Cons' nth_list_update)
  then show "c_str (buf[length txt := NUL]) = txt"
    using assms by (simp add: c_str_append holds_text_def)
  show "drop mx (buf[length txt := NUL]) = drop mx buf0"
    using assms by (intro nth_equalityI) (auto simp: holds_text_def)
qed

lemma holds_text_insert:
  assumes h: "holds_text mx buf0 buf (l @ r)" and c: "c \<noteq> NUL" and room: "length l + length r < mx - 1"
  shows "holds_text mx buf0 ((shift_right buf (length l + length r) (length l))[length l := c]) (l @ c # r)"
    (is "holds_text mx buf0 ?b _")
proof -
  have len: "length buf = length buf0" "mx \<le> length buf" and t: "\<And>i. i < length (l @ r) \<Longrightarrow> buf ! i = (l @ r) ! i"
    and rest: "\<And>i. mx \<le> i \<Longrightarrow> i < length buf \<Longrightarrow> buf ! i = buf0 ! i" and nul: "NUL \<notin> set (l @ r)"
    using h by (auto simp: holds_text_def)
  have b: "?b ! i = (if i = length l then c
      else if length l < i \<and> i \<le> length l + length r then buf ! (i - 1) else buf ! i)" if "i < length buf" for i
    using that room len by (simp add: nth_list_update nth_shift_right)
  have "?b ! i = (l @ c # r) ! i" if "i < length (l @ c # r)" for i
  proof -
    have i: "i < length buf" using that room len(2) by simp
    consider "i < length l" | "i = length l" | j where "i = Suc (length l + j)" "j < length r"
    proof -
      have "i = Suc (length l + (i - length l - 1)) \<and> i - length l - 1 < length r" if "length l < i"
        using that \<open>i < length (l @ c # r)\<close> by simp
      then show thesis using that nat_neq_iff [of i "length l"] by blast
    qed
    then show ?thesis
      using b [OF i] t [of i] t [of "i - 1"] by cases (auto simp: nth_append)
  qed
  moreover have "?b ! i = buf0 ! i" if "mx \<le> i" "i < length buf" for i
    using b [OF that(2)] that rest room by (auto split: if_splits)
  ultimately show ?thesis using len room nul c unfolding holds_text_def by simp
qed

lemma holds_text_delete:
  assumes h: "holds_text mx buf0 buf (l @ x # r)"
  shows "holds_text mx buf0 (shift_left buf (length l) (length l + length r)) (l @ r)"
    (is "holds_text mx buf0 ?b _")
proof -
  have len: "length buf = length buf0" "mx \<le> length buf" "length (l @ x # r) < mx"
    and t: "\<And>i. i < length (l @ x # r) \<Longrightarrow> buf ! i = (l @ x # r) ! i"
    and rest: "\<And>i. mx \<le> i \<Longrightarrow> i < length buf \<Longrightarrow> buf ! i = buf0 ! i" and nul: "NUL \<notin> set (l @ r)"
    using h by (auto simp: holds_text_def)
  have b: "?b ! i = (if length l \<le> i \<and> i < length l + length r then buf ! (i + 1) else buf ! i)" if "i < length buf" for i
    using that len by (simp add: nth_shift_left)
  have "?b ! i = (l @ r) ! i" if "i < length (l @ r)" for i
  proof -
    have i: "i < length buf" using that len by simp
    show ?thesis
    proof (cases "i < length l")
      case True
      with b [OF i] t [of i] show ?thesis by (simp add: nth_append)
    next
      case False
      then obtain j where "i = length l + j" using le_Suc_ex not_less by blast
      with b [OF i] t [of "i + 1"] that show ?thesis by (simp add: nth_append)
    qed
  qed
  moreover have "?b ! i = buf0 ! i" if "mx \<le> i" "i < length buf" for i
    using b [OF that(2)] that rest len by simp
  ultimately show ?thesis using len nul unfolding holds_text_def by simp
qed

text \<open>What the caller sees of a call: it waits exactly when the reference does; otherwise the buffer
  holds the reference's text, and nothing past the \<open>mx\<close> bytes is written.\<close>

definition same_line :: "nat \<Rightarrow> string \<Rightarrow> (string \<times> string) option \<Rightarrow> (string \<times> string) option \<Rightarrow> bool" where
  "same_line mx buf0 e r \<longleftrightarrow>
     (case e of
        None \<Rightarrow> r = None
      | Some (txt, ks') \<Rightarrow> \<exists>buf'. r = Some (buf', ks') \<and> c_str buf' = txt \<and> length txt < mx
          \<and> length buf' = length buf0 \<and> drop mx buf' = drop mx buf0)"

lemma readline_refines_edit:
  assumes "holds_text mx buf0 buf (l @ r)"
  shows "same_line mx buf0 (edit_line ks mx l r) (readline_loop ks mx buf (length l) (length (l @ r)))"
  using assms
proof (induction ks arbitrary: buf l r)
  case (Cons c ks)
  note h = Cons.prems
  have mx: "length l + length r < mx" "mx \<le> length buf" "length buf = length buf0" using h by (auto simp: holds_text_def)
  have "holds_text mx buf0 buf []" using h by (auto simp: holds_text_def)
  note clear = holds_text_end [OF this, simplified]
  consider (lf) "c = LF" | (bs) "c = BS" | (left) "c = KEY_LEFT" | (right) "c = KEY_RIGHT"
    | (abort) "c = CHR 0x03 \<or> c = CHR 0x0C" | (ins) "c \<notin> {LF, BS, KEY_LEFT, KEY_RIGHT, CHR 0x03, CHR 0x0C}" by blast
  then show ?case
  proof cases
    case lf
    then show ?thesis using holds_text_end [OF h] mx by (simp add: same_line_def)
  next
    case bs
    show ?thesis
    proof (cases l rule: rev_cases)
      case Nil
      with bs Cons.IH [OF h] show ?thesis by (simp add: KEY_LEFT_def KEY_RIGHT_def)
    next
      case (snoc l' x)
      with h have "holds_text mx buf0 (shift_left buf (length l') (length l' + length r)) (l' @ r)"
        by (intro holds_text_delete [where x = x]) simp
      from Cons.IH [OF this] bs snoc show ?thesis by simp
    qed
  next
    case left
    show ?thesis
    proof (cases l rule: rev_cases)
      case Nil
      with left Cons.IH [OF h] show ?thesis by (simp add: KEY_LEFT_def)
    next
      case (snoc l' x)
      with h Cons.IH [of buf l' "x # r"] left show ?thesis by (simp add: KEY_LEFT_def)
    qed
  next
    case right
    show ?thesis
    proof (cases r)
      case Nil
      with right Cons.IH [OF h] show ?thesis by (simp add: KEY_LEFT_def KEY_RIGHT_def)
    next
      case (Cons x r')
      with h Cons.IH [of buf "l @ [x]" r'] right show ?thesis by (simp add: KEY_LEFT_def KEY_RIGHT_def)
    qed
  next
    case abort
    then show ?thesis using clear mx by (auto simp: KEY_LEFT_def KEY_RIGHT_def same_line_def)
  next
    case ins
    show ?thesis
    proof (cases "uchar c \<ge> 32 \<and> c \<noteq> CHR 0x7F \<and> length l + length r < mx - 1")
      case True
      then have "c \<noteq> NUL" by (auto simp: uchar_def)
      with h True have "holds_text mx buf0 ((shift_right buf (length l + length r) (length l))[length l := c]) ((l @ [c]) @ r)"
        using holds_text_insert [of mx buf0 buf l r c] by simp
      from Cons.IH [OF this] ins True show ?thesis by simp
    next
      case False
      with ins Cons.IH [OF h] show ?thesis by auto
    qed
  qed
qed (simp add: same_line_def)

section \<open>Properties\<close>

text \<open>The driver under an arbitrary interleaving of keyboard interrupts (a scancode) and
  non-blocking reads.\<close>

datatype kbd_event = Scancode u8 | Read

fun kbd_run :: "kbd_event list \<Rightarrow> kbd_state \<Rightarrow> string \<times> kbd_state" where
  "kbd_run [] s = ([], s)"
| "kbd_run (Scancode sc # es) s = kbd_run es (keyboard_callback sc s)"
| "kbd_run (Read # es) s =
     (case keyboard_getchar s of None \<Rightarrow> kbd_run es s
      | Some (c, s') \<Rightarrow> let (out, s'') = kbd_run es s' in (c # out, s''))"

text \<open>The same run on a list of at most 255 characters instead of the ring.\<close>

fun kbd_spec :: "kbd_event list \<Rightarrow> string \<Rightarrow> kbd_state \<Rightarrow> string \<times> string" where
  "kbd_spec [] q s = ([], q)"
| "kbd_spec (Scancode sc # es) q s =
     (case kbd_decode sc s of
        (s', None) \<Rightarrow> kbd_spec es q s'
      | (s', Some c) \<Rightarrow> kbd_spec es (if length q < 255 then q @ [c] else q) s')"
| "kbd_spec (Read # es) q s =
     (case q of [] \<Rightarrow> kbd_spec es q s | c # q' \<Rightarrow> let (out, q'') = kbd_spec es q' s in (c # out, q''))"

text \<open>Two states that agree on the modifier flags decode the same way, and decoding does not touch
  the ring.\<close>

definition mods :: "kbd_state \<Rightarrow> bool \<times> bool \<times> bool \<times> bool \<times> bool" where
  "mods s = (shift_held s, ctrl_held s, alt_held s, caps_lock s, extended s)"

lemma kbd_decode_ring:
  "kbd_decode sc s = (s', c) \<Longrightarrow> key_buffer s' = key_buffer s \<and> key_head s' = key_head s \<and> key_tail s' = key_tail s"
  by (auto simp: kbd_decode_def Let_def split: if_splits)

lemma kbd_decode_mods:
  assumes "mods s = mods t"
  shows "snd (kbd_decode sc s) = snd (kbd_decode sc t) \<and> mods (fst (kbd_decode sc s)) = mods (fst (kbd_decode sc t))"
proof -
  define c where "c = scancode_lower ! unat sc"
  define d where "d = scancode_upper ! unat sc"
  show ?thesis
    using assms unfolding kbd_decode_def Let_def mods_def c_def [symmetric] d_def [symmetric]
    by (cases "is_lower c"; cases "c = NUL"; cases "d = NUL") simp_all
qed

lemma kbd_decode_inv:
  assumes "kbd_decode sc s = (s', c)" "kbd_inv s"
  shows "kbd_inv s'" "kbd_queue s' = kbd_queue s"
  using kbd_decode_ring [OF assms(1)] assms(2) by (simp_all add: kbd_inv_def kbd_queue_def)

lemma mods_put_get: "mods (buf_put c s) = mods s" "keyboard_getchar s = Some (c, s') \<Longrightarrow> mods s' = mods s"
  by (auto simp: mods_def buf_put_def keyboard_getchar_def Let_def split: if_splits)

lemma kbd_run_spec:
  "kbd_inv s \<Longrightarrow> mods s = mods t \<Longrightarrow>
   fst (kbd_run es s) = fst (kbd_spec es (kbd_queue s) t)
   \<and> kbd_queue (snd (kbd_run es s)) = snd (kbd_spec es (kbd_queue s) t) \<and> kbd_inv (snd (kbd_run es s))"
proof (induction es s arbitrary: t rule: kbd_run.induct)
  case (2 sc es s)
  obtain s' c where d: "kbd_decode sc s = (s', c)" by force
  obtain t' where d': "kbd_decode sc t = (t', c)" "mods s' = mods t'"
    using kbd_decode_mods [OF "2.prems"(2), of sc] d by (cases "kbd_decode sc t") auto
  note i = kbd_decode_inv [OF d "2.prems"(1)]
  show ?case
  proof (cases c)
    case None
    with 2 d d' i show ?thesis by (simp add: keyboard_callback_def)
  next
    case (Some x)
    then have k: "keyboard_callback sc s = buf_put x s'" using d by (simp add: keyboard_callback_def)
    have "mods (buf_put x s') = mods t'" using d'(2) by (simp add: mods_put_get)
    with "2.IH" [of t'] kbd.inv_put [OF i(1), of x] kbd.put_contents [OF i(1), of x] k i(2) d' Some
    show ?thesis by simp
  qed
next
  case (3 es s)
  show ?case
  proof (cases "keyboard_getchar s")
    case None
    with 3 kbd.get_none [of s] show ?thesis by simp
  next
    case (Some p)
    obtain c s' where p: "p = (c, s')" by force
    with Some have g: "keyboard_getchar s = Some (c, s')" by simp
    have "mods s' = mods t" using mods_put_get(2) [OF g] 3 by simp
    with "3.IH"(2) [OF g refl, of t] kbd.inv_get [OF "3.prems"(1) g] kbd.get_some [OF "3.prems"(1) g] g
    show ?thesis by (auto simp: case_prod_unfold Let_def)
  qed
qed simp

text \<open>C23. The keyboard ring is a FIFO under every interleaving of interrupts and reads: the reader
  gets the decoded characters in the order they were typed, none twice and none out of order, and a
  character is dropped only when 255 are waiting.\<close>

theorem kbd_ring_fifo:
  assumes "kbd_inv s"
  shows "fst (kbd_run es s) = fst (kbd_spec es (kbd_queue s) s)
    \<and> kbd_queue (snd (kbd_run es s)) = snd (kbd_spec es (kbd_queue s) s) \<and> kbd_inv (snd (kbd_run es s))"
  using kbd_run_spec [OF assms refl] .

definition kbd_boot :: kbd_state where
  "kbd_boot = \<lparr>key_buffer = replicate 256 NUL, key_head = 0, key_tail = 0, shift_held = False,
     ctrl_held = False, alt_held = False, caps_lock = False, extended = False\<rparr>"

lemma kbd_ring_fifo_witness:
  "kbd_inv kbd_boot
   \<and> fst (kbd_run [Scancode 0x2A, Scancode 0x23, Scancode 0xAA, Scancode 0x17, Read, Read, Read] kbd_boot) = ''Hi''"
proof -
  have b: "kbd_inv kbd_boot" "kbd_queue kbd_boot = []"
    by (simp_all add: kbd_inv_def kbd_boot_def kbd_queue_def KEY_BUF_SIZE_def)
  have "fst (kbd_spec [Scancode 0x2A, Scancode 0x23, Scancode 0xAA, Scancode 0x17, Read, Read, Read] [] kbd_boot) = ''Hi''"
    by (simp add: kbd_decode_def kbd_boot_def Let_def scancode_lower_def scancode_upper_def is_lower_def schar_def uchar_def)
  with kbd_ring_fifo [OF b(1)] b show ?thesis by (simp only: simp_thms)
qed

text \<open>C32. The line editor refines a text with a cursor: on any input it returns exactly when the
  reference editor does, leaves the reference's text, terminated, in the caller's buffer, and never
  writes at or beyond \<open>max\<close>.\<close>

theorem readline_edits:
  assumes "0 < mx" "mx \<le> length buf"
  shows "case edit_line ks mx [] [] of
      None \<Rightarrow> keyboard_readline buf mx ks = None
    | Some (txt, ks') \<Rightarrow> \<exists>buf'. keyboard_readline buf mx ks = Some (buf', ks') \<and> c_str buf' = txt
        \<and> length txt < mx \<and> length buf' = length buf \<and> drop mx buf' = drop mx buf"
proof -
  have "holds_text mx buf buf ([] @ [])" using assms by (simp add: holds_text_def)
  from readline_refines_edit [OF this, of ks] show ?thesis
    unfolding keyboard_readline_def by (simp add: same_line_def)
qed

lemma readline_edits_witness:
  "edit_line ([CHR ''a'', CHR ''c'', KEY_LEFT, CHR ''b'', LF] @ ''rest'') 8 [] [] = Some (''abc'', ''rest'')
   \<and> (\<exists>buf'. keyboard_readline (replicate 10 NUL) 8 ([CHR ''a'', CHR ''c'', KEY_LEFT, CHR ''b'', LF] @ ''rest'')
        = Some (buf', ''rest'') \<and> c_str buf' = ''abc'')"
proof -
  have e: "edit_line ([CHR ''a'', CHR ''c'', KEY_LEFT, CHR ''b'', LF] @ ''rest'') 8 [] [] = Some (''abc'', ''rest'')"
    by (simp add: KEY_LEFT_def KEY_RIGHT_def uchar_def)
  with readline_edits [of 8 "replicate 10 NUL" "[CHR ''a'', CHR ''c'', KEY_LEFT, CHR ''b'', LF] @ ''rest''"]
  show ?thesis by (simp del: append_Cons) blast
qed

end
