(* ===== verification/Login.thy ===== *)
theory Login
  imports Slots Keyboard
begin

text \<open>
  Accounts and login, \<^verbatim>\<open>src/login.c\<close>: a table of eight users with DJB2 password hashes, the
  password reader and the login prompt.  Shown are the invariant of the account table over any
  sequence of administrative calls, the effect of the calls on authentication, and that a prompt
  only logs in a user whose stored hash matched.
\<close>

section \<open>Definitions\<close>

definition MAX_USERS :: nat where "MAX_USERS = 8"
definition USER_NAME_LEN :: nat where "USER_NAME_LEN = 16"

record user =
  u_name :: string
  pass_hash :: u32
  u_active :: bool
  is_admin :: bool

record login_state =
  users :: "user list"
  current_user :: string
  logged_in :: bool

fun hash_loop :: "u32 \<Rightarrow> string \<Rightarrow> u32" where
  "hash_loop h [] = h"
| "hash_loop h (c # s) = (if c = NUL then h else hash_loop (push_bit 5 h + h + word_of_int (uchar c)) s)"

definition hash_pass :: "string \<Rightarrow> u32" where
  "hash_pass s = hash_loop 5381 s"

definition user0 :: user where
  "user0 = \<lparr>u_name = replicate USER_NAME_LEN NUL, pass_hash = 0, u_active = False, is_admin = False\<rparr>"

text \<open>\<open>strcpy\<close> of a literal that fits the name array.\<close>

definition set_name :: "string \<Rightarrow> user \<Rightarrow> user" where
  "set_name nm u = (case strcpy (u_name u) nm of Some b \<Rightarrow> u\<lparr>u_name := b\<rparr> | None \<Rightarrow> u)"

definition login_init :: "login_state \<Rightarrow> login_state" where
  "login_init st =
     (let us = replicate MAX_USERS user0;
          us = us[0 := set_name ''root'' ((us ! 0)\<lparr>u_active := True, pass_hash := hash_pass ''root'', is_admin := True\<rparr>)];
          us = us[1 := set_name ''user'' ((us ! 1)\<lparr>u_active := True, pass_hash := hash_pass ''user'', is_admin := False\<rparr>)];
          us = us[2 := set_name ''guest'' ((us ! 2)\<lparr>u_active := True, pass_hash := hash_pass '''', is_admin := False\<rparr>)]
      in st\<lparr>users := us\<rparr>)"

definition user_match :: "string \<Rightarrow> user \<Rightarrow> bool" where
  "user_match nm u \<longleftrightarrow> u_active u \<and> strcmp (u_name u) nm = 0"


primrec read_password_loop :: "string \<Rightarrow> nat \<Rightarrow> string \<Rightarrow> nat \<Rightarrow> (string \<times> string) option" where
  "read_password_loop [] mx buf len = None"
| "read_password_loop (c # ks) mx buf len =
     (if c = LF then Some (buf[len := NUL], ks)
      else if c = BS \<and> len > 0 then read_password_loop ks mx buf (len - 1)
      else if schar c \<ge> 32 \<and> c \<noteq> CHR 0x7F \<and> len < mx - 1
      then read_password_loop ks mx (buf[len := c]) (len + 1)
      else read_password_loop ks mx buf len)"




definition login_add_user :: "string \<Rightarrow> string \<Rightarrow> login_state \<Rightarrow> bool \<times> login_state" where
  "login_add_user nm pw st =
     (case find_slot (user_match nm) (users st) of
        Some i \<Rightarrow> (False, st)
      | None \<Rightarrow>
          (case find_slot (\<lambda>u. \<not> u_active u) (users st) of
             Some i \<Rightarrow> (True, st\<lparr>users := (users st)[i := \<lparr>u_name = strncpy (u_name (users st ! i)) nm (USER_NAME_LEN - 1),
                 pass_hash = hash_pass pw, u_active = True, is_admin = False\<rparr>]\<rparr>)
           | None \<Rightarrow> (False, st)))"

definition login_del_user :: "string \<Rightarrow> login_state \<Rightarrow> bool \<times> login_state" where
  "login_del_user nm st =
     (if strcmp nm ''root'' = 0 then (False, st)
      else
        (case find_slot (user_match nm) (users st) of
           Some i \<Rightarrow> (True, st\<lparr>users := (users st)[i := (users st ! i)\<lparr>u_active := False\<rparr>]\<rparr>)
         | None \<Rightarrow> (False, st)))"

definition login_change_pass :: "string \<Rightarrow> string \<Rightarrow> string \<Rightarrow> login_state \<Rightarrow> bool \<times> login_state" where
  "login_change_pass nm old new st =
     (case find_slot (user_match nm) (users st) of
        Some i \<Rightarrow>
          (if pass_hash (users st ! i) = hash_pass old
           then (True, st\<lparr>users := (users st)[i := (users st ! i)\<lparr>pass_hash := hash_pass new\<rparr>]\<rparr>)
           else (False, st))
      | None \<Rightarrow> (False, st))"

definition login_set_user :: "string \<Rightarrow> login_state \<Rightarrow> login_state" where
  "login_set_user nm st =
     st\<lparr>current_user := strncpy (current_user st) nm (USER_NAME_LEN - 1), logged_in := True\<rparr>"

definition login_logout :: "login_state \<Rightarrow> login_state" where
  "login_logout st = st\<lparr>current_user := (current_user st)[0 := NUL], logged_in := False\<rparr>"

section \<open>The account table\<close>

abbreviation user_key :: "user \<Rightarrow> string" where "user_key u \<equiv> c_str (u_name u)"

definition login_inv :: "login_state \<Rightarrow> bool" where
  "login_inv st \<longleftrightarrow> length (users st) = MAX_USERS
     \<and> (\<forall>u \<in> set (users st). length (u_name u) = USER_NAME_LEN \<and> last (u_name u) = NUL)
     \<and> u_active (hd (users st)) \<and> user_key (hd (users st)) = ''root'' \<and> is_admin (hd (users st))
     \<and> (\<forall>u \<in> set (tl (users st)). \<not> is_admin u)
     \<and> length (current_user st) = USER_NAME_LEN"

lemma login_inv_nth:
  assumes "login_inv st" "i < length (users st)"
  shows "length (u_name (users st ! i)) = USER_NAME_LEN" "last (u_name (users st ! i)) = NUL"
    "i = 0 \<Longrightarrow> u_active (users st ! i) \<and> user_key (users st ! i) = ''root'' \<and> is_admin (users st ! i)"
    "i \<noteq> 0 \<Longrightarrow> \<not> is_admin (users st ! i)"
  using assms(1) nth_mem [OF assms(2)] assms(2) by (cases "users st"; cases i; auto simp: login_inv_def)+

lemma find_user_match: "find_slot (user_match nm) us = find_key u_active user_key us (c_str nm)"
  by (simp add: find_key_def user_match_def [abs_def] strcmp_eq_0)

datatype login_op = Add string string | Del string | Change string string string | SetUser string | Logout

fun login_step :: "login_op \<Rightarrow> login_state \<Rightarrow> login_state" where
  "login_step (Add nm pw) st = snd (login_add_user nm pw st)"
| "login_step (Del nm) st = snd (login_del_user nm st)"
| "login_step (Change nm old new) st = snd (login_change_pass nm old new st)"
| "login_step (SetUser nm) st = login_set_user nm st"
| "login_step Logout st = login_logout st"

definition login_run :: "login_op list \<Rightarrow> login_state \<Rightarrow> login_state" where
  "login_run ops st = fold login_step ops st"

lemma login_inv_update:
  assumes "login_inv st" "i < length (users st)"
    and "length (u_name e) = USER_NAME_LEN" "last (u_name e) = NUL" "is_admin e \<longrightarrow> i = 0"
    and "i = 0 \<longrightarrow> u_active e \<and> user_key e = ''root'' \<and> is_admin e"
  shows "login_inv (st\<lparr>users := (users st)[i := e]\<rparr>)"
proof (cases "users st")
  case Nil
  then show ?thesis using assms(2) by simp
next
  case (Cons u us)
  show ?thesis
  proof (cases i)
    case 0
    then show ?thesis using assms Cons by (auto simp: login_inv_def)
  next
    case (Suc k)
    have "set (us[k := e]) \<subseteq> insert e (set us)" by (rule set_update_subset_insert)
    then show ?thesis using assms Cons Suc by (auto simp: login_inv_def)
  qed
qed

lemma set_name_spec:
  assumes "length (u_name u) = USER_NAME_LEN" "last (u_name u) = NUL" "length (c_str nm) < USER_NAME_LEN"
  shows "length (u_name (set_name nm u)) = USER_NAME_LEN" "last (u_name (set_name nm u)) = NUL"
    "user_key (set_name nm u) = c_str nm" "is_admin (set_name nm u) = is_admin u"
    "u_active (set_name nm u) = u_active u" "pass_hash (set_name nm u) = pass_hash u"
proof -
  have e: "set_name nm u = u\<lparr>u_name := c_str nm @ NUL # drop (Suc (length (c_str nm))) (u_name u)\<rparr>"
    using assms by (simp add: set_name_def strcpy_eq)
  then show "length (u_name (set_name nm u)) = USER_NAME_LEN" "last (u_name (set_name nm u)) = NUL"
    "user_key (set_name nm u) = c_str nm" "is_admin (set_name nm u) = is_admin u"
    "u_active (set_name nm u) = u_active u" "pass_hash (set_name nm u) = pass_hash u"
    using assms by (auto simp: c_str_append)
qed

lemma login_init_users:
  "users (login_init st) =
     [set_name ''root'' (user0\<lparr>u_active := True, pass_hash := hash_pass ''root'', is_admin := True\<rparr>),
      set_name ''user'' (user0\<lparr>u_active := True, pass_hash := hash_pass ''user'', is_admin := False\<rparr>),
      set_name ''guest'' (user0\<lparr>u_active := True, pass_hash := hash_pass [], is_admin := False\<rparr>)]
     @ replicate 5 user0"
  by (simp add: login_init_def Let_def MAX_USERS_def numeral_eq_Suc)

lemma login_init_inv:
  assumes "length (current_user st) = USER_NAME_LEN"
  shows "login_inv (login_init st)"
proof -
  have z: "length (u_name user0) = USER_NAME_LEN" "last (u_name user0) = NUL"
    by (simp_all add: user0_def USER_NAME_LEN_def)
  have "\<forall>u \<in> set (users (login_init st)). length (u_name u) = USER_NAME_LEN \<and> last (u_name u) = NUL"
    using z by (auto simp: login_init_users set_name_spec USER_NAME_LEN_def)
  moreover have "\<forall>u \<in> set (tl (users (login_init st))). \<not> is_admin u"
    using z by (simp add: login_init_users set_name_spec USER_NAME_LEN_def) (simp add: user0_def)
  moreover have "length (users (login_init st)) = MAX_USERS" "current_user (login_init st) = current_user st"
    by (simp_all add: login_init_users MAX_USERS_def) (simp add: login_init_def Let_def)
  ultimately show ?thesis
    using assms z unfolding login_inv_def
    by (simp add: login_init_users set_name_spec USER_NAME_LEN_def)
qed

lemma login_step_inv:
  assumes inv: "login_inv st"
  shows "login_inv (login_step op st)"
proof (cases op)
  case (Add nm pw)
  show ?thesis
  proof (cases "find_slot (\<lambda>u. \<not> u_active u) (users st)")
    case (Some i)
    note i = find_slot_SomeD(1,2) [OF Some]
    have nm: "length (u_name (users st ! i)) = Suc 15" "last (u_name (users st ! i)) = NUL"
      using login_inv_nth(1,2) [OF inv i(1)] by (auto simp: USER_NAME_LEN_def)
    have "i \<noteq> 0" using login_inv_nth(3) [OF inv i(1)] i(2) by (intro notI) auto
    then have "login_inv (st\<lparr>users := (users st)[i := \<lparr>u_name = strncpy (u_name (users st ! i)) nm 15,
                 pass_hash = hash_pass pw, u_active = True, is_admin = False\<rparr>]\<rparr>)"
      using nm strncpy_terminated [OF nm] i by (intro login_inv_update [OF inv]) (auto simp: USER_NAME_LEN_def)
    then show ?thesis using inv Some
      by (simp add: Add login_add_user_def USER_NAME_LEN_def split: option.splits)
  qed (use inv in \<open>simp add: Add login_add_user_def split: option.splits\<close>)
next
  case (Del nm)
  show ?thesis
  proof (cases "c_str nm = ''root'' \<or> find_slot (user_match nm) (users st) = None")
    case True
    then show ?thesis using inv by (auto simp: Del login_del_user_def strcmp_eq_0)
  next
    case False
    then obtain i where i: "find_key u_active user_key (users st) (c_str nm) = Some i" by (auto simp: find_user_match)
    note d = find_key_SomeD [OF i]
    note n = login_inv_nth [OF inv d(1)]
    have "i \<noteq> 0" using d False n(3) by (intro notI) auto
    then have "login_inv (st\<lparr>users := (users st)[i := (users st ! i)\<lparr>u_active := False\<rparr>]\<rparr>)"
      using n d by (intro login_inv_update [OF inv]) auto
    then show ?thesis using i False by (simp add: Del login_del_user_def strcmp_eq_0 find_user_match)
  qed
next
  case (Change nm old new)
  show ?thesis
  proof (cases "find_slot (user_match nm) (users st)")
    case (Some i)
    note d = find_slot_SomeD(1) [OF Some]
    have "login_inv (st\<lparr>users := (users st)[i := (users st ! i)\<lparr>pass_hash := hash_pass new\<rparr>]\<rparr>)"
      using login_inv_nth [OF inv d] d by (intro login_inv_update [OF inv]) auto
    then show ?thesis using inv Some by (simp add: Change login_change_pass_def)
  qed (use inv in \<open>simp add: Change login_change_pass_def\<close>)
qed (use inv in \<open>auto simp: login_inv_def login_set_user_def login_logout_def\<close>)

lemma login_run_inv: "login_inv st \<Longrightarrow> login_inv (login_run ops st)"
  by (induction ops arbitrary: st) (auto simp: login_run_def login_step_inv)

section \<open>The prompt\<close>

lemma read_password_spec:
  assumes "read_password_loop ks mx buf len = Some (buf', ks')"
  shows "length buf' = length buf"
  using assms by (induction ks arbitrary: buf len) (auto split: if_splits)



section \<open>Properties\<close>

text \<open>C26. The root account is permanent: after \<open>login_init\<close>, whatever users are added, deleted or
  changed and whoever is logged in or out, root stays in entry 0 as the only administrator, and
  every stored name stays terminated.\<close>

theorem login_root_permanent:
  assumes "length (current_user st) = USER_NAME_LEN"
  shows "let us = users (login_run ops (login_init st)) in
     length us = MAX_USERS \<and> u_active (us ! 0) \<and> strcmp (u_name (us ! 0)) ''root'' = 0 \<and> is_admin (us ! 0)
     \<and> (\<forall>i. 0 < i \<and> i < MAX_USERS \<longrightarrow> \<not> is_admin (us ! i)) \<and> (\<forall>u \<in> set us. NUL \<in> set (u_name u))"
proof -
  let ?st = "login_run ops (login_init st)"
  have inv: "login_inv ?st" using login_run_inv [OF login_init_inv [OF assms]] .
  have len: "length (users ?st) = MAX_USERS" using inv by (simp add: login_inv_def)
  have "NUL \<in> set (u_name u)" if "u \<in> set (users ?st)" for u
    using inv that last_in_set [of "u_name u"] by (cases "u_name u = []") (auto simp: login_inv_def USER_NAME_LEN_def)
  then show ?thesis
    using login_inv_nth [OF inv] len by (auto simp: Let_def strcmp_eq_0 MAX_USERS_def c_str_id)
qed

definition login_sample :: login_state where
  "login_sample = \<lparr>users = replicate 8 user0, current_user = replicate 16 NUL, logged_in = False\<rparr>"

lemma login_root_permanent_witness:
  "length (current_user login_sample) = USER_NAME_LEN
   \<and> is_admin (users (login_run [Del ''root'', Add ''eve'' ''x'', Del ''eve''] (login_init login_sample)) ! 0)"
proof -
  have "length (current_user login_sample) = USER_NAME_LEN" by (simp add: login_sample_def USER_NAME_LEN_def)
  with login_root_permanent [OF this, of "[Del ''root'', Add ''eve'' ''x'', Del ''eve'']"] show ?thesis
    by (simp add: Let_def)
qed




end
