(* ===== verification/Cmem.thy ===== *)
theory Cmem
  imports Prelude
begin

text \<open>
  Byte-addressed physical memory and the memory routines of \<^verbatim>\<open>include/types.h\<close> and
  \<^verbatim>\<open>src/mem.c\<close> (\<open>memset\<close>, \<open>memcpy\<close>, \<open>memcmp\<close>, \<open>memmove\<close>).  The kernel runs with
  its memory identity-mapped, so a C pointer is a \<^typ>\<open>u32\<close> and memory is a function
  from addresses to bytes; every global state record of the development extends
  \<open>mem_state\<close>.  A 32-bit object is stored little-endian, as on i386.
\<close>

type_synonym memory = "u32 \<Rightarrow> u8"

record mem_state =
  mem :: memory

section \<open>Definitions\<close>

definition load32 :: "memory \<Rightarrow> u32 \<Rightarrow> u32" where
  "load32 m a = ucast (m a) OR push_bit 8 (ucast (m (a + 1)))
     OR push_bit 16 (ucast (m (a + 2))) OR push_bit 24 (ucast (m (a + 3)))"

definition store32 :: "memory \<Rightarrow> u32 \<Rightarrow> u32 \<Rightarrow> memory" where
  "store32 m a v = m(a := ucast v, a + 1 := ucast (drop_bit 8 v),
     a + 2 := ucast (drop_bit 16 v), a + 3 := ucast (drop_bit 24 v))"

definition load16 :: "memory \<Rightarrow> u32 \<Rightarrow> u16" where
  "load16 m a = ucast (m a) OR push_bit 8 (ucast (m (a + 1)))"

definition bytes :: "memory \<Rightarrow> u32 \<Rightarrow> nat \<Rightarrow> u8 list" where
  "bytes m a n = map (\<lambda>i. m (a + of_nat i)) [0..<n]"

text \<open>
  The four loops.  The count is the number of iterations the loop
  \<^verbatim>\<open>while (n--)\<close> performs, i.e.\ \<^term>\<open>unat\<close> of the \<^verbatim>\<open>size_t\<close> argument.
\<close>

primrec memset :: "memory \<Rightarrow> u32 \<Rightarrow> u8 \<Rightarrow> nat \<Rightarrow> memory" where
  "memset m d c 0 = m"
| "memset m d c (Suc n) = memset (m(d := c)) (d + 1) c n"

primrec memcpy :: "memory \<Rightarrow> u32 \<Rightarrow> u32 \<Rightarrow> nat \<Rightarrow> memory" where
  "memcpy m d s 0 = m"
| "memcpy m d s (Suc n) = memcpy (m(d := m s)) (d + 1) (s + 1) n"

primrec memcpy_down :: "memory \<Rightarrow> u32 \<Rightarrow> u32 \<Rightarrow> nat \<Rightarrow> memory" where
  "memcpy_down m d s 0 = m"
| "memcpy_down m d s (Suc n) = memcpy_down (m(d - 1 := m (s - 1))) (d - 1) (s - 1) n"

definition memmove :: "memory \<Rightarrow> u32 \<Rightarrow> u32 \<Rightarrow> nat \<Rightarrow> memory" where
  "memmove m d s n =
     (if d < s then memcpy m d s n else memcpy_down m (d + of_nat n) (s + of_nat n) n)"

primrec memcmp :: "memory \<Rightarrow> u32 \<Rightarrow> u32 \<Rightarrow> nat \<Rightarrow> int" where
  "memcmp m p q 0 = 0"
| "memcmp m p q (Suc n) =
     (if m p \<noteq> m q then uint (m p) - uint (m q) else memcmp m (p + 1) (q + 1) n)"

section \<open>32-bit loads and stores\<close>

lemma bytes_of_u32: "(ucast (ucast v :: u8) OR push_bit 8 (ucast (ucast (drop_bit 8 v) :: u8))
     OR push_bit 16 (ucast (ucast (drop_bit 16 v) :: u8))
     OR push_bit 24 (ucast (ucast (drop_bit 24 v) :: u8))) = (v :: u32)"
proof (rule bit_word_eqI)
  fix n assume "n < LENGTH(32)"
  then consider "n < 8" | "8 \<le> n \<and> n < 16" | "16 \<le> n \<and> n < 24" | "24 \<le> n \<and> n < 32"
    by (simp, linarith)
  then show "bit (ucast (ucast v :: u8) OR push_bit 8 (ucast (ucast (drop_bit 8 v) :: u8))
     OR push_bit 16 (ucast (ucast (drop_bit 16 v) :: u8))
     OR push_bit 24 (ucast (ucast (drop_bit 24 v) :: u8)) :: u32) n = bit v n"
    by cases (auto simp: bit_simps)
qed

lemma load32_store32_same [simp, mem_simps]: "load32 (store32 m a v) a = v"
  by (simp add: load32_def store32_def bytes_of_u32)

lemma store32_other: "4 \<le> p - a \<Longrightarrow> store32 m a v p = m p"
proof -
  assume "4 \<le> p - a"
  then have "p \<noteq> a" "p \<noteq> a + 1" "p \<noteq> a + 2" "p \<noteq> a + 3" by unat_arith+
  then show ?thesis by (simp add: store32_def)
qed

lemma load32_cong:
  "m a = m' a \<Longrightarrow> m (a + 1) = m' (a + 1) \<Longrightarrow> m (a + 2) = m' (a + 2) \<Longrightarrow> m (a + 3) = m' (a + 3)
   \<Longrightarrow> load32 m a = load32 m' a"
  by (simp add: load32_def)

lemma load32_store32_disj:
  assumes "4 \<le> b - a" "4 \<le> a - b"
  shows "load32 (store32 m a v) b = load32 m b"
proof -
  have g: "4 \<le> (b - a) + j" if "j < 4" for j
    by (rule word_gap_add) (use assms that in simp_all)
  have "4 \<le> b + j - a" if "j < 4" for j
    using g [OF that] by (simp add: algebra_simps)
  from this [of 1] this [of 2] this [of 3] assms show ?thesis
    by (intro load32_cong store32_other) simp_all
qed

text \<open>The same facts for addresses given as natural numbers, the form the heap proofs use.\<close>

lemma load32_store32_nat [mem_simps]:
  "x + 4 \<le> y \<or> y + 4 \<le> x \<Longrightarrow> x + 4 \<le> 2 ^ 32 \<Longrightarrow> y + 4 \<le> 2 ^ 32 \<Longrightarrow>
   load32 (store32 m (of_nat x) v) (of_nat y) = load32 m (of_nat y)"
  by (rule load32_store32_disj) (auto simp: word_le_nat_alt unat_sub_if' unat_of_nat)

lemma store32_byte_nat [mem_simps]:
  "y < x \<or> x + 4 \<le> y \<Longrightarrow> x + 4 \<le> 2 ^ 32 \<Longrightarrow> y < 2 ^ 32 \<Longrightarrow>
   store32 m (of_nat x) v (of_nat y) = m (of_nat y)"
  by (rule store32_other) (auto simp: word_le_nat_alt unat_sub_if' unat_of_nat)

lemma load32_cong_nat:
  assumes "\<And>i. x \<le> i \<Longrightarrow> i < x + 4 \<Longrightarrow> m (of_nat i) = m' (of_nat i)"
  shows "load32 m (of_nat x) = load32 m' (of_nat x)"
  using assms [of x] assms [of "x + 1"] assms [of "x + 2"] assms [of "x + 3"]
  by (intro load32_cong) (simp_all add: algebra_simps)

text \<open>
  \<open>ptr x\<close> is the address with number \<open>x\<close>.  It is kept folded so that pointer arithmetic
  \<open>p + k\<close> normalises to natural-number arithmetic under \<open>ptr\<close>, where disjointness of
  fields is linear arithmetic.
\<close>

definition ptr :: "nat \<Rightarrow> u32" where
  "ptr x = of_nat x"

lemma ptr_plus [simp]: "ptr x + numeral k = ptr (x + numeral k)" "ptr x + 1 = ptr (x + 1)"
  "ptr x + ptr y = ptr (x + y)"
  by (simp_all add: ptr_def add.commute)

lemma ptr_minus: "y \<le> x \<Longrightarrow> ptr x - ptr y = ptr (x - y)"
  by (simp add: ptr_def of_nat_diff)

lemma ptr_numeral: "ptr (numeral k) = numeral k" "ptr 0 = 0" "ptr 1 = 1"
  by (simp_all add: ptr_def)

lemma ptr_minus_numeral [simp]: "numeral k \<le> x \<Longrightarrow> ptr x - numeral k = ptr (x - numeral k)"
  using ptr_minus [of "numeral k" x] by (simp add: ptr_numeral)

lemma unat_ptr [simp]: "x < 4294967296 \<Longrightarrow> unat (ptr x) = x"
  by (simp add: ptr_def unat_of_nat32)

lemma ptr_unat: "ptr (unat p) = p"
  by (simp add: ptr_def)

lemma ptr_eq [simp]: "x < 4294967296 \<Longrightarrow> y < 4294967296 \<Longrightarrow> ptr x = ptr y \<longleftrightarrow> x = y"
  by (metis unat_ptr)

lemma ptr_eq_0 [simp]: "x < 4294967296 \<Longrightarrow> ptr x = 0 \<longleftrightarrow> x = 0"
  using ptr_eq [of x 0] by (simp add: ptr_numeral)

lemma ptr_le [simp]: "x < 4294967296 \<Longrightarrow> y < 4294967296 \<Longrightarrow> ptr x \<le> ptr y \<longleftrightarrow> x \<le> y"
  by (simp add: word_le_nat_alt)

lemma ptr_less [simp]: "x < 4294967296 \<Longrightarrow> y < 4294967296 \<Longrightarrow> ptr x < ptr y \<longleftrightarrow> x < y"
  by (simp add: word_less_nat_alt)

lemma load32_store32_ptr [simp]:
  "x + 4 \<le> y \<or> y + 4 \<le> x \<Longrightarrow> x + 4 \<le> 4294967296 \<Longrightarrow> y + 4 \<le> 4294967296 \<Longrightarrow>
   load32 (store32 m (ptr x) v) (ptr y) = load32 m (ptr y)"
  by (simp add: ptr_def load32_store32_nat)

lemma store32_byte_ptr [simp]:
  "y < x \<or> x + 4 \<le> y \<Longrightarrow> x + 4 \<le> 4294967296 \<Longrightarrow> y < 4294967296 \<Longrightarrow>
   store32 m (ptr x) v (ptr y) = m (ptr y)"
  by (simp add: ptr_def store32_byte_nat)

lemma load32_cong_ptr:
  assumes "\<And>i. x \<le> i \<Longrightarrow> i < x + 4 \<Longrightarrow> m (ptr i) = m' (ptr i)"
  shows "load32 m (ptr x) = load32 m' (ptr x)"
  using assms unfolding ptr_def by (rule load32_cong_nat)

section \<open>Block operations\<close>

lemma length_bytes [simp]: "length (bytes m a n) = n"
  by (simp add: bytes_def)

lemma nth_bytes [simp]: "i < n \<Longrightarrow> bytes m a n ! i = m (a + of_nat i)"
  by (simp add: bytes_def)

lemma bytes_eq_iff: "bytes m a n = bytes m' b n \<longleftrightarrow> (\<forall>i < n. m (a + of_nat i) = m' (b + of_nat i))"
  by (auto simp: list_eq_iff_nth_eq)

lemma memset_apply:
  assumes "n \<le> 4294967296"
  shows "memset m d c n p = (if unat (p - d) < n then c else m p)"
  using assms
proof (induction n arbitrary: m d)
  case (Suc n)
  have IH: "memset (m(d := c)) (d + 1) c n p = (if unat (p - (d + 1)) < n then c else (m(d := c)) p)"
    using Suc.prems by (intro Suc.IH) simp
  show ?case
  proof (cases "p = d")
    case True
    with IH Suc.prems show ?thesis by (simp add: unat_offset_step)
  next
    case False
    with IH unat_diff_pos [OF False] show ?thesis by (auto simp: unat_offset_step)
  qed
qed simp

text \<open>
  A forward byte copy gives the simultaneous copy unless a source byte is overwritten
  before it is read; \<open>d - s \<ge> n\<close> (modulo \<open>2 ^ 32\<close>) excludes exactly that.
\<close>

lemma memcpy_apply:
  assumes "n \<le> 4294967296" and "n \<le> unat (d - s) \<or> d = s"
  shows "memcpy m d s n p = (if unat (p - d) < n then m (s + (p - d)) else m p)"
  using assms
proof (induction n arbitrary: m d s)
  case (Suc n)
  let ?m = "m(d := m s)"
  have IH: "memcpy ?m (d + 1) (s + 1) n p
      = (if unat (p - (d + 1)) < n then ?m (s + 1 + (p - (d + 1))) else ?m p)"
    using Suc.prems by (intro Suc.IH) auto
  have src: "s + 1 + (p - (d + 1)) = s + (p - d)" by simp
  show ?case
  proof (cases "p = d")
    case True
    with IH Suc.prems(1) show ?thesis by (simp add: unat_offset_step)
  next
    case False
    have "?m (s + (p - d)) = m (s + (p - d))" if "unat (p - d) < Suc n"
    proof (cases "d = s")
      case True
      then show ?thesis by auto
    next
      case neq: False
      with Suc.prems(2) that have "unat (p - d) < unat (d - s)" by simp
      then have "p - d \<noteq> d - s" by auto
      then have "s + (p - d) \<noteq> d" by (metis add_diff_cancel_left')
      then show ?thesis by simp
    qed
    with IH src False unat_diff_pos [OF False] show ?thesis by (auto simp: unat_offset_step)
  qed
qed simp

lemma unat_minus_one_step: "unat (q - 1 :: u32) = (if q = 0 then 4294967295 else unat q - 1)"
  using unat_offset_step [of q 0] by simp

lemma memcpy_down_apply:
  assumes "n \<le> 4294967296" and "n \<le> unat (s - d) \<or> d = s"
  shows "memcpy_down m d s n p = (if unat (d - 1 - p) < n then m (s - 1 - (d - 1 - p)) else m p)"
  using assms
proof (induction n arbitrary: m d s)
  case (Suc n)
  let ?m = "m(d - 1 := m (s - 1))" and ?q = "d - 1 - p"
  have IH: "memcpy_down ?m (d - 1) (s - 1) n p
      = (if unat (?q - 1) < n then ?m (s - 1 - ?q) else ?m p)"
    using Suc.prems by (subst Suc.IH) (auto simp: algebra_simps)
  show ?case
  proof (cases "?q = 0")
    case True
    then have "p = d - 1" by simp
    with True IH Suc.prems(1) show ?thesis by (simp add: unat_minus_one_step)
  next
    case False
    then have p: "p \<noteq> d - 1" and pos: "0 < unat ?q" by (auto simp: unat_gt_0)
    have "?m (s - 1 - ?q) = m (s - 1 - ?q)" if "unat ?q < Suc n"
    proof (cases "d = s")
      case neq: False
      with Suc.prems(2) that have "unat ?q \<noteq> unat (s - d)" by linarith
      then have "?q \<noteq> s - d" by metis
      then have "s - 1 - ?q \<noteq> d - 1" by (auto simp: algebra_simps)
      then show ?thesis by simp
    qed (use p in auto)
    moreover have "unat (?q - 1) < n \<longleftrightarrow> unat ?q < Suc n"
      using False pos by (simp only: unat_minus_one_step if_False) arith
    moreover have "?m p = m p" using p by simp
    ultimately show ?thesis using IH by (cases "unat ?q < Suc n") simp_all
  qed
qed simp

lemma unat_mirror:
  fixes r :: u32
  assumes "unat d + n \<le> 4294967296" and "n \<noteq> 0"
  shows "unat (of_nat (n - 1) - r) < n \<longleftrightarrow> unat r < n"
proof -
  have "n - 1 < 2 ^ 32" using assms by simp
  then have "unat (of_nat (n - 1) :: u32) = n - 1" by (rule unat_of_nat32)
  moreover have "unat r < 4294967296" using unsigned_less [of r] by simp
  ultimately show ?thesis using assms by (simp only: unat_sub_if' len_of_numeral_defs) auto
qed

text \<open>
  \<open>memmove\<close> is the simultaneous copy for any overlap of two regions that do not run past
  the end of the address space.
\<close>

lemma memmove_apply:
  assumes "unat d + n \<le> 4294967296" and "unat s + n \<le> 4294967296"
  shows "memmove m d s n p = (if unat (p - d) < n then m (s + (p - d)) else m p)"
proof (cases "d < s")
  case True
  then have "n \<le> unat (d - s)"
    using assms by (simp add: unat_sub_if' word_less_nat_alt)
  then show ?thesis
    using True assms by (simp add: memmove_def memcpy_apply)
next
  case False
  let ?d = "d + of_nat n" and ?s = "s + of_nat n"
  have g: "n \<le> unat (?s - ?d) \<or> ?d = ?s"
  proof (cases "d = s")
    case neq: False
    then have "unat d \<noteq> unat s" by (simp add: word_unat_eq_iff)
    then show ?thesis using False assms by (auto simp: unat_sub_if' word_less_nat_alt)
  qed simp
  have q: "unat (?d - 1 - p) < n \<longleftrightarrow> unat (p - d) < n"
  proof (cases "n = 0")
    case False
    have "?d - 1 - p = of_nat (n - 1) - (p - d)" using False by (simp add: of_nat_diff)
    then show ?thesis by (simp only: unat_mirror [OF assms(1) False])
  qed simp
  have src: "?s - 1 - (?d - 1 - p) = s + (p - d)" by simp
  have "n \<le> 4294967296" using assms(1) by simp
  then show ?thesis
    using False g by (simp only: memmove_def memcpy_down_apply q src if_False)
qed

lemma memcmp_eq_0: "memcmp m p q n = 0 \<longleftrightarrow> bytes m p n = bytes m q n"
proof (induction n arbitrary: p q)
  case (Suc n)
  have split: "bytes m a (Suc n) = m a # bytes m (a + 1) n" for a
    by (rule nth_equalityI) (auto simp: nth_Cons algebra_simps split: nat.split)
  show ?case
  proof (cases "m p = m q")
    case False
    then have "uint (m p) \<noteq> uint (m q)" by (simp add: word_uint_eq_iff)
    with False show ?thesis by (simp add: split)
  qed (simp add: split Suc)
qed (simp add: bytes_def)

text \<open>The same facts with addresses as numbers.\<close>

lemma bytes_ptr: "bytes m p n = map (\<lambda>i. m (ptr (unat p + i))) [0..<n]"
proof -
  have "p + of_nat i = ptr (unat p + i)" for i by (simp add: ptr_def)
  then show ?thesis by (simp add: bytes_def)
qed

lemma memcpy_ptr:
  assumes "unat d + n \<le> 4294967296" "unat s + n \<le> 4294967296" "{unat d..<unat d + n} \<inter> {unat s..<unat s + n} = {}" "x < 4294967296"
  shows "memcpy m d s n (ptr x) = (if unat d \<le> x \<and> x < unat d + n then m (ptr (unat s + (x - unat d))) else m (ptr x))"
proof (cases "n = 0")
  case False
  let ?d = "unat d" and ?s = "unat s"
  have dj: "?s + n \<le> ?d \<or> ?d + n \<le> ?s"
  proof (rule ccontr)
    assume "\<not> ?thesis"
    then have "max ?s ?d \<in> {?d..<?d + n} \<inter> {?s..<?s + n}" by (auto simp: max_def)
    with assms(3) show False by blast
  qed
  have "n \<le> unat (d - s)"
    using dj unat_u32 [of d] unat_u32 [of s] assms(1,2) False by (auto simp: unat_sub_if')
  from memcpy_apply [OF _ disjI1 [OF this], of m "ptr x"]
  have mc: "memcpy m d s n (ptr x) = (if unat (ptr x - d) < n then m (s + (ptr x - d)) else m (ptr x))" using assms(1) by simp
  show ?thesis
  proof (cases "?d \<le> x \<and> x < ?d + n")
    case True
    then have "ptr x - d = ptr (x - ?d)" using ptr_minus [of ?d x] by (simp add: ptr_unat)
    moreover have "unat (ptr (x - ?d)) < n" using True assms(4) by (subst unat_ptr) linarith+
    moreover have "s + ptr (x - ?d) = ptr (?s + (x - ?d))" by (simp add: ptr_def)
    ultimately show ?thesis using mc True by simp
  next
    case False
    then have "x < ?d \<or> ?d + n \<le> x" by auto
    then have "n \<le> unat (ptr x - d)" using unat_outside [OF assms(4) _ assms(1)] by (simp add: ptr_def)
    then show ?thesis using mc False by auto
  qed
qed auto

lemma load32_byte: "i < 4 \<Longrightarrow> m (a + of_nat i) = ucast (drop_bit (8 * i) (load32 m a))"
proof -
  have z: "\<not> bit (w :: u8) (8 + n)" "\<not> bit w (16 + n)" "\<not> bit w (24 + n)" for w n
    using bit_imp_le_length [of w] by fastforce+
  assume "i < 4"
  then consider "i = 0" | "i = 1" | "i = 2" | "i = 3" by linarith
  then show ?thesis
    by cases (auto intro!: bit_word_eqI simp: load32_def bit_simps z)
qed

lemma load32_eq_bytes:
  assumes "load32 m (ptr b) = load32 m' (ptr b)" "i < 4"
  shows "m (ptr (b + i)) = m' (ptr (b + i))"
  using load32_byte [OF assms(2), of m "ptr b"] load32_byte [OF assms(2), of m' "ptr b"] assms(1) by (simp add: ptr_def)

end
