(* ===== verification/Pmm.thy ===== *)
theory Pmm
  imports Cmem
begin

text \<open>
  The physical memory manager, \<^verbatim>\<open>src/pmm.c\<close>: a bitmap with one bit per 4 KB page (bit set
  = page used) and the counters \<open>total_pages\<close> and \<open>used_pages\<close>.  The abstract view is the
  set of used page numbers; the locale \<open>page_allocator\<close> states what the allocator
  promises its clients (the paging code) and is interpreted on this file's operations.
\<close>

section \<open>Definitions\<close>

definition PAGE_SIZE :: u32 where "PAGE_SIZE = 4096"
definition MAX_PAGES :: u32 where "MAX_PAGES = 1024 * 256"
definition BITMAP_SIZE :: nat where "BITMAP_SIZE = unat MAX_PAGES div 32"

text \<open>\<open>kernel_end\<close> is the address of the linker symbol \<^verbatim>\<open>_kernel_end\<close>.\<close>

record pmm_state = mem_state +
  bitmap :: "u32 list"
  total_pages :: u32
  used_pages :: u32
  kernel_end :: u32

definition bm_set :: "u32 \<Rightarrow> 'a pmm_state_scheme \<Rightarrow> 'a pmm_state_scheme" where
  "bm_set p s = s\<lparr>bitmap := (bitmap s)[unat (p div 32) :=
     (bitmap s ! unat (p div 32)) OR push_bit (unat (p mod 32)) 1]\<rparr>"

definition bm_clear :: "u32 \<Rightarrow> 'a pmm_state_scheme \<Rightarrow> 'a pmm_state_scheme" where
  "bm_clear p s = s\<lparr>bitmap := (bitmap s)[unat (p div 32) :=
     (bitmap s ! unat (p div 32)) AND NOT (push_bit (unat (p mod 32)) 1)]\<rparr>"

definition bm_test :: "u32 \<Rightarrow> 'a pmm_state_scheme \<Rightarrow> bool" where
  "bm_test p s \<longleftrightarrow> drop_bit (unat (p mod 32)) (bitmap s ! unat (p div 32)) AND 1 \<noteq> 0"

text \<open>The loop \<^verbatim>\<open>for (i = start; i < total_pages; i++)\<close> of \<open>pmm_init\<close>, \<open>n\<close> iterations.\<close>

primrec pmm_init_loop :: "nat \<Rightarrow> u32 \<Rightarrow> 'a pmm_state_scheme \<Rightarrow> 'a pmm_state_scheme" where
  "pmm_init_loop 0 i s = s"
| "pmm_init_loop (Suc n) i s =
     (let s = bm_clear i s in pmm_init_loop n (i + 1) (s\<lparr>used_pages := used_pages s - 1\<rparr>))"

definition pmm_init :: "u32 \<Rightarrow> 'a pmm_state_scheme \<Rightarrow> 'a pmm_state_scheme" where
  "pmm_init mem_size_kb s =
     (let total = mem_size_kb div 4;
          total = (if total > MAX_PAGES then MAX_PAGES else total);
          s = s\<lparr>total_pages := total, bitmap := replicate BITMAP_SIZE 0xFFFFFFFF,
                used_pages := total\<rparr>;
          start = (kernel_end s + PAGE_SIZE - 1) div PAGE_SIZE
      in pmm_init_loop (unat total - unat start) start s)"

primrec pmm_alloc_scan :: "nat \<Rightarrow> u32 \<Rightarrow> 'a pmm_state_scheme \<Rightarrow> u32 \<times> 'a pmm_state_scheme" where
  "pmm_alloc_scan 0 i s = (0, s)"
| "pmm_alloc_scan (Suc n) i s =
     (if \<not> bm_test i s then
        (let s = bm_set i s in (i * PAGE_SIZE, s\<lparr>used_pages := used_pages s + 1\<rparr>))
      else pmm_alloc_scan n (i + 1) s)"

definition pmm_alloc_page :: "'a pmm_state_scheme \<Rightarrow> u32 \<times> 'a pmm_state_scheme" where
  "pmm_alloc_page s = pmm_alloc_scan (unat (total_pages s)) 0 s"

definition pmm_free_page :: "u32 \<Rightarrow> 'a pmm_state_scheme \<Rightarrow> 'a pmm_state_scheme" where
  "pmm_free_page addr s =
     (let page = addr div PAGE_SIZE in
      if page < total_pages s \<and> bm_test page s
      then (let s = bm_clear page s in s\<lparr>used_pages := used_pages s - 1\<rparr>) else s)"

primrec pmm_reserve_loop :: "nat \<Rightarrow> u32 \<Rightarrow> 'a pmm_state_scheme \<Rightarrow> 'a pmm_state_scheme" where
  "pmm_reserve_loop 0 i s = s"
| "pmm_reserve_loop (Suc n) i s =
     pmm_reserve_loop n (i + 1)
       (if \<not> bm_test i s then (let s = bm_set i s in s\<lparr>used_pages := used_pages s + 1\<rparr>) else s)"

definition pmm_reserve_range :: "u32 \<Rightarrow> u32 \<Rightarrow> 'a pmm_state_scheme \<Rightarrow> 'a pmm_state_scheme" where
  "pmm_reserve_range start_addr sz s =
     (let first_page = start_addr div PAGE_SIZE;
          last_page = (start_addr + sz + PAGE_SIZE - 1) div PAGE_SIZE;
          last_page = (if last_page > total_pages s then total_pages s else last_page)
      in pmm_reserve_loop (unat last_page - unat first_page) first_page s)"

definition pmm_get_free_pages :: "'a pmm_state_scheme \<Rightarrow> u32" where
  "pmm_get_free_pages s = total_pages s - used_pages s"

definition pmm_get_total_pages :: "'a pmm_state_scheme \<Rightarrow> u32" where
  "pmm_get_total_pages s = total_pages s"

definition pmm_get_used_pages :: "'a pmm_state_scheme \<Rightarrow> u32" where
  "pmm_get_used_pages s = used_pages s"

section \<open>Abstract view and invariant\<close>

text \<open>The set of used page numbers, and the consistency of the counters with the bitmap.\<close>

definition used_set :: "'a pmm_state_scheme \<Rightarrow> nat set" where
  "used_set s = {p. p < unat (total_pages s) \<and> bm_test (of_nat p) s}"

definition pmm_inv :: "'a pmm_state_scheme \<Rightarrow> bool" where
  "pmm_inv s \<longleftrightarrow> length (bitmap s) = BITMAP_SIZE \<and> total_pages s \<le> MAX_PAGES
     \<and> unat (used_pages s) = card (used_set s)"

lemma BITMAP_SIZE_eq: "BITMAP_SIZE = 8192"
  by (simp add: BITMAP_SIZE_def MAX_PAGES_def)

lemma bm_test_bit: "bm_test p s \<longleftrightarrow> bit (bitmap s ! (unat p div 32)) (unat p mod 32)"
proof -
  have "(x AND 1 \<noteq> (0::u32)) \<longleftrightarrow> bit x 0" for x
    by (simp add: and_one_eq mod2_eq_if bit_0)
  then show ?thesis
    by (simp add: bm_test_def bit_drop_bit_eq unat_div unat_mod)
qed

lemma page_index:
  "p < 262144 \<Longrightarrow> length (bitmap s) = BITMAP_SIZE \<Longrightarrow> unat (p::u32) div 32 < length (bitmap s)"
  by (simp add: BITMAP_SIZE_eq word_less_nat_alt)

lemma same_bit: "(p::u32) = q \<longleftrightarrow> unat p div 32 = unat q div 32 \<and> unat p mod 32 = unat q mod 32"
  by (metis div_mult_mod_eq word_unat_eq_iff)

lemma bm_test_bm_set:
  assumes "q < 262144" "length (bitmap s) = BITMAP_SIZE"
  shows "bm_test p (bm_set q s) \<longleftrightarrow> p = q \<or> bm_test p s"
  using page_index [OF assms]
  by (cases "unat p div 32 = unat q div 32")
     (auto simp: bm_test_bit bm_set_def unat_div unat_mod bit_simps same_bit nth_list_update)

lemma bm_test_bm_clear:
  assumes "q < 262144" "length (bitmap s) = BITMAP_SIZE"
  shows "bm_test p (bm_clear q s) \<longleftrightarrow> p \<noteq> q \<and> bm_test p s"
  using page_index [OF assms]
  by (cases "unat p div 32 = unat q div 32")
     (auto simp: bm_test_bit bm_clear_def unat_div unat_mod bit_simps same_bit nth_list_update)

lemma bm_frame [simp]:
  "total_pages (bm_set p s) = total_pages s" "used_pages (bm_set p s) = used_pages s"
  "length (bitmap (bm_set p s)) = length (bitmap s)" "kernel_end (bm_set p s) = kernel_end s"
  "mem (bm_set p s) = mem s"
  "total_pages (bm_clear p s) = total_pages s" "used_pages (bm_clear p s) = used_pages s"
  "length (bitmap (bm_clear p s)) = length (bitmap s)" "kernel_end (bm_clear p s) = kernel_end s"
  "mem (bm_clear p s) = mem s"
  by (simp_all add: bm_set_def bm_clear_def)

lemma bm_test_used_pages [simp]: "bm_test p (s\<lparr>used_pages := u\<rparr>) = bm_test p s"
  by (simp add: bm_test_def)

lemma used_set_used_pages [simp]: "used_set (s\<lparr>used_pages := u\<rparr>) = used_set s"
  by (simp add: used_set_def)

lemma used_set_bound: "used_set s \<subseteq> {..<unat (total_pages s)}"
  by (auto simp: used_set_def)

lemma finite_used_set [simp]: "finite (used_set s)"
  using used_set_bound finite_subset by blast

lemma used_set_of_unat: "unat q \<in> used_set s \<longleftrightarrow> q < total_pages s \<and> bm_test q s"
  by (simp add: used_set_def word_less_nat_alt)

lemma of_nat_page: "p < unat (t :: u32) \<Longrightarrow> unat (of_nat p :: u32) = p"
  using unat_u32 [of t] by (intro unat_of_nat32) simp

lemma of_nat_eq_page: "p < unat (t :: u32) \<Longrightarrow> of_nat p = (q :: u32) \<longleftrightarrow> p = unat q"
  using unat_u32 [of t] by (intro of_nat_eq_u32) simp

lemma page_less: "total_pages s \<le> MAX_PAGES \<Longrightarrow> q < total_pages s \<Longrightarrow> q < 262144"
  by (simp add: MAX_PAGES_def)

lemma used_set_bm_set:
  assumes "length (bitmap s) = BITMAP_SIZE" "total_pages s \<le> MAX_PAGES" "q < total_pages s"
  shows "used_set (bm_set q s) = insert (unat q) (used_set s)"
  using assms(3)
  by (auto simp: used_set_def bm_test_bm_set [OF page_less [OF assms(2,3)] assms(1)]
      word_less_nat_alt of_nat_eq_page of_nat_page dest: sym [of q])

lemma used_set_bm_clear:
  assumes "length (bitmap s) = BITMAP_SIZE" "total_pages s \<le> MAX_PAGES" "q < total_pages s"
  shows "used_set (bm_clear q s) = used_set s - {unat q}"
  using assms(3)
  by (auto simp: used_set_def bm_test_bm_clear [OF page_less [OF assms(2,3)] assms(1)]
      word_less_nat_alt of_nat_eq_page of_nat_page dest: sym [of q])

lemma card_used_le: "card (used_set s) \<le> unat (total_pages s)"
  using card_mono [OF _ used_set_bound] by simp

text \<open>Marking a free page used, or a used page free, keeps the invariant.\<close>

lemma pmm_mark_used:
  assumes inv: "pmm_inv s" and q: "q < total_pages s" and free: "\<not> bm_test q s"
  defines "s' \<equiv> (bm_set q s)\<lparr>used_pages := used_pages s + 1\<rparr>"
  shows "pmm_inv s'" and "used_set s' = insert (unat q) (used_set s)"
    and "total_pages s' = total_pages s" and "mem s' = mem s"
proof -
  have b: "length (bitmap s) = BITMAP_SIZE" "total_pages s \<le> MAX_PAGES"
    "unat (used_pages s) = card (used_set s)"
    using inv by (auto simp: pmm_inv_def)
  show u: "used_set s' = insert (unat q) (used_set s)"
    by (simp add: s'_def used_set_bm_set b q)
  have new: "unat q \<notin> used_set s" using free by (simp add: used_set_of_unat)
  have "card (used_set s) < unat (total_pages s)"
    using psubset_card_mono [of "{..<unat (total_pages s)}" "used_set s"] new q used_set_bound [of s]
    by (auto simp: word_less_nat_alt)
  moreover have "unat (total_pages s) \<le> 262144"
    using b(2) by (simp add: MAX_PAGES_def word_le_nat_alt)
  ultimately have "unat (used_pages s + 1) = card (used_set s) + 1"
    using b(3) by (subst unat_add_nowrap) auto
  then show "pmm_inv s'"
    using b u new by (simp add: pmm_inv_def s'_def)
qed (simp_all add: s'_def)

lemma pmm_mark_free:
  assumes inv: "pmm_inv s" and q: "q < total_pages s" and used: "bm_test q s"
  defines "s' \<equiv> (bm_clear q s)\<lparr>used_pages := used_pages s - 1\<rparr>"
  shows "pmm_inv s'" and "used_set s' = used_set s - {unat q}"
    and "total_pages s' = total_pages s" and "mem s' = mem s"
proof -
  have b: "length (bitmap s) = BITMAP_SIZE" "total_pages s \<le> MAX_PAGES"
    "unat (used_pages s) = card (used_set s)"
    using inv by (auto simp: pmm_inv_def)
  show u: "used_set s' = used_set s - {unat q}"
    by (simp add: s'_def used_set_bm_clear b q)
  have old: "unat q \<in> used_set s" using used q by (simp add: used_set_of_unat)
  then have "0 < card (used_set s)" by (auto simp: card_gt_0_iff)
  then have "used_pages s \<noteq> 0" using b(3) by auto
  then have "unat (used_pages s - 1) = card (used_set s) - 1"
    using b(3) by (simp add: unat_minus_one)
  then show "pmm_inv s'"
    using b u old by (simp add: pmm_inv_def s'_def)
qed (simp_all add: s'_def)

section \<open>The operations\<close>

lemma pmm_alloc_scan_spec:
  assumes "unat i + n \<le> unat (total_pages s)"
  shows "(\<forall>k. unat i \<le> k \<and> k < unat i + n \<longrightarrow> bm_test (of_nat k) s) \<and> pmm_alloc_scan n i s = (0, s)
    \<or> (\<exists>k. unat i \<le> k \<and> k < unat i + n \<and> \<not> bm_test (of_nat k) s
         \<and> (\<forall>j. unat i \<le> j \<and> j < k \<longrightarrow> bm_test (of_nat j) s)
         \<and> pmm_alloc_scan n i s = (of_nat k * PAGE_SIZE,
              (bm_set (of_nat k) s)\<lparr>used_pages := used_pages s + 1\<rparr>))"
  using assms
proof (induction n arbitrary: i)
  case (Suc n)
  show ?case
  proof (cases "bm_test i s")
    case False
    then show ?thesis by (intro disjI2 exI [of _ "unat i"]) (auto simp: Let_def)
  next
    case True
    have "unat i + 1 < 2 ^ 32" using Suc.prems unat_u32 [of "total_pages s"] by simp
    then have i1: "unat (i + 1) = unat i + 1" by (subst unat_add_nowrap) simp_all
    have ext: "unat i \<le> j \<longleftrightarrow> j = unat i \<or> unat (i + 1) \<le> j" for j using i1 by auto
    have "unat (i + 1) + n \<le> unat (total_pages s)" using Suc.prems i1 by simp
    from Suc.IH [OF this] show ?thesis
      using True i1 unfolding ext by (auto simp: ext)
  qed
qed auto

text \<open>Every page number in range fits a page address without wrap-around.\<close>

lemma page_addr:
  assumes "total_pages s \<le> MAX_PAGES" "k < unat (total_pages s)"
  shows "unat (of_nat k * PAGE_SIZE) = k * 4096"
proof -
  have "k < 262144" using assms by (simp add: MAX_PAGES_def word_le_nat_alt)
  then show ?thesis by (simp add: PAGE_SIZE_def unat_word_ariths unat_of_nat)
qed

lemma page_of_addr: "unat ((a :: u32) div PAGE_SIZE) = unat a div 4096"
  by (simp add: PAGE_SIZE_def unat_div)

text \<open>Allocation touches the bitmap and the counter only, whatever the state is extended with.\<close>

lemma pmm_alloc_scan_frame: "\<exists>b u. snd (pmm_alloc_scan n i s) = s\<lparr>bitmap := b, used_pages := u\<rparr>"
proof (induction n arbitrary: i)
  case 0
  show ?case by (intro exI [of _ "bitmap s"] exI [of _ "used_pages s"]) simp
next
  case (Suc n)
  then show ?case by (auto simp: Let_def bm_set_def)
qed

lemma pmm_alloc_page_frame: "pmm_alloc_page s = (p, s') \<Longrightarrow> \<exists>b u. s' = s\<lparr>bitmap := b, used_pages := u\<rparr>"
  using pmm_alloc_scan_frame [of "unat (total_pages s)" 0 s] by (simp add: pmm_alloc_page_def)

lemma pmm_alloc_page_cases:
  assumes inv: "pmm_inv s"
  obtains (full) "used_set s = {..<unat (total_pages s)}" "pmm_alloc_page s = (0, s)"
  | (ok) k s' where "k < unat (total_pages s)" "k \<notin> used_set s" "\<forall>j<k. j \<in> used_set s"
      "pmm_alloc_page s = (of_nat k * PAGE_SIZE, s')" "unat (of_nat k * PAGE_SIZE) = k * 4096"
      "pmm_inv s'" "used_set s' = insert k (used_set s)" "total_pages s' = total_pages s"
      "mem s' = mem s"
proof -
  have le: "total_pages s \<le> MAX_PAGES" using inv by (simp add: pmm_inv_def)
  from pmm_alloc_scan_spec [of 0 "unat (total_pages s)" s]
  consider (f) "\<forall>k < unat (total_pages s). bm_test (of_nat k) s" "pmm_alloc_page s = (0, s)"
    | (g) k where "k < unat (total_pages s)" "\<not> bm_test (of_nat k) s"
        "\<forall>j < k. bm_test (of_nat j) s"
        "pmm_alloc_page s = (of_nat k * PAGE_SIZE, (bm_set (of_nat k) s)\<lparr>used_pages := used_pages s + 1\<rparr>)"
    unfolding pmm_alloc_page_def by (simp only: unat_0 add_0 le0 simp_thms) blast
  then show thesis
  proof cases
    case f
    then show thesis by (intro full) (auto simp: used_set_def)
  next
    case g
    have kk: "unat (of_nat k :: u32) = k" using g(1) by (rule of_nat_page)
    have "of_nat k < total_pages s" using g(1) kk by (simp add: word_less_nat_alt)
    note mu = pmm_mark_used [OF inv this g(2), unfolded kk]
    have "k \<notin> used_set s" "\<forall>j<k. j \<in> used_set s"
      using g by (auto simp: used_set_def)
    then show thesis
      by (rule ok [OF g(1) _ _ g(4) page_addr [OF le g(1)] mu])
  qed
qed

lemma pmm_free_page_spec:
  assumes inv: "pmm_inv s"
  shows "pmm_inv (pmm_free_page a s)" and "used_set (pmm_free_page a s) = used_set s - {unat a div 4096}"
    and "total_pages (pmm_free_page a s) = total_pages s" and "mem (pmm_free_page a s) = mem s"
proof -
  let ?p = "a div PAGE_SIZE"
  have *: "pmm_inv (pmm_free_page a s) \<and> used_set (pmm_free_page a s) = used_set s - {unat a div 4096}
    \<and> total_pages (pmm_free_page a s) = total_pages s \<and> mem (pmm_free_page a s) = mem s"
  proof (cases "?p < total_pages s \<and> bm_test ?p s")
    case True
    with pmm_mark_free [OF inv, of ?p] show ?thesis
      by (simp add: pmm_free_page_def Let_def page_of_addr)
  next
    case False
    then have "unat ?p \<notin> used_set s" by (simp add: used_set_of_unat)
    moreover have "pmm_free_page a s = s" using False by (auto simp: pmm_free_page_def Let_def)
    ultimately show ?thesis using inv by (simp add: page_of_addr)
  qed
  then show "pmm_inv (pmm_free_page a s)" "used_set (pmm_free_page a s) = used_set s - {unat a div 4096}"
    "total_pages (pmm_free_page a s) = total_pages s" "mem (pmm_free_page a s) = mem s" by blast+
qed

lemma pmm_reserve_loop_spec:
  assumes "pmm_inv s" "unat i + n \<le> unat (total_pages s)"
  shows "pmm_inv (pmm_reserve_loop n i s)
    \<and> used_set (pmm_reserve_loop n i s) = used_set s \<union> {unat i..<unat i + n}
    \<and> total_pages (pmm_reserve_loop n i s) = total_pages s"
  using assms
proof (induction n arbitrary: i s)
  case (Suc n)
  let ?s = "if \<not> bm_test i s then (let s = bm_set i s in s\<lparr>used_pages := used_pages s + 1\<rparr>) else s"
  have i: "i < total_pages s" using Suc.prems(2) by (simp add: word_less_nat_alt)
  have i1: "unat (i + 1) = unat i + 1"
    using Suc.prems(2) unat_u32 [of "total_pages s"] by (subst unat_add_nowrap) auto
  have s: "pmm_inv ?s" "used_set ?s = insert (unat i) (used_set s)" "total_pages ?s = total_pages s"
    using pmm_mark_used [OF Suc.prems(1) i] Suc.prems(1) i
    by (auto simp: Let_def used_set_of_unat)
  have "unat (i + 1) + n \<le> unat (total_pages ?s)" using Suc.prems(2) i1 s(3) by simp
  note IH = Suc.IH [OF s(1) this, unfolded s(2,3) i1]
  have "insert (unat i) (used_set s) \<union> {unat i + 1..<unat i + 1 + n}
      = used_set s \<union> {unat i..<unat i + Suc n}" by auto
  with IH show ?case by (simp only: pmm_reserve_loop.simps)
qed auto

lemma pmm_init_loop_spec:
  assumes "pmm_inv s" "unat i + n \<le> unat (total_pages s)" "{unat i..<unat i + n} \<subseteq> used_set s"
  shows "pmm_inv (pmm_init_loop n i s)
    \<and> used_set (pmm_init_loop n i s) = used_set s - {unat i..<unat i + n}
    \<and> total_pages (pmm_init_loop n i s) = total_pages s"
  using assms
proof (induction n arbitrary: i s)
  case (Suc n)
  let ?s = "(bm_clear i s)\<lparr>used_pages := used_pages s - 1\<rparr>"
  have i: "i < total_pages s" using Suc.prems(2) by (simp add: word_less_nat_alt)
  have i1: "unat (i + 1) = unat i + 1"
    using Suc.prems(2) unat_u32 [of "total_pages s"] by (subst unat_add_nowrap) auto
  have "unat i \<in> used_set s" using Suc.prems(3) by auto
  then have "bm_test i s" by (simp add: used_set_of_unat)
  from pmm_mark_free [OF Suc.prems(1) i this]
  have s: "pmm_inv ?s" "used_set ?s = used_set s - {unat i}" "total_pages ?s = total_pages s" by auto
  have "{unat (i + 1)..<unat (i + 1) + n} \<subseteq> used_set ?s"
    unfolding s(2) i1 using Suc.prems(3) by auto
  moreover have "unat (i + 1) + n \<le> unat (total_pages ?s)"
    unfolding s(3) i1 using Suc.prems(2) by simp
  ultimately have "pmm_inv (pmm_init_loop n (i + 1) ?s)
    \<and> used_set (pmm_init_loop n (i + 1) ?s) = used_set ?s - {unat (i + 1)..<unat (i + 1) + n}
    \<and> total_pages (pmm_init_loop n (i + 1) ?s) = total_pages ?s"
    using s(1) by (intro Suc.IH)
  moreover have "used_set s - {unat i} - {unat i + 1..<unat i + 1 + n}
      = used_set s - {unat i..<unat i + Suc n}" by auto
  ultimately show ?case by (simp only: pmm_init_loop.simps Let_def s(2,3) i1 bm_frame)
qed simp

lemma ivl_subset_lessThan: "{a..<n} \<subseteq> {..<n :: nat}"
  by auto

lemma ivl_cut: "{..<t} - {a..<a + (t - a)} = {..<min a (t :: nat)}"
  by auto

lemma pmm_init_spec:
  fixes kb :: u32 and s :: "'a pmm_state_scheme"
  defines "tot \<equiv> min (unat kb div 4) 262144"
    and "start \<equiv> unat ((kernel_end s + PAGE_SIZE - 1) div PAGE_SIZE)"
  shows "pmm_inv (pmm_init kb s)" and "unat (total_pages (pmm_init kb s)) = tot"
    and "used_set (pmm_init kb s) = {..<min start tot}"
proof -
  let ?t = "if kb div 4 > MAX_PAGES then MAX_PAGES else kb div 4"
  let ?s = "s\<lparr>total_pages := ?t, bitmap := replicate BITMAP_SIZE 0xFFFFFFFF, used_pages := ?t\<rparr>"
  let ?st = "(kernel_end s + PAGE_SIZE - 1) div PAGE_SIZE"
  have t: "unat ?t = tot" and tm: "?t \<le> MAX_PAGES" and tl: "tot \<le> 262144"
    by (auto simp: tot_def MAX_PAGES_def word_less_nat_alt word_le_nat_alt unat_div)
  have ones: "(0xFFFFFFFF :: u32) = - 1" by simp
  have "p \<in> used_set ?s" if p: "p < tot" for p
  proof -
    have "unat (of_nat p :: u32) = p" using p tl by (intro unat_of_nat32) simp
    moreover have "p div 32 < 8192" using p tl by simp
    ultimately show ?thesis
      using p t by (simp add: used_set_def bm_test_bit BITMAP_SIZE_eq ones)
  qed
  then have u: "used_set ?s = {..<tot}" using t used_set_bound [of ?s] by auto
  then have inv: "pmm_inv ?s" using t tm by (simp add: pmm_inv_def)
  define s1 st where "s1 = ?s" and "st = ?st"
  have 1: "start = unat st" "unat (total_pages s1) = tot" "used_set s1 = {..<tot}" "pmm_inv s1"
    using t u inv by (simp_all add: s1_def st_def start_def)
  have eq: "pmm_init kb s = pmm_init_loop (tot - unat st) st s1"
    using t by (simp add: pmm_init_def Let_def s1_def st_def)
  have "pmm_inv (pmm_init_loop (tot - unat st) st s1)
      \<and> used_set (pmm_init_loop (tot - unat st) st s1)
        = used_set s1 - {unat st..<unat st + (tot - unat st)}
      \<and> total_pages (pmm_init_loop (tot - unat st) st s1) = total_pages s1"
  proof (cases "unat st \<le> tot")
    case True
    then have len: "unat st + (tot - unat st) = tot" by simp
    show ?thesis
      by (rule pmm_init_loop_spec) (simp_all only: len 1(2-4) order.refl ivl_subset_lessThan)
  qed (use 1 in simp)
  then show "pmm_inv (pmm_init kb s)" "unat (total_pages (pmm_init kb s)) = tot"
      "used_set (pmm_init kb s) = {..<min start tot}"
    by (simp_all only: 1 eq ivl_cut)
qed

lemma pmm_reserve_range_inv:
  assumes "pmm_inv s"
  shows "pmm_inv (pmm_reserve_range a sz s)" and "used_set s \<subseteq> used_set (pmm_reserve_range a sz s)"
    and "total_pages (pmm_reserve_range a sz s) = total_pages s"
proof -
  let ?f = "a div PAGE_SIZE" and ?l0 = "(a + sz + PAGE_SIZE - 1) div PAGE_SIZE"
  let ?l = "if ?l0 > total_pages s then total_pages s else ?l0"
  have "unat ?l \<le> unat (total_pages s)" by (auto simp: word_less_nat_alt word_le_nat_alt)
  then have "pmm_inv (pmm_reserve_range a sz s) \<and> used_set s \<subseteq> used_set (pmm_reserve_range a sz s)
      \<and> total_pages (pmm_reserve_range a sz s) = total_pages s"
    using assms pmm_reserve_loop_spec [OF assms, of ?f "unat ?l - unat ?f"]
    by (cases "unat ?f \<le> unat ?l") (simp_all add: pmm_reserve_range_def Let_def)
  then show "pmm_inv (pmm_reserve_range a sz s)" "used_set s \<subseteq> used_set (pmm_reserve_range a sz s)"
    "total_pages (pmm_reserve_range a sz s) = total_pages s" by blast+
qed

section \<open>The contract of a page allocator\<close>

text \<open>
  What the paging code relies on.  Page 0 counts as used: \<open>alloc\<close> reports failure by the
  null address, so a free page 0 could not be told from an exhausted memory.
\<close>

locale page_allocator =
  fixes alloc :: "'s \<Rightarrow> u32 \<times> 's" and free :: "u32 \<Rightarrow> 's \<Rightarrow> 's"
    and ok :: "'s \<Rightarrow> bool" and used :: "'s \<Rightarrow> nat set" and pages :: "'s \<Rightarrow> nat"
  assumes alloc_ok: "ok s \<Longrightarrow> alloc s = (a, s') \<Longrightarrow> a \<noteq> 0 \<Longrightarrow>
      ok s' \<and> unat a = (unat a div 4096) * 4096 \<and> unat a div 4096 < pages s
      \<and> unat a div 4096 \<notin> used s \<and> used s' = insert (unat a div 4096) (used s) \<and> pages s' = pages s"
    and alloc_null: "ok s \<Longrightarrow> alloc s = (0, s') \<Longrightarrow> s' = s \<and> used s = {..<pages s}"
    and free_ok: "ok s \<Longrightarrow> 4096 \<le> unat a \<Longrightarrow>
      ok (free a s) \<and> used (free a s) = used s - {unat a div 4096} \<and> pages (free a s) = pages s"
    and used_bound: "ok s \<Longrightarrow> used s \<subseteq> {..<pages s}"
    and page0: "ok s \<Longrightarrow> 0 \<in> used s"
begin

lemma alloc_ge: "ok s \<Longrightarrow> alloc s = (a, s') \<Longrightarrow> a \<noteq> 0 \<Longrightarrow> 4096 \<le> unat a"
  using alloc_ok [of s a s'] page0 [of s] by (cases "unat a div 4096 = 0") auto

lemma alloc_free_restores:
  assumes "ok s" "alloc s = (a, s')" "a \<noteq> 0"
  shows "used (free a s') = used s"
  using alloc_ok [OF assms] free_ok [of s' a] alloc_ge [OF assms] by auto

lemma alloc_distinct:
  assumes "ok s" "alloc s = (a, s1)" "a \<noteq> 0" "alloc s1 = (b, s2)" "b \<noteq> 0"
  shows "a \<noteq> b"
  using alloc_ok [OF assms(1-3)] alloc_ok [of s1 b s2] assms(4,5) by auto

text \<open>Freeing a list of pages removes exactly those pages.\<close>

lemma free_many:
  "ok s \<Longrightarrow> \<forall>a \<in> set as. 4096 \<le> unat a \<Longrightarrow>
   ok (fold free as s) \<and> used (fold free as s) = used s - (\<lambda>a. unat a div 4096) ` set as
   \<and> pages (fold free as s) = pages s"
  by (induction as arbitrary: s) (auto simp: free_ok)

end

definition pmm_ok :: "'a pmm_state_scheme \<Rightarrow> bool" where
  "pmm_ok s \<longleftrightarrow> pmm_inv s \<and> 0 \<in> used_set s"

interpretation pmm: page_allocator pmm_alloc_page pmm_free_page pmm_ok used_set
  "\<lambda>s. unat (total_pages s)"
proof (unfold_locales, goal_cases)
  case (1 s a s')
  then have "pmm_inv s" by (simp add: pmm_ok_def)
  then show ?case
    by (cases rule: pmm_alloc_page_cases) (use 1 in \<open>auto simp: pmm_ok_def\<close>)
next
  case (2 s s')
  then have "pmm_inv s" by (simp add: pmm_ok_def)
  then show ?case
  proof (cases rule: pmm_alloc_page_cases)
    case (ok k t)
    with 2 have "k = 0" by simp
    with ok 2 show ?thesis by (simp add: pmm_ok_def)
  qed (use 2 in simp)
next
  case (3 s a)
  then show ?case using pmm_free_page_spec [of s a] by (auto simp: pmm_ok_def)
qed (use used_set_bound in \<open>auto simp: pmm_ok_def\<close>)

section \<open>Runs of the allocator\<close>

datatype pmm_op = PAlloc | PFree u32 | PReserve u32 u32

fun pmm_step :: "pmm_op \<Rightarrow> 'a pmm_state_scheme \<Rightarrow> 'a pmm_state_scheme" where
  "pmm_step PAlloc s = snd (pmm_alloc_page s)"
| "pmm_step (PFree a) s = pmm_free_page a s"
| "pmm_step (PReserve a n) s = pmm_reserve_range a n s"

definition pmm_run :: "pmm_op list \<Rightarrow> 'a pmm_state_scheme \<Rightarrow> 'a pmm_state_scheme" where
  "pmm_run ops s = fold pmm_step ops s"

lemma pmm_step_inv:
  assumes "pmm_inv s" shows "pmm_inv (pmm_step op s) \<and> total_pages (pmm_step op s) = total_pages s"
proof (cases op)
  case PAlloc
  from assms show ?thesis
    by (cases rule: pmm_alloc_page_cases) (use assms PAlloc in auto)
qed (use assms pmm_free_page_spec pmm_reserve_range_inv in auto)

lemma pmm_run_inv: "pmm_inv s \<Longrightarrow> pmm_inv (pmm_run ops s) \<and> total_pages (pmm_run ops s) = total_pages s"
  by (induction ops arbitrary: s) (auto simp: pmm_run_def pmm_step_inv)

text \<open>Pages outside the freed ones stay used along a run.\<close>

lemma pmm_step_keeps:
  assumes "pmm_inv s" "p \<in> used_set s" "\<And>a. op = PFree a \<Longrightarrow> unat a div 4096 \<noteq> p"
  shows "p \<in> used_set (pmm_step op s)"
proof (cases op)
  case PAlloc
  from assms(1) show ?thesis
    by (cases rule: pmm_alloc_page_cases) (use assms(2) PAlloc in auto)
next
  case (PReserve a n)
  then show ?thesis using pmm_reserve_range_inv(2) [OF assms(1), of a n] assms(2) by auto
qed (use assms pmm_free_page_spec(2) in auto)

lemma pmm_run_keeps:
  assumes "pmm_inv s" "p \<in> used_set s" "\<And>a. PFree a \<in> set ops \<Longrightarrow> unat a div 4096 \<noteq> p"
  shows "p \<in> used_set (pmm_run ops s)"
  using assms
proof (induction ops arbitrary: s)
  case (Cons op ops)
  have "p \<in> used_set (pmm_step op s)"
    using Cons.prems(3) by (intro pmm_step_keeps Cons.prems(1,2)) auto
  with Cons.IH [of "pmm_step op s"] pmm_step_inv [OF Cons.prems(1), of op] Cons.prems(3)
  show ?case by (simp add: pmm_run_def)
qed (simp add: pmm_run_def)

section \<open>Properties\<close>

text \<open>\<open>pmm_alloc_page\<close> hands out the lowest free page and only that page changes state:
  on a full memory it returns \<open>NULL\<close> and changes nothing, otherwise it returns the address of
  the least page outside the used set, marks it used, and keeps counters and bitmap
  consistent.\<close>

theorem pmm_alloc_lowest_free:
  assumes "pmm_inv s"
  shows "used_set s = {..<unat (total_pages s)} \<and> pmm_alloc_page s = (0, s)
    \<or> (\<exists>k s'. pmm_alloc_page s = (of_nat k * PAGE_SIZE, s') \<and> unat (of_nat k * PAGE_SIZE) = k * 4096
         \<and> k < unat (total_pages s) \<and> k \<notin> used_set s \<and> {..<k} \<subseteq> used_set s
         \<and> used_set s' = insert k (used_set s) \<and> pmm_inv s' \<and> mem s' = mem s)"
  using assms by (cases rule: pmm_alloc_page_cases) auto

definition pmm_sample :: pmm_state where
  "pmm_sample = \<lparr>mem = (\<lambda>_. 0), bitmap = [], total_pages = 0, used_pages = 0, kernel_end = 0x200123\<rparr>"

lemma pmm_alloc_lowest_free_witness:
  "pmm_inv (pmm_init 4096 pmm_sample)
   \<and> (used_set (pmm_init 4096 pmm_sample) = {..<unat (total_pages (pmm_init 4096 pmm_sample))}
        \<and> pmm_alloc_page (pmm_init 4096 pmm_sample) = (0, pmm_init 4096 pmm_sample)
    \<or> (\<exists>k s'. pmm_alloc_page (pmm_init 4096 pmm_sample) = (of_nat k * PAGE_SIZE, s')
         \<and> unat (of_nat k * PAGE_SIZE) = k * 4096
         \<and> k < unat (total_pages (pmm_init 4096 pmm_sample))
         \<and> k \<notin> used_set (pmm_init 4096 pmm_sample) \<and> {..<k} \<subseteq> used_set (pmm_init 4096 pmm_sample)
         \<and> used_set s' = insert k (used_set (pmm_init 4096 pmm_sample)) \<and> pmm_inv s'
         \<and> mem s' = mem (pmm_init 4096 pmm_sample)))"
  using pmm_init_spec(1) [of 4096 pmm_sample]
    pmm_alloc_lowest_free [OF pmm_init_spec(1) [of 4096 pmm_sample]] by blast

text \<open>C18. After \<open>pmm_init\<close>, any sequence of allocations, frees (double frees and out-of-range
  addresses included) and reservations keeps \<open>used_pages\<close> equal to the number of set bits, so
  the reported free and used page counts are exact and add up to the total.\<close>

theorem pmm_run_accounting:
  "let s' = pmm_run ops (pmm_init kb s) in
     pmm_inv s' \<and> unat (pmm_get_used_pages s') = card (used_set s')
     \<and> unat (pmm_get_free_pages s') = card ({..<unat (pmm_get_total_pages s')} - used_set s')
     \<and> unat (pmm_get_total_pages s') = min (unat kb div 4) 262144"
proof -
  define s' where "s' = pmm_run ops (pmm_init kb s)"
  have inv: "pmm_inv s'" and tot: "total_pages s' = total_pages (pmm_init kb s)"
    using pmm_run_inv [OF pmm_init_spec(1)] by (auto simp: s'_def)
  then have u: "unat (used_pages s') = card (used_set s')" by (simp add: pmm_inv_def)
  then have "used_pages s' \<le> total_pages s'"
    using card_used_le [of s'] by (simp add: word_le_nat_alt)
  then have "unat (total_pages s' - used_pages s') = card ({..<unat (total_pages s')} - used_set s')"
    using u used_set_bound [of s'] by (simp add: unat_sub card_Diff_subset)
  then show ?thesis
    using inv u tot pmm_init_spec(2) [of kb s]
    by (simp add: Let_def s'_def pmm_get_used_pages_def pmm_get_free_pages_def pmm_get_total_pages_def)
qed

text \<open>C33. The pages that hold the kernel image are never handed out: as long as no caller frees
  one of them, an allocation after any run returns \<open>NULL\<close> or an address at or above
  \<^verbatim>\<open>_kernel_end\<close>.\<close>

theorem pmm_kernel_never_allocated:
  assumes "unat (kernel_end s) + 4095 < 2 ^ 32"
    and "\<And>a. PFree a \<in> set ops \<Longrightarrow> (kernel_end s + PAGE_SIZE - 1) div PAGE_SIZE \<le> a div PAGE_SIZE"
  shows "fst (pmm_alloc_page (pmm_run ops (pmm_init kb s))) = 0
    \<or> unat (kernel_end s) \<le> unat (fst (pmm_alloc_page (pmm_run ops (pmm_init kb s))))"
proof -
  define s0 s' where "s0 = pmm_init kb s" and "s' = pmm_run ops s0"
  define start where "start = unat ((kernel_end s + PAGE_SIZE - 1) div PAGE_SIZE)"
  have inv0: "pmm_inv s0" and used0: "used_set s0 = {..<min start (unat (total_pages s0))}"
    using pmm_init_spec(1) [of kb s] pmm_init_spec(2,3) [of kb s] by (auto simp: s0_def start_def)
  have inv: "pmm_inv s'" and tot: "total_pages s' = total_pages s0"
    using pmm_run_inv [OF inv0] by (auto simp: s'_def)
  have "kernel_end s + PAGE_SIZE - 1 = kernel_end s + 4095" by (simp add: PAGE_SIZE_def)
  then have "unat (kernel_end s + PAGE_SIZE - 1) = unat (kernel_end s) + 4095"
    using assms(1) unat_add_nowrap [of "kernel_end s" 4095] by (simp only:) simp
  then have start: "start = (unat (kernel_end s) + 4095) div 4096"
    by (simp add: start_def page_of_addr)
  have keep: "p \<in> used_set s'" if "p < start" "p < unat (total_pages s0)" for p
  proof -
    have "unat a div 4096 \<noteq> p" if a: "PFree a \<in> set ops" for a
      using assms(2) [OF a] \<open>p < start\<close>
      by (simp add: word_le_nat_alt page_of_addr start_def)
    then show ?thesis using that inv0 used0 unfolding s'_def by (intro pmm_run_keeps) auto
  qed
  from inv show ?thesis
  proof (cases rule: pmm_alloc_page_cases)
    case (ok k t)
    then have "start \<le> k" using keep [of k] tot by fastforce
    then have "unat (kernel_end s) \<le> k * 4096" using start by linarith
    then show ?thesis using ok by (simp add: s0_def s'_def)
  qed (simp add: s0_def s'_def)
qed

lemma pmm_kernel_never_allocated_witness:
  "unat (kernel_end pmm_sample) + 4095 < 2 ^ 32
   \<and> (kernel_end pmm_sample + PAGE_SIZE - 1) div PAGE_SIZE \<le> 0x300000 div PAGE_SIZE
   \<and> (fst (pmm_alloc_page (pmm_run [PAlloc, PFree 0x300000] (pmm_init 4096 pmm_sample))) = 0
      \<or> unat (kernel_end pmm_sample)
        \<le> unat (fst (pmm_alloc_page (pmm_run [PAlloc, PFree 0x300000] (pmm_init 4096 pmm_sample)))))"
proof -
  have h1: "unat (kernel_end pmm_sample) + 4095 < 2 ^ 32" by (simp add: pmm_sample_def)
  have h2: "(kernel_end pmm_sample + PAGE_SIZE - 1) div PAGE_SIZE \<le> 0x300000 div PAGE_SIZE"
    by (simp add: pmm_sample_def PAGE_SIZE_def)
  show ?thesis
    using h1 h2 pmm_kernel_never_allocated [OF h1, of "[PAlloc, PFree 0x300000]" 4096] by simp
qed

end
