(* ===== verification/Kheap.thy ===== *)
theory Kheap
  imports Pmm
begin

text \<open>
  The kernel heap, \<^verbatim>\<open>src/heap.c\<close>: a doubly linked list of blocks, each a 20-byte header
  (\<open>magic\<close>, \<open>size\<close>, \<open>free\<close>, \<open>next\<close>, \<open>prev\<close>) followed by its data.  The operations are
  modelled on the bytes of memory, pointer fields included.  The abstract heap is the list
  of the blocks in address order, each a size and a free flag; \<open>heap_rep\<close> relates the two,
  and \<open>kmalloc\<close> and \<open>kfree\<close> are shown to implement first-fit allocation and coalescing on
  the list.  The locale \<open>allocator\<close> is the contract the rest of the kernel uses.
\<close>

section \<open>Definitions\<close>

record heap_state = pmm_state +
  heap_start :: u32
  heap_total :: u32

definition HEAP_MAGIC :: u32 where "HEAP_MAGIC = 0xDEADBEEF"

text \<open>\<^verbatim>\<open>sizeof(block_header_t)\<close> and the five fields; \<^verbatim>\<open>bool\<close> is \<^verbatim>\<open>int\<close>, so every field is a word.\<close>

abbreviation HDR :: u32 where "HDR \<equiv> 20"

abbreviation (input) b_magic :: "memory \<Rightarrow> u32 \<Rightarrow> u32" where "b_magic m b \<equiv> load32 m b"
abbreviation (input) b_size :: "memory \<Rightarrow> u32 \<Rightarrow> u32" where "b_size m b \<equiv> load32 m (b + 4)"
abbreviation (input) b_free :: "memory \<Rightarrow> u32 \<Rightarrow> u32" where "b_free m b \<equiv> load32 m (b + 8)"
abbreviation (input) b_next :: "memory \<Rightarrow> u32 \<Rightarrow> u32" where "b_next m b \<equiv> load32 m (b + 12)"
abbreviation (input) b_prev :: "memory \<Rightarrow> u32 \<Rightarrow> u32" where "b_prev m b \<equiv> load32 m (b + 16)"

definition heap_init :: "u32 \<Rightarrow> u32 \<Rightarrow> 'a heap_state_scheme \<Rightarrow> 'a heap_state_scheme" where
  "heap_init start sz s =
     (let m = store32 (mem s) start HEAP_MAGIC;
          m = store32 m (start + 4) (sz - HDR);
          m = store32 m (start + 8) 1;
          m = store32 m (start + 12) 0;
          m = store32 m (start + 16) 0
      in s\<lparr>mem := m, heap_start := start, heap_total := sz\<rparr>)"

definition split_block :: "memory \<Rightarrow> u32 \<Rightarrow> u32 \<Rightarrow> memory" where
  "split_block m block sz =
     (if b_size m block < sz + HDR + 16 then m
      else
        let new_block = block + HDR + sz;
            m = store32 m new_block HEAP_MAGIC;
            m = store32 m (new_block + 4) (b_size m block - sz - HDR);
            m = store32 m (new_block + 8) 1;
            m = store32 m (new_block + 12) (b_next m block);
            m = store32 m (new_block + 16) block;
            m = (if b_next m block \<noteq> 0 then store32 m (b_next m block + 16) new_block else m);
            m = store32 m (block + 12) new_block
        in store32 m (block + 4) sz)"

text \<open>One iteration of the loop of \<open>merge_free\<close>, and the loop.\<close>

definition merge_step :: "memory \<Rightarrow> u32 \<Rightarrow> memory" where
  "merge_step m block =
     (let m = store32 m (block + 4) (b_size m block + (HDR + b_size m (b_next m block)));
          m = store32 m (block + 12) (b_next m (b_next m block))
      in if b_next m block \<noteq> 0 then store32 m (b_next m block + 16) block else m)"

partial_function (option) merge_free :: "memory \<Rightarrow> u32 \<Rightarrow> memory option" where
  "merge_free m block =
     (if b_next m block \<noteq> 0 \<and> b_free m (b_next m block) \<noteq> 0
      then merge_free (merge_step m block) block else Some m)"

partial_function (option) kmalloc_loop :: "memory \<Rightarrow> u32 \<Rightarrow> u32 \<Rightarrow> (u32 \<times> memory) option" where
  "kmalloc_loop m cur sz =
     (if cur = 0 then Some (0, m)
      else if b_free m cur \<noteq> 0 \<and> b_size m cur \<ge> sz
      then Some (cur + HDR, store32 (split_block m cur sz) (cur + 8) 0)
      else kmalloc_loop m (b_next m cur) sz)"

definition kmalloc :: "u32 \<Rightarrow> 'a heap_state_scheme \<Rightarrow> (u32 \<times> 'a heap_state_scheme) option" where
  "kmalloc sz s =
     (if sz = 0 then Some (0, s)
      else do { (p, m) \<leftarrow> kmalloc_loop (mem s) (heap_start s) ((sz + 7) AND NOT 7);
                Some (p, s\<lparr>mem := m\<rparr>) })"

definition kcalloc :: "u32 \<Rightarrow> u32 \<Rightarrow> 'a heap_state_scheme \<Rightarrow> (u32 \<times> 'a heap_state_scheme) option" where
  "kcalloc cnt sz s =
     do { (p, s) \<leftarrow> kmalloc (cnt * sz) s;
          Some (p, if p \<noteq> 0 then s\<lparr>mem := memset (mem s) p 0 (unat (cnt * sz))\<rparr> else s) }"

definition kfree :: "u32 \<Rightarrow> 'a heap_state_scheme \<Rightarrow> 'a heap_state_scheme option" where
  "kfree p s =
     (if p = 0 then Some s
      else
        let block = p - HDR in
        if b_magic (mem s) block \<noteq> HEAP_MAGIC then Some s
        else
          let m = store32 (mem s) (block + 8) 1;
              block = (if b_prev m block \<noteq> 0 \<and> b_free m (b_prev m block) \<noteq> 0
                       then b_prev m block else block)
          in do { m \<leftarrow> merge_free m block; Some (s\<lparr>mem := m\<rparr>) })"

partial_function (option) heap_sum :: "bool \<Rightarrow> memory \<Rightarrow> u32 \<Rightarrow> u32 \<Rightarrow> u32 option" where
  "heap_sum fr m cur tot =
     (if cur = 0 then Some tot
      else heap_sum fr m (b_next m cur)
             (if (b_free m cur \<noteq> 0) = fr then tot + b_size m cur else tot))"

definition heap_free_space :: "'a heap_state_scheme \<Rightarrow> u32 option" where
  "heap_free_space s = heap_sum True (mem s) (heap_start s) 0"

definition heap_used_space :: "'a heap_state_scheme \<Rightarrow> u32 option" where
  "heap_used_space s = heap_sum False (mem s) (heap_start s) 0"

section \<open>The abstract heap\<close>

text \<open>A block is its data size and its free flag; blocks follow each other without gaps.\<close>

type_synonym ablock = "nat \<times> bool"

fun span :: "ablock list \<Rightarrow> nat" where
  "span [] = 0"
| "span ((sz, fr) # bs) = 20 + sz + span bs"

text \<open>First fit with a split when at least 16 bytes of data remain.\<close>

fun alloc_abs :: "nat \<Rightarrow> nat \<Rightarrow> ablock list \<Rightarrow> (nat \<times> ablock list) option" where
  "alloc_abs n a [] = None"
| "alloc_abs n a ((sz, fr) # bs) =
     (if fr \<and> n \<le> sz
      then Some (a + 20, (if sz < n + 36 then (sz, False) # bs
                          else (n, False) # (sz - n - 20, True) # bs))
      else map_option (\<lambda>(p, bs'). (p, (sz, fr) # bs')) (alloc_abs n (a + 20 + sz) bs))"

text \<open>Marking the block whose data starts at \<open>p\<close> free, and coalescing every run of free blocks.\<close>

fun mark_free :: "nat \<Rightarrow> nat \<Rightarrow> ablock list \<Rightarrow> ablock list" where
  "mark_free p a [] = []"
| "mark_free p a ((sz, fr) # bs) =
     (if p = a + 20 then (sz, True) # bs else (sz, fr) # mark_free p (a + 20 + sz) bs)"

fun coalesce :: "ablock list \<Rightarrow> ablock list" where
  "coalesce [] = []"
| "coalesce [b] = [b]"
| "coalesce ((s1, f1) # (s2, f2) # bs) =
     (if f1 \<and> f2 then coalesce ((s1 + 20 + s2, True) # bs)
      else (s1, f1) # coalesce ((s2, f2) # bs))"

definition free_abs :: "nat \<Rightarrow> nat \<Rightarrow> ablock list \<Rightarrow> ablock list" where
  "free_abs p a bs = coalesce (mark_free p a bs)"

text \<open>No two neighbours are both free.\<close>

fun no_adj_free :: "ablock list \<Rightarrow> bool" where
  "no_adj_free ((s1, f1) # (s2, f2) # bs) \<longleftrightarrow> \<not> (f1 \<and> f2) \<and> no_adj_free ((s2, f2) # bs)"
| "no_adj_free _ \<longleftrightarrow> True"

text \<open>The data areas in use, as (address, size), and the bytes occupied by headers.\<close>

fun payloads :: "nat \<Rightarrow> ablock list \<Rightarrow> (nat \<times> nat) set" where
  "payloads a [] = {}"
| "payloads a ((sz, fr) # bs) = (if fr then {} else {(a + 20, sz)}) \<union> payloads (a + 20 + sz) bs"

fun hdr_bytes :: "nat \<Rightarrow> ablock list \<Rightarrow> nat set" where
  "hdr_bytes a [] = {}"
| "hdr_bytes a ((sz, fr) # bs) = {a..<a + 20} \<union> hdr_bytes (a + 20 + sz) bs"

text \<open>The memory image of a list of blocks: previous header, address, blocks, final \<open>next\<close>.\<close>

definition hdr :: "memory \<Rightarrow> nat \<Rightarrow> nat \<Rightarrow> bool \<Rightarrow> u32 \<Rightarrow> nat \<Rightarrow> bool" where
  "hdr m a sz fr nx pv \<longleftrightarrow> b_magic m (ptr a) = HEAP_MAGIC \<and> b_size m (ptr a) = ptr sz
     \<and> b_free m (ptr a) = (if fr then 1 else 0) \<and> b_next m (ptr a) = nx \<and> b_prev m (ptr a) = ptr pv"

fun heap_seg :: "memory \<Rightarrow> nat \<Rightarrow> nat \<Rightarrow> ablock list \<Rightarrow> u32 \<Rightarrow> bool" where
  "heap_seg m pv a [] nx \<longleftrightarrow> True"
| "heap_seg m pv a ((sz, fr) # bs) nx \<longleftrightarrow>
     hdr m a sz fr (if bs = [] then nx else ptr (a + 20 + sz)) pv
     \<and> heap_seg m a (a + 20 + sz) bs nx"

definition heap_rep :: "'a heap_state_scheme \<Rightarrow> ablock list \<Rightarrow> bool" where
  "heap_rep s bs \<longleftrightarrow> bs \<noteq> [] \<and> heap_start s \<noteq> 0
     \<and> unat (heap_start s) + span bs + 36 < 4294967296 \<and> span bs = unat (heap_total s)
     \<and> no_adj_free bs \<and> heap_seg (mem s) 0 (unat (heap_start s)) bs 0"

section \<open>The abstract operations\<close>

lemma span_append [simp]: "span (xs @ ys) = span xs + span ys"
  by (induction xs rule: span.induct) auto

lemma hdr_bytes_range: "x \<in> hdr_bytes a bs \<Longrightarrow> a \<le> x \<and> x < a + span bs"
  by (induction a bs rule: hdr_bytes.induct) fastforce+

lemma payloads_range: "(p, k) \<in> payloads a bs \<Longrightarrow> a + 20 \<le> p \<and> p + k \<le> a + span bs"
  by (induction a bs rule: payloads.induct) (fastforce split: if_splits)+

lemma payloads_hdr_bytes: "(p, k) \<in> payloads a bs \<Longrightarrow> {p..<p + k} \<inter> hdr_bytes a bs = {}"
proof (induction a bs rule: payloads.induct)
  case (2 a sz fr bs)
  show ?case
  proof (cases "(p, k) \<in> payloads (a + 20 + sz) bs")
    case True
    with 2 payloads_range [OF True] show ?thesis by fastforce
  next
    case False
    with 2 have "p = a + 20" "k = sz" by (auto split: if_splits)
    then show ?thesis using hdr_bytes_range [of _ "a + 20 + sz" bs] by fastforce
  qed
qed simp

lemma payloads_disjoint:
  "(p, k) \<in> payloads a bs \<Longrightarrow> (q, l) \<in> payloads a bs \<Longrightarrow>
   p = q \<and> k = l \<or> p \<noteq> q \<and> {p..<p + k} \<inter> {q..<q + l} = {}"
proof (induction a bs rule: payloads.induct)
  case (2 a sz fr bs)
  have far: "a + 20 + sz + 20 \<le> r" if "(r, j) \<in> payloads (a + 20 + sz) bs" for r j
    using payloads_range [OF that] by simp
  from 2 far show ?case by (fastforce split: if_splits)
qed simp

lemma payloads_append: "payloads a (xs @ ys) = payloads a xs \<union> payloads (a + span xs) ys"
  by (induction a xs rule: payloads.induct) (auto simp: add.assoc)

lemma alloc_abs_shape:
  "alloc_abs n a bs = Some (p, bs') \<Longrightarrow>
   bs \<noteq> [] \<and> bs' \<noteq> [] \<and> span bs' = span bs \<and> (snd (hd bs') \<longrightarrow> snd (hd bs))"
  by (induction n a bs arbitrary: bs' rule: alloc_abs.induct) (auto split: if_splits)

lemma no_adj_free_Cons:
  "no_adj_free ((s, f) # bs) \<longleftrightarrow> no_adj_free bs \<and> (f \<and> bs \<noteq> [] \<longrightarrow> \<not> snd (hd bs))"
  by (cases bs rule: list.exhaust) auto

lemma alloc_abs_no_adj_free:
  "alloc_abs n a bs = Some (p, bs') \<Longrightarrow> no_adj_free bs \<Longrightarrow> no_adj_free bs'"
proof (induction n a bs arbitrary: bs' rule: alloc_abs.induct)
  case (2 n a sz fr bs)
  show ?case
  proof (cases "fr \<and> n \<le> sz")
    case True
    with 2 show ?thesis by (auto simp: no_adj_free_Cons split: if_splits)
  next
    case False
    with 2 obtain bs2 where b: "alloc_abs n (a + 20 + sz) bs = Some (p, bs2)" "bs' = (sz, fr) # bs2"
      by auto
    with 2 False alloc_abs_shape [OF b(1)] show ?thesis by (auto simp: no_adj_free_Cons)
  qed
qed simp

lemma payloads_used: "payloads a ((sz, False) # bs) = insert (a + 20, sz) (payloads (a + 20 + sz) bs)"
  and payloads_free: "payloads a ((sz, True) # bs) = payloads (a + 20 + sz) bs"
  by simp_all

lemma payloads_split:
  assumes "n + 20 \<le> sz"
  shows "payloads a ((n, False) # (sz - n - 20, True) # bs) = insert (a + 20, n) (payloads (a + 20 + sz) bs)"
proof -
  have "a + 20 + n + 20 + (sz - n - 20) = a + 20 + sz" using assms by simp
  then show ?thesis by (simp only: payloads_used payloads_free)
qed

lemma alloc_abs_payloads:
  "alloc_abs n a bs = Some (p, bs') \<Longrightarrow>
   \<exists>sz \<ge> n. payloads a bs' = insert (p, sz) (payloads a bs) \<and> (\<forall>k. (p, k) \<notin> payloads a bs)"
proof (induction n a bs arbitrary: bs' rule: alloc_abs.induct)
  case (2 n a sz fr bs)
  show ?case
  proof (cases "fr \<and> n \<le> sz")
    case True
    then have "(p, k) \<notin> payloads a ((sz, fr) # bs)" for k
      using 2 payloads_range [of p k "a + 20 + sz" bs] by auto
    moreover have "\<exists>k \<ge> n. payloads a bs' = insert (p, k) (payloads a ((sz, fr) # bs))"
      using True 2 payloads_split [of n sz a bs]
      by (cases "sz < n + 36") (auto simp del: payloads.simps(2) simp: payloads_used payloads_free)
    ultimately show ?thesis by blast
  next
    case False
    with "2.prems" obtain bs2 where b: "alloc_abs n (a + 20 + sz) bs = Some (p, bs2)"
      "bs' = (sz, fr) # bs2" by auto
    from "2.IH" [OF False b(1)] obtain k where k: "k \<ge> n"
      "payloads (a + 20 + sz) bs2 = insert (p, k) (payloads (a + 20 + sz) bs)"
      "\<forall>k. (p, k) \<notin> payloads (a + 20 + sz) bs" by blast
    have "p \<noteq> a + 20" using k(2) payloads_range [of p k "a + 20 + sz" bs2] by auto
    with k b show ?thesis by (auto intro!: exI [of _ k])
  qed
qed simp

lemma alloc_abs_None: "alloc_abs n a bs = None \<longleftrightarrow> (\<forall>(sz, fr) \<in> set bs. fr \<longrightarrow> sz < n)"
  by (induction n a bs rule: alloc_abs.induct) auto

lemma coalesce_span: "span (coalesce bs) = span bs"
  by (induction bs rule: coalesce.induct) auto

lemma coalesce_payloads: "payloads a (coalesce bs) = payloads a bs"
proof (induction bs arbitrary: a rule: coalesce.induct)
  case (3 s1 f1 s2 f2 bs)
  have *: "a + 20 + (s1 + 20 + s2) = a + 20 + s1 + 20 + s2" by simp
  show ?case
  proof (cases "f1 \<and> f2")
    case True
    with "3.IH"(1) [OF True, of a] show ?thesis by (simp only: coalesce.simps payloads.simps *) simp
  next
    case False
    with "3.IH"(2) [OF False, of "a + 20 + s1"] show ?thesis
      by (simp only: coalesce.simps payloads.simps if_False)
  qed
qed auto

lemma coalesce_hd: "bs \<noteq> [] \<Longrightarrow> coalesce bs \<noteq> [] \<and> snd (hd (coalesce bs)) = snd (hd bs)"
  by (induction bs rule: coalesce.induct) auto

lemma coalesce_no_adj_free: "no_adj_free (coalesce bs)"
proof (induction bs rule: coalesce.induct)
  case (3 s1 f1 s2 f2 bs)
  then show ?case
    using coalesce_hd [of "(s2, f2) # bs"] by (cases f1; cases f2) (simp_all add: no_adj_free_Cons)
qed auto

lemma coalesce_id: "no_adj_free bs \<Longrightarrow> coalesce bs = bs"
  by (induction bs rule: coalesce.induct) (auto simp: no_adj_free_Cons)

lemma mark_free_span: "span (mark_free p a bs) = span bs"
  by (induction p a bs rule: mark_free.induct) auto

lemma mark_free_payloads: "payloads a (mark_free p a bs) = {(q, k). (q, k) \<in> payloads a bs \<and> q \<noteq> p}"
proof (induction p a bs rule: mark_free.induct)
  case (2 p a sz fr bs)
  have "(a + 20, k) \<notin> payloads (a + 20 + sz) bs" for k
    using payloads_range [of "a + 20" k "a + 20 + sz" bs] by auto
  with 2 show ?case by (auto split: if_splits)
qed simp

section \<open>The memory image\<close>

lemma hdr_cong:
  assumes "\<And>x. a \<le> x \<Longrightarrow> x < a + 20 \<Longrightarrow> m (ptr x) = m' (ptr x)"
  shows "hdr m a sz fr nx pv = hdr m' a sz fr nx pv"
proof -
  have "load32 m (ptr (a + k)) = load32 m' (ptr (a + k))" if "k \<le> 16" for k
    using that by (intro load32_cong_ptr assms) auto
  from this [of 0] this [of 4] this [of 8] this [of 12] this [of 16] show ?thesis
    by (simp add: hdr_def)
qed

lemma heap_seg_cong:
  "\<forall>x \<in> hdr_bytes a bs. m (ptr x) = m' (ptr x) \<Longrightarrow> heap_seg m pv a bs nx = heap_seg m' pv a bs nx"
proof (induction bs arbitrary: pv a)
  case (Cons b bs)
  obtain sz fr where b: "b = (sz, fr)" by force
  have "hdr m a sz fr x pv = hdr m' a sz fr x pv" for x
    using Cons.prems by (intro hdr_cong) (auto simp: b)
  then show ?case using Cons.IH [of "a + 20 + sz" a] Cons.prems by (simp add: b)
qed simp

lemma hdr_store_other:
  "x + 4 \<le> a \<or> a + 20 \<le> x \<Longrightarrow> x + 4 \<le> 4294967296 \<Longrightarrow> a + 20 \<le> 4294967296 \<Longrightarrow>
   hdr (store32 m (ptr x) v) a sz fr nx pv = hdr m a sz fr nx pv"
  by (rule hdr_cong, rule store32_byte_ptr) auto

lemma heap_seg_store_other:
  assumes "x + 4 \<le> a \<or> a + span bs \<le> x" "x + 4 \<le> 4294967296" "a + span bs \<le> 4294967296"
  shows "heap_seg (store32 m (ptr x) v) pv a bs nx = heap_seg m pv a bs nx"
proof (rule heap_seg_cong, rule ballI)
  fix y assume "y \<in> hdr_bytes a bs"
  then show "store32 m (ptr x) v (ptr y) = m (ptr y)"
    using hdr_bytes_range [of y a bs] assms by (intro store32_byte_ptr) auto
qed

lemma heap_seg_set_prev:
  assumes "heap_seg m pv a bs nx" "bs \<noteq> []" "a + span bs \<le> 4294967296"
  shows "heap_seg (store32 m (ptr (a + 16)) (ptr pv')) pv' a bs nx"
proof -
  obtain sz fr bs' where bs: "bs = (sz, fr) # bs'" using assms(2) by (cases bs) auto
  with assms show ?thesis by (simp add: hdr_def heap_seg_store_other)
qed

lemma split_block_seg:
  assumes seg: "heap_seg m pv a ((sz, True) # bs) 0" and n: "n + 36 \<le> sz"
    and a: "0 < a" and bound: "a + span ((sz, True) # bs) < 4294967296"
  defines "m' \<equiv> store32 (split_block m (ptr a) (ptr n)) (ptr a + 8) 0"
    and "bs' \<equiv> (n, False) # (sz - n - 20, True) # bs"
  shows "heap_seg m' pv a bs' 0" "\<forall>x < 4294967296. x \<notin> hdr_bytes a bs' \<longrightarrow> m' (ptr x) = m (ptr x)"
proof -
  let ?nb = "a + 20 + n" and ?nx = "if bs = [] then 0 else ptr (a + 20 + sz)"
  have h: "b_magic m (ptr a) = HEAP_MAGIC" "b_size m (ptr a) = ptr sz" "b_next m (ptr a) = ?nx"
    "b_prev m (ptr a) = ptr pv" "heap_seg m a (a + 20 + sz) bs 0"
    using seg by (auto simp: hdr_def)
  have guard: "\<not> b_size m (ptr a) < ptr n + HDR + 16" using n bound h by simp
  have sz': "ptr sz - ptr n - HDR = ptr (sz - n - 20)" using n by (simp add: ptr_minus)
  define m1 where "m1 = store32 (store32 (store32 (store32 (store32 m (ptr ?nb) HEAP_MAGIC)
      (ptr (?nb + 4)) (ptr (sz - n - 20))) (ptr (?nb + 8)) 1) (ptr (?nb + 12)) ?nx) (ptr (?nb + 16)) (ptr a)"
  define m2 where "m2 = (if bs = [] then m1 else store32 m1 (ptr (a + 20 + sz + 16)) (ptr ?nb))"
  have m': "m' = store32 (store32 (store32 m2 (ptr (a + 12)) (ptr ?nb)) (ptr (a + 4)) (ptr n)) (ptr (a + 8)) 0"
  proof -
    have "split_block m (ptr a) (ptr n) = store32 (store32 m2 (ptr (a + 12)) (ptr ?nb)) (ptr (a + 4)) (ptr n)"
      using guard n bound a h
      by (simp add: split_block_def Let_def m2_def m1_def sz')
    then show ?thesis by (simp add: m'_def)
  qed
  show "heap_seg m' pv a bs' 0" 
  proof (cases "bs = []")
    case True
    then show ?thesis using h n bound a unfolding m' bs'_def m2_def m1_def by (simp add: hdr_def)
  next
    case False
    have "heap_seg m1 a (a + 20 + sz) bs 0"
      using h(5) n bound unfolding m1_def by (simp add: heap_seg_store_other)
    then have "heap_seg m2 ?nb (a + 20 + sz) bs 0"
      using heap_seg_set_prev [of m1 a "a + 20 + sz" bs 0 ?nb] False bound by (simp add: m2_def)
    then have rest: "heap_seg m' ?nb (a + 20 + sz) bs 0"
      using n bound unfolding m' by (simp add: heap_seg_store_other)
    obtain s2 f2 bs2 where bs: "bs = (s2, f2) # bs2" using False by (cases bs) auto
    have "hdr m' ?nb (sz - n - 20) True (ptr (a + 20 + sz)) a" "hdr m' a n False (ptr ?nb) pv"
      using h n bound bs unfolding m' m2_def m1_def by (simp_all add: hdr_def)
    moreover have "?nb + 20 + (sz - n - 20) = a + 20 + sz" using n by simp
    ultimately show ?thesis
      using rest False by (simp only: bs'_def heap_seg.simps list.simps if_False simp_thms)
  qed
  show "\<forall>x < 4294967296. x \<notin> hdr_bytes a bs' \<longrightarrow> m' (ptr x) = m (ptr x)"
  proof (intro allI impI)
    fix x assume x: "x < 4294967296" "x \<notin> hdr_bytes a bs'"
    then have out: "x < a \<or> a + 20 \<le> x" "x < ?nb \<or> ?nb + 20 \<le> x"
      by (auto simp: bs'_def not_less)
    have out2: "x < a + 20 + sz \<or> a + 20 + sz + 20 \<le> x" if "bs \<noteq> []"
      using x n that by (cases bs) (auto simp: bs'_def not_less)
    have "m1 (ptr x) = m (ptr x)"
      using out x(1) n bound unfolding m1_def by (auto simp: store32_byte_ptr)
    moreover have "m2 (ptr x) = m1 (ptr x)"
      using out2 x(1) n bound by (cases bs) (auto simp: m2_def)
    moreover have "m' (ptr x) = m2 (ptr x)"
      using out x(1) n bound unfolding m' by (auto simp: store32_byte_ptr)
    ultimately show "m' (ptr x) = m (ptr x)" by simp
  qed
qed


text \<open>The search loop of \<open>kmalloc\<close> on the image of a list of blocks is \<open>alloc_abs\<close>.\<close>

lemma kmalloc_loop_refines:
  assumes "heap_seg m pv a bs 0" "0 < a" "a + span bs + 36 < 4294967296" "n < 4294967296"
  shows "case alloc_abs n a bs of
      None \<Rightarrow> kmalloc_loop m (if bs = [] then 0 else ptr a) (ptr n) = Some (0, m)
    | Some (p, bs') \<Rightarrow> \<exists>m'. kmalloc_loop m (if bs = [] then 0 else ptr a) (ptr n) = Some (ptr p, m')
        \<and> heap_seg m' pv a bs' 0
        \<and> (\<forall>x < 4294967296. x \<notin> hdr_bytes a bs \<union> hdr_bytes a bs' \<longrightarrow> m' (ptr x) = m (ptr x))"
  using assms
proof (induction bs arbitrary: pv a)
  case Nil
  then show ?case by (simp add: kmalloc_loop.simps)
next
  case (Cons b bs)
  obtain sz fr where b: "b = (sz, fr)" by force
  let ?c = "a + 20 + sz"
  have h: "b_size m (ptr a) = ptr sz" "b_free m (ptr a) = (if fr then 1 else 0)"
    "b_next m (ptr a) = (if bs = [] then 0 else ptr ?c)" "heap_seg m a ?c bs 0"
    and hd: "hdr m a sz fr (if bs = [] then 0 else ptr ?c) pv"
    using Cons.prems(1) by (auto simp: b hdr_def)
  have bnd: "0 < ?c" "?c + span bs + 36 < 4294967296" "a < 4294967296" "sz + 36 < 4294967296"
    using Cons.prems(2,3) by (auto simp: b)
  show ?case
  proof (cases "fr \<and> n \<le> sz")
    case True
    then have fr: "b = (sz, True)" by (simp add: b)
    have lp: "kmalloc_loop m (ptr a) (ptr n)
        = Some (ptr (a + 20), store32 (split_block m (ptr a) (ptr n)) (ptr a + 8) 0)"
      using True bnd Cons.prems(2,4) h by (subst kmalloc_loop.simps) simp
    show ?thesis
    proof (cases "sz < n + 36")
      case small: True
      then have "split_block m (ptr a) (ptr n) = m"
        using h bnd True by (simp add: split_block_def)
      then show ?thesis
        using lp True small Cons.prems(3) hd h(4)
        by (auto simp: fr hdr_def heap_seg_store_other)
    next
      case False
      have seg: "heap_seg m pv a ((sz, True) # bs) 0" and bd: "a + span ((sz, True) # bs) < 4294967296"
        using Cons.prems fr by auto
      from False have "n + 36 \<le> sz" by simp
      from split_block_seg [OF seg this Cons.prems(2) bd] lp True False show ?thesis
        by (auto simp: fr simp del: heap_seg.simps hdr_bytes.simps)
    qed
  next
    case False
    have lp: "kmalloc_loop m (ptr a) (ptr n) = kmalloc_loop m (if bs = [] then 0 else ptr ?c) (ptr n)"
      using False bnd Cons.prems(2,4) h by (subst kmalloc_loop.simps) auto
    note IH = Cons.IH [OF h(4) bnd(1,2) Cons.prems(4)]
    show ?thesis
    proof (cases "alloc_abs n ?c bs")
      case None
      then show ?thesis using IH lp False by (auto simp: b)
    next
      case (Some r)
      obtain p bs' where r: "r = (p, bs')" by force
      from IH Some r obtain m' where m': "kmalloc_loop m (ptr a) (ptr n) = Some (ptr p, m')"
        "heap_seg m' a ?c bs' 0"
        "\<forall>x < 4294967296. x \<notin> hdr_bytes ?c bs \<union> hdr_bytes ?c bs' \<longrightarrow> m' (ptr x) = m (ptr x)"
        using lp by auto
      have shape: "bs \<noteq> []" "bs' \<noteq> []" "span bs' = span bs"
        using alloc_abs_shape [of n ?c bs p bs'] Some r by auto
      have "hdr m' a sz fr (ptr ?c) pv = hdr m a sz fr (ptr ?c) pv"
      proof (rule hdr_cong)
        fix x assume "a \<le> x" "x < a + 20"
        then show "m' (ptr x) = m (ptr x)"
          using m'(3) bnd hdr_bytes_range [of x ?c bs] hdr_bytes_range [of x ?c bs'] by force
      qed
      then show ?thesis using m' hd shape Some r False by (auto simp: b)
    qed
  qed
qed


text \<open>
  \<open>merge_free\<close> absorbs the free blocks that follow: \<open>n\<close> iterations merge the first \<open>n\<close>
  blocks of the rest.
\<close>

fun absorb :: "nat \<Rightarrow> ablock list \<Rightarrow> ablock list" where
  "absorb sz ((s2, True) # bs) = absorb (sz + 20 + s2) bs"
| "absorb sz bs = (sz, True) # bs"

lemma absorb_span: "span (absorb sz bs) = 20 + sz + span bs"
  by (induction sz bs rule: absorb.induct) auto

lemma absorb_not_Nil: "absorb sz bs \<noteq> []"
  by (induction sz bs rule: absorb.induct) auto

lemma absorb_coalesce: "no_adj_free bs \<Longrightarrow> absorb sz bs = coalesce ((sz, True) # bs)"
  by (induction sz bs rule: absorb.induct) (auto simp: coalesce_id no_adj_free_Cons)

lemma merge_step_seg:
  assumes seg: "heap_seg m pv a ((sz, True) # (s2, f2) # bs) 0"
    and a: "0 < a" and bound: "a + span ((sz, True) # (s2, f2) # bs) < 4294967296"
  shows "heap_seg (merge_step m (ptr a)) pv a ((sz + 20 + s2, True) # bs) 0"
    and "\<forall>x < 4294967296. x \<notin> hdr_bytes a ((sz, True) # (s2, f2) # bs) \<longrightarrow>
           merge_step m (ptr a) (ptr x) = m (ptr x)"
proof -
  let ?b = "a + 20 + sz" and ?c = "a + 20 + sz + 20 + s2"
  have h: "b_magic m (ptr a) = HEAP_MAGIC" "b_size m (ptr a) = ptr sz" "b_free m (ptr a) = 1"
    "b_next m (ptr a) = ptr ?b" "b_prev m (ptr a) = ptr pv"
    "b_size m (ptr ?b) = ptr s2" "b_next m (ptr ?b) = (if bs = [] then 0 else ptr ?c)"
    "heap_seg m ?b ?c bs 0"
    using seg by (auto simp: hdr_def)
  define m1 where "m1 = store32 (store32 m (ptr (a + 4)) (ptr (sz + 20 + s2)))
      (ptr (a + 12)) (if bs = [] then 0 else ptr ?c)"
  have ms: "merge_step m (ptr a) = (if bs = [] then m1 else store32 m1 (ptr (?c + 16)) (ptr a))"
    using h bound a unfolding merge_step_def by (simp add: Let_def m1_def ptr_numeral [symmetric] add.assoc)
  have c: "a + 20 + (sz + 20 + s2) = ?c" by simp
  have hd: "hdr (merge_step m (ptr a)) a (sz + 20 + s2) True (if bs = [] then 0 else ptr ?c) pv"
    using h bound unfolding ms m1_def by (cases bs) (auto simp: hdr_def)
  have "heap_seg (merge_step m (ptr a)) a ?c bs 0"
  proof (cases "bs = []")
    case False
    have "heap_seg m1 ?b ?c bs 0"
      using h(8) bound unfolding m1_def by (simp add: heap_seg_store_other)
    from heap_seg_set_prev [OF this False, of a] show ?thesis
      using False bound by (simp add: ms)
  qed simp
  with hd show "heap_seg (merge_step m (ptr a)) pv a ((sz + 20 + s2, True) # bs) 0"
    by (simp only: heap_seg.simps c simp_thms)
  show "\<forall>x < 4294967296. x \<notin> hdr_bytes a ((sz, True) # (s2, f2) # bs) \<longrightarrow>
           merge_step m (ptr a) (ptr x) = m (ptr x)"
  proof (intro allI impI)
    fix x assume x: "x < 4294967296" "x \<notin> hdr_bytes a ((sz, True) # (s2, f2) # bs)"
    then have out: "x < a \<or> a + 20 \<le> x" by auto
    have out2: "x < ?c \<or> ?c + 20 \<le> x" if "bs \<noteq> []" using x that by (cases bs) auto
    have "m1 (ptr x) = m (ptr x)" using out x(1) bound unfolding m1_def by auto
    then show "merge_step m (ptr a) (ptr x) = m (ptr x)"
      using out2 x(1) bound by (cases bs) (auto simp: ms)
  qed
qed

lemma merge_free_refines:
  assumes "heap_seg m pv a ((sz, True) # bs) 0" "0 < a" "a + span ((sz, True) # bs) < 4294967296"
  shows "\<exists>m'. merge_free m (ptr a) = Some m' \<and> heap_seg m' pv a (absorb sz bs) 0
    \<and> (\<forall>x < 4294967296. x \<notin> hdr_bytes a ((sz, True) # bs) \<longrightarrow> m' (ptr x) = m (ptr x))"
  using assms
proof (induction sz bs arbitrary: m rule: absorb.induct [case_names merge none used])
  case (merge sz s2 bs)
  let ?m = "merge_step m (ptr a)" and ?b = "a + 20 + sz"
  have "b_next m (ptr a) = ptr ?b" "b_free m (ptr ?b) = 1"
    using merge.prems(1) by (auto simp: hdr_def)
  then have step: "merge_free m (ptr a) = merge_free ?m (ptr a)"
    using merge.prems(2,3) by (subst merge_free.simps) simp
  note ms = merge_step_seg [OF merge.prems]
  have bnd: "a + span ((sz + 20 + s2, True) # bs) < 4294967296" using merge.prems(3) by simp
  from merge.IH [OF ms(1) merge.prems(2) bnd] obtain m' where m': "merge_free ?m (ptr a) = Some m'"
    "heap_seg m' pv a (absorb (sz + 20 + s2) bs) 0"
    "\<forall>x < 4294967296. x \<notin> hdr_bytes a ((sz + 20 + s2, True) # bs) \<longrightarrow> m' (ptr x) = ?m (ptr x)"
    by blast
  have "hdr_bytes a ((sz + 20 + s2, True) # bs) \<subseteq> hdr_bytes a ((sz, True) # (s2, True) # bs)"
    by (auto simp: add.assoc)
  with m' ms(2) step show ?case by (auto simp del: hdr_bytes.simps)
next
  case (none sz)
  then have "merge_free m (ptr a) = Some m" by (subst merge_free.simps) (simp add: hdr_def)
  with none show ?case by simp
next
  case (used sz s2 bs)
  then have "merge_free m (ptr a) = Some m" by (subst merge_free.simps) (simp add: hdr_def)
  with used show ?case by simp
qed


text \<open>Lists of blocks under append; \<open>last_hdr\<close> is the address of the last header.\<close>

fun last_hdr :: "nat \<Rightarrow> nat \<Rightarrow> ablock list \<Rightarrow> nat" where
  "last_hdr pv a [] = pv"
| "last_hdr pv a ((sz, fr) # bs) = last_hdr a (a + 20 + sz) bs"

lemma last_hdr_snoc [simp]: "last_hdr pv a (bs @ [(sz, fr)]) = a + span bs"
  by (induction pv a bs rule: last_hdr.induct) auto

lemma heap_seg_append:
  "heap_seg m pv a (xs @ ys) nx \<longleftrightarrow>
   heap_seg m pv a xs (if ys = [] then nx else ptr (a + span xs))
   \<and> heap_seg m (last_hdr pv a xs) (a + span xs) ys nx"
proof (induction pv a xs rule: last_hdr.induct)
  case (2 pv a sz fr bs)
  then show ?case by (cases "bs = []"; cases "ys = []") (auto simp: add.assoc)
qed auto

lemma hdr_bytes_append: "hdr_bytes a (xs @ ys) = hdr_bytes a xs \<union> hdr_bytes (a + span xs) ys"
  by (induction a xs rule: hdr_bytes.induct) (auto simp: add.assoc)

lemma mark_free_append:
  "mark_free (a + span xs + 20) a (xs @ (k, fr) # ys) = xs @ (k, True) # ys"
proof (induction xs arbitrary: a)
  case (Cons b xs)
  obtain sz f where b: "b = (sz, f)" by force
  have "a + span (b # xs) + 20 = a + 20 + sz + span xs + 20" by (simp add: b)
  with Cons.IH [of "a + 20 + sz"] show ?case by (simp only: b append_Cons mark_free.simps) auto
qed simp

lemma payloads_decomp:
  "(p, k) \<in> payloads a bs \<Longrightarrow> \<exists>xs ys. bs = xs @ (k, False) # ys \<and> p = a + span xs + 20"
proof (induction a bs rule: payloads.induct)
  case (2 a sz fr bs)
  show ?case
  proof (cases "(p, k) \<in> payloads (a + 20 + sz) bs")
    case True
    with "2.IH" obtain xs ys where "bs = xs @ (k, False) # ys" "p = a + 20 + sz + span xs + 20" by blast
    then show ?thesis by (intro exI [of _ "(sz, fr) # xs"] exI [of _ ys]) simp
  next
    case False
    with "2.prems" show ?thesis by (intro exI [of _ "[]"] exI [of _ bs]) (auto split: if_splits)
  qed
qed simp

lemma coalesce_append:
  "no_adj_free xs \<Longrightarrow> xs = [] \<or> \<not> snd (last xs) \<Longrightarrow> coalesce (xs @ ys) = xs @ coalesce ys"
proof (induction xs rule: no_adj_free.induct [case_names two none one])
  case (two s1 f1 s2 f2 bs)
  then show ?case by auto
next
  case (one b)
  then show ?case by (cases b; cases ys) auto
qed auto

lemma no_adj_free_append:
  "no_adj_free (xs @ ys) \<longleftrightarrow> no_adj_free xs \<and> no_adj_free ys
     \<and> (xs \<noteq> [] \<and> ys \<noteq> [] \<longrightarrow> \<not> (snd (last xs) \<and> snd (hd ys)))"
  by (induction xs rule: no_adj_free.induct) (auto simp: no_adj_free_Cons)

lemma merge_free_at:
  assumes seg: "heap_seg m 0 a (xs @ (sz, True) # ys) 0"
    and a: "0 < a" and bound: "a + span (xs @ (sz, True) # ys) < 4294967296"
  shows "\<exists>m'. merge_free m (ptr (a + span xs)) = Some m' \<and> heap_seg m' 0 a (xs @ absorb sz ys) 0
    \<and> (\<forall>x < 4294967296. x \<notin> hdr_bytes a (xs @ (sz, True) # ys) \<longrightarrow> m' (ptr x) = m (ptr x))"
proof -
  let ?c = "a + span xs" and ?pv = "last_hdr 0 a xs"
  have s: "heap_seg m 0 a xs (ptr ?c)" "heap_seg m ?pv ?c ((sz, True) # ys) 0"
    using seg by (auto simp: heap_seg_append)
  have c: "0 < ?c" "?c + span ((sz, True) # ys) < 4294967296" using a bound by auto
  from merge_free_refines [OF s(2) c] obtain m' where m': "merge_free m (ptr ?c) = Some m'"
    "heap_seg m' ?pv ?c (absorb sz ys) 0"
    "\<forall>x < 4294967296. x \<notin> hdr_bytes ?c ((sz, True) # ys) \<longrightarrow> m' (ptr x) = m (ptr x)" by blast
  have "m' (ptr x) = m (ptr x)" if "x \<in> hdr_bytes a xs" for x
    using that m'(3) hdr_bytes_range [of x a xs] hdr_bytes_range [of x ?c "(sz, True) # ys"] c by force
  then have "heap_seg m' 0 a xs (ptr ?c)" using s(1) heap_seg_cong [of a xs m' m] by blast
  with m' show ?thesis by (auto simp: heap_seg_append absorb_not_Nil hdr_bytes_append)
qed

lemma kfree_refines:
  fixes s :: "'a heap_state_scheme"
  assumes rep: "heap_rep s bs" and pay: "(unat p, k) \<in> payloads (unat (heap_start s)) bs"
  shows "\<exists>m'. kfree p s = Some (s\<lparr>mem := m'\<rparr>)
    \<and> heap_rep (s\<lparr>mem := m'\<rparr>) (free_abs (unat p) (unat (heap_start s)) bs)
    \<and> (\<forall>x < 4294967296. x \<notin> hdr_bytes (unat (heap_start s)) bs \<longrightarrow> m' (ptr x) = mem s (ptr x))"
proof -
  let ?a = "unat (heap_start s)"
  have r: "heap_seg (mem s) 0 ?a bs 0" "0 < ?a" "?a + span bs < 4294967296"
    "span bs = unat (heap_total s)" "no_adj_free bs"
    using rep by (auto simp: heap_rep_def unat_gt_0)
  obtain xs ys where bs: "bs = xs @ (k, False) # ys" and p: "unat p = ?a + span xs + 20"
    using payloads_decomp [OF pay] by blast
  let ?c = "?a + span xs"
  have blk: "p - HDR = ptr ?c" and p0: "p \<noteq> 0"
  proof -
    have "p = ptr (?c + 20)" using p by (metis ptr_unat)
    then show "p - HDR = ptr ?c" by simp
    show "p \<noteq> 0" using p by auto
  qed
  let ?m1 = "store32 (mem s) (ptr (?c + 8)) 1"
  have h: "hdr (mem s) ?c k False (if ys = [] then 0 else ptr (?c + 20 + k)) (last_hdr 0 ?a xs)"
    using r(1) by (simp add: bs heap_seg_append)
  have seg1: "heap_seg ?m1 0 ?a (xs @ (k, True) # ys) 0"
    using r(1,3) h unfolding bs heap_seg_append by (auto simp: heap_seg_store_other hdr_def)
  have mark: "mark_free (unat p) ?a bs = xs @ (k, True) # ys"
    unfolding p bs by (rule mark_free_append)
  have adj: "no_adj_free xs" "no_adj_free ys" using r(5) by (auto simp: bs no_adj_free_append no_adj_free_Cons)
  define blk where "blk = (if b_prev ?m1 (ptr ?c) \<noteq> 0 \<and> b_free ?m1 (b_prev ?m1 (ptr ?c)) \<noteq> 0
                           then b_prev ?m1 (ptr ?c) else ptr ?c)"
  have kf: "kfree p s = do { m \<leftarrow> merge_free ?m1 blk; Some (s\<lparr>mem := m\<rparr>) }"
    using p0 h r(3) by (simp add: kfree_def blk Let_def hdr_def blk_def bs)
  have bound1: "?a + span (xs @ (k, True) # ys) < 4294967296" using r(3) by (simp add: bs)
  have hb: "hdr_bytes ?a (xs @ (k, True) # ys) = hdr_bytes ?a bs" by (simp add: bs hdr_bytes_append)
  have "\<exists>m'. merge_free ?m1 blk = Some m'
      \<and> heap_seg m' 0 ?a (coalesce (xs @ (k, True) # ys)) 0
      \<and> (\<forall>x < 4294967296. x \<notin> hdr_bytes ?a bs \<longrightarrow> m' (ptr x) = ?m1 (ptr x))"
  proof (cases "xs = [] \<or> \<not> snd (last xs)")
    case True
    have "blk = ptr ?c"
    proof (cases xs rule: rev_cases)
      case Nil
      then show ?thesis using h r(3) by (simp add: blk_def hdr_def bs ptr_numeral)
    next
      case (snoc zs z)
      obtain s1 f1 where z: "z = (s1, f1)" by force
      have "\<not> f1" using True snoc z by simp
      moreover have "hdr (mem s) (?a + span zs) s1 f1 (ptr ?c) (last_hdr 0 ?a zs)"
        using r(1) by (simp add: bs snoc z heap_seg_append add.assoc)
      ultimately show ?thesis using h r(2,3) by (simp add: blk_def hdr_def bs snoc z)
    qed
    then show ?thesis
      using merge_free_at [OF seg1 r(2) bound1] True adj
      by (simp add: coalesce_append absorb_coalesce hb)
  next
    case False
    then obtain zs s1 where xs: "xs = zs @ [(s1, True)]" by (cases xs rule: rev_cases) auto
    have "hdr (mem s) (?a + span zs) s1 True (ptr ?c) (last_hdr 0 ?a zs)"
      using r(1) by (simp add: bs xs heap_seg_append add.assoc)
    then have blk: "blk = ptr (?a + span zs)"
      using h r(2,3) by (simp add: blk_def hdr_def bs xs)
    have seg2: "heap_seg ?m1 0 ?a (zs @ (s1, True) # (k, True) # ys) 0"
      and bound2: "?a + span (zs @ (s1, True) # (k, True) # ys) < 4294967296"
      using seg1 bound1 by (simp_all add: xs)
    have z: "no_adj_free zs" "zs = [] \<or> \<not> snd (last zs)"
      using adj(1) by (auto simp: xs no_adj_free_append)
    have "absorb s1 ((k, True) # ys) = coalesce ((s1, True) # (k, True) # ys)"
      using adj(2) by (simp add: absorb_coalesce)
    then have "zs @ absorb s1 ((k, True) # ys) = coalesce (xs @ (k, True) # ys)"
      using coalesce_append [OF z] by (simp add: xs)
    then show ?thesis
      using merge_free_at [OF seg2 r(2) bound2] hb by (simp add: blk xs)
  qed
  then obtain m' where m': "merge_free ?m1 blk = Some m'"
      "heap_seg m' 0 ?a (coalesce (xs @ (k, True) # ys)) 0"
      "\<forall>x < 4294967296. x \<notin> hdr_bytes ?a bs \<longrightarrow> m' (ptr x) = ?m1 (ptr x)" by blast
  have m1: "?m1 (ptr x) = mem s (ptr x)" if "x < 4294967296" "x \<notin> hdr_bytes ?a bs" for x
  proof -
    have "x < ?c \<or> ?c + 20 \<le> x" using that by (auto simp: bs hdr_bytes_append)
    then show ?thesis using that r(3) by (auto simp: bs)
  qed
  have sp: "span (coalesce (xs @ (k, True) # ys)) = span bs" by (simp add: coalesce_span bs)
  have ne: "coalesce (xs @ (k, True) # ys) \<noteq> []" using coalesce_hd [of "xs @ (k, True) # ys"] by simp
  have "kfree p s = Some (s\<lparr>mem := m'\<rparr>)" using kf m'(1) by simp
  moreover have "heap_rep (s\<lparr>mem := m'\<rparr>) (free_abs (unat p) ?a bs)"
    unfolding heap_rep_def free_abs_def mark
    using ne sp r m'(2) coalesce_no_adj_free rep by (auto simp: heap_rep_def)
  ultimately show ?thesis using m'(3) m1 by auto
qed


section \<open>Refinement of the heap operations\<close>

lemma unat_align8: "unat ((w :: u32) AND NOT 7) = unat w div 8 * 8"
proof -
  have m: "(7 :: u32) = mask 3" by (simp add: mask_eq_exp_minus_1)
  have "w AND NOT 7 = push_bit 3 (drop_bit 3 w)"
    unfolding m by (rule bit_word_eqI) (auto simp: bit_simps)
  then have eq: "w = (w AND NOT 7) + take_bit 3 w" by (simp add: bits_ident)
  have tb: "unat (take_bit 3 w) = unat w mod 8" by (simp add: take_bit_eq_mod unat_mod)
  then have "take_bit 3 w \<le> w" by (simp add: word_le_nat_alt)
  moreover have "w AND NOT 7 = w - take_bit 3 w" using eq by (metis add_diff_cancel_right')
  ultimately have "unat (w AND NOT 7) = unat w - unat w mod 8" using tb by (simp add: unat_sub)
  then show ?thesis by (simp add: minus_mod_eq_div_mult)
qed

definition round8 :: "nat \<Rightarrow> nat" where
  "round8 n = (n + 7) div 8 * 8"

lemma round8_ge: "n \<le> round8 n"
  by (simp add: round8_def)

lemma align_request: "unat sz \<le> 4294967288 \<Longrightarrow> (sz + 7) AND NOT 7 = ptr (round8 (unat sz))"
proof -
  assume "unat sz \<le> 4294967288"
  then have "unat (sz + 7) = unat sz + 7" by (subst unat_add_nowrap) simp_all
  then have "unat ((sz + 7) AND NOT 7) = round8 (unat sz)" by (simp only: unat_align8 round8_def)
  then show ?thesis by (metis ptr_unat)
qed

lemma heap_repD:
  assumes "heap_rep s bs"
  shows "heap_seg (mem s) 0 (unat (heap_start s)) bs 0" "0 < unat (heap_start s)"
    "unat (heap_start s) + span bs + 36 < 4294967296" "no_adj_free bs" "bs \<noteq> []"
    "ptr (unat (heap_start s)) = heap_start s"
  using assms by (auto simp: heap_rep_def unat_gt_0 ptr_unat)

lemma kmalloc_refines:
  fixes s :: "'a heap_state_scheme"
  assumes rep: "heap_rep s bs" and sz: "sz \<noteq> 0" "unat sz \<le> 4294967288"
  shows "case alloc_abs (round8 (unat sz)) (unat (heap_start s)) bs of
      None \<Rightarrow> kmalloc sz s = Some (0, s)
    | Some (p, bs') \<Rightarrow> \<exists>m'. kmalloc sz s = Some (ptr p, s\<lparr>mem := m'\<rparr>)
        \<and> heap_rep (s\<lparr>mem := m'\<rparr>) bs'
        \<and> (\<forall>x < 4294967296. x \<notin> hdr_bytes (unat (heap_start s)) bs \<union> hdr_bytes (unat (heap_start s)) bs'
             \<longrightarrow> m' (ptr x) = mem s (ptr x))"
proof -
  let ?a = "unat (heap_start s)" and ?n = "round8 (unat sz)"
  note r = heap_repD [OF rep]
  have "?n < 4294967296" using sz(2) by (simp add: round8_def)
  note loop = kmalloc_loop_refines [OF r(1-3) this]
  have km: "kmalloc sz s = do { (p, m) \<leftarrow> kmalloc_loop (mem s) (ptr ?a) (ptr ?n); Some (p, s\<lparr>mem := m\<rparr>) }"
    using sz(1) by (simp only: kmalloc_def align_request [OF sz(2)] r(6) if_False)
  show ?thesis
  proof (cases "alloc_abs ?n ?a bs")
    case None
    with loop km r(5) show ?thesis by simp
  next
    case (Some q)
    obtain p bs' where q: "q = (p, bs')" by force
    from loop Some q r(5) obtain m' where m': "kmalloc_loop (mem s) (ptr ?a) (ptr ?n) = Some (ptr p, m')"
      "heap_seg m' 0 ?a bs' 0"
      "\<forall>x < 4294967296. x \<notin> hdr_bytes ?a bs \<union> hdr_bytes ?a bs' \<longrightarrow> m' (ptr x) = mem s (ptr x)"
      by auto
    have "heap_rep (s\<lparr>mem := m'\<rparr>) bs'"
      using m'(2) rep r(4) alloc_abs_shape [of ?n ?a bs p bs'] alloc_abs_no_adj_free [of ?n ?a bs p bs'] Some q
      by (auto simp: heap_rep_def)
    with m' km Some q show ?thesis by auto
  qed
qed

lemma heap_init_rep:
  assumes "start \<noteq> 0" "20 \<le> unat sz" "unat start + unat sz + 36 < 4294967296"
  shows "heap_rep (heap_init start sz s) [(unat sz - 20, True)]"
proof -
  obtain a n where p: "start = ptr a" "sz = ptr n" "a < 4294967296" "n < 4294967296"
    using ptr_unat unat_u32 by metis
  with assms have "20 \<le> n" "a + n + 36 < 4294967296" "a \<noteq> 0" by auto
  with p show ?thesis
    by (simp add: heap_rep_def heap_init_def Let_def hdr_def ptr_numeral)
qed


section \<open>The contract of a memory allocator\<close>

text \<open>
  What \<open>kmalloc\<close> and \<open>kfree\<close> promise to the rest of the kernel.  \<open>rep s B\<close>: the heap of
  state \<open>s\<close> is intact and \<open>B\<close> is the set of data areas in use, as (address, size).
  Requests above \<open>0xFFFFFFF8\<close> are excluded: rounding them up to a multiple of 8 wraps to 0.
\<close>

locale allocator =
  fixes malloc :: "u32 \<Rightarrow> 's \<Rightarrow> (u32 \<times> 's) option"
    and release :: "u32 \<Rightarrow> 's \<Rightarrow> 's option"
    and rep :: "'s \<Rightarrow> (nat \<times> nat) set \<Rightarrow> bool"
    and memory_of :: "'s \<Rightarrow> memory"
    and with_memory :: "memory \<Rightarrow> 's \<Rightarrow> 's"
  assumes malloc_returns: "rep s B \<Longrightarrow> unat n \<le> 4294967288 \<Longrightarrow> \<exists>p s'. malloc n s = Some (p, s')"
    and malloc_null: "rep s B \<Longrightarrow> unat n \<le> 4294967288 \<Longrightarrow> malloc n s = Some (0, s') \<Longrightarrow> s' = s"
    and malloc_ok: "rep s B \<Longrightarrow> unat n \<le> 4294967288 \<Longrightarrow> malloc n s = Some (p, s') \<Longrightarrow> p \<noteq> 0 \<Longrightarrow>
        \<exists>k m. unat n \<le> k \<and> rep s' (insert (unat p, k) B) \<and> (\<forall>l. (unat p, l) \<notin> B) \<and> s' = with_memory m s
          \<and> (\<forall>(q, l) \<in> B. \<forall>x. q \<le> x \<and> x < q + l \<longrightarrow> memory_of s' (ptr x) = memory_of s (ptr x))"
    and release_ok: "rep s B \<Longrightarrow> (unat p, k) \<in> B \<Longrightarrow>
        \<exists>m. release p s = Some (with_memory m s) \<and> rep (with_memory m s) (B - {(unat p, k)})
          \<and> (\<forall>(q, l) \<in> B. \<forall>x. q \<le> x \<and> x < q + l \<longrightarrow> m (ptr x) = memory_of s (ptr x))"
    and rep_disjoint: "rep s B \<Longrightarrow> (a, k) \<in> B \<Longrightarrow> (q, l) \<in> B \<Longrightarrow>
        a = q \<and> k = l \<or> a \<noteq> q \<and> {a..<a + k} \<inter> {q..<q + l} = {}"
    and rep_range: "rep s B \<Longrightarrow> (a, k) \<in> B \<Longrightarrow> 0 < a \<and> a + k < 4294967296"
    and rep_write: "rep s B \<Longrightarrow> (a, k) \<in> B \<Longrightarrow>
        (\<forall>x < 4294967296. x < a \<or> a + k \<le> x \<longrightarrow> m (ptr x) = memory_of s (ptr x)) \<Longrightarrow> rep (with_memory m s) B"
    and memory_of_with [simp]: "memory_of (with_memory m s) = m"
begin

text \<open>Allocating and then releasing restores the set of areas in use.\<close>

lemma malloc_release:
  assumes "rep s B" "unat n \<le> 4294967288" "malloc n s = Some (p, s1)" "p \<noteq> 0"
  shows "\<exists>s2. release p s1 = Some s2 \<and> rep s2 B"
proof -
  from malloc_ok [OF assms] obtain k where k: "rep s1 (insert (unat p, k) B)" "\<forall>l. (unat p, l) \<notin> B"
    by blast
  from release_ok [OF k(1), of p k] obtain m where
    "release p s1 = Some (with_memory m s1)" "rep (with_memory m s1) (insert (unat p, k) B - {(unat p, k)})"
    by blast
  moreover have "insert (unat p, k) B - {(unat p, k)} = B" using k(2) by auto
  ultimately show ?thesis by auto
qed

text \<open>Two live areas never share a byte, so data written to one is not changed through the other.\<close>

lemma malloc_fresh:
  assumes "rep s B" "unat n \<le> 4294967288" "malloc n s = Some (p, s')" "p \<noteq> 0" "(q, l) \<in> B"
  shows "{unat p..<unat p + unat n} \<inter> {q..<q + l} = {}"
proof -
  from malloc_ok [OF assms(1-4)] obtain k where k: "unat n \<le> k" "rep s' (insert (unat p, k) B)"
    "\<forall>l. (unat p, l) \<notin> B" by blast
  have "unat p \<noteq> q" using k(3) assms(5) by auto
  then have "{unat p..<unat p + k} \<inter> {q..<q + l} = {}"
    using rep_disjoint [OF k(2), of "unat p" k q l] assms(5) by auto
  then show ?thesis using k(1) by auto
qed

end

definition heap_areas :: "'a heap_state_scheme \<Rightarrow> (nat \<times> nat) set \<Rightarrow> bool" where
  "heap_areas s B \<longleftrightarrow> (\<exists>bs. heap_rep s bs \<and> B = payloads (unat (heap_start s)) bs)"

lemma heap_areas_frame:
  assumes "\<forall>x < 4294967296. x \<notin> H \<longrightarrow> m' (ptr x) = m (ptr x)"
    and "\<And>q l. (q, l) \<in> B \<Longrightarrow> {q..<q + l} \<inter> H = {} \<and> q + l \<le> 4294967296"
  shows "\<forall>(q, l) \<in> B. \<forall>x. q \<le> x \<and> x < q + l \<longrightarrow> m' (ptr x) = m (ptr x)"
proof clarify
  fix q l x assume x: "(q, l) \<in> B" "q \<le> x" "x < q + l"
  have "x \<in> {q..<q + l}" using x by simp
  then have "x \<notin> H" "x < 4294967296" using assms(2) [OF x(1)] by auto
  then show "m' (ptr x) = m (ptr x)" using assms(1) by simp
qed


lemma kmalloc_cases:
  assumes "heap_areas s B" "unat n \<le> 4294967288"
  obtains (null) "kmalloc n s = Some (0, s)"
  | (ok) p k m' where "p \<noteq> 0" "kmalloc n s = Some (p, s\<lparr>mem := m'\<rparr>)" "round8 (unat n) \<le> k"
      "heap_areas (s\<lparr>mem := m'\<rparr>) (insert (unat p, k) B)" "\<forall>l. (unat p, l) \<notin> B"
      "\<forall>(q, l) \<in> B. \<forall>x. q \<le> x \<and> x < q + l \<longrightarrow> m' (ptr x) = mem s (ptr x)"
proof (cases "n = 0")
  case True
  then show thesis using null by (simp add: kmalloc_def)
next
  case False
  let ?a = "unat (heap_start s)"
  obtain bs where rep: "heap_rep s bs" and B: "B = payloads ?a bs" using assms(1) by (auto simp: heap_areas_def)
  note r = heap_repD [OF rep]
  note ref = kmalloc_refines [OF rep False assms(2)]
  show thesis
  proof (cases "alloc_abs (round8 (unat n)) ?a bs")
    case None
    with ref null show thesis by simp
  next
    case (Some q)
    obtain p bs' where q: "q = (p, bs')" by force
    from ref Some q obtain m' where m': "kmalloc n s = Some (ptr p, s\<lparr>mem := m'\<rparr>)"
      "heap_rep (s\<lparr>mem := m'\<rparr>) bs'"
      "\<forall>x < 4294967296. x \<notin> hdr_bytes ?a bs \<union> hdr_bytes ?a bs' \<longrightarrow> m' (ptr x) = mem s (ptr x)" by auto
    from alloc_abs_payloads [of "round8 (unat n)" ?a bs p bs'] Some q obtain k where
      k: "round8 (unat n) \<le> k" "payloads ?a bs' = insert (p, k) (payloads ?a bs)"
        "\<forall>l. (p, l) \<notin> payloads ?a bs" by blast
    have sp: "span bs' = span bs" using alloc_abs_shape [of "round8 (unat n)" ?a bs p bs'] Some q by simp
    have p: "?a + 20 \<le> p" "p < 4294967296"
      using payloads_range [of p k ?a bs'] k(2) r(3) sp by auto
    then have pp: "unat (ptr p) = p" "ptr p \<noteq> 0" by auto
    have "{x..<x + l} \<inter> (hdr_bytes ?a bs \<union> hdr_bytes ?a bs') = {} \<and> x + l \<le> 4294967296"
      if "(x, l) \<in> B" for x l
      using payloads_hdr_bytes [of x l ?a bs] payloads_hdr_bytes [of x l ?a bs'] that k(2) B
        payloads_range [of x l ?a bs] r(3) by auto
    from heap_areas_frame [OF m'(3) this]
    show thesis
      using m' k p B by (intro ok [of "ptr p" m' k]) (auto simp: pp heap_areas_def)
  qed
qed

interpretation kheap: allocator kmalloc kfree heap_areas mem "\<lambda>m s. s\<lparr>mem := m\<rparr>"
proof (unfold_locales, goal_cases)
  case (1 s B n)
  then show ?case by (cases rule: kmalloc_cases) auto
next
  case (2 s B n s')
  then show ?case by (cases rule: kmalloc_cases) auto
next
  case (3 s B n p s')
  from 3(1,2) show ?case
  proof (cases rule: kmalloc_cases)
    case (ok p' k m')
    then show ?thesis using 3(3) round8_ge [of "unat n"] by (auto intro!: exI [of _ k] exI [of _ m'])
  qed (use 3 in simp)
next
  case (4 s B p k)
  then obtain bs where rep: "heap_rep s bs" and B: "B = payloads (unat (heap_start s)) bs"
    by (auto simp: heap_areas_def)
  let ?a = "unat (heap_start s)"
  note r = heap_repD [OF rep]
  from kfree_refines [OF rep] 4 B obtain m' where m': "kfree p s = Some (s\<lparr>mem := m'\<rparr>)"
    "heap_rep (s\<lparr>mem := m'\<rparr>) (free_abs (unat p) ?a bs)"
    "\<forall>x < 4294967296. x \<notin> hdr_bytes ?a bs \<longrightarrow> m' (ptr x) = mem s (ptr x)" by blast
  have "l = k" if "(unat p, l) \<in> B" for l
    using payloads_disjoint [of "unat p" l ?a bs "unat p" k] 4(2) that B by blast
  then have "{(q, l). (q, l) \<in> B \<and> q \<noteq> unat p} = B - {(unat p, k)}" by blast
  then have "payloads ?a (free_abs (unat p) ?a bs) = B - {(unat p, k)}"
    by (simp only: free_abs_def coalesce_payloads mark_free_payloads B)
  then have "heap_areas (s\<lparr>mem := m'\<rparr>) (B - {(unat p, k)})"
    unfolding heap_areas_def using m'(2) by (intro exI [of _ "free_abs (unat p) ?a bs"]) simp
  moreover have "{x..<x + l} \<inter> hdr_bytes ?a bs = {} \<and> x + l \<le> 4294967296" if "(x, l) \<in> B" for x l
    using payloads_hdr_bytes [of x l ?a bs] that B payloads_range [of x l ?a bs] r(3) by auto
  then have "\<forall>(q, l) \<in> B. \<forall>x. q \<le> x \<and> x < q + l \<longrightarrow> m' (ptr x) = mem s (ptr x)"
    by (intro heap_areas_frame [OF m'(3)]) auto
  ultimately show ?case using m'(1) by blast
next
  case (5 s B a k q l)
  then obtain bs where B: "B = payloads (unat (heap_start s)) bs" by (auto simp: heap_areas_def)
  from 5(2,3) have "(a, k) \<in> payloads (unat (heap_start s)) bs" "(q, l) \<in> payloads (unat (heap_start s)) bs"
    unfolding B .
  from payloads_disjoint [OF this] show ?case by blast
next
  case (6 s B a k)
  then obtain bs where rep: "heap_rep s bs" and B: "(a, k) \<in> payloads (unat (heap_start s)) bs"
    by (auto simp: heap_areas_def)
  then show ?case using payloads_range [OF B] heap_repD(3) [OF rep] by auto
next
  case (7 s B a k m)
  then obtain bs where rep: "heap_rep s bs" and B: "B = payloads (unat (heap_start s)) bs"
    by (auto simp: heap_areas_def)
  let ?a = "unat (heap_start s)"
  have "m (ptr x) = mem s (ptr x)" if x: "x \<in> hdr_bytes ?a bs" for x
  proof -
    have "x \<notin> {a..<a + k}" using payloads_hdr_bytes [of a k ?a bs] 7(2) B x by blast
    moreover have "x < 4294967296" using hdr_bytes_range [OF x] heap_repD(3) [OF rep] by simp
    ultimately show ?thesis using 7(3) by auto
  qed
  then have "heap_seg m 0 ?a bs 0" using heap_seg_cong [of ?a bs m "mem s"] heap_repD(1) [OF rep] by blast
  then show ?case using rep B by (auto simp: heap_areas_def heap_rep_def)
qed simp

text \<open>The allocator keeps to its arena: bytes outside it are never changed, and writing outside it
  does not disturb the heap.\<close>

locale arena_allocator = allocator malloc release rep memory_of with_memory
  for malloc :: "u32 \<Rightarrow> 's \<Rightarrow> (u32 \<times> 's) option" and release and rep and memory_of and with_memory +
  fixes arena :: "'s \<Rightarrow> nat set"
  assumes malloc_outside: "rep s B \<Longrightarrow> unat n \<le> 4294967288 \<Longrightarrow> malloc n s = Some (p, s') \<Longrightarrow> x < 4294967296 \<Longrightarrow> x \<notin> arena s \<Longrightarrow>
        memory_of s' (ptr x) = memory_of s (ptr x)"
    and release_outside: "rep s B \<Longrightarrow> (unat p, k) \<in> B \<Longrightarrow> release p s = Some s' \<Longrightarrow> x < 4294967296 \<Longrightarrow> x \<notin> arena s \<Longrightarrow>
        memory_of s' (ptr x) = memory_of s (ptr x)"
    and rep_frame: "rep s B \<Longrightarrow> \<forall>x \<in> arena s. m (ptr x) = memory_of s (ptr x) \<Longrightarrow> rep (with_memory m s) B"
    and rep_arena: "rep s B \<Longrightarrow> (a, k) \<in> B \<Longrightarrow> {a..<a + k} \<subseteq> arena s"
    and arena_with [simp]: "arena (with_memory m s) = arena s"
begin

text \<open>A buffer a caller may rely on across calls: outside the arena, or inside one area in use.\<close>

definition stable :: "'s \<Rightarrow> (nat \<times> nat) set \<Rightarrow> nat \<Rightarrow> nat \<Rightarrow> bool" where
  "stable s B a n \<longleftrightarrow> a + n \<le> 4294967296 \<and> ({a..<a + n} \<inter> arena s = {} \<or> (\<exists>(q, l) \<in> B. q \<le> a \<and> a + n \<le> q + l))"

lemma stable_malloc:
  assumes "rep s B" "unat n \<le> 4294967288" "malloc n s = Some (p, s')" "stable s B a k" "i < k"
  shows "memory_of s' (ptr (a + i)) = memory_of s (ptr (a + i))"
proof (cases "{a..<a + k} \<inter> arena s = {}")
  case True
  with assms(4,5) have "a + i < 4294967296" "a + i \<notin> arena s" by (auto simp: stable_def disjoint_iff)
  then show ?thesis using malloc_outside [OF assms(1-3)] by blast
next
  case False
  with assms(4) obtain q l where q: "(q, l) \<in> B" "q \<le> a" "a + k \<le> q + l" by (auto simp: stable_def)
  show ?thesis
  proof (cases "p = 0")
    case True
    then show ?thesis using malloc_null [OF assms(1,2)] assms(3) by auto
  next
    case False
    from malloc_ok [OF assms(1-3) False] have "\<forall>(q, l) \<in> B. \<forall>x. q \<le> x \<and> x < q + l \<longrightarrow> memory_of s' (ptr x) = memory_of s (ptr x)" by blast
    with q assms(5) show ?thesis by force
  qed
qed

lemma stable_release:
  assumes "rep s B" "(unat p, l) \<in> B" "release p s = Some s'" "stable s B a k" "i < k"
  shows "memory_of s' (ptr (a + i)) = memory_of s (ptr (a + i))"
proof (cases "{a..<a + k} \<inter> arena s = {}")
  case True
  with assms(4,5) have "a + i < 4294967296" "a + i \<notin> arena s" by (auto simp: stable_def disjoint_iff)
  then show ?thesis using release_outside [OF assms(1-3)] by blast
next
  case False
  with assms(4) obtain q l where q: "(q, l) \<in> B" "q \<le> a" "a + k \<le> q + l" by (auto simp: stable_def)
  from release_ok [OF assms(1,2)] assms(3)
  have "\<forall>(q, l) \<in> B. \<forall>x. q \<le> x \<and> x < q + l \<longrightarrow> memory_of s' (ptr x) = memory_of s (ptr x)" by auto
  with q assms(5) show ?thesis by force
qed

end

definition heap_arena :: "'a heap_state_scheme \<Rightarrow> nat set" where
  "heap_arena s = {unat (heap_start s)..<unat (heap_start s) + unat (heap_total s)}"

lemma heap_arena_mem [simp]: "heap_arena (s\<lparr>mem := m\<rparr>) = heap_arena s"
  by (simp add: heap_arena_def)

lemma heap_arena_span: "heap_rep s bs \<Longrightarrow> heap_arena s = {unat (heap_start s)..<unat (heap_start s) + span bs}"
  by (simp add: heap_arena_def heap_rep_def)

interpretation kheap_arena: arena_allocator kmalloc kfree heap_areas mem "\<lambda>m s. s\<lparr>mem := m\<rparr>" heap_arena
proof (unfold_locales, goal_cases)
  case (1 s B n p s' x)
  then obtain bs where rep: "heap_rep s bs" by (auto simp: heap_areas_def)
  show ?case
  proof (cases "n = 0")
    case True
    then show ?thesis using 1(3) by (simp add: kmalloc_def)
  next
    case False
    have "x \<notin> hdr_bytes (unat (heap_start s)) bs'" if "span bs' = span bs" for bs'
      using 1(5) hdr_bytes_range [of x "unat (heap_start s)" bs'] that by (auto simp: heap_arena_span [OF rep])
    with kmalloc_refines [OF rep False 1(2)] 1(3,4) show ?thesis
      by (auto split: option.splits dest: alloc_abs_shape)
  qed
next
  case (2 s B p k s' x)
  then obtain bs where rep: "heap_rep s bs" and B: "B = payloads (unat (heap_start s)) bs" by (auto simp: heap_areas_def)
  have "x \<notin> hdr_bytes (unat (heap_start s)) bs"
    using 2(5) hdr_bytes_range [of x "unat (heap_start s)" bs] by (auto simp: heap_arena_span [OF rep])
  with kfree_refines [OF rep, of p k] 2(2-4) B show ?case by auto
next
  case (3 s B m)
  then obtain bs where rep: "heap_rep s bs" and B: "B = payloads (unat (heap_start s)) bs" by (auto simp: heap_areas_def)
  have "m (ptr x) = mem s (ptr x)" if "x \<in> hdr_bytes (unat (heap_start s)) bs" for x
    using hdr_bytes_range [OF that] 3(2) by (auto simp: heap_arena_span [OF rep])
  then have "heap_seg m 0 (unat (heap_start s)) bs 0" using heap_seg_cong [of _ bs m "mem s"] heap_repD(1) [OF rep] by blast
  then show ?case using rep B by (auto simp: heap_areas_def heap_rep_def)
next
  case (4 s B a k)
  then obtain bs where rep: "heap_rep s bs" and B: "(a, k) \<in> payloads (unat (heap_start s)) bs" by (auto simp: heap_areas_def)
  then show ?case using payloads_range [OF B] by (auto simp: heap_arena_span [OF rep])
qed simp


section \<open>Accounting\<close>

fun free_sum :: "ablock list \<Rightarrow> nat" where
  "free_sum [] = 0"
| "free_sum ((sz, fr) # bs) = (if fr then sz else 0) + free_sum bs"

fun used_sum :: "ablock list \<Rightarrow> nat" where
  "used_sum [] = 0"
| "used_sum ((sz, fr) # bs) = (if fr then 0 else sz) + used_sum bs"

lemma free_used_span: "free_sum bs + used_sum bs + 20 * length bs = span bs"
  by (induction bs rule: span.induct) auto

lemma heap_sum_refines:
  assumes "heap_seg m pv a bs 0" "0 < a" "a + span bs < 4294967296" "t + span bs < 4294967296"
  shows "heap_sum fr m (if bs = [] then 0 else ptr a) (ptr t)
    = Some (ptr (t + (if fr then free_sum bs else used_sum bs)))"
  using assms
proof (induction bs arbitrary: pv a t)
  case (Cons b bs)
  obtain sz f where b: "b = (sz, f)" by force
  let ?c = "a + 20 + sz" and ?t = "if f = fr then t + sz else t"
  have h: "b_size m (ptr a) = ptr sz" "b_free m (ptr a) = (if f then 1 else 0)"
    "b_next m (ptr a) = (if bs = [] then 0 else ptr ?c)" "heap_seg m a ?c bs 0"
    using Cons.prems(1) by (auto simp: b hdr_def)
  have "heap_sum fr m (ptr a) (ptr t) = heap_sum fr m (if bs = [] then 0 else ptr ?c) (ptr ?t)"
    using h Cons.prems(2,3) by (subst heap_sum.simps) (auto simp: b)
  also have "\<dots> = Some (ptr (?t + (if fr then free_sum bs else used_sum bs)))"
    using Cons.prems(2-4) h(4) by (intro Cons.IH) (auto simp: b)
  finally show ?case by (auto simp: b add.assoc)
qed (simp add: heap_sum.simps)

lemma heap_space_rep:
  assumes "heap_rep s bs"
  shows "heap_free_space s = Some (ptr (free_sum bs))" "heap_used_space s = Some (ptr (used_sum bs))"
proof -
  note r = heap_repD [OF assms]
  have b: "unat (heap_start s) + span bs < 4294967296" "0 + span bs < 4294967296" using r(3) by auto
  from heap_sum_refines [OF r(1,2) b, of True] heap_sum_refines [OF r(1,2) b, of False]
  show "heap_free_space s = Some (ptr (free_sum bs))" "heap_used_space s = Some (ptr (used_sum bs))"
    using r(5,6) by (simp_all add: heap_free_space_def heap_used_space_def ptr_numeral)
qed

section \<open>Sequences of calls\<close>

text \<open>A client's calls in order; the results of the allocations are collected.  The reference
  run works on the list of blocks and is undefined when the client breaks the contract: a
  request above \<open>0xFFFFFFF8\<close> bytes, or a free of an address that is not a live area.\<close>

datatype heap_op = HMalloc u32 | HFree u32

fun heap_run :: "heap_op list \<Rightarrow> 'a heap_state_scheme \<Rightarrow> (u32 list \<times> 'a heap_state_scheme) option" where
  "heap_run [] s = Some ([], s)"
| "heap_run (HMalloc n # ops) s =
     do { (p, s) \<leftarrow> kmalloc n s; (ps, s) \<leftarrow> heap_run ops s; Some (p # ps, s) }"
| "heap_run (HFree p # ops) s = do { s \<leftarrow> kfree p s; heap_run ops s }"

fun heap_run_abs :: "heap_op list \<Rightarrow> nat \<Rightarrow> ablock list \<Rightarrow> (nat list \<times> ablock list) option" where
  "heap_run_abs [] a bs = Some ([], bs)"
| "heap_run_abs (HMalloc n # ops) a bs =
     (if unat n > 4294967288 then None
      else
        let (p, bs) = (if n = 0 then (0, bs)
                       else case alloc_abs (round8 (unat n)) a bs of None \<Rightarrow> (0, bs) | Some r \<Rightarrow> r)
        in do { (ps, bs) \<leftarrow> heap_run_abs ops a bs; Some (p # ps, bs) })"
| "heap_run_abs (HFree p # ops) a bs =
     (if p = 0 then heap_run_abs ops a bs
      else if unat p \<in> fst ` payloads a bs then heap_run_abs ops a (free_abs (unat p) a bs)
      else None)"

lemma kmalloc_step:
  assumes rep: "heap_rep s bs" and n: "unat n \<le> 4294967288"
    and p: "(if n = 0 then (0, bs)
      else case alloc_abs (round8 (unat n)) (unat (heap_start s)) bs of None \<Rightarrow> (0, bs) | Some r \<Rightarrow> r) = (p, bs')"
  shows "\<exists>m. kmalloc n s = Some (ptr p, s\<lparr>mem := m\<rparr>) \<and> heap_rep (s\<lparr>mem := m\<rparr>) bs'"
proof (cases "n = 0 \<or> alloc_abs (round8 (unat n)) (unat (heap_start s)) bs = None")
  case True
  with p have "p = 0" "bs' = bs" by (auto split: if_splits)
  moreover have "kmalloc n s = Some (0, s)"
    using True kmalloc_refines [OF rep _ n] by (cases "n = 0") (auto simp: kmalloc_def)
  ultimately show ?thesis using rep by (intro exI [of _ "mem s"]) simp
next
  case False
  with p have "alloc_abs (round8 (unat n)) (unat (heap_start s)) bs = Some (p, bs')" by auto
  with kmalloc_refines [OF rep _ n] False show ?thesis by auto
qed

lemma heap_run_refines_abs:
  "heap_rep s bs \<Longrightarrow> heap_run_abs ops (unat (heap_start s)) bs = Some (ps, bs') \<Longrightarrow>
   \<exists>m. heap_run ops s = Some (map (\<lambda>x. ptr x) ps, s\<lparr>mem := m\<rparr>) \<and> heap_rep (s\<lparr>mem := m\<rparr>) bs'"
proof (induction ops arbitrary: s bs ps)
  case Nil
  then show ?case by (intro exI [of _ "mem s"]) simp
next
  case (Cons op ops)
  show ?case
  proof (cases op)
    case (HMalloc n)
    obtain p bs1 where p: "(if n = 0 then (0, bs)
        else case alloc_abs (round8 (unat n)) (unat (heap_start s)) bs of None \<Rightarrow> (0, bs) | Some r \<Rightarrow> r) = (p, bs1)"
      by force
    from Cons.prems(2) have n: "unat n \<le> 4294967288" by (auto simp: HMalloc split: if_splits)
    from kmalloc_step [OF Cons.prems(1) n p] obtain m where
      m: "kmalloc n s = Some (ptr p, s\<lparr>mem := m\<rparr>)" "heap_rep (s\<lparr>mem := m\<rparr>) bs1" by blast
    from Cons.prems(2) p obtain qs where qs: "ps = p # qs" "heap_run_abs ops (unat (heap_start s)) bs1 = Some (qs, bs')"
      by (auto simp: HMalloc Let_def bind_eq_Some_conv split: if_splits)
    from Cons.IH [OF m(2), of qs] qs m(1) show ?thesis by (auto simp: HMalloc)
  next
    case (HFree p)
    show ?thesis
    proof (cases "p = 0")
      case True
      with Cons.IH [OF Cons.prems(1), of ps] Cons.prems(2) show ?thesis by (simp add: HFree kfree_def)
    next
      case False
      with Cons.prems(2) obtain k where k: "(unat p, k) \<in> payloads (unat (heap_start s)) bs"
        "heap_run_abs ops (unat (heap_start s)) (free_abs (unat p) (unat (heap_start s)) bs) = Some (ps, bs')"
        by (auto simp: HFree split: if_splits)
      from kfree_refines [OF Cons.prems(1) k(1)] obtain m where
        m: "kfree p s = Some (s\<lparr>mem := m\<rparr>)"
          "heap_rep (s\<lparr>mem := m\<rparr>) (free_abs (unat p) (unat (heap_start s)) bs)" by blast
      from Cons.IH [OF m(2), of ps] k(2) m(1) show ?thesis by (auto simp: HFree)
    qed
  qed
qed

text \<open>Freeing what was just allocated gives the list of blocks back, split or not.\<close>

lemma alloc_abs_decomp:
  "alloc_abs n a bs = Some (p, bs') \<Longrightarrow> \<exists>xs sz ys. bs = xs @ (sz, True) # ys \<and> p = a + span xs + 20 \<and> n \<le> sz
     \<and> bs' = xs @ (if sz < n + 36 then (sz, False) # ys else (n, False) # (sz - n - 20, True) # ys)"
proof (induction n a bs arbitrary: bs' rule: alloc_abs.induct)
  case (2 n a sz fr bs)
  show ?case
  proof (cases "fr \<and> n \<le> sz")
    case True
    with 2(2) show ?thesis by (intro exI [of _ "[]"] exI [of _ sz] exI [of _ bs]) auto
  next
    case False
    with 2(2) obtain bs'' where b: "alloc_abs n (a + 20 + sz) bs = Some (p, bs'')" "bs' = (sz, fr) # bs''" by auto
    from 2(1) [OF False b(1)] obtain xs z ys where "bs = xs @ (z, True) # ys" "p = a + 20 + sz + span xs + 20" "n \<le> z"
      "bs'' = xs @ (if z < n + 36 then (z, False) # ys else (n, False) # (z - n - 20, True) # ys)" by blast
    with b(2) show ?thesis by (intro exI [of _ "(sz, fr) # xs"] exI [of _ z] exI [of _ ys]) simp
  qed
qed simp

lemma alloc_free_abs:
  assumes "alloc_abs n a bs = Some (p, bs')" "no_adj_free bs"
  shows "free_abs p a bs' = bs"
proof -
  from alloc_abs_decomp [OF assms(1)] obtain xs sz ys where
    bs: "bs = xs @ (sz, True) # ys" and p: "p = a + span xs + 20" and n: "n \<le> sz"
    and bs': "bs' = xs @ (if sz < n + 36 then (sz, False) # ys else (n, False) # (sz - n - 20, True) # ys)"
    by blast
  have xs: "no_adj_free xs" "xs = [] \<or> \<not> snd (last xs)" and ys: "coalesce ((sz, True) # ys) = (sz, True) # ys"
    using assms(2) by (auto simp: bs no_adj_free_append intro: coalesce_id)
  show ?thesis
    using n ys by (auto simp: free_abs_def bs' p mark_free_append coalesce_append [OF xs] bs)
qed

section \<open>Properties\<close>

definition heap_sample :: heap_state where
  "heap_sample = \<lparr>mem = (\<lambda>_. 0), bitmap = replicate 32768 0, total_pages = 4096, used_pages = 0,
     kernel_end = 0x200000, heap_start = 0, heap_total = 0\<rparr>"

text \<open>C1. The heap refines first fit with coalescing: after \<open>heap_init\<close>, every sequence of
  \<open>kmalloc\<close> and \<open>kfree\<close> calls that keeps the contract returns, yields exactly the addresses
  (\<open>NULL\<close> included) of the run on the list of blocks, and leaves a list of headers in memory
  that represents the resulting blocks.\<close>

theorem heap_run_refines:
  assumes "start \<noteq> 0" "20 \<le> unat sz" "unat start + unat sz + 36 < 4294967296"
    and "heap_run_abs ops (unat start) [(unat sz - 20, True)] = Some (ps, bs)"
  shows "\<exists>m. heap_run ops (heap_init start sz s) = Some (map (\<lambda>p. ptr p) ps, (heap_init start sz s)\<lparr>mem := m\<rparr>)
    \<and> heap_rep ((heap_init start sz s)\<lparr>mem := m\<rparr>) bs"
proof -
  have "heap_start (heap_init start sz s) = start" by (simp add: heap_init_def Let_def)
  then show ?thesis using heap_run_refines_abs [OF heap_init_rep [OF assms(1-3)]] assms(4) by metis
qed

lemma heap_run_refines_witness:
  "heap_run_abs [HMalloc 100, HMalloc 50, HFree 0x200014, HMalloc 24] (unat (0x200000 :: u32)) [(unat (0x1000 :: u32) - 20, True)]
     = Some ([0x200014, 0x200090, 0x200014], [(24, False), (60, True), (56, False), (3876, True)])
   \<and> (\<exists>m. heap_run [HMalloc 100, HMalloc 50, HFree 0x200014, HMalloc 24] (heap_init 0x200000 0x1000 heap_sample)
        = Some ([0x200014, 0x200090, 0x200014], (heap_init 0x200000 0x1000 heap_sample)\<lparr>mem := m\<rparr>)
      \<and> heap_rep ((heap_init 0x200000 0x1000 heap_sample)\<lparr>mem := m\<rparr>) [(24, False), (60, True), (56, False), (3876, True)])"
proof -
  have r: "heap_run_abs [HMalloc 100, HMalloc 50, HFree 0x200014, HMalloc 24] (unat (0x200000 :: u32)) [(unat (0x1000 :: u32) - 20, True)]
     = Some ([0x200014, 0x200090, 0x200014], [(24, False), (60, True), (56, False), (3876, True)])"
    by (simp add: round8_def free_abs_def)
  with heap_run_refines [OF _ _ _ r, of heap_sample] show ?thesis by (simp add: ptr_numeral)
qed

text \<open>A successful \<open>kmalloc\<close> followed by \<open>kfree\<close> of the result leaves the heap with the same
  blocks as before: splitting is undone by merging, nothing leaks, and no byte inside an area that
  was in use before is changed by either call.\<close>

theorem kmalloc_kfree_roundtrip:
  assumes "heap_rep s bs" "unat n \<le> 4294967288" "kmalloc n s = Some (p, s1)" "p \<noteq> 0"
  shows "\<exists>s2. kfree p s1 = Some s2 \<and> heap_rep s2 bs
    \<and> (\<forall>(q, l) \<in> payloads (unat (heap_start s)) bs. \<forall>x. q \<le> x \<and> x < q + l \<longrightarrow> mem s2 (ptr x) = mem s (ptr x))"
proof -
  let ?a = "unat (heap_start s)"
  have n0: "n \<noteq> 0" using assms(3,4) by (auto simp: kmalloc_def)
  from kmalloc_refines [OF assms(1) n0 assms(2)] assms(3,4) obtain q bs' where
    q: "alloc_abs (round8 (unat n)) ?a bs = Some (q, bs')" by (auto split: option.splits)
  from kmalloc_refines [OF assms(1) n0 assms(2)] assms(3) q have
    p: "p = ptr q" "heap_rep s1 bs'" and s1: "heap_start s1 = heap_start s"
    and fr1: "\<forall>x < 4294967296. x \<notin> hdr_bytes ?a bs \<union> hdr_bytes ?a bs' \<longrightarrow> mem s1 (ptr x) = mem s (ptr x)" by auto
  from alloc_abs_payloads [OF q] obtain k where k: "payloads ?a bs' = insert (q, k) (payloads ?a bs)" by blast
  have q32: "q < 4294967296"
    using payloads_range [of q k ?a bs'] k heap_repD(3) [OF p(2)] s1 by simp
  then have up: "unat p = q" by (simp add: p)
  then have "(unat p, k) \<in> payloads (unat (heap_start s1)) bs'" using k s1 by simp
  from kfree_refines [OF p(2) this] obtain m where m: "kfree p s1 = Some (s1\<lparr>mem := m\<rparr>)"
    "heap_rep (s1\<lparr>mem := m\<rparr>) (free_abs q ?a bs')"
    "\<forall>x < 4294967296. x \<notin> hdr_bytes ?a bs' \<longrightarrow> m (ptr x) = mem s1 (ptr x)"
    using up s1 by auto
  have "free_abs q ?a bs' = bs" using alloc_free_abs [OF q] assms(1) by (simp add: heap_rep_def)
  moreover have "\<forall>(x, l) \<in> payloads ?a bs. \<forall>y. x \<le> y \<and> y < x + l \<longrightarrow> m (ptr y) = mem s (ptr y)"
  proof (rule heap_areas_frame)
    show "\<forall>x < 4294967296. x \<notin> hdr_bytes ?a bs \<union> hdr_bytes ?a bs' \<longrightarrow> m (ptr x) = mem s (ptr x)"
      using m(3) fr1 by auto
    show "{x..<x + l} \<inter> (hdr_bytes ?a bs \<union> hdr_bytes ?a bs') = {} \<and> x + l \<le> 4294967296"
      if "(x, l) \<in> payloads ?a bs" for x l
      using payloads_hdr_bytes [of x l ?a bs] payloads_hdr_bytes [of x l ?a bs'] that k
        payloads_range [of x l ?a bs] heap_repD(3) [OF assms(1)] by auto
  qed
  ultimately show ?thesis using m by auto
qed

lemma heap_sample_rep: "heap_rep (heap_init 0x200000 0x1000 heap_sample) [(4076, True)]"
  using heap_init_rep [of "0x200000" "0x1000" heap_sample] by simp

lemma heap_sample_malloc:
  "\<exists>m. kmalloc 100 (heap_init 0x200000 0x1000 heap_sample)
     = Some (0x200014, (heap_init 0x200000 0x1000 heap_sample)\<lparr>mem := m\<rparr>)"
proof -
  have "heap_start (heap_init 0x200000 0x1000 heap_sample) = 0x200000" by (simp add: heap_init_def Let_def)
  with kmalloc_step [OF heap_sample_rep, of 100 "0x200014" "[(104, False), (3952, True)]"] show ?thesis
    by (auto simp: round8_def ptr_numeral)
qed

lemma kmalloc_kfree_roundtrip_witness:
  "\<exists>s1 s2. kmalloc 100 (heap_init 0x200000 0x1000 heap_sample) = Some (0x200014, s1)
     \<and> kfree 0x200014 s1 = Some s2 \<and> heap_rep s2 [(4076, True)]"
proof -
  from heap_sample_malloc obtain s1 where s1: "kmalloc 100 (heap_init 0x200000 0x1000 heap_sample) = Some (0x200014, s1)"
    by blast
  from kmalloc_kfree_roundtrip [OF heap_sample_rep _ s1] s1 show ?thesis by auto
qed



text \<open>The heap statistics are exact: after any contract-keeping run from \<open>heap_init\<close>,
  \<open>heap_free_space\<close> and \<open>heap_used_space\<close> return, and free bytes, used bytes and one 20-byte
  header per block add up to the size given to \<open>heap_init\<close>.\<close>

theorem heap_accounting:
  assumes "start \<noteq> 0" "20 \<le> unat sz" "unat start + unat sz + 36 < 4294967296"
    and "heap_run_abs ops (unat start) [(unat sz - 20, True)] = Some (ps, bs)"
  shows "\<exists>s' f u. heap_run ops (heap_init start sz s) = Some (map (\<lambda>p. ptr p) ps, s')
    \<and> heap_free_space s' = Some f \<and> heap_used_space s' = Some u
    \<and> unat f + unat u + 20 * length bs = unat sz \<and> unat u = sum_list (map fst (filter (\<lambda>b. \<not> snd b) bs))"
proof -
  have st: "heap_start (heap_init start sz s) = start" "heap_total (heap_init start sz s) = sz"
    by (simp_all add: heap_init_def Let_def)
  then obtain m where m: "heap_run ops (heap_init start sz s) = Some (map (\<lambda>p. ptr p) ps, (heap_init start sz s)\<lparr>mem := m\<rparr>)"
    "heap_rep ((heap_init start sz s)\<lparr>mem := m\<rparr>) bs"
    using heap_run_refines_abs [OF heap_init_rep [OF assms(1-3)]] assms(4) by metis
  have sp: "span bs = unat sz" using m(2) st by (simp add: heap_rep_def)
  have "unat sz < 4294967296" by (rule unat_u32)
  then have "free_sum bs < 4294967296" "used_sum bs < 4294967296"
    using free_used_span [of bs] sp by linarith+
  moreover have "used_sum bs = sum_list (map fst (filter (\<lambda>b. \<not> snd b) bs))"
    by (induction bs rule: used_sum.induct) auto
  ultimately show ?thesis
    using m heap_space_rep [OF m(2)] free_used_span [of bs] sp by auto
qed

lemma heap_accounting_witness:
  "heap_run_abs [HMalloc 100, HFree 0x200014, HMalloc 8] (unat (0x200000 :: u32)) [(unat (0x1000 :: u32) - 20, True)]
     = Some ([0x200014, 0x200014], [(8, False), (4048, True)])
   \<and> (\<exists>s' f u. heap_run [HMalloc 100, HFree 0x200014, HMalloc 8] (heap_init 0x200000 0x1000 heap_sample)
        = Some ([0x200014, 0x200014], s')
      \<and> heap_free_space s' = Some f \<and> heap_used_space s' = Some u \<and> unat f + unat u + 40 = 4096 \<and> unat u = 8)"
proof -
  have r: "heap_run_abs [HMalloc 100, HFree 0x200014, HMalloc 8] (unat (0x200000 :: u32)) [(unat (0x1000 :: u32) - 20, True)]
     = Some ([0x200014, 0x200014], [(8, False), (4048, True)])"
    by (simp add: round8_def free_abs_def)
  with heap_accounting [OF _ _ _ r, of heap_sample] show ?thesis by (simp add: ptr_numeral)
qed

text \<open>\<open>kcalloc\<close> returns a zeroed area of \<open>count * size\<close> bytes when the product does not
  overflow, and keeps the contents of the areas in use.\<close>

theorem kcalloc_zeroed:
  assumes "heap_areas s B" "unat cnt * unat sz \<le> 4294967288" "kcalloc cnt sz s = Some (p, s')" "p \<noteq> 0"
  shows "\<exists>k \<ge> unat cnt * unat sz. heap_areas s' (insert (unat p, k) B)
    \<and> (\<forall>i < unat cnt * unat sz. mem s' (p + ptr i) = 0)
    \<and> (\<forall>(q, l) \<in> B. \<forall>x. q \<le> x \<and> x < q + l \<longrightarrow> mem s' (ptr x) = mem s (ptr x))"
proof -
  let ?n = "unat cnt * unat sz"
  have n: "unat (cnt * sz) = ?n" using assms(2) by (simp add: unat_word_ariths)
  from assms(3,4) obtain s1 where s1: "kmalloc (cnt * sz) s = Some (p, s1)"
    "s' = s1\<lparr>mem := memset (mem s1) p 0 ?n\<rparr>"
    by (auto simp: kcalloc_def bind_eq_Some_conv n split: if_splits)
  from kheap.malloc_ok [OF assms(1) _ s1(1) assms(4)] n assms(2) obtain k where
    k: "?n \<le> k" "heap_areas s1 (insert (unat p, k) B)" "\<forall>l. (unat p, l) \<notin> B"
      "\<forall>(q, l) \<in> B. \<forall>x. q \<le> x \<and> x < q + l \<longrightarrow> mem s1 (ptr x) = mem s (ptr x)" by auto
  have pr: "0 < unat p" "unat p + k < 4294967296" using kheap.rep_range [OF k(2), of "unat p" k] by auto
  have out: "mem s' (ptr x) = mem s1 (ptr x)" if "x < 4294967296" "x < unat p \<or> unat p + k \<le> x" for x
  proof -
    have "unat (ptr x - p) \<ge> ?n" using that pr k(1) unat_outside [of x p ?n] by (auto simp: ptr_def)
    then show ?thesis using assms(2) by (simp add: s1(2) memset_apply)
  qed
  have "heap_areas s' (insert (unat p, k) B)"
    using kheap.rep_write [OF k(2), of "unat p" k "mem s'"] out by (simp add: s1(2))
  moreover have "mem s' (p + ptr i) = 0" if "i < ?n" for i
    using that pr k(1) by (simp add: s1(2) memset_apply)
  moreover have "mem s' (ptr x) = mem s (ptr x)" if q: "(q, l) \<in> B" "q \<le> x" "x < q + l" for q l x
  proof -
    have "unat p \<noteq> q" using k(3) q(1) by auto
    then have "{unat p..<unat p + k} \<inter> {q..<q + l} = {}"
      using kheap.rep_disjoint [OF k(2), of "unat p" k q l] q by auto
    moreover have "q + l < 4294967296" using kheap.rep_range [OF k(2), of q l] q by auto
    ultimately have "mem s' (ptr x) = mem s1 (ptr x)" using q out [of x] by fastforce
    then show ?thesis using k(4) q by auto
  qed
  ultimately show ?thesis using k(1) by (intro exI [of _ k]) auto
qed

lemma kcalloc_zeroed_witness:
  "\<exists>s'. kcalloc 25 4 (heap_init 0x200000 0x1000 heap_sample) = Some (0x200014, s')
     \<and> (\<exists>k \<ge> 100. heap_areas s' {(0x200014, k)}) \<and> (\<forall>i < 100. mem s' (0x200014 + ptr i) = 0)"
proof -
  from heap_sample_malloc obtain s' where s': "kcalloc 25 4 (heap_init 0x200000 0x1000 heap_sample) = Some (0x200014, s')"
    by (auto simp: kcalloc_def)
  have "heap_areas (heap_init 0x200000 0x1000 heap_sample) {}"
    using heap_sample_rep by (auto simp: heap_areas_def intro!: exI [of _ "[(4076, True)]"])
  from kcalloc_zeroed [OF this _ s'] s' show ?thesis by auto
qed

text \<open>The rounding of \<open>kmalloc\<close> wraps: a request of \<open>0xFFFFFFF9\<close> bytes or more is rounded to
  zero bytes, so it succeeds whenever any block is free and returns an area shorter than 36 bytes.\<close>

theorem kmalloc_wraps:
  assumes "heap_rep s bs" "4294967289 \<le> unat n" "(sz, True) \<in> set bs"
  shows "\<exists>p k m bs'. kmalloc n s = Some (p, s\<lparr>mem := m\<rparr>) \<and> p \<noteq> 0 \<and> heap_rep (s\<lparr>mem := m\<rparr>) bs'
    \<and> (unat p, k) \<in> payloads (unat (heap_start s)) bs' \<and> k < 36"
proof -
  let ?a = "unat (heap_start s)"
  note r = heap_repD [OF assms(1)]
  have "unat (n + 7) = unat n + 7 - 4294967296"
    using assms(2) unat_u32 [of n] by (simp add: unat_word_ariths mod_if)
  then have "unat (n + 7) < 8" using unat_u32 [of n] by linarith
  then have "unat ((n + 7) AND NOT 7) = 0" by (simp only: unat_align8) simp
  then have z: "(n + 7) AND NOT 7 = ptr 0" by (simp add: unat_eq_zero ptr_numeral)
  from assms(3) obtain q bs' where q: "alloc_abs 0 ?a bs = Some (q, bs')"
    using alloc_abs_None [of 0 ?a bs] by (cases "alloc_abs 0 ?a bs") auto
  from alloc_abs_decomp [OF q] obtain xs z ys where d: "q = ?a + span xs + 20"
    "bs' = xs @ (if z < 0 + 36 then (z, False) # ys else (0, False) # (z - 0 - 20, True) # ys)" by blast
  have pay: "\<exists>k < 36. (q, k) \<in> payloads ?a bs'"
  proof (cases "z < 36")
    case True
    then show ?thesis by (intro exI [of _ z]) (simp add: d payloads_append)
  next
    case False
    then show ?thesis by (intro exI [of _ 0]) (simp add: d payloads_append)
  qed
  from kmalloc_loop_refines [OF r(1-3), of 0] q r(5,6) obtain m where
    m: "kmalloc_loop (mem s) (heap_start s) (ptr 0) = Some (ptr q, m)" "heap_seg m 0 ?a bs' 0" by auto
  have "n \<noteq> 0" using assms(2) by auto
  then have "kmalloc n s = Some (ptr q, s\<lparr>mem := m\<rparr>)" using m(1) z by (simp add: kmalloc_def)
  moreover have "heap_rep (s\<lparr>mem := m\<rparr>) bs'"
    using m(2) assms(1) r(4) alloc_abs_shape [OF q] alloc_abs_no_adj_free [OF q] by (auto simp: heap_rep_def)
  moreover have "0 < q" "q < 4294967296"
    using d(1) pay payloads_range r(3) alloc_abs_shape [OF q] by fastforce+
  ultimately show ?thesis using pay
    by (intro exI [of _ "ptr q"]) (auto intro!: exI [of _ m] exI [of _ bs'])
qed

lemma kmalloc_wraps_witness:
  "\<exists>p k m bs'. kmalloc 0xFFFFFFFF (heap_init 0x200000 0x1000 heap_sample)
       = Some (p, (heap_init 0x200000 0x1000 heap_sample)\<lparr>mem := m\<rparr>) \<and> p \<noteq> 0
     \<and> (unat p, k) \<in> payloads 0x200000 bs' \<and> k < 36"
proof -
  have "heap_start (heap_init 0x200000 0x1000 heap_sample) = 0x200000" by (simp add: heap_init_def Let_def)
  with kmalloc_wraps [OF heap_sample_rep, of "0xFFFFFFFF" 4076] show ?thesis by auto
qed

end
