(* ===== verification/Paging.thy ===== *)
theory Paging
  imports Kheap
begin

text \<open>
  Paging, \<^verbatim>\<open>src/paging.c\<close>: the kernel's page directory and its 1024 static page tables,
  per-process page directories, and the mapping of user pages through the two temporary windows.
  The tables live in memory; their addresses, fixed by the linker, are the fields
  \<open>page_directory\<close> and \<open>page_tables\<close>.  RAM is identity-mapped, so the kernel's own
  accesses to the tables are accesses to physical memory; an access through a window is
  translated by \<open>mmu\<close>, the two-level walk of the processor, and a page fault is
  \<open>None\<close>.  TLB invalidation has no effect in the model: every access walks the tables.
\<close>

section \<open>Definitions\<close>

record paging_state = heap_state +
  page_directory :: u32
  page_tables :: u32
  cr3 :: u32

definition PAGE_PRESENT :: u32 where "PAGE_PRESENT = 1"
definition PAGE_WRITE :: u32 where "PAGE_WRITE = 2"
definition PAGE_USER :: u32 where "PAGE_USER = 4"
definition PAGE_CACHE_DISABLE :: u32 where "PAGE_CACHE_DISABLE = 16"
definition TEMP_PD_VA :: u32 where "TEMP_PD_VA = 0x3FE00000"
definition TEMP_PT_VA :: u32 where "TEMP_PT_VA = 0x3FE01000"

abbreviation pd_idx :: "u32 \<Rightarrow> u32" where "pd_idx v \<equiv> drop_bit 22 v"
abbreviation pt_idx :: "u32 \<Rightarrow> u32" where "pt_idx v \<equiv> drop_bit 12 v AND 0x3FF"
abbreviation frame :: "u32 \<Rightarrow> u32" where "frame e \<equiv> e AND 0xFFFFF000"
abbreviation present :: "u32 \<Rightarrow> bool" where "present e \<equiv> e AND PAGE_PRESENT \<noteq> 0"

text \<open>The address of \<^verbatim>\<open>a[i]\<close> in an array of words, of \<^verbatim>\<open>page_tables[t]\<close>, and the walk.\<close>

definition word_at :: "u32 \<Rightarrow> u32 \<Rightarrow> u32" where
  "word_at a i = a + 4 * i"

definition kernel_pt :: "'a paging_state_scheme \<Rightarrow> u32 \<Rightarrow> u32" where
  "kernel_pt s t = page_tables s + 4096 * t"

definition mmu :: "memory \<Rightarrow> u32 \<Rightarrow> u32 \<Rightarrow> u32 option" where
  "mmu m pd v =
     (let pde = load32 m (word_at (frame pd) (pd_idx v)) in
      if \<not> present pde then None
      else
        let pte = load32 m (word_at (frame pde) (pt_idx v)) in
        if \<not> present pte then None else Some (frame pte OR (v AND 0xFFF)))"

definition paging_init_table :: "u32 \<Rightarrow> u32 \<Rightarrow> 'a paging_state_scheme \<Rightarrow> 'a paging_state_scheme" where
  "paging_init_table ram_pages t s =
     (let m = memset (mem s) (kernel_pt s t) 0 4096;
          m = fold (\<lambda>p m. let page_idx = t * 1024 + p in
                 if page_idx < ram_pages
                 then store32 m (word_at (kernel_pt s t) p) (page_idx * 4096 OR PAGE_PRESENT OR PAGE_WRITE OR PAGE_USER)
                 else m) (map of_nat [0..<1024]) m
      in s\<lparr>mem := store32 m (word_at (page_directory s) t)
                  (kernel_pt s t OR PAGE_PRESENT OR PAGE_WRITE OR PAGE_USER)\<rparr>)"

definition paging_init :: "u32 \<Rightarrow> 'a paging_state_scheme \<Rightarrow> 'a paging_state_scheme" where
  "paging_init mem_kb s =
     (let ram_pages = (mem_kb * 1024) div 4096;
          s = s\<lparr>mem := memset (mem s) (page_directory s) 0 4096\<rparr>;
          s = fold (paging_init_table ram_pages) (map of_nat [0..<1024]) s
      in s\<lparr>cr3 := page_directory s\<rparr>)"

definition paging_map_page :: "u32 \<Rightarrow> u32 \<Rightarrow> u32 \<Rightarrow> 'a paging_state_scheme \<Rightarrow> 'a paging_state_scheme" where
  "paging_map_page virt phys flags s =
     (let pde_a = word_at (page_directory s) (pd_idx virt);
          write_pte = (\<lambda>s. s\<lparr>mem := store32 (mem s) (word_at (frame (load32 (mem s) pde_a)) (pt_idx virt))
              (frame phys OR (flags AND 0xFFF) OR PAGE_PRESENT)\<rparr>)
      in if present (load32 (mem s) pde_a) then write_pte s
         else
           let (pt_phys, s) = pmm_alloc_page s in
           if pt_phys = 0 then s
           else
             let m = memset (mem s) pt_phys 0 4096
             in write_pte (s\<lparr>mem := store32 m pde_a (pt_phys OR PAGE_PRESENT OR PAGE_WRITE OR PAGE_CACHE_DISABLE)\<rparr>))"

definition paging_map_range :: "u32 \<Rightarrow> u32 \<Rightarrow> u32 \<Rightarrow> u32 \<Rightarrow> 'a paging_state_scheme \<Rightarrow> 'a paging_state_scheme" where
  "paging_map_range virt phys sz flags s =
     fold (\<lambda>i. paging_map_page (virt + i * 0x1000) (phys + i * 0x1000) flags)
       (map of_nat [0..<unat ((sz + 0xFFF) div 0x1000)]) s"

definition paging_unmap_page :: "u32 \<Rightarrow> 'a paging_state_scheme \<Rightarrow> 'a paging_state_scheme" where
  "paging_unmap_page virt s =
     s\<lparr>mem := store32 (mem s) (word_at (kernel_pt s (pd_idx virt)) (pt_idx virt)) 0\<rparr>"

definition paging_get_kernel_pd :: "'a paging_state_scheme \<Rightarrow> u32" where
  "paging_get_kernel_pd s = page_directory s"

text \<open>The clean-up loop of \<open>paging_create_address_space\<close> on running out of pages, the copy of one
  page table, and the main loop.\<close>

definition free_tables :: "u32 \<Rightarrow> nat \<Rightarrow> 'a paging_state_scheme \<Rightarrow> 'a paging_state_scheme" where
  "free_tables pd n s =
     fold (\<lambda>j s. let e = load32 (mem s) (word_at pd j) in
             if present e then pmm_free_page (frame e) s else s) (map of_nat [0..<n]) s"

definition clone_table :: "u32 \<Rightarrow> u32 \<Rightarrow> memory \<Rightarrow> memory" where
  "clone_table new_pt src_pt m =
     fold (\<lambda>j m. let e = load32 m (word_at src_pt j) in
             store32 m (word_at new_pt j) (if present e then e OR PAGE_USER else 0)) (map of_nat [0..<1024]) m"

fun clone_loop :: "nat \<Rightarrow> nat \<Rightarrow> u32 \<Rightarrow> 'a paging_state_scheme \<Rightarrow> u32 \<times> 'a paging_state_scheme" where
  "clone_loop 0 i pd s = (pd, s)"
| "clone_loop (Suc n) i pd s =
     (if \<not> present (load32 (mem s) (word_at (page_directory s) (of_nat i)))
      then clone_loop n (Suc i) pd (s\<lparr>mem := store32 (mem s) (word_at pd (of_nat i)) 0\<rparr>)
      else
        let (new_pt, s) = pmm_alloc_page s in
        if new_pt = 0 then (0, pmm_free_page pd (free_tables pd i s))
        else
          let m = clone_table new_pt (kernel_pt s (of_nat i)) (mem s);
              m = store32 m (word_at pd (of_nat i)) (new_pt OR PAGE_PRESENT OR PAGE_WRITE OR PAGE_USER)
          in clone_loop n (Suc i) pd (s\<lparr>mem := m\<rparr>))"

definition paging_create_address_space :: "'a paging_state_scheme \<Rightarrow> u32 \<times> 'a paging_state_scheme" where
  "paging_create_address_space s =
     (let (pd, s) = pmm_alloc_page s in if pd = 0 then (0, s) else clone_loop 1024 0 pd s)"

definition paging_create_isolated_space :: "'a paging_state_scheme \<Rightarrow> u32 \<times> 'a paging_state_scheme" where
  "paging_create_isolated_space s =
     (let (pd, s) = pmm_alloc_page s in
      if pd = 0 then (0, s)
      else
        (pd, fold (\<lambda>i s. let m = store32 (mem s) (word_at pd i) (load32 (mem s) (word_at (page_directory s) i));
                             m = (if 256 \<le> i \<and> i < 768 then store32 m (word_at pd i) 0 else m)
                         in s\<lparr>mem := m\<rparr>) (map of_nat [0..<1024]) s))"

text \<open>\<open>paging_map_user\<close>, with its accesses through the windows translated by the kernel's
  directory; \<open>None\<close> is a page fault in the kernel.\<close>

definition link_user_table :: "u32 \<Rightarrow> 'a paging_state_scheme \<Rightarrow> 'a paging_state_scheme option" where
  "link_user_table virt s =
     (let pde_va = word_at TEMP_PD_VA (pd_idx virt) in
      do { pde_pa \<leftarrow> mmu (mem s) (cr3 s) pde_va;
           if \<not> present (load32 (mem s) pde_pa) then
             let (new_pt, s) = pmm_alloc_page s;
                 s = paging_map_page TEMP_PT_VA new_pt (PAGE_PRESENT OR PAGE_WRITE) s
             in do { pt_pa \<leftarrow> mmu (mem s) (cr3 s) TEMP_PT_VA;
                     let s = s\<lparr>mem := memset (mem s) pt_pa 0 4096\<rparr> in
                     do { pde_pa \<leftarrow> mmu (mem s) (cr3 s) pde_va;
                          Some (paging_unmap_page TEMP_PT_VA
                            (s\<lparr>mem := store32 (mem s) pde_pa (new_pt OR PAGE_PRESENT OR PAGE_WRITE OR PAGE_USER)\<rparr>)) } }
           else Some (s\<lparr>mem := store32 (mem s) pde_pa (load32 (mem s) pde_pa OR PAGE_USER)\<rparr>) })"

definition user_flags :: "u32 \<Rightarrow> u32 \<Rightarrow> u32" where
  "user_flags virt flags =
     (let f = flags OR PAGE_PRESENT OR PAGE_USER in
      if 0x30000000 \<le> virt \<and> virt < 0x40000000 then f OR 0x08 else f)"

definition paging_map_user :: "u32 \<Rightarrow> u32 \<Rightarrow> u32 \<Rightarrow> u32 \<Rightarrow> 'a paging_state_scheme \<Rightarrow> 'a paging_state_scheme option" where
  "paging_map_user target_pd virt phys flags s =
     (let saved_cr3 = cr3 s;
          s = s\<lparr>cr3 := page_directory s\<rparr>;
          s = paging_map_page TEMP_PD_VA target_pd (PAGE_PRESENT OR PAGE_WRITE) s
      in do { s \<leftarrow> link_user_table virt s;
              pde_pa \<leftarrow> mmu (mem s) (cr3 s) (word_at TEMP_PD_VA (pd_idx virt));
              let pt_phys = frame (load32 (mem s) pde_pa);
                  s = paging_map_page TEMP_PT_VA pt_phys (PAGE_PRESENT OR PAGE_WRITE) s
              in do { pte_pa \<leftarrow> mmu (mem s) (cr3 s) (word_at TEMP_PT_VA (pt_idx virt));
                      let s = s\<lparr>mem := store32 (mem s) pte_pa (frame phys OR (user_flags virt flags AND 0xFFF))\<rparr>;
                          s = paging_unmap_page TEMP_PT_VA s;
                          s = paging_unmap_page TEMP_PD_VA s
                      in Some (s\<lparr>cr3 := saved_cr3\<rparr>) } })"

definition paging_destroy_address_space :: "u32 \<Rightarrow> 'a paging_state_scheme \<Rightarrow> 'a paging_state_scheme" where
  "paging_destroy_address_space pd s =
     (if pd = 0 \<or> pd = page_directory s then s
      else pmm_free_page pd
        (fold (\<lambda>i s. let e = load32 (mem s) (word_at pd i);
                         k = load32 (mem s) (word_at (page_directory s) i)
                     in if present e \<and> frame e \<noteq> frame k then pmm_free_page (frame e) s else s)
           (map of_nat [0..<1024]) s))"

definition paging_switch :: "u32 \<Rightarrow> 'a paging_state_scheme \<Rightarrow> 'a paging_state_scheme" where
  "paging_switch pd s = s\<lparr>cr3 := pd\<rparr>"

definition paging_get_physical :: "'a paging_state_scheme \<Rightarrow> u32 \<Rightarrow> u32" where
  "paging_get_physical s virt =
     (let e = load32 (mem s) (word_at (kernel_pt s (pd_idx virt)) (pt_idx virt)) in
      if present e then frame e OR (virt AND 0xFFF) else 0)"

definition copy_from_user :: "u32 \<Rightarrow> u32 \<Rightarrow> u32 \<Rightarrow> 'a paging_state_scheme \<Rightarrow> int \<times> 'a paging_state_scheme" where
  "copy_from_user to frm sz s =
     (if frm = 0 \<or> to = 0 then (-1, s) else (0, s\<lparr>mem := memcpy (mem s) to frm (unat sz)\<rparr>))"

definition virt_to_phys :: "'a paging_state_scheme \<Rightarrow> u32 \<Rightarrow> u32" where
  "virt_to_phys s v =
     (let pde = load32 (mem s) (word_at (page_directory s) (pd_idx v)) in
      if pde AND 1 = 0 then 0
      else
        let pte = load32 (mem s) (word_at (frame pde) (pt_idx v)) in
        if pte AND 1 = 0 then 0 else frame pte OR (v AND 0xFFF))"

section \<open>Indices, entries and frames\<close>

lemma unat_pd_idx: "unat (pd_idx v) = unat v div 4194304" "unat (pd_idx v) < 1024"
proof -
  show e: "unat (pd_idx v) = unat v div 4194304" unfolding unat_drop by simp
  then show "unat (pd_idx v) < 1024" using unat_u32 [of v] by (simp add: less_mult_imp_div_less)
qed

lemma unat_pt_idx: "unat (pt_idx v) = unat v div 4096 mod 1024" "unat (pt_idx v) < 1024"
proof -
  have "(0x3FF :: u32) = mask 10" by (simp add: mask_eq_exp_minus_1)
  then show e: "unat (pt_idx v) = unat v div 4096 mod 1024"
    by (simp only: unat_and_mask unat_drop) simp
  then show "unat (pt_idx v) < 1024" by simp
qed

lemma page_number: "1024 * unat (pd_idx v) + unat (pt_idx v) = unat v div 4096"
proof -
  have "unat v div 4194304 = unat v div 4096 div 1024" by (simp add: div_mult2_eq [symmetric])
  then show ?thesis unfolding unat_pd_idx(1) unat_pt_idx(1) by (simp add: mult.commute div_mult_mod_eq)
qed

lemma word_at_ptr: "word_at (ptr a) i = ptr (a + 4 * unat i)"
  by (simp add: word_at_def ptr_def)

lemma bit_frame_mask: "bit (0xFFFFF000 :: u32) n \<longleftrightarrow> 12 \<le> n \<and> n < 32"
proof -
  have "(0xFFFFF000 :: u32) = NOT (mask 12)" by (simp add: mask_eq_exp_minus_1)
  then show ?thesis by (simp only: bit_not_iff bit_mask_iff possible_bit_word) auto
qed

lemma bit_low_mask: "bit (0xFFF :: u32) n \<longleftrightarrow> n < 12"
proof -
  have "(0xFFF :: u32) = mask 12" by (simp add: mask_eq_exp_minus_1)
  then show ?thesis by (simp only: bit_mask_iff possible_bit_word) auto
qed

lemmas page_bits = bit_frame_mask bit_low_mask bit_and_iff bit_or_iff bit_push_bit_iff bit_drop_bit_eq

text \<open>A page-aligned address with flag bits below 12: its frame is the address back.\<close>

lemma frame_or_low: "frame (frame p OR (f AND 0xFFF)) = frame p"
  by (rule bit_word_eqI) (simp only: page_bits possible_bit_word, auto)

lemma unat_frame: "unat (frame e) = unat e div 4096 * 4096"
proof -
  have "frame e = push_bit 12 (drop_bit 12 e)"
    by (rule bit_word_eqI) (simp only: page_bits possible_bit_word, auto)
  moreover have "unat (push_bit 12 (drop_bit 12 e)) = unat e div 4096 * 4096"
  proof -
    have d: "unat (drop_bit 12 e) = unat e div 4096" unfolding unat_drop by simp
    have "unat e div 4096 * 4096 \<le> unat e" by simp
    then have "unat e div 4096 * 4096 < 4294967296" using unat_u32 [of e] by linarith
    then show ?thesis
      by (simp add: push_bit_eq_mult unat_word_ariths d mult.commute)
  qed
  ultimately show ?thesis by simp
qed

lemma frame_ptr: "a mod 4096 = 0 \<Longrightarrow> a < 4294967296 \<Longrightarrow> frame (ptr a) = ptr a"
proof -
  assume a: "a mod 4096 = 0" "a < 4294967296"
  then have "unat (frame (ptr a)) = unat (ptr a)" by (auto simp: unat_frame)
  then show ?thesis by (simp add: word_unat_eq_iff)
qed

lemma small_low: "unat f < 4096 \<Longrightarrow> f AND 0xFFF = (f :: u32)"
proof -
  assume "unat f < 4096"
  have "(0xFFF :: u32) = mask 12" by (simp add: mask_eq_exp_minus_1)
  then have "unat (f AND 0xFFF) = unat f mod 4096" by (simp only: unat_and_mask) simp
  then show ?thesis using \<open>unat f < 4096\<close> by (simp add: word_unat_eq_iff)
qed

lemma frame_or_flags:
  assumes "a mod 4096 = 0" "a < 4294967296" "unat f < 4096"
  shows "frame (ptr a OR f) = ptr a"
  using frame_or_low [of "ptr a" f] frame_ptr [OF assms(1,2)] small_low [OF assms(3)] by simp

lemma present_bit: "present e \<longleftrightarrow> bit e 0"
proof -
  have "e AND 1 = of_bool (bit e 0)" by (simp add: and_one_eq bit_0 odd_iff_mod_2_eq_one)
  then show ?thesis by (simp add: PAGE_PRESENT_def)
qed

lemma load32_store32_words:
  assumes "a mod 4 = 0" "b mod 4 = 0" "a < 4294967296" "b < 4294967296"
  shows "load32 (store32 m (ptr a) v) (ptr b) = (if a = b then v else load32 m (ptr b))"
proof (cases "a = b")
  case False
  with assms have "a + 4 \<le> b \<or> b + 4 \<le> a" "a + 4 \<le> 4294967296" "b + 4 \<le> 4294967296" by presburger+
  with False show ?thesis by simp
qed simp

section \<open>The kernel's tables\<close>

text \<open>The two static arrays do not overlap and are page-aligned, and every directory entry points
  to its table in \<open>page_tables\<close>, as \<open>paging_init\<close> leaves them.\<close>

definition paging_layout :: "'a paging_state_scheme \<Rightarrow> bool" where
  "paging_layout s \<longleftrightarrow>
     (let d = unat (page_directory s); t = unat (page_tables s) in
      d mod 4096 = 0 \<and> t mod 4096 = 0 \<and> 0 < d \<and> 0 < t \<and> d + 4096 \<le> 4294967296 \<and> t + 4194304 \<le> 4294967296
      \<and> (d + 4096 \<le> t \<or> t + 4194304 \<le> d))"

definition kernel_tables :: "'a paging_state_scheme \<Rightarrow> bool" where
  "kernel_tables s \<longleftrightarrow> paging_layout s
     \<and> (\<forall>i < 1024. load32 (mem s) (ptr (unat (page_directory s) + 4 * i)) = ptr (unat (page_tables s) + 4096 * i) OR 7)"

definition kpte_addr :: "'a paging_state_scheme \<Rightarrow> u32 \<Rightarrow> nat" where
  "kpte_addr s v = unat (page_tables s) + 4 * (unat v div 4096)"

lemma paging_layoutD:
  assumes "paging_layout s"
  shows "unat (page_directory s) mod 4096 = 0" "unat (page_tables s) mod 4096 = 0"
    "0 < unat (page_directory s)" "0 < unat (page_tables s)"
    "unat (page_directory s) + 4096 \<le> 4294967296" "unat (page_tables s) + 4194304 \<le> 4294967296"
    "unat (page_directory s) + 4096 \<le> unat (page_tables s) \<or> unat (page_tables s) + 4194304 \<le> unat (page_directory s)"
  using assms by (simp_all add: paging_layout_def Let_def)

lemma kernel_pt_ptr: "kernel_pt s i = ptr (unat (page_tables s) + 4096 * unat i)"
  by (simp add: kernel_pt_def ptr_def)

lemma kernel_pte_addr: "word_at (kernel_pt s (pd_idx v)) (pt_idx v) = ptr (kpte_addr s v)"
proof -
  have "4096 * unat (pd_idx v) + 4 * unat (pt_idx v) = 4 * (unat v div 4096)"
    by (simp flip: page_number)
  then show ?thesis by (simp add: kernel_pt_ptr word_at_ptr kpte_addr_def add.assoc)
qed

lemma kernel_pde_addr: "word_at (page_directory s) i = ptr (unat (page_directory s) + 4 * unat i)"
  using word_at_ptr [of "unat (page_directory s)" i] by (simp add: ptr_unat)

lemma kernel_pde:
  assumes "kernel_tables s"
  shows "load32 (mem s) (word_at (page_directory s) (pd_idx v)) = kernel_pt s (pd_idx v) OR 7"
    "present (kernel_pt s (pd_idx v) OR 7)" "frame (kernel_pt s (pd_idx v) OR 7) = kernel_pt s (pd_idx v)"
proof -
  let ?i = "unat (pd_idx v)" and ?t = "unat (page_tables s)"
  have i: "?i < 1024" by (rule unat_pd_idx)
  show "load32 (mem s) (word_at (page_directory s) (pd_idx v)) = kernel_pt s (pd_idx v) OR 7"
    using assms i by (simp add: kernel_tables_def kernel_pde_addr kernel_pt_ptr)
  note l = paging_layoutD [OF assms [unfolded kernel_tables_def, THEN conjunct1]]
  have "(?t + 4096 * ?i) mod 4096 = 0" using l(2) by (simp add: mod_add_right_eq)
  moreover have "?t + 4096 * ?i < 4294967296" using i l(6) by linarith
  ultimately show "frame (kernel_pt s (pd_idx v) OR 7) = kernel_pt s (pd_idx v)"
    by (simp add: kernel_pt_ptr frame_or_flags)
  show "present (kernel_pt s (pd_idx v) OR 7)"
    unfolding present_bit bit_or_iff by (simp add: bit_0)
qed

lemma kpte_range:
  assumes "paging_layout s"
  shows "kpte_addr s v mod 4 = 0" "unat (page_tables s) \<le> kpte_addr s v"
    "kpte_addr s v + 4 \<le> unat (page_tables s) + 4194304" "kpte_addr s v < 4294967296"
proof -
  note l = paging_layoutD [OF assms]
  have "unat v div 4096 < 1048576" using unat_u32 [of v] by (simp add: less_mult_imp_div_less)
  then show "kpte_addr s v + 4 \<le> unat (page_tables s) + 4194304" by (simp add: kpte_addr_def)
  then show "kpte_addr s v < 4294967296" using l(6) by linarith
  have "unat (page_tables s) mod 4 = 0" using l(2) mod_mod_cancel [of 4 4096 "unat (page_tables s)"] by simp
  then show "kpte_addr s v mod 4 = 0" by (simp add: kpte_addr_def mod_add_eq)
  show "unat (page_tables s) \<le> kpte_addr s v" by (simp add: kpte_addr_def)
qed

text \<open>Writing a page table entry keeps the directory, and an entry of another page keeps its value.\<close>

lemma kernel_tables_store:
  assumes "kernel_tables s"
  shows "kernel_tables (s\<lparr>mem := store32 (mem s) (ptr (kpte_addr s v)) e\<rparr>)"
proof -
  have lay: "paging_layout s" using assms by (simp add: kernel_tables_def)
  note l = paging_layoutD [OF lay] and k = kpte_range [OF lay, of v]
  have "load32 (store32 (mem s) (ptr (kpte_addr s v)) e) (ptr (unat (page_directory s) + 4 * i))
      = load32 (mem s) (ptr (unat (page_directory s) + 4 * i))" if "i < 1024" for i
    using l(5-7) k(2,3) that by (intro load32_store32_ptr) linarith+
  then show ?thesis using assms by (simp add: kernel_tables_def paging_layout_def)
qed

lemma kernel_pte_store:
  assumes "paging_layout s"
  shows "load32 (store32 (mem s) (ptr (kpte_addr s v)) e) (ptr (kpte_addr s w))
    = (if unat w div 4096 = unat v div 4096 then e else load32 (mem s) (ptr (kpte_addr s w)))"
  using load32_store32_words [of "kpte_addr s v" "kpte_addr s w" "mem s" e]
    kpte_range [OF assms, of v] kpte_range [OF assms, of w] by (auto simp: kpte_addr_def)

lemma paging_map_page_eq:
  assumes "kernel_tables s"
  shows "paging_map_page virt phys flags s
    = s\<lparr>mem := store32 (mem s) (ptr (kpte_addr s virt)) (frame phys OR (flags AND 0xFFF) OR PAGE_PRESENT)\<rparr>"
  using kernel_pde [OF assms, of virt] by (simp add: paging_map_page_def Let_def kernel_pte_addr)

lemma paging_unmap_page_eq:
  "paging_unmap_page virt s = s\<lparr>mem := store32 (mem s) (ptr (kpte_addr s virt)) 0\<rparr>"
  by (simp add: paging_unmap_page_def kernel_pte_addr)

lemma virt_to_phys_eq:
  assumes "kernel_tables s"
  shows "virt_to_phys s v = (let e = load32 (mem s) (ptr (kpte_addr s v)) in if present e then frame e OR (v AND 0xFFF) else 0)"
    and "paging_get_physical s v = virt_to_phys s v"
proof -
  show e: "virt_to_phys s v = (let e = load32 (mem s) (ptr (kpte_addr s v)) in if present e then frame e OR (v AND 0xFFF) else 0)"
    using kernel_pde [OF assms, of v]
    by (simp add: virt_to_phys_def Let_def kernel_pte_addr PAGE_PRESENT_def)
  show "paging_get_physical s v = virt_to_phys s v"
    unfolding e by (simp add: paging_get_physical_def kernel_pte_addr)
qed

lemma mapped_entry:
  "present (frame p OR (f AND 0xFFF) OR PAGE_PRESENT)" "frame (frame p OR (f AND 0xFFF) OR PAGE_PRESENT) = frame p"
proof -
  show "present (frame p OR (f AND 0xFFF) OR PAGE_PRESENT)"
    unfolding present_bit bit_or_iff by (simp add: PAGE_PRESENT_def bit_0)
  show "frame (frame p OR (f AND 0xFFF) OR PAGE_PRESENT) = frame p"
    by (rule bit_word_eqI) (simp only: page_bits PAGE_PRESENT_def bit_1_iff, auto)
qed

text \<open>C24. \<open>paging_map_page\<close> and \<open>paging_unmap_page\<close> change the translation of exactly one page of
  the kernel's address space: after a map every address of that page goes to the given frame, after
  an unmap to none, every other page keeps its translation, and \<open>virt_to_phys\<close> (the walk) and
  \<open>paging_get_physical\<close> (the direct lookup) agree before and after.\<close>

theorem paging_map_unmap_translate:
  assumes "kernel_tables s"
  shows "kernel_tables (paging_map_page virt phys flags s) \<and> kernel_tables (paging_unmap_page virt s)
    \<and> virt_to_phys (paging_map_page virt phys flags s) v
        = (if unat v div 4096 = unat virt div 4096 then frame phys OR (v AND 0xFFF) else virt_to_phys s v)
    \<and> virt_to_phys (paging_unmap_page virt s) v = (if unat v div 4096 = unat virt div 4096 then 0 else virt_to_phys s v)
    \<and> paging_get_physical s v = virt_to_phys s v
    \<and> paging_get_physical (paging_map_page virt phys flags s) v = virt_to_phys (paging_map_page virt phys flags s) v"
proof -
  have lay: "paging_layout s" using assms by (simp add: kernel_tables_def)
  have km: "kernel_tables (paging_map_page virt phys flags s)" and ku: "kernel_tables (paging_unmap_page virt s)"
    using kernel_tables_store [OF assms] by (simp_all add: paging_map_page_eq [OF assms] paging_unmap_page_eq)
  have addr: "kpte_addr (s\<lparr>mem := m\<rparr>) v = kpte_addr s v" for m by (simp add: kpte_addr_def)
  have np: "\<not> present 0" by (simp add: PAGE_PRESENT_def)
  have "virt_to_phys (paging_map_page virt phys flags s) v
      = (if unat v div 4096 = unat virt div 4096 then frame phys OR (v AND 0xFFF) else virt_to_phys s v)"
    unfolding virt_to_phys_eq(1) [OF km] virt_to_phys_eq(1) [OF assms]
    by (simp add: paging_map_page_eq [OF assms] addr kernel_pte_store [OF lay] mapped_entry Let_def)
  moreover have "virt_to_phys (paging_unmap_page virt s) v
      = (if unat v div 4096 = unat virt div 4096 then 0 else virt_to_phys s v)"
    unfolding virt_to_phys_eq(1) [OF ku] virt_to_phys_eq(1) [OF assms]
    by (simp add: paging_unmap_page_eq addr kernel_pte_store [OF lay] np Let_def)
  ultimately show ?thesis using km ku virt_to_phys_eq(2) [OF assms] virt_to_phys_eq(2) [OF km] by blast
qed

section \<open>Initialisation\<close>

lemma load32_memset0:
  assumes "a mod 4 = 0" "b mod 4 = 0" "n mod 4 = 0" "a + n \<le> 4294967296" "b < 4294967296"
  shows "load32 (memset m (ptr a) 0 n) (ptr b) = (if a \<le> b \<and> b < a + n then 0 else load32 m (ptr b))"
proof -
  have b: "b + 4 \<le> 4294967296" using assms(2,5) by presburger
  have byte: "memset m (ptr a) 0 n (ptr x) = (if a \<le> x \<and> x < a + n then 0 else m (ptr x))" if "x < 4294967296" for x
  proof (cases "a \<le> x \<and> x < a + n")
    case True
    then have "ptr x - ptr a = ptr (x - a)" by (simp add: ptr_minus)
    moreover have "unat (ptr (x - a)) = x - a" using that by (intro unat_ptr) simp
    moreover have "x - a < n" using True by linarith
    ultimately show ?thesis using True assms(4) by (simp add: memset_apply)
  next
    case False
    then have "n \<le> unat (ptr x - ptr a) \<or> n = 0"
      using unat_outside [of x "ptr a" n] that assms(4)
      by (cases "a < 4294967296") (auto simp: ptr_def [symmetric] not_le not_less)
    then show ?thesis using False assms(4) by (auto simp: memset_apply)
  qed
  have blk: "a \<le> b + i \<and> b + i < a + n \<longleftrightarrow> a \<le> b \<and> b < a + n" if "i < 4" for i
    using assms(1-3) that by presburger
  show ?thesis
    using byte [of b] byte [of "b + 1"] byte [of "b + 2"] byte [of "b + 3"] blk [of 1] blk [of 2] blk [of 3] b
    by (auto simp: load32_def)
qed

text \<open>The entry for page \<open>k\<close>, and the effect of filling one table on every aligned word.\<close>

definition init_pte :: "nat \<Rightarrow> nat \<Rightarrow> u32" where
  "init_pte ram k = (if k < ram then ptr (k * 4096) OR 7 else 0)"

lemma fill_table:
  assumes "a mod 4 = 0" "a + 4096 \<le> 4294967296" "b mod 4 = 0" "b < 4294967296" "t < 1024" "n \<le> 1024"
  shows "load32 (fold (\<lambda>p m. let page_idx = of_nat t * 1024 + p in
                 if page_idx < ram
                 then store32 m (word_at (ptr a) p) (page_idx * 4096 OR PAGE_PRESENT OR PAGE_WRITE OR PAGE_USER)
                 else m) (map of_nat [0..<n]) m) (ptr b)
    = (if a \<le> b \<and> b < a + 4 * n \<and> 1024 * t + (b - a) div 4 < unat ram then init_pte (unat ram) (1024 * t + (b - a) div 4)
       else load32 m (ptr b))"
  using assms(6)
proof (induction n)
  case (Suc n)
  let ?k = "1024 * t + n"
  have idx: "of_nat t * 1024 + of_nat n = (of_nat ?k :: u32)" by (simp add: mult.commute)
  have k32: "?k < 4294967296" using assms(5) Suc.prems by simp
  have lt: "(of_nat ?k :: u32) < ram \<longleftrightarrow> ?k < unat ram"
  proof -
    have "unat (of_nat ?k :: u32) = ?k" using k32 by (intro unat_of_nat32) simp
    then show ?thesis by (simp only: word_less_nat_alt)
  qed
  have ent: "of_nat ?k * 4096 OR PAGE_PRESENT OR PAGE_WRITE OR PAGE_USER = ptr (?k * 4096) OR 7"
  proof -
    have "PAGE_PRESENT OR (PAGE_WRITE OR PAGE_USER) = 7" by (simp add: PAGE_PRESENT_def PAGE_WRITE_def PAGE_USER_def)
    then show ?thesis by (simp add: ptr_def or.assoc)
  qed
  have wa: "word_at (ptr a) (of_nat n) = ptr (a + 4 * n)"
    using Suc.prems by (simp add: word_at_ptr unat_of_nat32)
  have w: "load32 (store32 m' (ptr (a + 4 * n)) e) (ptr b) = (if b = a + 4 * n then e else load32 m' (ptr b))" for m' e
    using load32_store32_words [of "a + 4 * n" b m' e] assms(1-4) Suc.prems by (auto simp: mod_add_eq)
  have split: "a \<le> b \<and> b < a + 4 * Suc n \<longleftrightarrow> a \<le> b \<and> b < a + 4 * n \<or> b = a + 4 * n"
    using assms(1,3) by presburger
  have IH: "load32 (fold (\<lambda>p m. let page_idx = of_nat t * 1024 + p in
                 if page_idx < ram
                 then store32 m (word_at (ptr a) p) (page_idx * 4096 OR PAGE_PRESENT OR PAGE_WRITE OR PAGE_USER)
                 else m) (map of_nat [0..<n]) m) (ptr b)
    = (if a \<le> b \<and> b < a + 4 * n \<and> 1024 * t + (b - a) div 4 < unat ram then init_pte (unat ram) (1024 * t + (b - a) div 4)
       else load32 m (ptr b))" using Suc by simp
  show ?case
  proof (cases "b = a + 4 * n")
    case True
    then show ?thesis using IH lt w ent by (simp add: Let_def idx wa init_pte_def)
  next
    case False
    with split have "a \<le> b \<and> b < a + 4 * Suc n \<longleftrightarrow> a \<le> b \<and> b < a + 4 * n" by blast
    then have eq: "a \<le> b \<and> b < a + 4 * Suc n \<and> Q \<longleftrightarrow> a \<le> b \<and> b < a + 4 * n \<and> Q" for Q by blast
    show ?thesis unfolding eq using IH w False by (simp add: Let_def wa)
  qed
qed auto

lemma paging_init_table_word:
  assumes lay: "paging_layout s" and t: "t < 1024" and b: "b mod 4 = 0" "b < 4294967296"
  shows "load32 (mem (paging_init_table ram (of_nat t) s)) (ptr b) =
    (if b = unat (page_directory s) + 4 * t then ptr (unat (page_tables s) + 4096 * t) OR 7
     else if unat (page_tables s) + 4096 * t \<le> b \<and> b < unat (page_tables s) + 4096 * t + 4096
     then init_pte (unat ram) ((b - unat (page_tables s)) div 4)
     else load32 (mem s) (ptr b))"
proof -
  note l = paging_layoutD [OF lay]
  let ?a = "unat (page_tables s) + 4096 * t" and ?d = "unat (page_directory s) + 4 * t"
  have t32: "unat (of_nat t :: u32) = t" using t by (simp add: unat_of_nat32)
  have kp: "kernel_pt s (of_nat t) = ptr ?a" "word_at (page_directory s) (of_nat t) = ptr ?d"
    by (simp_all only: kernel_pt_ptr kernel_pde_addr t32)
  have al: "?a mod 4 = 0" "?d mod 4 = 0"
    using l(1,2) mod_mod_cancel [of 4 4096 "unat (page_tables s)"] mod_mod_cancel [of 4 4096 "unat (page_directory s)"]
    by (auto simp: mod_add_eq mod_add_left_eq)
  have rng: "?a + 4096 \<le> 4294967296" "?d < 4294967296" using l t by linarith+
  have sev: "PAGE_PRESENT OR (PAGE_WRITE OR PAGE_USER) = 7" by (simp add: PAGE_PRESENT_def PAGE_WRITE_def PAGE_USER_def)
  have k: "1024 * t + (b - ?a) div 4 = (b - unat (page_tables s)) div 4" if "?a \<le> b"
  proof -
    have "b - unat (page_tables s) = 4 * (1024 * t) + (b - ?a)" using that by simp
    then show ?thesis by simp
  qed
  let ?m1 = "memset (mem s) (ptr ?a) 0 4096"
  let ?m2 = "fold (\<lambda>p m. let page_idx = of_nat t * 1024 + p in
                 if page_idx < ram
                 then store32 m (word_at (ptr ?a) p) (page_idx * 4096 OR PAGE_PRESENT OR PAGE_WRITE OR PAGE_USER)
                 else m) (map of_nat [0..<1024]) ?m1"
  have "mem (paging_init_table ram (of_nat t) s) = store32 ?m2 (ptr ?d) (ptr ?a OR 7)"
    unfolding paging_init_table_def Let_def kp by (simp add: or.assoc sev)
  then have "load32 (mem (paging_init_table ram (of_nat t) s)) (ptr b)
      = (if b = ?d then ptr ?a OR 7 else load32 ?m2 (ptr b))"
    using load32_store32_words [OF al(2) b(1) rng(2) b(2)] by auto
  moreover have "load32 ?m2 (ptr b) = (if ?a \<le> b \<and> b < ?a + 4 * 1024 \<and> 1024 * t + (b - ?a) div 4 < unat ram
      then init_pte (unat ram) (1024 * t + (b - ?a) div 4) else load32 ?m1 (ptr b))"
    by (rule fill_table [OF al(1) rng(1) b t order.refl])
  moreover have "load32 ?m1 (ptr b) = (if ?a \<le> b \<and> b < ?a + 4096 then 0 else load32 (mem s) (ptr b))"
    by (rule load32_memset0 [OF al(1) b(1) _ rng(1) b(2)]) simp
  ultimately show ?thesis using k by (simp add: init_pte_def)
qed

lemma paging_init_table_frame:
  "page_directory (paging_init_table ram t s) = page_directory s"
  "page_tables (paging_init_table ram t s) = page_tables s"
  "paging_layout (paging_init_table ram t s) = paging_layout s"
  by (simp_all add: paging_init_table_def Let_def paging_layout_def)

lemma paging_init_loop:
  fixes ram :: u32
  assumes lay: "paging_layout s" and n: "n \<le> 1024"
  defines "s' \<equiv> fold (paging_init_table ram) (map of_nat [0..<n]) s"
  shows "page_directory s' = page_directory s \<and> page_tables s' = page_tables s
    \<and> (\<forall>i < n. load32 (mem s') (ptr (unat (page_directory s) + 4 * i)) = ptr (unat (page_tables s) + 4096 * i) OR 7)
    \<and> (\<forall>k < 1024 * n. load32 (mem s') (ptr (unat (page_tables s) + 4 * k)) = init_pte (unat ram) k)"
  using n unfolding s'_def
proof (induction n)
  case (Suc n)
  let ?s = "fold (paging_init_table ram) (map of_nat [0..<n]) s"
  let ?d = "unat (page_directory s)" and ?t = "unat (page_tables s)"
  note l = paging_layoutD [OF lay]
  have fr: "page_directory ?s = page_directory s" "page_tables ?s = page_tables s"
    and IH: "\<forall>i < n. load32 (mem ?s) (ptr (?d + 4 * i)) = ptr (?t + 4096 * i) OR 7"
      "\<forall>k < 1024 * n. load32 (mem ?s) (ptr (?t + 4 * k)) = init_pte (unat ram) k"
    using Suc by auto
  then have lay': "paging_layout ?s" using lay by (simp add: paging_layout_def)
  have n: "n < 1024" using Suc.prems by simp
  note word = paging_init_table_word [OF lay' n, of _ ram, unfolded fr]
  have al: "?d mod 4 = 0" "?t mod 4 = 0"
    using l(1,2) mod_mod_cancel [of 4 4096 ?d] mod_mod_cancel [of 4 4096 ?t] by simp_all
  have "load32 (mem (paging_init_table ram (of_nat n) ?s)) (ptr (?d + 4 * i)) = ptr (?t + 4096 * i) OR 7" if "i < Suc n" for i
  proof -
    have "(?d + 4 * i) mod 4 = 0" "?d + 4 * i < 4294967296" using al l(5) that n by (auto simp: mod_add_eq)
    moreover have "\<not> (?t + 4096 * n \<le> ?d + 4 * i \<and> ?d + 4 * i < ?t + 4096 * n + 4096)"
      using l(7) that n by linarith
    ultimately show ?thesis using word [of "?d + 4 * i"] IH(1) that by (auto simp: less_Suc_eq)
  qed
  moreover have "load32 (mem (paging_init_table ram (of_nat n) ?s)) (ptr (?t + 4 * k)) = init_pte (unat ram) k"
    if "k < 1024 * Suc n" for k
  proof -
    have "(?t + 4 * k) mod 4 = 0" "?t + 4 * k < 4294967296" using al l(6) that n by (auto simp: mod_add_eq)
    moreover have "?t + 4 * k \<noteq> ?d + 4 * n" using l(7) that n by auto
    moreover have "?t + 4096 * n \<le> ?t + 4 * k \<and> ?t + 4 * k < ?t + 4096 * n + 4096 \<longleftrightarrow> \<not> k < 1024 * n"
      using that by auto
    ultimately show ?thesis using word [of "?t + 4 * k"] IH(2) by auto
  qed
  ultimately show ?case by (simp add: fr paging_init_table_frame)
qed simp

text \<open>\<open>paging_init\<close> builds a well-formed identity map: every directory entry points to its table,
  every address below the RAM size translates to itself, every address above it is not mapped, and
  CR3 holds the kernel's directory.\<close>

theorem paging_init_identity:
  assumes "paging_layout s"
  shows "kernel_tables (paging_init mem_kb s) \<and> cr3 (paging_init mem_kb s) = page_directory s
    \<and> virt_to_phys (paging_init mem_kb s) v = (if unat v div 4096 < unat (mem_kb * 1024) div 4096 then v else 0)"
proof -
  let ?ram = "(mem_kb * 1024) div 4096" and ?m0 = "memset (mem s) (page_directory s) 0 4096"
  let ?s = "paging_init mem_kb s"
  have lay': "paging_layout (s\<lparr>mem := ?m0\<rparr>)" using assms by (simp add: paging_layout_def)
  note L = paging_init_loop [OF lay' order.refl, of ?ram]
  have fr: "page_directory ?s = page_directory s" "page_tables ?s = page_tables s" "cr3 ?s = page_directory s"
    and pde: "\<forall>i < 1024. load32 (mem ?s) (ptr (unat (page_directory s) + 4 * i)) = ptr (unat (page_tables s) + 4096 * i) OR 7"
    and pte: "\<forall>k < 1048576. load32 (mem ?s) (ptr (unat (page_tables s) + 4 * k)) = init_pte (unat ?ram) k"
    using L by (simp_all add: paging_init_def Let_def)
  have kt: "kernel_tables ?s" using assms pde by (simp add: kernel_tables_def fr paging_layout_def)
  have k: "unat v div 4096 < 1048576" using unat_u32 [of v] by (simp add: less_mult_imp_div_less)
  have ram: "unat ?ram = unat (mem_kb * 1024) div 4096" by (simp add: unat_div)
  have "ptr (unat v div 4096 * 4096) = frame v"
    using unat_frame [of v] by (metis ptr_unat)
  moreover have "frame (ptr (unat v div 4096 * 4096) OR 7) = ptr (unat v div 4096 * 4096)"
    using k by (intro frame_or_flags) simp_all
  moreover have "present (ptr (unat v div 4096 * 4096) OR 7)"
    unfolding present_bit bit_or_iff by (simp add: bit_0)
  moreover have "frame v OR (v AND 0xFFF) = v"
    by (rule bit_word_eqI) (simp only: page_bits, auto)
  moreover have "\<not> present 0" by (simp add: PAGE_PRESENT_def)
  ultimately have "virt_to_phys ?s v = (if unat v div 4096 < unat (mem_kb * 1024) div 4096 then v else 0)"
    using pte k ram unfolding virt_to_phys_eq(1) [OF kt] by (simp add: kpte_addr_def fr init_pte_def Let_def)
  then show ?thesis using kt fr by simp
qed

definition paging_sample :: paging_state where
  "paging_sample = \<lparr>mem = (\<lambda>_. 0), bitmap = replicate 32768 0, total_pages = 16384, used_pages = 0,
     kernel_end = 0x800000, heap_start = 0, heap_total = 0,
     page_directory = 0x200000, page_tables = 0x400000, cr3 = 0\<rparr>"

lemma paging_sample_layout: "paging_layout paging_sample"
  by (simp add: paging_layout_def paging_sample_def)

lemma paging_init_identity_witness:
  "paging_layout paging_sample \<and> kernel_tables (paging_init 65536 paging_sample)
   \<and> virt_to_phys (paging_init 65536 paging_sample) 0x123456 = 0x123456
   \<and> virt_to_phys (paging_init 65536 paging_sample) 0x4000000 = 0"
  using paging_init_identity [OF paging_sample_layout, of 65536 "0x123456"]
    paging_init_identity [OF paging_sample_layout, of 65536 "0x4000000"] paging_sample_layout by simp

lemma paging_sample_tables: "kernel_tables (paging_init 65536 paging_sample)"
proof -
  let ?ram = "(65536 * 1024 :: u32) div 4096"
  let ?m0 = "memset (mem paging_sample) (page_directory paging_sample) 0 4096"
  have "paging_layout (paging_sample\<lparr>mem := ?m0\<rparr>)"
    using paging_sample_layout by (simp add: paging_layout_def)
  from paging_init_loop [OF this order.refl, of ?ram] show ?thesis
    using paging_sample_layout by (simp add: kernel_tables_def paging_init_def Let_def paging_layout_def)
qed

lemma paging_map_unmap_translate_witness:
  "kernel_tables (paging_init 65536 paging_sample)
   \<and> virt_to_phys (paging_map_page 0x30000000 0xFD000000 3 (paging_init 65536 paging_sample)) 0x30000010 = 0xFD000010"
  using paging_map_unmap_translate [OF paging_sample_tables, of "0x30000000" "0xFD000000" 3 "0x30000010"]
    paging_sample_tables by simp

section \<open>Mapping into another address space\<close>

lemma kernel_tables_cr3: "kernel_tables (s\<lparr>cr3 := c\<rparr>) = kernel_tables s"
  by (simp add: kernel_tables_def paging_layout_def)

lemma mmu_kernel:
  assumes "kernel_tables s" "cr3 s = page_directory s"
  shows "mmu (mem s) (cr3 s) v
    = (let e = load32 (mem s) (ptr (kpte_addr s v)) in if present e then Some (frame e OR (v AND 0xFFF)) else None)"
proof -
  note l = paging_layoutD [OF assms(1) [unfolded kernel_tables_def, THEN conjunct1]]
  have "frame (page_directory s) = page_directory s"
    using frame_ptr [of "unat (page_directory s)"] l(1) unat_u32 [of "page_directory s"] by (simp add: ptr_unat)
  with kernel_pde [OF assms(1), of v] show ?thesis
    by (simp add: mmu_def Let_def assms(2) kernel_pte_addr)
qed

text \<open>Word \<open>i\<close> of a window.\<close>

lemma window_word:
  assumes "i < 1024" "w mod 4096 = 0" "w + 4096 \<le> 4294967296"
  shows "unat (word_at (ptr w) (of_nat i)) div 4096 = w div 4096" "word_at (ptr w) (of_nat i) AND 0xFFF = ptr (4 * i)"
proof -
  have a: "word_at (ptr w) (of_nat i) = ptr (w + 4 * i)" using assms(1) by (simp add: word_at_ptr unat_of_nat32)
  have u: "unat (ptr (w + 4 * i)) = w + 4 * i" using assms by simp
  have "(w + 4 * i) div 4096 = w div 4096" using assms(1,2) by (simp add: div_add1_eq)
  then show "unat (word_at (ptr w) (of_nat i)) div 4096 = w div 4096" by (simp only: a u)
  have "(0xFFF :: u32) = mask 12" by (simp add: mask_eq_exp_minus_1)
  then have "unat (ptr (w + 4 * i) AND 0xFFF) = (w + 4 * i) mod 4096" by (simp only: unat_and_mask u) simp
  also have "\<dots> = 4 * i" using assms(1,2) by (simp add: mod_add_eq [symmetric])
  finally show "word_at (ptr w) (of_nat i) AND 0xFFF = ptr (4 * i)" by (simp only: a) (metis ptr_unat)
qed

lemma or_page_offset:
  assumes "p mod 4096 = 0" "p < 4294967296" "i < 4096"
  shows "ptr p OR ptr (i) = ptr (p + i)"
proof -
  have d: "ptr p AND ptr (i) = 0"
  proof (rule bit_word_eqI)
    fix n assume n: "n < LENGTH(32)"
    have "\<not> (bit (ptr p) n \<and> bit (ptr (i)) n)"
    proof
      assume b: "bit (ptr p) n \<and> bit (ptr (i)) n"
      have "bit (frame (ptr p)) n" using b frame_ptr [OF assms(1,2)] by simp
      then have "12 \<le> n" by (simp only: page_bits)
      moreover have "ptr (i) AND 0xFFF = ptr (i)" using assms(3) by (intro small_low) simp
      then have "bit (ptr (i) AND 0xFFF) n" using b by simp
      then have "n < 12" by (simp only: page_bits)
      ultimately show False by simp
    qed
    then show "bit (ptr p AND ptr (i)) n = bit 0 n" by (simp add: bit_and_iff)
  qed
  with word_plus_and_or [of "ptr p" "ptr (i)"] show ?thesis by simp
qed

lemma or_offset: "p mod 4096 = 0 \<Longrightarrow> p < 4294967296 \<Longrightarrow> i < 1024 \<Longrightarrow> ptr p OR ptr (4 * i) = ptr (p + 4 * i)"
  by (rule or_page_offset) simp_all

text \<open>With the window mapped to frame \<open>p\<close>, word \<open>i\<close> of the window is word \<open>i\<close> of the frame.\<close>

lemma mmu_window:
  assumes kt: "kernel_tables s" "cr3 s = page_directory s"
    and w: "i < 1024" "w mod 4096 = 0" "w + 4096 \<le> 4294967296"
    and e: "load32 (mem s) (ptr (kpte_addr s (ptr w))) = e" "present e" "frame e = ptr p"
    and p: "p mod 4096 = 0" "p < 4294967296"
  shows "mmu (mem s) (cr3 s) (word_at (ptr w) (of_nat i)) = Some (ptr (p + 4 * i))"
proof -
  have "kpte_addr s (word_at (ptr w) (of_nat i)) = kpte_addr s (ptr w)"
    using window_word(1) [OF w] w(3) by (simp add: kpte_addr_def)
  then show ?thesis
    unfolding mmu_kernel [OF kt] Let_def
    by (simp only: e window_word(2) [OF w] or_offset [OF p w(1)] simp_thms if_True)
qed

lemma window_entry: "p mod 4096 = 0 \<Longrightarrow> p < 4294967296 \<Longrightarrow>
   present (frame (ptr p) OR (f AND 0xFFF) OR PAGE_PRESENT) \<and> frame (frame (ptr p) OR (f AND 0xFFF) OR PAGE_PRESENT) = ptr p"
  using mapped_entry [of "ptr p" f] frame_ptr [of p] by simp

text \<open>Where the words of the mapping are: \<open>T\<close> is the target directory and \<open>P\<close> the page
  table, each a page away from the kernel's directory, the windows' entries and each other.\<close>

definition window_entries :: "'a paging_state_scheme \<Rightarrow> nat set" where
  "window_entries s = {kpte_addr s TEMP_PD_VA, kpte_addr s TEMP_PT_VA}"

definition page_clear :: "'a paging_state_scheme \<Rightarrow> nat \<Rightarrow> bool" where
  "page_clear s p \<longleftrightarrow> p mod 4096 = 0 \<and> p + 4096 \<le> 4294967296 \<and> p \<noteq> unat (page_directory s)
     \<and> p \<noteq> unat (page_tables s) + 4096 * 255"

lemma page_clear_word:
  assumes lay: "paging_layout s" and p: "page_clear s p" and i: "i < 1024"
  shows "(p + 4 * i) mod 4 = 0" "p + 4 * i < 4294967296" "p + 4 * i \<notin> window_entries s"
    "j < 1024 \<Longrightarrow> p + 4 * i \<noteq> unat (page_directory s) + 4 * j"
proof -
  note l = paging_layoutD [OF lay]
  have pa: "p mod 4096 = 0" "p + 4096 \<le> 4294967296" and ne: "p \<noteq> unat (page_directory s)"
    "p \<noteq> unat (page_tables s) + 4096 * 255" using p by (auto simp: page_clear_def)
  have page: "a div 4096 = b div 4096 \<longrightarrow> a = b" if "a mod 4096 = 0" "b mod 4096 = 0" for a b :: nat
    using that by (metis mod_div_mult_eq add_cancel_right_left)
  have off: "(a + 4 * k) div 4096 = a div 4096" if "a mod 4096 = 0" "k < 1024" for a k :: nat
    using that by (simp add: div_add1_eq)
  show "(p + 4 * i) mod 4 = 0" using mod_mod_cancel [of 4 4096 p] pa by (simp add: mod_add_eq)
  show "p + 4 * i < 4294967296" using pa i by linarith
  have "p + 4 * i \<noteq> a + 4 * k" if "a mod 4096 = 0" "k < 1024" "p \<noteq> a" for a k
    using off [OF pa(1) i] off [OF that(1,2)] page [OF pa(1) that(1)] that(3) by metis
  note diff = this
  show "p + 4 * i \<noteq> unat (page_directory s) + 4 * j" if "j < 1024"
    by (rule diff [OF l(1) that ne(1)])
  have k: "kpte_addr s TEMP_PD_VA = (unat (page_tables s) + 4096 * 255) + 4 * 512"
    "kpte_addr s TEMP_PT_VA = (unat (page_tables s) + 4096 * 255) + 4 * 513"
    by (simp_all add: kpte_addr_def TEMP_PD_VA_def TEMP_PT_VA_def)
  have "(unat (page_tables s) + 4096 * 255) mod 4096 = 0" by (simp only: mod_mult_self2 l(2))
  then show "p + 4 * i \<notin> window_entries s"
    using diff [of "unat (page_tables s) + 4096 * 255" 512] diff [of "unat (page_tables s) + 4096 * 255" 513] ne(2)
    unfolding window_entries_def k by auto
qed

lemma kernel_tables_store_clear:
  assumes "kernel_tables s" "page_clear s p" "i < 1024"
  shows "kernel_tables (s\<lparr>mem := store32 (mem s) (ptr (p + 4 * i)) e\<rparr>)"
proof -
  have lay: "paging_layout s" using assms(1) by (simp add: kernel_tables_def)
  note l = paging_layoutD [OF lay] and c = page_clear_word [OF lay assms(2,3)]
  have "load32 (store32 (mem s) (ptr (p + 4 * i)) e) (ptr (unat (page_directory s) + 4 * j))
      = load32 (mem s) (ptr (unat (page_directory s) + 4 * j))" if "j < 1024" for j
  proof -
    have "(unat (page_directory s) + 4 * j) mod 4 = 0" "unat (page_directory s) + 4 * j < 4294967296"
      using l(1,5) mod_mod_cancel [of 4 4096 "unat (page_directory s)"] that by (auto simp: mod_add_eq)
    then show ?thesis using load32_store32_words [OF c(1) _ c(2), of "unat (page_directory s) + 4 * j" "mem s" e] c(4) [OF that] by simp
  qed
  then show ?thesis using assms(1) by (simp add: kernel_tables_def paging_layout_def)
qed

lemma kpte_addr_upd [simp]: "kpte_addr (s\<lparr>mem := m\<rparr>) v = kpte_addr s v" "kpte_addr (s\<lparr>cr3 := c\<rparr>) v = kpte_addr s v"
  by (simp_all add: kpte_addr_def)

lemma page_clear_upd [simp]: "page_clear (s\<lparr>mem := m\<rparr>) p = page_clear s p" "page_clear (s\<lparr>cr3 := c\<rparr>) p = page_clear s p"
  by (simp_all add: page_clear_def)

lemma idx_of_nat: "of_nat (unat (pd_idx v)) = pd_idx v" "of_nat (unat (pt_idx v)) = pt_idx v"
  by simp_all

abbreviation win_pd :: nat where "win_pd \<equiv> 0x3FE00000"
abbreviation win_pt :: nat where "win_pt \<equiv> 0x3FE01000"

lemma windows: "TEMP_PD_VA = ptr win_pd" "TEMP_PT_VA = ptr win_pt"
  by (simp_all add: TEMP_PD_VA_def TEMP_PT_VA_def ptr_numeral)

lemma window_mmu:
  assumes kt: "kernel_tables s" "cr3 s = page_directory s" and w: "w = win_pd \<or> w = win_pt"
    and e: "load32 (mem s) (ptr (kpte_addr s (ptr w))) = frame (ptr p) OR (f AND 0xFFF) OR PAGE_PRESENT"
    and p: "p mod 4096 = 0" "p < 4294967296" and i: "unat i < 1024"
  shows "mmu (mem s) (cr3 s) (word_at (ptr w) i) = Some (ptr (p + 4 * unat i))"
proof -
  have "w mod 4096 = 0" "w + 4096 \<le> 4294967296" using w by auto
  from mmu_window [OF kt i this e _ _ p] window_entry [OF p] show ?thesis by simp
qed

text \<open>The tail of \<open>paging_map_user\<close>, once the directory entry is in place: it writes one page table
  entry and clears both windows.\<close>

lemma map_user_tail:
  assumes kt: "kernel_tables s" "cr3 s = page_directory s"
    and T: "page_clear s T" and P: "page_clear s P"
    and win: "load32 (mem s) (ptr (kpte_addr s TEMP_PD_VA)) = frame (ptr T) OR (f AND 0xFFF) OR PAGE_PRESENT"
    and pde: "frame (load32 (mem s) (ptr (T + 4 * unat (pd_idx virt)))) = ptr P"
  shows "do { pde_pa \<leftarrow> mmu (mem s) (cr3 s) (word_at TEMP_PD_VA (pd_idx virt));
              let pt_phys = frame (load32 (mem s) pde_pa);
                  s = paging_map_page TEMP_PT_VA pt_phys (PAGE_PRESENT OR PAGE_WRITE) s
              in do { pte_pa \<leftarrow> mmu (mem s) (cr3 s) (word_at TEMP_PT_VA (pt_idx virt));
                      let s = s\<lparr>mem := store32 (mem s) pte_pa (frame phys OR (user_flags virt flags AND 0xFFF))\<rparr>;
                          s = paging_unmap_page TEMP_PT_VA s;
                          s = paging_unmap_page TEMP_PD_VA s
                      in Some (s\<lparr>cr3 := c\<rparr>) } }
    = Some (s\<lparr>mem := store32 (store32 (store32 (store32 (mem s) (ptr (kpte_addr s TEMP_PT_VA))
          (frame (ptr P) OR ((PAGE_PRESENT OR PAGE_WRITE) AND 0xFFF) OR PAGE_PRESENT))
          (ptr (P + 4 * unat (pt_idx virt))) (frame phys OR (user_flags virt flags AND 0xFFF)))
          (ptr (kpte_addr s TEMP_PT_VA)) 0) (ptr (kpte_addr s TEMP_PD_VA)) 0, cr3 := c\<rparr>)"
proof -
  have pT: "T mod 4096 = 0" "T < 4294967296" and pP: "P mod 4096 = 0" "P < 4294967296"
    using T P by (auto simp: page_clear_def)
  have m1: "mmu (mem s) (cr3 s) (word_at TEMP_PD_VA (pd_idx virt)) = Some (ptr (T + 4 * unat (pd_idx virt)))"
    using window_mmu [OF kt, of win_pd T f "pd_idx virt"] win pT unat_pd_idx(2) [of virt] by (simp add: windows)
  let ?e = "frame (ptr P) OR ((PAGE_PRESENT OR PAGE_WRITE) AND 0xFFF) OR PAGE_PRESENT"
  let ?s = "s\<lparr>mem := store32 (mem s) (ptr (kpte_addr s TEMP_PT_VA)) ?e\<rparr>"
  have mp: "paging_map_page TEMP_PT_VA (ptr P) (PAGE_PRESENT OR PAGE_WRITE) s = ?s"
    by (rule paging_map_page_eq [OF kt(1)])
  have kt': "kernel_tables ?s" by (rule kernel_tables_store [OF kt(1)])
  have m2: "mmu (mem ?s) (cr3 ?s) (word_at TEMP_PT_VA (pt_idx virt)) = Some (ptr (P + 4 * unat (pt_idx virt)))"
    using window_mmu [OF kt', of win_pt P "PAGE_PRESENT OR PAGE_WRITE" "pt_idx virt"] kt(2) pP unat_pt_idx(2) [of virt]
    by (simp add: windows)
  show ?thesis
    unfolding m1 bind.bind_lunit Let_def pde mp m2 by (simp add: paging_unmap_page_eq)
qed

lemma or_user: "frame (e OR PAGE_USER) = frame e" "present (e OR PAGE_USER) = present e"
proof -
  have b: "bit PAGE_USER n \<longleftrightarrow> n = 2" for n
  proof -
    have "PAGE_USER = push_bit 2 1" by (simp add: PAGE_USER_def)
    show ?thesis unfolding \<open>PAGE_USER = push_bit 2 1\<close> bit_push_bit_iff bit_1_iff possible_bit_word by auto
  qed
  show "frame (e OR PAGE_USER) = frame e"
    by (rule bit_word_eqI) (simp only: page_bits b, auto)
  show "present (e OR PAGE_USER) = present e"
    unfolding present_bit by (simp only: page_bits b) auto
qed

lemma map_user_existing:
  fixes s :: "'a paging_state_scheme"
  assumes kt: "kernel_tables s" and T: "page_clear s T" and P: "page_clear s P" "P \<noteq> T"
    and old: "load32 (mem s) (ptr (T + 4 * unat (pd_idx virt))) = old" "present old" "frame old = ptr P"
  shows "\<exists>m'. paging_map_user (ptr T) virt phys flags s = Some (s\<lparr>mem := m'\<rparr>)
    \<and> (\<forall>b. b mod 4 = 0 \<and> b < 4294967296 \<longrightarrow> load32 m' (ptr b) =
         (if b \<in> window_entries s then 0
          else if b = P + 4 * unat (pt_idx virt) then frame phys OR (user_flags virt flags AND 0xFFF)
          else if b = T + 4 * unat (pd_idx virt) then old OR PAGE_USER
          else load32 (mem s) (ptr b)))"
proof -
  let ?i = "unat (pd_idx virt)" and ?j = "unat (pt_idx virt)"
  let ?f = "PAGE_PRESENT OR PAGE_WRITE"
  have ij: "?i < 1024" "?j < 1024" by (rule unat_pd_idx unat_pt_idx)+
  have lay: "paging_layout s" using kt by (simp add: kernel_tables_def)
  note cT = page_clear_word [OF lay T ij(1)] and cP = page_clear_word [OF lay P(1) ij(2)]
  note kD = kpte_range [OF lay, of TEMP_PD_VA] and kT = kpte_range [OF lay, of TEMP_PT_VA]
  have pT: "T mod 4096 = 0" "T < 4294967296" using T by (auto simp: page_clear_def)
  let ?s0 = "s\<lparr>cr3 := page_directory s\<rparr>" and ?KD = "kpte_addr s TEMP_PD_VA" and ?KT = "kpte_addr s TEMP_PT_VA"
  let ?ED = "frame (ptr T) OR (?f AND 0xFFF) OR PAGE_PRESENT"
  let ?s1 = "?s0\<lparr>mem := store32 (mem s) (ptr ?KD) ?ED\<rparr>"
  have kt0: "kernel_tables ?s0" using kt by (simp add: kernel_tables_cr3)
  have s1: "paging_map_page TEMP_PD_VA (ptr T) ?f ?s0 = ?s1" using paging_map_page_eq [OF kt0] by simp
  have kt1: "kernel_tables ?s1" using kernel_tables_store [OF kt0, of TEMP_PD_VA] by simp
  have nD: "T + 4 * ?i \<noteq> ?KD" "T + 4 * ?i \<noteq> ?KT" "P + 4 * ?j \<noteq> ?KD" "P + 4 * ?j \<noteq> ?KT"
    using cT(3) cP(3) by (auto simp: window_entries_def)
  have m1: "mmu (mem ?s1) (cr3 ?s1) (word_at TEMP_PD_VA (pd_idx virt)) = Some (ptr (T + 4 * ?i))"
    using window_mmu [OF kt1, of win_pd T ?f "pd_idx virt"] pT ij by (simp add: windows)
  have ld: "load32 (mem ?s1) (ptr (T + 4 * ?i)) = old"
    using load32_store32_words [OF kD(1) cT(1) kD(4) cT(2)] nD(1) old(1) by simp
  let ?s2 = "?s1\<lparr>mem := store32 (mem ?s1) (ptr (T + 4 * ?i)) (old OR PAGE_USER)\<rparr>"
  have s2: "link_user_table virt ?s1 = Some ?s2"
    using m1 ld old(2) unfolding link_user_table_def Let_def by simp
  have kt2: "kernel_tables ?s2" by (rule kernel_tables_store_clear [OF kt1 _ ij(1)]) (use T in simp)
  have win2: "load32 (mem ?s2) (ptr (kpte_addr ?s2 TEMP_PD_VA)) = ?ED"
    using load32_store32_words [OF cT(1) kD(1) cT(2) kD(4)] nD(1) by simp
  have pde2: "frame (load32 (mem ?s2) (ptr (T + 4 * ?i))) = ptr P" using old(3) by (simp add: or_user)
  have cl: "page_clear ?s2 T" "page_clear ?s2 P" using T P by simp_all
  let ?e = "frame phys OR (user_flags virt flags AND 0xFFF)"
  let ?m = "store32 (store32 (store32 (store32 (mem ?s2) (ptr ?KT) (frame (ptr P) OR (?f AND 0xFFF) OR PAGE_PRESENT))
      (ptr (P + 4 * ?j)) ?e) (ptr ?KT) 0) (ptr ?KD) 0"
  have "paging_map_user (ptr T) virt phys flags s = Some (?s2\<lparr>mem := ?m, cr3 := cr3 s\<rparr>)"
    using map_user_tail [OF kt2 _ cl win2 pde2, of phys flags "cr3 s"]
    unfolding paging_map_user_def Let_def s1 s2 bind.bind_lunit by simp
  moreover have "load32 ?m (ptr b) =
         (if b \<in> window_entries s then 0 else if b = P + 4 * ?j then ?e
          else if b = T + 4 * ?i then old OR PAGE_USER else load32 (mem s) (ptr b))"
    if b: "b mod 4 = 0" "b < 4294967296" for b
    using b kD(1,4) kT(1,4) cT(1,2) cP(1,2) nD by (simp add: load32_store32_words window_entries_def)
  ultimately show ?thesis by (intro exI [of _ ?m]) auto
qed

lemma map_user_kernel_tables:
  assumes "kernel_tables s" "page_clear s T" "page_clear s P"
    and w: "\<forall>b. b mod 4 = 0 \<and> b < 4294967296 \<longrightarrow> load32 m' (ptr b) =
         (if b \<in> window_entries s then 0 else if b = P + 4 * unat (pt_idx virt) then e
          else if b = T + 4 * unat (pd_idx virt) then e' else load32 (mem s) (ptr b))"
  shows "kernel_tables (s\<lparr>mem := m'\<rparr>)"
proof -
  have lay: "paging_layout s" using assms(1) by (simp add: kernel_tables_def)
  note l = paging_layoutD [OF lay]
  have ij: "unat (pd_idx virt) < 1024" "unat (pt_idx virt) < 1024" by (rule unat_pd_idx unat_pt_idx)+
  have "load32 m' (ptr (unat (page_directory s) + 4 * j)) = load32 (mem s) (ptr (unat (page_directory s) + 4 * j))"
    if "j < 1024" for j
  proof -
    have "(unat (page_directory s) + 4 * j) mod 4 = 0" "unat (page_directory s) + 4 * j < 4294967296"
      using l(1,5) mod_mod_cancel [of 4 4096 "unat (page_directory s)"] that by (auto simp: mod_add_eq)
    moreover have "unat (page_directory s) + 4 * j \<notin> window_entries s"
      using kpte_range(2,3) [OF lay, of TEMP_PD_VA] kpte_range(2,3) [OF lay, of TEMP_PT_VA] l(7) that
      by (auto simp: window_entries_def)
    ultimately show ?thesis
      using w page_clear_word(4) [OF lay assms(2) ij(1) that] page_clear_word(4) [OF lay assms(3) ij(2) that] by metis
  qed
  then show ?thesis using assms(1) by (simp add: kernel_tables_def paging_layout_def)
qed

lemma user_entry:
  "present (frame p OR (user_flags v f AND 0xFFF))" "frame (frame p OR (user_flags v f AND 0xFFF)) = frame p"
proof -
  show "frame (frame p OR (user_flags v f AND 0xFFF)) = frame p" by (rule frame_or_low)
  have "bit PAGE_PRESENT 0" by (simp add: PAGE_PRESENT_def bit_0)
  then have "bit (user_flags v f) 0" by (auto simp only: user_flags_def Let_def bit_or_iff split: if_split)
  then show "present (frame p OR (user_flags v f AND 0xFFF))"
    unfolding present_bit by (simp only: page_bits) simp
qed





section \<open>The "isolated" address space\<close>

text \<open>The copying loop, word by word.\<close>

lemma isolated_fold:
  fixes s :: "'a paging_state_scheme"
  assumes lay: "paging_layout s" and p: "page_clear s p" and n: "n \<le> 1024"
  defines "step \<equiv> \<lambda>i (s :: 'a paging_state_scheme).
     let m = store32 (mem s) (word_at (ptr p) i) (load32 (mem s) (word_at (page_directory s) i));
         m = (if 256 \<le> i \<and> i < 768 then store32 m (word_at (ptr p) i) 0 else m)
     in s\<lparr>mem := m\<rparr>"
  shows "\<exists>m. fold step (map of_nat [0..<n]) s = s\<lparr>mem := m\<rparr>
    \<and> (\<forall>b. b mod 4 = 0 \<and> b < 4294967296 \<longrightarrow> load32 m (ptr b) =
         (if p \<le> b \<and> b < p + 4 * n
          then (let i = (b - p) div 4 in
                if 256 \<le> i \<and> i < 768 then 0 else load32 (mem s) (ptr (unat (page_directory s) + 4 * i)))
          else load32 (mem s) (ptr b)))"
  using n
proof (induction n)
  case 0
  show ?case by (intro exI [of _ "mem s"]) auto
next
  case (Suc n)
  then obtain m where m: "fold step (map of_nat [0..<n]) s = s\<lparr>mem := m\<rparr>"
    and w: "\<forall>b. b mod 4 = 0 \<and> b < 4294967296 \<longrightarrow> load32 m (ptr b) =
         (if p \<le> b \<and> b < p + 4 * n
          then (let i = (b - p) div 4 in
                if 256 \<le> i \<and> i < 768 then 0 else load32 (mem s) (ptr (unat (page_directory s) + 4 * i)))
          else load32 (mem s) (ptr b))" by auto
  have n: "n < 1024" using Suc.prems by simp
  note c = page_clear_word [OF lay p n] and l = paging_layoutD [OF lay]
  let ?d = "unat (page_directory s) + 4 * n"
  have d: "?d mod 4 = 0" "?d < 4294967296"
    using l(1,5) mod_mod_cancel [of 4 4096 "unat (page_directory s)"] n by (auto simp: mod_add_eq)
  have nd: "\<not> (p \<le> ?d \<and> ?d < p + 4 * n)"
  proof
    assume r: "p \<le> ?d \<and> ?d < p + 4 * n"
    have "unat (page_directory s) div 4096 = p div 4096"
    proof -
      have "?d div 4096 = unat (page_directory s) div 4096" using l(1) n by (simp add: div_add1_eq)
      moreover have "?d div 4096 = p div 4096"
        using r n p by (intro div_nat_eqI) (auto simp: page_clear_def)
      ultimately show ?thesis by simp
    qed
    then show False using p l(1) by (metis page_clear_def mod_div_mult_eq add_cancel_right_left)
  qed
  have ld: "load32 m (ptr ?d) = load32 (mem s) (ptr ?d)" using w [rule_format, of ?d] d nd by auto
  have n32: "unat (of_nat n :: u32) = n" using n by (simp add: unat_of_nat32)
  have a: "word_at (ptr p) (of_nat n) = ptr (p + 4 * n)" "word_at (page_directory s) (of_nat n) = ptr ?d"
    by (simp_all only: word_at_ptr kernel_pde_addr n32)
  have cmp: "(256 \<le> (of_nat n :: u32)) = (256 \<le> n)" "((of_nat n :: u32) < 768) = (n < 768)"
    using n32 by (simp_all add: word_le_nat_alt word_less_nat_alt)
  let ?v = "if 256 \<le> n \<and> n < 768 then 0 else load32 (mem s) (ptr ?d)"
  let ?m1 = "store32 m (ptr (p + 4 * n)) (load32 (mem s) (ptr ?d))"
  let ?m = "if 256 \<le> n \<and> n < 768 then store32 ?m1 (ptr (p + 4 * n)) 0 else ?m1"
  have A: "fold step (map of_nat [0..<Suc n]) s = s\<lparr>mem := ?m\<rparr>"
    using m by (simp add: step_def Let_def a cmp ld)
  have B: "load32 ?m (ptr b) = (if p \<le> b \<and> b < p + 4 * Suc n
          then (let i = (b - p) div 4 in
                if 256 \<le> i \<and> i < 768 then 0 else load32 (mem s) (ptr (unat (page_directory s) + 4 * i)))
          else load32 (mem s) (ptr b))" if b: "b mod 4 = 0" "b < 4294967296" for b
  proof -
    have lm: "load32 ?m (ptr b) = (if b = p + 4 * n then ?v else load32 m (ptr b))"
      using load32_store32_words [OF c(1) b(1) c(2) b(2)] by simp
    have "p \<le> b \<and> b < p + 4 * Suc n \<longleftrightarrow> p \<le> b \<and> b < p + 4 * n \<or> b = p + 4 * n"
      using c(1) b(1) by presburger
    then show ?thesis using lm w b by (auto simp: Let_def)
  qed
  show ?case by (rule exI [of _ ?m], rule conjI [OF A], intro allI impI, elim conjE, rule B)
qed

text \<open>C37. The address space made by \<open>paging_create_isolated_space\<close> is not isolated at and above
  \<open>0xC0000000\<close>, where ELF images are loaded: its directory shares the kernel's page tables there,
  so mapping a user page into it changes the kernel's own translation of that address, and with it
  that of every other address space.\<close>

theorem isolated_space_shares_kernel:
  assumes kt: "kernel_tables s" and cr: "paging_create_isolated_space s = (pd, s1)" and pd: "pd \<noteq> 0"
    and cl: "page_clear s (unat pd)"
    and out: "unat pd + 4096 \<le> unat (page_tables s) \<or> unat (page_tables s) + 4194304 \<le> unat pd"
    and hi: "0xC0000000 \<le> virt"
  shows "\<exists>s2. paging_map_user pd virt phys flags s1 = Some s2 \<and> virt_to_phys s2 virt = frame phys OR (virt AND 0xFFF)"
proof -
  let ?i = "unat (pd_idx virt)" and ?T = "unat pd"
  let ?P = "unat (page_tables s) + 4096 * ?i"
  have i: "768 \<le> ?i" "?i < 1024"
    using hi unat_pd_idx [of virt] by (simp_all add: word_le_nat_alt)
  obtain q s0 where al: "pmm_alloc_page s = (q, s0)" by force
  obtain bm u where s0: "s0 = s\<lparr>bitmap := bm, used_pages := u\<rparr>" using pmm_alloc_page_frame [OF al] by blast
  have q: "q = pd" using cr pd al by (auto simp: paging_create_isolated_space_def split: if_splits)
  have kt0: "kernel_tables s0" and cl0: "page_clear s0 ?T" and lay0: "paging_layout s0"
    using kt cl by (simp_all add: s0 kernel_tables_def paging_layout_def page_clear_def)
  obtain m where m: "s1 = s0\<lparr>mem := m\<rparr>" and w: "\<forall>b. b mod 4 = 0 \<and> b < 4294967296 \<longrightarrow> load32 m (ptr b) =
         (if ?T \<le> b \<and> b < ?T + 4 * 1024
          then (let i = (b - ?T) div 4 in
                if 256 \<le> i \<and> i < 768 then 0 else load32 (mem s0) (ptr (unat (page_directory s0) + 4 * i)))
          else load32 (mem s0) (ptr b))"
    using isolated_fold [OF lay0 cl0 order.refl, unfolded ptr_unat] cr pd al
    by (auto simp: paging_create_isolated_space_def q)
  note l = paging_layoutD [OF lay0]
  have pdw: "load32 m (ptr (unat (page_directory s0) + 4 * j)) = load32 (mem s0) (ptr (unat (page_directory s0) + 4 * j))"
    if j: "j < 1024" for j
  proof -
    have "(unat (page_directory s0) + 4 * j) mod 4 = 0" "unat (page_directory s0) + 4 * j < 4294967296"
      using l(1,5) mod_mod_cancel [of 4 4096 "unat (page_directory s0)"] j by (auto simp: mod_add_eq)
    moreover have "\<not> (?T \<le> unat (page_directory s0) + 4 * j \<and> unat (page_directory s0) + 4 * j < ?T + 4 * 1024)"
    proof
      assume "?T \<le> unat (page_directory s0) + 4 * j \<and> unat (page_directory s0) + 4 * j < ?T + 4 * 1024"
      moreover from this have "(unat (page_directory s0) + 4 * j - ?T) mod 4 = 0"
        using page_clear_word(1) [OF lay0 cl0, of 0] \<open>(unat (page_directory s0) + 4 * j) mod 4 = 0\<close> by presburger
      moreover from calculation have "(unat (page_directory s0) + 4 * j - ?T) div 4 < 1024"
        by (intro less_mult_imp_div_less) linarith
      ultimately show False
        using page_clear_word(4) [OF lay0 cl0 _ j, of "(unat (page_directory s0) + 4 * j - ?T) div 4"] by auto
    qed
    ultimately show ?thesis using w by metis
  qed
  have kt1: "kernel_tables s1" using kt0 pdw by (simp add: m kernel_tables_def paging_layout_def)
  have pde: "load32 (mem s1) (ptr (?T + 4 * ?i)) = ptr ?P OR 7"
    using w page_clear_word(1,2) [OF lay0 cl0 i(2)] i kt by (simp add: m s0 Let_def kernel_tables_def)
  have fr: "page_directory s1 = page_directory s" "page_tables s1 = page_tables s" by (simp_all add: m s0)
  have aP: "?P mod 4096 = 0" "?P + 4096 \<le> 4294967296"
    using l(2,6) i by (simp_all add: s0)
  have clP: "page_clear s1 ?P" "page_clear s1 ?T"
    using aP l(7) i cl by (auto simp: page_clear_def fr s0)
  have ne: "?P \<noteq> ?T" using out i by auto
  have pe: "present (ptr ?P OR 7)" "frame (ptr ?P OR 7) = ptr ?P"
  proof -
    show "present (ptr ?P OR 7)" unfolding present_bit bit_or_iff by (simp add: bit_0)
    show "frame (ptr ?P OR 7) = ptr ?P" by (rule frame_or_flags) (use aP in simp_all)
  qed
  obtain m2 where m2: "paging_map_user (ptr ?T) virt phys flags s1 = Some (s1\<lparr>mem := m2\<rparr>)"
    and all: "\<forall>b. b mod 4 = 0 \<and> b < 4294967296 \<longrightarrow> load32 m2 (ptr b) =
         (if b \<in> window_entries s1 then 0 else if b = ?P + 4 * unat (pt_idx virt) then frame phys OR (user_flags virt flags AND 0xFFF)
          else if b = ?T + 4 * ?i then (ptr ?P OR 7) OR PAGE_USER else load32 (mem s1) (ptr b))"
    using map_user_existing [OF kt1 clP(2,1) ne pde pe, of phys flags] by blast
  have kt2: "kernel_tables (s1\<lparr>mem := m2\<rparr>)" using map_user_kernel_tables [OF kt1 clP(2,1) all] .
  have "?P + 4 * unat (pt_idx virt) = kpte_addr s1 virt"
    using page_number [of virt] by (simp add: kpte_addr_def fr)
  moreover have "?P + 4 * unat (pt_idx virt) \<notin> window_entries s1"
    using page_clear_word(3) [OF _ clP(1) unat_pt_idx(2)] kt1 by (simp add: kernel_tables_def)
  ultimately have "load32 m2 (ptr (kpte_addr s1 virt)) = frame phys OR (user_flags virt flags AND 0xFFF)"
    using all kpte_range(1,4) [of s1 virt] kt1 by (simp add: kernel_tables_def)
  then have "virt_to_phys (s1\<lparr>mem := m2\<rparr>) virt = frame phys OR (virt AND 0xFFF)"
    unfolding virt_to_phys_eq(1) [OF kt2] using user_entry [of phys virt flags] by (simp add: Let_def)
  then show ?thesis using m2 by (auto simp: ptr_unat)
qed

definition paging_sample3 :: paging_state where
  "paging_sample3 = \<lparr>mem = (\<lambda>_. 0), bitmap = 1 # replicate 32767 0, total_pages = 2, used_pages = 1,
     kernel_end = 0x800000, heap_start = 0, heap_total = 0,
     page_directory = 0x2000, page_tables = 0x400000, cr3 = 0\<rparr>"

lemma paging_init_frame:
  "bitmap (paging_init kb s) = bitmap s" "total_pages (paging_init kb s) = total_pages s"
  "page_directory (paging_init kb s) = page_directory s" "page_tables (paging_init kb s) = page_tables s"
proof -
  have "\<exists>m. fold (paging_init_table r) ts s' = s'\<lparr>mem := m\<rparr>" for r ts and s' :: "'a paging_state_scheme"
  proof (induction ts arbitrary: s')
    case Nil
    show ?case by (intro exI [of _ "mem s'"]) simp
  next
    case (Cons t ts)
    have "\<exists>m. paging_init_table r t s' = s'\<lparr>mem := m\<rparr>" by (auto simp: paging_init_table_def Let_def)
    with Cons [of "paging_init_table r t s'"] show ?case by auto
  qed
  from this [of "(kb * 1024) div 4096" "map of_nat [0..<1024]" "s\<lparr>mem := memset (mem s) (page_directory s) 0 4096\<rparr>"]
  obtain m where "fold (paging_init_table ((kb * 1024) div 4096)) (map of_nat [0..<1024])
      (s\<lparr>mem := memset (mem s) (page_directory s) 0 4096\<rparr>) = (s\<lparr>mem := m\<rparr>)" by auto
  then show "bitmap (paging_init kb s) = bitmap s" "total_pages (paging_init kb s) = total_pages s"
    "page_directory (paging_init kb s) = page_directory s" "page_tables (paging_init kb s) = page_tables s"
    by (simp_all add: paging_init_def Let_def)
qed

lemma isolated_space_shares_kernel_witness:
  "\<exists>s1 s2. paging_create_isolated_space (paging_init 65536 paging_sample3) = (0x1000, s1)
     \<and> paging_map_user 0x1000 0xC0000000 0xB00000 2 s1 = Some s2 \<and> virt_to_phys s2 0xC0000000 = 0xB00000"
proof -
  let ?s = "paging_init 65536 paging_sample3"
  note f = paging_init_frame [of 65536 paging_sample3]
  have lay: "paging_layout paging_sample3" by (simp add: paging_layout_def paging_sample3_def)
  have kt: "kernel_tables ?s"
  proof -
    have "paging_layout (paging_sample3\<lparr>mem := memset (mem paging_sample3) (page_directory paging_sample3) 0 4096\<rparr>)"
      using lay by (simp add: paging_layout_def)
    from paging_init_loop [OF this order.refl, of "(65536 * 1024) div 4096"] show ?thesis
      using lay by (simp add: kernel_tables_def paging_init_def Let_def paging_layout_def)
  qed
  have bt: "bm_test 0 ?s" "\<not> bm_test 1 ?s" "unat (total_pages ?s) = Suc (Suc 0)"
    unfolding bm_test_def f by (simp_all add: paging_sample3_def)
  have "fst (pmm_alloc_page ?s) = 0x1000"
    using bt by (simp add: pmm_alloc_page_def PAGE_SIZE_def Let_def)
  then obtain s1 where s1: "paging_create_isolated_space ?s = (0x1000, s1)"
    by (cases "pmm_alloc_page ?s") (auto simp: paging_create_isolated_space_def)
  have "page_clear ?s (unat (0x1000 :: u32))" unfolding page_clear_def f by (simp add: paging_sample3_def)
  moreover have "unat (0x1000 :: u32) + 4096 \<le> unat (page_tables ?s)" unfolding f by (simp add: paging_sample3_def)
  ultimately obtain s2 where "paging_map_user 0x1000 0xC0000000 0xB00000 2 s1 = Some s2"
    "virt_to_phys s2 0xC0000000 = frame 0xB00000 OR (0xC0000000 AND 0xFFF)"
    using isolated_space_shares_kernel [OF kt s1, of "0xC0000000" "0xB00000" 2] by auto
  with s1 show ?thesis by simp
qed

end
