(* ===== verification/Tasks.thy ===== *)
theory Tasks
  imports Paging Cstring
begin

text \<open>
  Tasks and the scheduler: \<^verbatim>\<open>src/task.c\<close>, \<^verbatim>\<open>src/timer.c\<close>, the TSS of \<^verbatim>\<open>src/gdt.c\<close>.
  The task table is a list of 32 records; the initial stack frames are written to memory; memory
  for stacks comes from \<open>kmalloc\<close> and address spaces from the paging component.  \<open>None\<close> is an
  endless loop in the heap.  Waiting (\<open>sti; hlt\<close>) returns control to the interrupt handlers:
  an operation that yields ends with the state in which the processor waits, and the timer
  interrupt is the operation \<open>timer_callback\<close>.  Console output is not modelled.
\<close>

section \<open>Data\<close>

definition MAX_TASKS :: nat where "MAX_TASKS = 32"
definition TASK_STACK_SIZE :: u32 where "TASK_STACK_SIZE = 8192"
definition KERNEL_STACK_SIZE :: u32 where "KERNEL_STACK_SIZE = 4096"
definition TASK_NAME_LEN :: nat where "TASK_NAME_LEN = 32"
definition DEFAULT_QUANTUM :: u32 where "DEFAULT_QUANTUM = 10"

definition SEG_KCODE :: u32 where "SEG_KCODE = 0x08"
definition SEG_KDATA :: u32 where "SEG_KDATA = 0x10"
definition SEG_UCODE :: u32 where "SEG_UCODE = 0x1B"
definition SEG_UDATA :: u32 where "SEG_UDATA = 0x23"

datatype task_state_t = TASK_READY | TASK_RUNNING | TASK_SLEEPING | TASK_BLOCKED | TASK_TERMINATED

datatype blocked_t = BLOCKED_NONE | BLOCKED_SEND | BLOCKED_RECEIVE | BLOCKED_SENDREC

record task_regs =
  r_eax :: u32
  r_ebx :: u32
  r_ecx :: u32
  r_edx :: u32
  r_esi :: u32
  r_edi :: u32
  r_ebp :: u32
  r_esp :: u32
  r_eip :: u32
  r_eflags :: u32

record task =
  t_id :: u32
  t_name :: string
  t_state :: task_state_t
  t_regs :: task_regs
  stack_base :: u32
  stack_size :: u32
  wake_tick :: u32
  cpu_ticks :: u32
  priority :: u32
  active :: bool
  quantum :: u32
  ticks_left :: u32
  saved_esp :: u32
  total_ticks :: u32
  switches :: u32
  t_pd :: u32
  is_user :: bool
  kernel_stack_base :: u32
  kernel_stack_top :: u32
  blocked_on :: blocked_t
  send_to :: u32
  receive_from :: u32
  msg_buf :: u32
  io_privileged :: bool
  owned_irqs :: u32

text \<open>A zeroed \<^verbatim>\<open>task_t\<close>; \<^verbatim>\<open>TASK_READY\<close> and \<^verbatim>\<open>BLOCKED_NONE\<close> are 0.\<close>

definition task0 :: task where
  "task0 = \<lparr>t_id = 0, t_name = replicate TASK_NAME_LEN NUL, t_state = TASK_READY,
     t_regs = \<lparr>r_eax = 0, r_ebx = 0, r_ecx = 0, r_edx = 0, r_esi = 0, r_edi = 0, r_ebp = 0, r_esp = 0, r_eip = 0, r_eflags = 0\<rparr>,
     stack_base = 0, stack_size = 0, wake_tick = 0, cpu_ticks = 0, priority = 0, active = False,
     quantum = 0, ticks_left = 0, saved_esp = 0, total_ticks = 0, switches = 0, t_pd = 0,
     is_user = False, kernel_stack_base = 0, kernel_stack_top = 0, blocked_on = BLOCKED_NONE,
     send_to = 0, receive_from = 0, msg_buf = 0, io_privileged = False, owned_irqs = 0\<rparr>"

record task_state = paging_state +
  tick_count :: u32
  timer_freq :: u32
  tss_esp0 :: u32
  tasks :: "task list"
  current_task :: int
  next_pid :: u32
  scheduler_enabled :: bool
  preemptive_enabled :: bool
  default_quantum :: u32
  sched_lock_count :: u32
  switch_new_esp :: u32
  switch_pending :: bool
  total_ctx_switches :: u32

text \<open>\<^verbatim>\<open>tasks[i]\<close> updated, and the current task's index.\<close>

definition upd_task :: "nat \<Rightarrow> (task \<Rightarrow> task) \<Rightarrow> 'a task_state_scheme \<Rightarrow> 'a task_state_scheme" where
  "upd_task i f s = s\<lparr>tasks := (tasks s)[i := f (tasks s ! i)]\<rparr>"

abbreviation cur :: "'a task_state_scheme \<Rightarrow> nat" where "cur s \<equiv> nat (current_task s)"

section \<open>Timer\<close>

definition timer_get_ticks :: "'a task_state_scheme \<Rightarrow> u32" where
  "timer_get_ticks s = tick_count s"

definition timer_get_seconds :: "'a task_state_scheme \<Rightarrow> u32" where
  "timer_get_seconds s = tick_count s div timer_freq s"

definition timer_get_uptime :: "'a task_state_scheme \<Rightarrow> u32 \<times> u32 \<times> u32" where
  "timer_get_uptime s =
     (let total = timer_get_seconds s in (total div 3600, (total mod 3600) div 60, total mod 60))"

text \<open>\<open>timer_init\<close>: the two bytes of the divisor are sent to the PIT; a zero frequency is a
  division exception, \<open>None\<close>.\<close>

definition timer_init :: "u32 \<Rightarrow> 'a task_state_scheme \<Rightarrow> ((u8 \<times> u8) \<times> 'a task_state_scheme) option" where
  "timer_init frequency s =
     (if frequency = 0 then None
      else
        let divisor = 1193180 div frequency
        in Some ((ucast (divisor AND 0xFF), ucast (drop_bit 8 divisor AND 0xFF)), s\<lparr>timer_freq := frequency\<rparr>))"

section \<open>Creation\<close>

definition task_init :: "'a task_state_scheme \<Rightarrow> 'a task_state_scheme" where
  "task_init s =
     (let t = task0\<lparr>t_id := next_pid s,
            t_name := (case strcpy (t_name task0) ''kernel'' of Some b \<Rightarrow> b | None \<Rightarrow> t_name task0),
            t_state := TASK_RUNNING, active := True, priority := 10, quantum := default_quantum s,
            ticks_left := default_quantum s, io_privileged := True\<rparr>
      in s\<lparr>tasks := (replicate MAX_TASKS task0)[0 := t], next_pid := next_pid s + 1,
           current_task := 0, scheduler_enabled := True\<rparr>)"

text \<open>\<^verbatim>\<open>*(--sp) = v\<close>, for a sequence of values.\<close>

fun push_all :: "u32 list \<Rightarrow> memory \<times> u32 \<Rightarrow> memory \<times> u32" where
  "push_all [] (m, sp) = (m, sp)"
| "push_all (v # vs) (m, sp) = push_all vs (store32 m (sp - 4) v, sp - 4)"

definition setup_kernel_stack :: "nat \<Rightarrow> u32 \<Rightarrow> 'a task_state_scheme \<Rightarrow> 'a task_state_scheme" where
  "setup_kernel_stack i entry s =
     (let t = tasks s ! i;
          stack_top = stack_base t + stack_size t;
          (m, sp) = push_all ([0x202, SEG_KCODE, entry, 0, 32] @ replicate 8 0 @ [SEG_KDATA]) (mem s, stack_top)
      in upd_task i (\<lambda>t. t\<lparr>saved_esp := sp, t_regs := (t_regs t)\<lparr>r_esp := sp, r_ebp := stack_top,
                            r_eip := entry, r_eflags := 0x202\<rparr>\<rparr>) (s\<lparr>mem := m\<rparr>))"

text \<open>The frame for a ring 3 task, shared by \<open>setup_user_stack\<close> and \<open>task_create_from_elf\<close>.\<close>

definition user_frame :: "u32 \<Rightarrow> u32 \<Rightarrow> u32 \<Rightarrow> bool \<Rightarrow> memory \<Rightarrow> memory \<times> u32" where
  "user_frame kstack_top user_esp entry iopl m =
     (let (m, sp) = push_all [SEG_UDATA, user_esp, 0x202] (m, kstack_top);
          m = (if iopl then store32 m sp (load32 m sp OR push_bit 12 3) else m)
      in push_all ([SEG_UCODE, entry, 0, 32] @ replicate 8 0 @ [SEG_UDATA]) (m, sp))"

definition setup_user_stack :: "nat \<Rightarrow> u32 \<Rightarrow> 'a task_state_scheme \<Rightarrow> 'a task_state_scheme" where
  "setup_user_stack i entry s =
     (let t = tasks s ! i;
          (m, sp) = user_frame (kernel_stack_top t) (stack_base t + stack_size t) entry (io_privileged t) (mem s)
      in upd_task i (\<lambda>t. t\<lparr>saved_esp := sp\<rparr>) (s\<lparr>mem := m\<rparr>))"

definition task_name_of :: "string \<Rightarrow> string" where
  "task_name_of nm = (strncpy (replicate TASK_NAME_LEN NUL) nm (TASK_NAME_LEN - 1))[TASK_NAME_LEN - 1 := NUL]"

definition find_free_task :: "'a task_state_scheme \<Rightarrow> nat option" where
  "find_free_task s = find_slot (\<lambda>t. \<not> active t) (tasks s)"

definition task_create :: "string \<Rightarrow> u32 \<Rightarrow> u32 \<Rightarrow> 'a task_state_scheme \<Rightarrow> (int \<times> 'a task_state_scheme) option" where
  "task_create nm entry prio s =
     (case find_free_task s of
        None \<Rightarrow> Some (-1, s)
      | Some slot \<Rightarrow>
          do { (stack, s) \<leftarrow> kmalloc TASK_STACK_SIZE s;
               if stack = 0 then Some (-1, s)
               else
                 let t = task0\<lparr>t_id := next_pid s, t_name := task_name_of nm, t_state := TASK_READY, active := True,
                       priority := prio, stack_base := stack, stack_size := TASK_STACK_SIZE,
                       quantum := default_quantum s, ticks_left := default_quantum s, is_user := False,
                       t_pd := 0, blocked_on := BLOCKED_NONE\<rparr>;
                     s = s\<lparr>tasks := (tasks s)[slot := t], next_pid := next_pid s + 1\<rparr>
                 in Some (sint (t_id t), setup_kernel_stack slot entry s) })"

definition task_create_user ::
    "string \<Rightarrow> u32 \<Rightarrow> u32 \<Rightarrow> bool \<Rightarrow> 'a task_state_scheme \<Rightarrow> (int \<times> 'a task_state_scheme) option" where
  "task_create_user nm entry prio iopl s =
     (case find_free_task s of
        None \<Rightarrow> Some (-1, s)
      | Some slot \<Rightarrow>
          do { (user_stack, s) \<leftarrow> kmalloc TASK_STACK_SIZE s;
               if user_stack = 0 then Some (-1, s)
               else do { (kernel_stack, s) \<leftarrow> kmalloc KERNEL_STACK_SIZE s;
                 if kernel_stack = 0 then do { s \<leftarrow> kfree user_stack s; Some (-1, s) }
                 else
                   let (pd, s) = paging_create_address_space s in
                   if pd = 0 then do { s \<leftarrow> kfree user_stack s; s \<leftarrow> kfree kernel_stack s; Some (-1, s) }
                   else
                     let t = task0\<lparr>t_id := next_pid s, t_name := task_name_of nm, t_state := TASK_READY, active := True,
                           priority := prio, stack_base := user_stack, stack_size := TASK_STACK_SIZE,
                           quantum := default_quantum s, ticks_left := default_quantum s, is_user := True,
                           io_privileged := iopl, t_pd := pd, kernel_stack_base := kernel_stack,
                           kernel_stack_top := kernel_stack + KERNEL_STACK_SIZE, blocked_on := BLOCKED_NONE\<rparr>;
                         s = s\<lparr>tasks := (tasks s)[slot := t], next_pid := next_pid s + 1\<rparr>
                     in Some (sint (t_id t), setup_user_stack slot entry s) } })"

definition task_create_from_elf ::
    "string \<Rightarrow> u32 \<Rightarrow> u32 \<Rightarrow> u32 \<Rightarrow> u32 \<Rightarrow> u32 \<Rightarrow> u32 \<Rightarrow> bool \<Rightarrow> 'a task_state_scheme \<Rightarrow> int \<times> 'a task_state_scheme" where
  "task_create_from_elf nm entry_point user_stack_top page_dir kstack_base kstack_size prio iopl s =
     (case find_free_task s of
        None \<Rightarrow> (-1, s)
      | Some slot \<Rightarrow>
          let (m, sp) = user_frame (kstack_base + kstack_size) user_stack_top entry_point iopl (mem s);
              t = task0\<lparr>t_id := next_pid s, t_name := task_name_of nm, t_state := TASK_READY, active := True,
                    priority := prio, stack_base := user_stack_top - 4 * 4096, stack_size := 4 * 4096,
                    quantum := default_quantum s, ticks_left := default_quantum s, is_user := True,
                    io_privileged := iopl, t_pd := page_dir, kernel_stack_base := kstack_base,
                    kernel_stack_top := kstack_base + kstack_size, blocked_on := BLOCKED_NONE, saved_esp := sp\<rparr>
          in (sint (t_id t), s\<lparr>tasks := (tasks s)[slot := t], next_pid := next_pid s + 1, mem := m\<rparr>))"

section \<open>Scheduling\<close>

definition runnable :: "task \<Rightarrow> bool" where
  "runnable t \<longleftrightarrow> active t \<and> (t_state t = TASK_READY \<or> t_state t = TASK_RUNNING)"

definition wake_task :: "u32 \<Rightarrow> task \<Rightarrow> task" where
  "wake_task now t =
     (if active t \<and> t_state t = TASK_SLEEPING \<and> now \<ge> wake_tick t then t\<lparr>t_state := TASK_READY\<rparr> else t)"

text \<open>The selection loop, with the index and priority of the best task so far.\<close>

fun pick_loop :: "nat list \<Rightarrow> task list \<Rightarrow> nat \<Rightarrow> nat option \<Rightarrow> u32 \<Rightarrow> nat option" where
  "pick_loop [] ts c best best_prio = best"
| "pick_loop (i # is) ts c best best_prio =
     (if i = c then pick_loop is ts c best best_prio
      else if runnable (ts ! i) \<and> priority (ts ! i) < best_prio
      then pick_loop is ts c (Some i) (priority (ts ! i))
      else pick_loop is ts c best best_prio)"

definition find_next_task :: "'a task_state_scheme \<Rightarrow> nat \<times> 'a task_state_scheme" where
  "find_next_task s =
     (let now = timer_get_ticks s;
          s = s\<lparr>tasks := map (wake_task now) (tasks s)\<rparr>;
          start = (cur s + 1) mod MAX_TASKS;
          best = pick_loop (map (\<lambda>n. (start + n) mod MAX_TASKS) [0..<MAX_TASKS]) (tasks s) (cur s) None 0xFFFFFFFF
      in (case best of
            None \<Rightarrow> (if runnable (tasks s ! cur s) then cur s else 0, s)
          | Some i \<Rightarrow> (i, s)))"

definition tss_set_kernel_stack :: "u32 \<Rightarrow> 'a task_state_scheme \<Rightarrow> 'a task_state_scheme" where
  "tss_set_kernel_stack esp0 s = s\<lparr>tss_esp0 := esp0\<rparr>"

definition do_switch_context :: "nat \<Rightarrow> 'a task_state_scheme \<Rightarrow> 'a task_state_scheme" where
  "do_switch_context next s =
     (let nt = tasks s ! next;
          s = (if is_user nt \<and> kernel_stack_top nt \<noteq> 0 then tss_set_kernel_stack (kernel_stack_top nt) s else s);
          new_pd = (if t_pd nt = 0 then paging_get_kernel_pd s else t_pd nt);
          cur_pd = (let p = t_pd (tasks s ! cur s) in if p = 0 then paging_get_kernel_pd s else p)
      in if new_pd \<noteq> cur_pd then paging_switch new_pd s else s)"

text \<open>\<open>regs\<close> is the address of the interrupt frame on the interrupted task's stack.\<close>

definition task_timer_tick :: "u32 \<Rightarrow> 'a task_state_scheme \<Rightarrow> 'a task_state_scheme" where
  "task_timer_tick regs s =
     (if \<not> scheduler_enabled s \<or> current_task s < 0 \<or> sched_lock_count s > 0 then s
      else
        let s = upd_task (cur s) (\<lambda>t. t\<lparr>cpu_ticks := cpu_ticks t + 1, total_ticks := total_ticks t + 1\<rparr>) s in
        if \<not> preemptive_enabled s then s
        else
          let must_switch = t_state (tasks s ! cur s) \<in> {TASK_SLEEPING, TASK_BLOCKED, TASK_TERMINATED};
              s = (if \<not> must_switch \<and> ticks_left (tasks s ! cur s) > 0
                   then upd_task (cur s) (\<lambda>t. t\<lparr>ticks_left := ticks_left t - 1\<rparr>) s else s)
          in if \<not> must_switch \<and> ticks_left (tasks s ! cur s) > 0 then s
             else
               let (next, s) = find_next_task s in
               if next = cur s then upd_task (cur s) (\<lambda>t. t\<lparr>ticks_left := quantum t\<rparr>) s
               else
                 let s = upd_task (cur s) (\<lambda>t. t\<lparr>saved_esp := regs,
                       t_state := (if t_state t = TASK_RUNNING then TASK_READY else t_state t)\<rparr>) s;
                     s = upd_task next (\<lambda>t. t\<lparr>t_state := TASK_RUNNING, ticks_left := quantum t, switches := switches t + 1\<rparr>) s;
                     s = s\<lparr>total_ctx_switches := total_ctx_switches s + 1\<rparr>;
                     s = do_switch_context next s;
                     s = s\<lparr>current_task := int next\<rparr>
                 in s\<lparr>switch_new_esp := saved_esp (tasks s ! next), switch_pending := True\<rparr>)"

definition task_preempt_check :: "'a task_state_scheme \<Rightarrow> u32 \<times> 'a task_state_scheme" where
  "task_preempt_check s =
     (if switch_pending s then (switch_new_esp s, s\<lparr>switch_pending := False, switch_new_esp := 0\<rparr>) else (0, s))"

definition timer_callback :: "u32 \<Rightarrow> 'a task_state_scheme \<Rightarrow> 'a task_state_scheme" where
  "timer_callback regs s = task_timer_tick regs (s\<lparr>tick_count := tick_count s + 1\<rparr>)"

text \<open>The cooperative switch; \<open>live\<close> are the registers of the running task, saved into its
  \<^verbatim>\<open>regs\<close>, and the registers loaded for the next task are returned.\<close>

definition task_schedule :: "task_regs \<Rightarrow> 'a task_state_scheme \<Rightarrow> task_regs \<times> 'a task_state_scheme" where
  "task_schedule live s =
     (if \<not> scheduler_enabled s \<or> current_task s < 0 then (live, s)
      else
        let (next, s) = find_next_task s in
        if next = cur s then (live, upd_task (cur s) (\<lambda>t. t\<lparr>cpu_ticks := cpu_ticks t + 1\<rparr>) s)
        else
          let old = cur s;
              s = upd_task old (\<lambda>t. t\<lparr>t_state := (if t_state t = TASK_RUNNING then TASK_READY else t_state t)\<rparr>) s;
              s = upd_task next (\<lambda>t. t\<lparr>t_state := TASK_RUNNING, cpu_ticks := cpu_ticks t + 1,
                    ticks_left := quantum t, switches := switches t + 1\<rparr>) s;
              s = s\<lparr>total_ctx_switches := total_ctx_switches s + 1\<rparr>;
              s = do_switch_context next s;
              s = s\<lparr>current_task := int next\<rparr>;
              s = upd_task old (\<lambda>t. t\<lparr>t_regs := (t_regs t)\<lparr>r_esp := r_esp live, r_ebp := r_ebp live,
                    r_ebx := r_ebx live, r_esi := r_esi live, r_edi := r_edi live\<rparr>\<rparr>) s
          in (let n = t_regs (tasks s ! next) in
              live\<lparr>r_esp := r_esp n, r_ebp := r_ebp n, r_ebx := r_ebx n, r_esi := r_esi n, r_edi := r_edi n\<rparr>, s))"

text \<open>\<open>task_yield\<close> up to its wait; \<open>task_waits\<close> is the condition under which the wait loop goes
  on halting.\<close>

definition task_yield :: "'a task_state_scheme \<Rightarrow> 'a task_state_scheme" where
  "task_yield s = (if current_task s < 0 then s else upd_task (cur s) (\<lambda>t. t\<lparr>ticks_left := 0\<rparr>) s)"

definition task_waits :: "nat \<Rightarrow> 'a task_state_scheme \<Rightarrow> bool" where
  "task_waits i s \<longleftrightarrow> t_state (tasks s ! i) \<in> {TASK_BLOCKED, TASK_SLEEPING, TASK_TERMINATED}"

definition task_sleep :: "u32 \<Rightarrow> 'a task_state_scheme \<Rightarrow> 'a task_state_scheme" where
  "task_sleep ms s =
     (if current_task s < 0 then s
      else task_yield (upd_task (cur s) (\<lambda>t. t\<lparr>t_state := TASK_SLEEPING,
             wake_tick := timer_get_ticks s + (ms * 100) div 1000\<rparr>) s))"

section \<open>Termination\<close>

definition free_task_memory :: "nat \<Rightarrow> 'a task_state_scheme \<Rightarrow> 'a task_state_scheme option" where
  "free_task_memory i s =
     (let t = tasks s ! i in
      do { s \<leftarrow> (if stack_base t \<noteq> 0 \<and> stack_base t < 0x40000000 then kfree (stack_base t) s else Some s);
           if kernel_stack_base t \<noteq> 0 then kfree (kernel_stack_base t) s else Some s })"

definition task_exit :: "'a task_state_scheme \<Rightarrow> 'a task_state_scheme option" where
  "task_exit s =
     (if current_task s \<le> 0 then Some s
      else
        let i = cur s;
            s = upd_task i (\<lambda>t. t\<lparr>t_state := TASK_TERMINATED, active := False\<rparr>) s
        in do { s \<leftarrow> free_task_memory i s;
                let pd = t_pd (tasks s ! i);
                    s = (if pd \<noteq> 0
                         then upd_task i (\<lambda>t. t\<lparr>t_pd := 0\<rparr>)
                                (paging_destroy_address_space pd (paging_switch (paging_get_kernel_pd s) s))
                         else s)
                in Some (task_yield s) })"

definition task_kill :: "u32 \<Rightarrow> 'a task_state_scheme \<Rightarrow> 'a task_state_scheme option" where
  "task_kill pid s =
     (case find_slot (\<lambda>(i, t). active t \<and> t_id t = pid \<and> i \<noteq> 0) (enumerate 0 (tasks s)) of
        None \<Rightarrow> Some s
      | Some i \<Rightarrow>
          let s = upd_task i (\<lambda>t. t\<lparr>t_state := TASK_TERMINATED, active := False\<rparr>) s in
          do { s \<leftarrow> free_task_memory i s;
               let pd = t_pd (tasks s ! i) in
               Some (if pd \<noteq> 0 then
                       let s = (if cr3 s = pd then paging_switch (paging_get_kernel_pd s) s else s)
                       in upd_task i (\<lambda>t. t\<lparr>t_pd := 0\<rparr>) (paging_destroy_address_space pd s)
                     else s) })"

section \<open>Queries and settings\<close>

definition task_get_current :: "'a task_state_scheme \<Rightarrow> nat option" where
  "task_get_current s = (if current_task s \<ge> 0 then Some (cur s) else None)"

definition task_get_by_pid :: "u32 \<Rightarrow> 'a task_state_scheme \<Rightarrow> nat option" where
  "task_get_by_pid pid s = find_slot (\<lambda>t. active t \<and> t_id t = pid) (tasks s)"

definition task_count :: "'a task_state_scheme \<Rightarrow> nat" where
  "task_count s = count_slots active (tasks s)"

definition task_set_quantum :: "u32 \<Rightarrow> 'a task_state_scheme \<Rightarrow> 'a task_state_scheme" where
  "task_set_quantum ticks s =
     (let ticks = (if ticks < 1 then 1 else ticks); ticks = (if ticks > 1000 then 1000 else ticks)
      in s\<lparr>default_quantum := ticks\<rparr>)"

definition task_set_preemptive :: "bool \<Rightarrow> 'a task_state_scheme \<Rightarrow> 'a task_state_scheme" where
  "task_set_preemptive b s = s\<lparr>preemptive_enabled := b\<rparr>"

definition task_lock_scheduler :: "'a task_state_scheme \<Rightarrow> 'a task_state_scheme" where
  "task_lock_scheduler s = s\<lparr>sched_lock_count := sched_lock_count s + 1\<rparr>"

definition task_unlock_scheduler :: "'a task_state_scheme \<Rightarrow> 'a task_state_scheme" where
  "task_unlock_scheduler s =
     (if sched_lock_count s > 0 then s\<lparr>sched_lock_count := sched_lock_count s - 1\<rparr> else s)"

text \<open>The page fault handler kills a faulting user task (bit 2 of the error code) and panics
  otherwise; \<open>None\<close> in the first component is the panic.\<close>

definition page_fault_handler :: "u32 \<Rightarrow> 'a task_state_scheme \<Rightarrow> ('a task_state_scheme option) option" where
  "page_fault_handler err_code s =
     (case task_get_current s of
        Some i \<Rightarrow> (if t_id (tasks s ! i) > 0 \<and> err_code AND 4 \<noteq> 0
                   then do { s \<leftarrow> task_kill (t_id (tasks s ! i)) s; Some (Some (task_yield s)) }
                   else Some None)
      | None \<Rightarrow> Some None)"

end
