(* ===== verification/Sched.thy ===== *)
theory Sched
  imports Tasks
begin

text \<open>
  Correctness of the scheduler: which task \<open>find_next_task\<close> picks, the invariant of the task
  table and its preservation by every operation of \<^verbatim>\<open>src/task.c\<close>, uniqueness of PIDs, the
  layout of the initial stack frames, and time slices.
\<close>

section \<open>Frames of the memory operations\<close>

text \<open>The allocators and the paging operations change memory and the page bitmap only, whatever
  the state is extended with.\<close>

definition mem_upd :: "'a pmm_state_scheme \<Rightarrow> 'a pmm_state_scheme \<Rightarrow> bool" where
  "mem_upd s s' \<longleftrightarrow> (\<exists>m b u. s' = s\<lparr>mem := m, bitmap := b, used_pages := u\<rparr>)"

lemma mem_upd_refl [intro]: "mem_upd s s"
  unfolding mem_upd_def by (intro exI [of _ "mem s"] exI [of _ "bitmap s"] exI [of _ "used_pages s"]) simp

lemma mem_upd_trans [trans]: "mem_upd s s' \<Longrightarrow> mem_upd s' s'' \<Longrightarrow> mem_upd s s''"
  unfolding mem_upd_def by (elim exE, simp, intro exI, rule refl)

lemma mem_upd_mem: "mem_upd s (s\<lparr>mem := m\<rparr>)"
  unfolding mem_upd_def by (intro exI [of _ m] exI [of _ "bitmap s"] exI [of _ "used_pages s"]) simp

lemma mem_upd_alloc: "pmm_alloc_page s = (p, s') \<Longrightarrow> mem_upd s s'"
proof -
  assume "pmm_alloc_page s = (p, s')"
  from pmm_alloc_page_frame [OF this] obtain b u where "s' = s\<lparr>bitmap := b, used_pages := u\<rparr>" by blast
  then have "s' = s\<lparr>mem := mem s, bitmap := b, used_pages := u\<rparr>" by simp
  then show ?thesis unfolding mem_upd_def by blast
qed

lemma mem_upd_free: "mem_upd s (pmm_free_page a s)"
proof -
  have "mem_upd s (s\<lparr>bitmap := b, used_pages := u\<rparr>)" for b u
    unfolding mem_upd_def by (intro exI [of _ "mem s"] exI [of _ b] exI [of _ u]) simp
  then show ?thesis by (auto simp: pmm_free_page_def bm_clear_def Let_def)
qed

lemma mem_upd_fold: "(\<And>x s. mem_upd s (f x s)) \<Longrightarrow> mem_upd s (fold f xs s)"
  by (induction xs arbitrary: s) (auto intro: mem_upd_trans)

lemma mem_upd_clone_loop: "mem_upd s (snd (clone_loop n i pd s))"
proof (induction n arbitrary: i s)
  case (Suc n)
  have ft: "mem_upd t (free_tables pd i t)" for t :: "'a paging_state_scheme"
    unfolding free_tables_def by (rule mem_upd_fold) (auto simp: Let_def mem_upd_free)
  obtain p s1 where a: "pmm_alloc_page s = (p, s1)" by force
  note s1 = mem_upd_alloc [OF a]
  have "mem_upd s (pmm_free_page pd (free_tables pd i s1))"
    by (rule mem_upd_trans [OF s1], rule mem_upd_trans [OF ft mem_upd_free])
  moreover have "mem_upd s (snd (clone_loop n (Suc i) pd (s1\<lparr>mem := m\<rparr>)))" for m
    by (rule mem_upd_trans [OF s1], rule mem_upd_trans [OF mem_upd_mem Suc])
  moreover have "mem_upd s (snd (clone_loop n (Suc i) pd (s\<lparr>mem := m\<rparr>)))" for m
    by (rule mem_upd_trans [OF mem_upd_mem Suc])
  ultimately show ?case using a by (auto simp: Let_def)
qed auto

lemma mem_upd_create: "paging_create_address_space s = (pd, s') \<Longrightarrow> mem_upd s s'"
proof -
  assume c: "paging_create_address_space s = (pd, s')"
  obtain p s1 where a: "pmm_alloc_page s = (p, s1)" by force
  from c a mem_upd_alloc [OF a] mem_upd_trans [OF mem_upd_alloc [OF a] mem_upd_clone_loop [of s1 1024 0 p]]
  show ?thesis by (auto simp: paging_create_address_space_def split: if_splits)
qed

lemma mem_upd_destroy: "mem_upd s (paging_destroy_address_space pd s)"
proof -
  have "mem_upd s (fold (\<lambda>i s. let e = load32 (mem s) (word_at pd i);
                         k = load32 (mem s) (word_at (page_directory s) i)
                     in if present e \<and> frame e \<noteq> frame k then pmm_free_page (frame e) s else s)
           (map of_nat [0..<1024]) s)"
    by (rule mem_upd_fold) (auto simp: Let_def mem_upd_free)
  from mem_upd_trans [OF this mem_upd_free] show ?thesis by (auto simp: paging_destroy_address_space_def)
qed

lemma mem_upd_kmalloc: "kmalloc n s = Some (p, s') \<Longrightarrow> mem_upd s s'"
  by (auto simp: kmalloc_def bind_eq_Some_conv mem_upd_mem split: if_splits)

lemma mem_upd_kfree: "kfree p s = Some s' \<Longrightarrow> mem_upd s s'"
  by (auto simp: kfree_def Let_def bind_eq_Some_conv mem_upd_mem split: if_splits)

lemma mem_updD:
  fixes s :: "'a task_state_scheme"
  assumes "mem_upd s s'"
  shows "tasks s' = tasks s" "current_task s' = current_task s" "next_pid s' = next_pid s" "tick_count s' = tick_count s"
    "default_quantum s' = default_quantum s" "page_directory s' = page_directory s" "cr3 s' = cr3 s"
  using assms by (auto simp: mem_upd_def)

section \<open>The choice of the next task\<close>

text \<open>The candidates among the indices \<open>is\<close>.\<close>

definition cands :: "nat list \<Rightarrow> task list \<Rightarrow> nat \<Rightarrow> u32 \<Rightarrow> nat list" where
  "cands is ts c bp = filter (\<lambda>i. i \<noteq> c \<and> runnable (ts ! i) \<and> priority (ts ! i) < bp) is"

text \<open>\<open>first_min\<close>: \<open>r\<close> has the least priority value among the candidates, and no candidate before it
  in the order of \<open>is\<close> has the same.\<close>

definition first_min :: "nat list \<Rightarrow> task list \<Rightarrow> nat \<Rightarrow> bool" where
  "first_min cs ts r \<longleftrightarrow> (\<exists>xs ys. cs = xs @ r # ys
     \<and> (\<forall>j \<in> set xs. priority (ts ! r) < priority (ts ! j)) \<and> (\<forall>j \<in> set ys. priority (ts ! r) \<le> priority (ts ! j)))"

lemma filter_split:
  "filter P zs = xs @ r # ys \<Longrightarrow> \<exists>us vs. zs = us @ r # vs \<and> xs = filter P us \<and> ys = filter P vs"
proof (induction zs arbitrary: xs)
  case (Cons z zs)
  show ?case
  proof (cases "P z \<and> xs = []")
    case True
    with Cons.prems show ?thesis by (intro exI [of _ "[]"] exI [of _ zs]) auto
  next
    case False
    then obtain xs' where x: "filter P zs = xs' @ r # ys" "xs = (if P z then z # xs' else xs')"
      using Cons.prems by (cases "P z"; cases xs) auto
    from Cons.IH [OF x(1)] obtain us vs where "zs = us @ r # vs" "xs' = filter P us" "ys = filter P vs" by blast
    then show ?thesis using x(2) by (intro exI [of _ "z # us"] exI [of _ vs]) auto
  qed
qed simp

lemma pick_loop_cands:
  "if cands is ts c bp = [] then pick_loop is ts c best bp = best
   else \<exists>r. pick_loop is ts c best bp = Some r \<and> first_min (cands is ts c bp) ts r"
proof (induction "is" ts c best bp rule: pick_loop.induct)
  case (2 i "is" ts c best bp)
  show ?case
  proof (cases "i \<noteq> c \<and> runnable (ts ! i) \<and> priority (ts ! i) < bp")
    case False
    then have "cands (i # is) ts c bp = cands is ts c bp" "pick_loop (i # is) ts c best bp = pick_loop is ts c best bp"
      by (auto simp: cands_def)
    moreover have "if cands is ts c bp = [] then pick_loop is ts c best bp = best
        else \<exists>r. pick_loop is ts c best bp = Some r \<and> first_min (cands is ts c bp) ts r"
      using 2(1,3) False by blast
    ultimately show ?thesis by simp
  next
    case True
    let ?p = "priority (ts ! i)"
    have c: "cands (i # is) ts c bp = i # cands is ts c bp" using True by (simp add: cands_def)
    have sub: "cands is ts c ?p = filter (\<lambda>j. priority (ts ! j) < ?p) (cands is ts c bp)"
      using True by (auto simp: cands_def intro!: filter_cong)
    from 2 True have IH: "if cands is ts c ?p = [] then pick_loop is ts c (Some i) ?p = Some i
        else \<exists>r. pick_loop is ts c (Some i) ?p = Some r \<and> first_min (cands is ts c ?p) ts r" by simp
    show ?thesis
    proof (cases "cands is ts c ?p = []")
      case none: True
      then have "\<forall>j \<in> set (cands is ts c bp). ?p \<le> priority (ts ! j)"
        unfolding sub filter_empty_conv by (auto simp: not_less)
      then have "first_min (i # cands is ts c bp) ts i"
        unfolding first_min_def by (intro exI [of _ "[]"] exI [of _ "cands is ts c bp"]) simp
      then show ?thesis using IH none True by (simp add: c)
    next
      case some: False
      then obtain r xs ys where r: "pick_loop is ts c (Some i) ?p = Some r"
        and xy: "cands is ts c ?p = xs @ r # ys" "\<forall>j \<in> set xs. priority (ts ! r) < priority (ts ! j)"
          "\<forall>j \<in> set ys. priority (ts ! r) \<le> priority (ts ! j)"
        using IH by (auto simp: first_min_def)
      have rp: "priority (ts ! r) < ?p" using xy(1) 
      proof -
        have "r \<in> set (cands is ts c ?p)" unfolding xy(1) by simp
        then show ?thesis unfolding sub by simp
      qed
      obtain us vs where uv: "cands is ts c bp = us @ r # vs" "xs = filter (\<lambda>j. priority (ts ! j) < ?p) us"
        "ys = filter (\<lambda>j. priority (ts ! j) < ?p) vs"
        using filter_split [OF xy(1) [unfolded sub]] by blast
      have "first_min (i # us @ r # vs) ts r"
        unfolding first_min_def
      proof (intro exI conjI)
        show "i # us @ r # vs = (i # us) @ r # vs" by simp
        show "\<forall>j \<in> set (i # us). priority (ts ! r) < priority (ts ! j)"
          using rp xy(2) uv(2) by (auto simp: not_less intro: less_le_trans)
        show "\<forall>j \<in> set vs. priority (ts ! r) \<le> priority (ts ! j)"
          using rp xy(3) uv(3) by (auto simp: not_less)
      qed
      then show ?thesis using r True by (simp add: c uv(1))
    qed
  qed
qed (simp add: cands_def)

text \<open>The order in which the loop visits the table: the distance of an index from the one after the
  current task, going round.\<close>

definition rr_dist :: "nat \<Rightarrow> nat \<Rightarrow> nat" where
  "rr_dist c i = (i + 31 - c) mod 32"

definition rr_order :: "nat \<Rightarrow> nat list" where
  "rr_order c = map (\<lambda>n. ((c + 1) mod MAX_TASKS + n) mod MAX_TASKS) [0..<MAX_TASKS]"

lemma rr_order_dist:
  assumes "c < 32"
  shows "set (rr_order c) = {..<32}" "sorted_wrt (\<lambda>i j. rr_dist c i < rr_dist c j) (rr_order c)"
proof -
  have d: "rr_dist c (((c + 1) mod 32 + n) mod 32) = n" if "n < 32" for n
  proof -
    have "((c + 1) mod 32 + n) mod 32 = (c + 1 + n) mod 32" by (simp add: mod_add_left_eq)
    moreover have "((c + 1 + n) mod 32 + 31 - c) mod 32 = n"
      using assms that by (auto simp: mod_if)
    ultimately show ?thesis by (simp add: rr_dist_def)
  qed
  show "sorted_wrt (\<lambda>i j. rr_dist c i < rr_dist c j) (rr_order c)"
    unfolding rr_order_def MAX_TASKS_def sorted_wrt_map by (rule sorted_wrt_mono_rel [of _ "(<)"]) (use d in auto)
  have "i \<in> set (rr_order c)" if "i < 32" for i
  proof -
    have "((c + 1) mod 32 + rr_dist c i) mod 32 = i"
      using assms that by (auto simp: rr_dist_def mod_if)
    moreover have "rr_dist c i < 32" by (simp add: rr_dist_def)
    ultimately show ?thesis by (force simp: rr_order_def MAX_TASKS_def image_iff)
  qed
  then show "set (rr_order c) = {..<32}" by (auto simp: rr_order_def MAX_TASKS_def)
qed

definition sched_shape :: "'a task_state_scheme \<Rightarrow> bool" where
  "sched_shape s \<longleftrightarrow> length (tasks s) = MAX_TASKS \<and> 0 \<le> current_task s \<and> current_task s < 32"

definition woken :: "'a task_state_scheme \<Rightarrow> task list" where
  "woken s = map (wake_task (tick_count s)) (tasks s)"

lemma find_next_task_state: "snd (find_next_task s) = s\<lparr>tasks := woken s\<rparr>"
  by (simp add: find_next_task_def Let_def timer_get_ticks_def woken_def split: option.split)

lemma find_next_task_choice:
  assumes "sched_shape s"
  defines "r \<equiv> fst (find_next_task s)" and "ts \<equiv> woken s" and "c \<equiv> cur s"
  shows "if \<exists>i < 32. i \<noteq> c \<and> runnable (ts ! i) \<and> priority (ts ! i) < 0xFFFFFFFF
    then r < 32 \<and> r \<noteq> c \<and> runnable (ts ! r)
      \<and> (\<forall>j < 32. j \<noteq> c \<and> runnable (ts ! j) \<longrightarrow> priority (ts ! r) \<le> priority (ts ! j)
           \<and> (priority (ts ! r) = priority (ts ! j) \<longrightarrow> rr_dist c r \<le> rr_dist c j))
    else r = (if runnable (ts ! c) then c else 0)"
proof -
  have c: "c < 32" using assms(1) by (auto simp: sched_shape_def c_def)
  note o = rr_order_dist [OF c]
  let ?cs = "cands (rr_order c) ts c 0xFFFFFFFF"
  have mem: "j \<in> set ?cs \<longleftrightarrow> j < 32 \<and> j \<noteq> c \<and> runnable (ts ! j) \<and> priority (ts ! j) < 0xFFFFFFFF" for j
    using o(1) by (auto simp: cands_def)
  have r: "r = (case pick_loop (rr_order c) ts c None 0xFFFFFFFF of None \<Rightarrow> (if runnable (ts ! c) then c else 0) | Some i \<Rightarrow> i)"
    unfolding r_def find_next_task_def Let_def
    by (simp add: timer_get_ticks_def rr_order_def ts_def c_def woken_def split: option.split)
  show ?thesis
  proof (cases "?cs = []")
    case True
    then have "pick_loop (rr_order c) ts c None 0xFFFFFFFF = None" using pick_loop_cands [of "rr_order c" ts c _ None] by metis
    moreover have "\<not> (\<exists>i < 32. i \<noteq> c \<and> runnable (ts ! i) \<and> priority (ts ! i) < 0xFFFFFFFF)"
      using True mem by auto
    ultimately show ?thesis using r by (subst if_not_P) simp_all
  next
    case False
    then obtain q where q: "pick_loop (rr_order c) ts c None 0xFFFFFFFF = Some q" "first_min ?cs ts q"
      using pick_loop_cands [of "rr_order c" ts c _ None] by metis
    then obtain xs ys where xy: "?cs = xs @ q # ys" "\<forall>j \<in> set xs. priority (ts ! q) < priority (ts ! j)"
      "\<forall>j \<in> set ys. priority (ts ! q) \<le> priority (ts ! j)" by (auto simp: first_min_def)
    have rq: "r = q" using r q(1) by simp
    have qm: "q \<in> set ?cs" unfolding xy(1) by simp
    have "sorted_wrt (\<lambda>i j. rr_dist c i < rr_dist c j) (xs @ q # ys)"
      using sorted_wrt_filter [OF o(2)] unfolding xy(1) [symmetric] cands_def .
    then have ys: "\<forall>j \<in> set ys. rr_dist c q < rr_dist c j" by (simp add: sorted_wrt_append)
    have min: "priority (ts ! q) \<le> priority (ts ! j) \<and> (priority (ts ! q) = priority (ts ! j) \<longrightarrow> rr_dist c q \<le> rr_dist c j)"
      if "j < 32" "j \<noteq> c" "runnable (ts ! j)" for j
    proof (cases "priority (ts ! j) < 0xFFFFFFFF")
      case True
      then have "j \<in> set (xs @ q # ys)" using that mem xy(1) by metis
      then show ?thesis using xy(2,3) ys by (auto simp: less_imp_le)
    next
      case False
      then have "priority (ts ! q) < priority (ts ! j)" using qm mem [of q] by (auto simp: not_less intro: less_le_trans)
      then show ?thesis by auto
    qed
    show ?thesis using qm mem [of q] min rq by auto
  qed
qed

section \<open>The invariant of the task table\<close>

text \<open>The table has 32 entries, entry 0 (the kernel task) is always in use, only the current task is
  \<^const>\<open>TASK_RUNNING\<close>, and the PIDs of the tasks in use are distinct and below \<open>next_pid\<close>.\<close>

definition table_inv :: "task list \<Rightarrow> nat \<Rightarrow> u32 \<Rightarrow> bool" where
  "table_inv ts c np \<longleftrightarrow> length ts = 32 \<and> c < 32 \<and> active (ts ! 0)
     \<and> (\<forall>i < 32. t_state (ts ! i) = TASK_RUNNING \<longrightarrow> i = c)
     \<and> (\<forall>i < 32. active (ts ! i) \<longrightarrow> t_id (ts ! i) < np)
     \<and> (\<forall>i < 32. \<forall>j < 32. active (ts ! i) \<and> active (ts ! j) \<and> t_id (ts ! i) = t_id (ts ! j) \<longrightarrow> i = j)"

definition task_inv :: "'a task_state_scheme \<Rightarrow> bool" where
  "task_inv s \<longleftrightarrow> 0 \<le> current_task s \<and> table_inv (tasks s) (cur s) (next_pid s)"

lemma table_invD:
  assumes "table_inv ts c np"
  shows "length ts = 32" "c < 32" "active (ts ! 0)" "i < 32 \<Longrightarrow> t_state (ts ! i) = TASK_RUNNING \<Longrightarrow> i = c"
    "i < 32 \<Longrightarrow> active (ts ! i) \<Longrightarrow> t_id (ts ! i) < np"
    "i < 32 \<Longrightarrow> j < 32 \<Longrightarrow> active (ts ! i) \<Longrightarrow> active (ts ! j) \<Longrightarrow> t_id (ts ! i) = t_id (ts ! j) \<Longrightarrow> i = j"
  using assms unfolding table_inv_def by blast+

lemma task_inv_shape: "task_inv s \<Longrightarrow> sched_shape s"
  by (auto simp: task_inv_def table_inv_def sched_shape_def MAX_TASKS_def)

lemma table_inv_upd:
  assumes inv: "table_inv ts c np" and i: "i < 32" and id: "t_id e = t_id (ts ! i)"
    and act: "active e \<Longrightarrow> active (ts ! i)" and st: "t_state e = TASK_RUNNING \<Longrightarrow> i = c" and zero: "i = 0 \<Longrightarrow> active e"
  shows "table_inv (ts[i := e]) c np"
proof -
  note d = table_invD [OF inv]
  have n: "ts[i := e] ! j = (if j = i then e else ts ! j)" if "j < 32" for j
    using that d(1) i by (simp add: nth_list_update)
  have "ts[i := e] ! 0 = (if i = 0 then e else ts ! 0)" using n [of 0] by simp
  then have "active (ts[i := e] ! 0)" using zero d(3) by simp
  moreover have "\<forall>j < 32. t_state (ts[i := e] ! j) = TASK_RUNNING \<longrightarrow> j = c" using d(4) st by (simp add: n)
  moreover have "\<forall>j < 32. active (ts[i := e] ! j) \<longrightarrow> t_id (ts[i := e] ! j) < np" using d(5) id act i by (simp add: n)
  moreover have "j = k" if "j < 32" "k < 32" "active (ts[i := e] ! j)" "active (ts[i := e] ! k)"
    "t_id (ts[i := e] ! j) = t_id (ts[i := e] ! k)" for j k
  proof -
    have old: "active (ts ! x) \<and> t_id (ts ! x) = t_id (ts[i := e] ! x)" if "x < 32" "active (ts[i := e] ! x)" for x
      using n [OF that(1)] that(2) id act by (cases "x = i") simp_all
    from old [OF that(1,3)] old [OF that(2,4)] that(5) show ?thesis by (intro d(6) [OF that(1,2)]) simp_all
  qed
  ultimately show ?thesis using d(1,2) unfolding table_inv_def length_list_update by blast
qed

text \<open>Handing the processor from \<open>c\<close>, no longer running, to \<open>n\<close>.\<close>

lemma table_inv_switch:
  assumes inv: "table_inv ts c np" and nr: "t_state (ts ! c) \<noteq> TASK_RUNNING" and n: "n < 32"
    and e: "t_id e = t_id (ts ! n)" "active e = active (ts ! n)"
  shows "table_inv (ts[n := e]) n np"
proof -
  have "t_state (ts ! i) \<noteq> TASK_RUNNING" if "i < 32" for i using table_invD(4) [OF inv that] nr by auto
  then have "table_inv ts n np" using inv n unfolding table_inv_def by blast
  from table_inv_upd [OF this n e(1)] e(2) table_invD(3) [OF inv] show ?thesis by auto
qed

lemma less_add_one_word: "np + 1 \<noteq> 0 \<Longrightarrow> x \<le> np \<Longrightarrow> x < np + (1 :: u32)"
  using unatSuc [of np] by (simp add: add.commute word_less_nat_alt word_le_nat_alt)

lemma table_inv_new:
  assumes inv: "table_inv ts c np" and i: "i < 32" "\<not> active (ts ! i)" and np: "np + 1 \<noteq> 0"
    and e: "t_id e = np" "t_state e \<noteq> TASK_RUNNING"
  shows "table_inv (ts[i := e]) c (np + 1)"
proof -
  note d = table_invD [OF inv]
  note lt = less_add_one_word [OF np]
  have n: "ts[i := e] ! j = (if j = i then e else ts ! j)" if "j < 32" for j
    using that d(1) i by (simp add: nth_list_update)
  have i0: "i \<noteq> 0" using i(2) d(3) by (intro notI) simp
  have "\<forall>j < 32. active (ts[i := e] ! j) \<longrightarrow> t_id (ts[i := e] ! j) < np + 1"
    using d(5) e(1) lt by (auto simp: n less_imp_le)
  moreover have "j = k" if "j < 32" "k < 32" "active (ts[i := e] ! j)" "active (ts[i := e] ! k)"
    "t_id (ts[i := e] ! j) = t_id (ts[i := e] ! k)" for j k
  proof -
    have old: "x = i \<and> t_id (ts[i := e] ! x) = np \<or> x \<noteq> i \<and> active (ts ! x) \<and> t_id (ts ! x) = t_id (ts[i := e] ! x)
        \<and> t_id (ts ! x) \<noteq> np" if "x < 32" "active (ts[i := e] ! x)" for x
      using n [OF that(1)] that(2) e(1) d(5) [OF that(1)] by (cases "x = i") auto
    from old [OF that(1,3)] old [OF that(2,4)] that(5) d(6) [OF that(1,2)] show ?thesis by metis
  qed
  moreover have "\<forall>j < 32. t_state (ts[i := e] ! j) = TASK_RUNNING \<longrightarrow> j = c" using d(4) e(2) by (auto simp: n)
  moreover have "active (ts[i := e] ! 0)" using d(3) i0 by simp
  ultimately show ?thesis using d(1,2) unfolding table_inv_def length_list_update by blast
qed

lemma table_inv_wake: "table_inv ts c np \<Longrightarrow> table_inv (map (wake_task now) ts) c np"
  by (auto simp: table_inv_def wake_task_def)

section \<open>Every operation keeps the invariant\<close>

lemma task_inv_cong:
  "task_inv s \<Longrightarrow> tasks s' = tasks s \<Longrightarrow> current_task s' = current_task s \<Longrightarrow> next_pid s' = next_pid s \<Longrightarrow> task_inv s'"
  by (simp add: task_inv_def)

lemma task_inv_mem_upd: "task_inv s \<Longrightarrow> mem_upd s s' \<Longrightarrow> task_inv s'"
  by (rule task_inv_cong) (simp_all add: mem_updD)

lemma task_inv_upd:
  assumes "task_inv s" "i < 32" "t_id (f (tasks s ! i)) = t_id (tasks s ! i)"
    and "active (f (tasks s ! i)) \<Longrightarrow> active (tasks s ! i)"
    and "t_state (f (tasks s ! i)) = TASK_RUNNING \<Longrightarrow> t_state (tasks s ! i) = TASK_RUNNING \<or> i = cur s"
    and "i = 0 \<Longrightarrow> active (f (tasks s ! i))"
  shows "task_inv (upd_task i f s)"
proof -
  have inv: "table_inv (tasks s) (cur s) (next_pid s)" using assms(1) by (simp add: task_inv_def)
  have "t_state (f (tasks s ! i)) = TASK_RUNNING \<Longrightarrow> i = cur s"
    using assms(5) table_invD(4) [OF inv assms(2)] by blast
  from table_inv_upd [OF inv assms(2,3,4) this assms(6)] show ?thesis
    using assms(1) by (simp add: task_inv_def upd_task_def)
qed

text \<open>An update of bookkeeping fields.\<close>

lemma task_inv_upd_plain:
  assumes "task_inv s" "i < 32" "\<And>t. t_id (f t) = t_id t \<and> active (f t) = active t \<and> (t_state (f t) = t_state t \<or> t_state (f t) \<noteq> TASK_RUNNING)"
  shows "task_inv (upd_task i f s)"
proof (rule task_inv_upd [OF assms(1,2)])
  show "active (f (tasks s ! i))" if "i = 0"
    using assms(1) assms(3) that by (auto simp: task_inv_def table_inv_def)
qed (use assms(3) in metis)+

lemma cur_bound: "task_inv s \<Longrightarrow> cur s < 32"
  by (auto simp: task_inv_def table_inv_def)

lemma find_next_task_inv:
  assumes "task_inv s" "find_next_task s = (r, s')"
  shows "task_inv s'" "r < 32" "s' = s\<lparr>tasks := woken s\<rparr>"
proof -
  have c: "cur s < 32" using cur_bound [OF assms(1)] .
  show s': "s' = s\<lparr>tasks := woken s\<rparr>" using find_next_task_state [of s] assms(2) by simp
  show "task_inv s'"
    using assms(1) table_inv_wake unfolding s' by (simp add: task_inv_def woken_def)
  show "r < 32"
    using find_next_task_choice [OF task_inv_shape [OF assms(1)]] c unfolding assms(2) fst_conv by (auto split: if_splits)
qed

lemma do_switch_context_frame:
  "tasks (do_switch_context n s) = tasks s" "current_task (do_switch_context n s) = current_task s"
  "next_pid (do_switch_context n s) = next_pid s"
  by (simp_all add: do_switch_context_def Let_def paging_switch_def tss_set_kernel_stack_def)

text \<open>The common part of the two switches: \<open>f\<close> leaves the old task not running, \<open>g\<close> starts the new
  one.\<close>

lemma task_inv_switch:
  assumes inv: "task_inv s" and n: "n < 32" "n \<noteq> cur s"
    and f: "\<And>t. t_id (f t) = t_id t \<and> active (f t) = active t \<and> t_state (f t) \<noteq> TASK_RUNNING"
    and g: "\<And>t. t_id (g t) = t_id t \<and> active (g t) = active t"
    and s': "tasks s' = tasks (upd_task n g (upd_task (cur s) f s))" "current_task s' = int n" "next_pid s' = next_pid s"
  shows "task_inv s'"
proof -
  let ?ts = "(tasks s)[cur s := f (tasks s ! cur s)]"
  have c: "cur s < 32" using cur_bound [OF inv] .
  have i1: "task_inv (upd_task (cur s) f s)" using f by (intro task_inv_upd_plain [OF inv c]) blast
  then have t1: "table_inv ?ts (cur s) (next_pid s)" by (simp add: task_inv_def upd_task_def)
  have "length (tasks s) = 32" using inv by (simp add: task_inv_def table_inv_def)
  then have nr: "t_state (?ts ! cur s) \<noteq> TASK_RUNNING" using f c by simp
  have "table_inv (?ts[n := g (?ts ! n)]) n (next_pid s)"
    by (rule table_inv_switch [OF t1 nr n(1)]) (use g in auto)
  then show ?thesis using s' by (simp add: task_inv_def upd_task_def)
qed

lemma stop_running: "t_state (t\<lparr>t_state := (if t_state t = TASK_RUNNING then TASK_READY else t_state t)\<rparr>) \<noteq> TASK_RUNNING"
  by simp

lemma task_timer_tick_inv:
  assumes "task_inv s"
  shows "task_inv (task_timer_tick regs s)"
proof (cases "\<not> scheduler_enabled s \<or> current_task s < 0 \<or> sched_lock_count s > 0")
  case True
  then show ?thesis using assms by (auto simp: task_timer_tick_def)
next
  case False
  note c = cur_bound [OF assms]
  let ?s1 = "upd_task (cur s) (\<lambda>t. t\<lparr>cpu_ticks := cpu_ticks t + 1, total_ticks := total_ticks t + 1\<rparr>) s"
  let ?must = "t_state (tasks ?s1 ! cur s) \<in> {TASK_SLEEPING, TASK_BLOCKED, TASK_TERMINATED}"
  define s2 where "s2 = (if \<not> ?must \<and> ticks_left (tasks ?s1 ! cur s) > 0
                   then upd_task (cur s) (\<lambda>t. t\<lparr>ticks_left := ticks_left t - 1\<rparr>) ?s1 else ?s1)"
  have cs: "cur ?s1 = cur s" "cur s2 = cur s" by (simp_all add: s2_def upd_task_def)
  have i1: "task_inv ?s1" by (rule task_inv_upd_plain [OF assms c]) simp
  have i2: "task_inv s2" unfolding s2_def using i1 task_inv_upd_plain [OF i1 c] by simp
  obtain n s3 where fn: "find_next_task s2 = (n, s3)" by force
  note i3 = find_next_task_inv [OF i2 fn]
  have c3: "cur s3 = cur s" using i3(3) cs by simp
  let ?s4 = "upd_task n (\<lambda>t. t\<lparr>t_state := TASK_RUNNING, ticks_left := quantum t, switches := switches t + 1\<rparr>)
      (upd_task (cur s) (\<lambda>t. t\<lparr>saved_esp := regs, t_state := (if t_state t = TASK_RUNNING then TASK_READY else t_state t)\<rparr>) s3)"
  let ?s5 = "do_switch_context n (?s4\<lparr>total_ctx_switches := total_ctx_switches ?s4 + 1\<rparr>)"
  have sw: "task_inv (?s5\<lparr>current_task := int n, switch_new_esp := e, switch_pending := True\<rparr>)" if "n \<noteq> cur s" for e
    by (rule task_inv_switch [OF i3(1) i3(2), where f = "\<lambda>t. t\<lparr>saved_esp := regs, t_state := (if t_state t = TASK_RUNNING then TASK_READY else t_state t)\<rparr>"
        and g = "\<lambda>t. t\<lparr>t_state := TASK_RUNNING, ticks_left := quantum t, switches := switches t + 1\<rparr>"])
      (use that c3 in \<open>simp_all add: do_switch_context_frame upd_task_def\<close>)
  have same: "task_inv (upd_task (cur s) (\<lambda>t. t\<lparr>ticks_left := quantum t\<rparr>) s3)"
    by (rule task_inv_upd_plain [OF i3(1) c]) simp
  have "task_timer_tick regs s =
    (if \<not> preemptive_enabled ?s1 then ?s1
     else if \<not> ?must \<and> ticks_left (tasks s2 ! cur s) > 0 then s2
     else if n = cur s then upd_task (cur s) (\<lambda>t. t\<lparr>ticks_left := quantum t\<rparr>) s3
     else ?s5\<lparr>current_task := int n, switch_new_esp := saved_esp (tasks ?s5 ! n), switch_pending := True\<rparr>)"
    using False fn c3 unfolding task_timer_tick_def Let_def cs s2_def [symmetric] by simp
  then show ?thesis using i1 i2 same sw by simp
qed

lemma timer_callback_inv: "task_inv s \<Longrightarrow> task_inv (timer_callback regs s)"
  unfolding timer_callback_def by (rule task_timer_tick_inv) (simp add: task_inv_def)

lemma task_schedule_inv:
  assumes "task_inv s"
  shows "task_inv (snd (task_schedule live s))"
proof (cases "\<not> scheduler_enabled s \<or> current_task s < 0")
  case True
  then show ?thesis using assms by (auto simp: task_schedule_def)
next
  case False
  obtain n s1 where fn: "find_next_task s = (n, s1)" by force
  note i1 = find_next_task_inv [OF assms fn]
  have c1: "cur s1 = cur s" using i1(3) by simp
  note c = cur_bound [OF assms]
  let ?f = "\<lambda>t. t\<lparr>t_state := (if t_state t = TASK_RUNNING then TASK_READY else t_state t)\<rparr>"
  let ?g = "\<lambda>t. t\<lparr>t_state := TASK_RUNNING, cpu_ticks := cpu_ticks t + 1, ticks_left := quantum t, switches := switches t + 1\<rparr>"
  let ?h = "\<lambda>t. t\<lparr>t_regs := (t_regs t)\<lparr>r_esp := r_esp live, r_ebp := r_ebp live,
                    r_ebx := r_ebx live, r_esi := r_esi live, r_edi := r_edi live\<rparr>\<rparr>"
  let ?s2 = "upd_task n ?g (upd_task (cur s) ?f s1)"
  let ?s3 = "(do_switch_context n (?s2\<lparr>total_ctx_switches := total_ctx_switches ?s2 + 1\<rparr>))\<lparr>current_task := int n\<rparr>"
  show ?thesis
  proof (cases "n = cur s")
    case True
    have "task_inv (upd_task (cur s) (\<lambda>t. t\<lparr>cpu_ticks := cpu_ticks t + 1\<rparr>) s1)"
      by (rule task_inv_upd_plain [OF i1(1) c]) simp
    then show ?thesis using False fn c1 True by (simp add: task_schedule_def)
  next
    case ne: False
    have "task_inv ?s3"
      by (rule task_inv_switch [OF i1(1) i1(2), where f = ?f and g = ?g])
        (use ne c1 in \<open>simp_all add: do_switch_context_frame upd_task_def\<close>)
    then have "task_inv (upd_task (cur s) ?h ?s3)" by (rule task_inv_upd_plain [OF _ c]) simp
    moreover have "snd (task_schedule live s) = upd_task (cur s) ?h ?s3"
      using False fn c1 ne unfolding task_schedule_def Let_def by simp
    ultimately show ?thesis by simp
  qed
qed

lemma task_yield_inv: "task_inv s \<Longrightarrow> task_inv (task_yield s)"
  unfolding task_yield_def by (auto intro!: task_inv_upd_plain cur_bound)

lemma task_sleep_inv: "task_inv s \<Longrightarrow> task_inv (task_sleep ms s)"
  unfolding task_sleep_def by (auto intro!: task_yield_inv task_inv_upd_plain cur_bound)

lemma free_task_memory_upd: "free_task_memory i s = Some s' \<Longrightarrow> mem_upd s s'"
  by (auto simp: free_task_memory_def Let_def bind_eq_Some_conv dest!: mem_upd_kfree intro: mem_upd_trans split: if_splits)

lemma task_inv_terminate:
  assumes "task_inv s" "i < 32" "i \<noteq> 0"
  shows "task_inv (upd_task i (\<lambda>t. t\<lparr>t_state := TASK_TERMINATED, active := False\<rparr>) s)"
  by (rule task_inv_upd [OF assms(1,2)]) (use assms(3) in simp_all)

lemma task_inv_clear_pd: "task_inv s \<Longrightarrow> i < 32 \<Longrightarrow> task_inv (upd_task i (\<lambda>t. t\<lparr>t_pd := 0\<rparr>) s)"
  by (rule task_inv_upd_plain) simp_all

lemma task_inv_destroy: "task_inv s \<Longrightarrow> task_inv (paging_destroy_address_space pd s)"
  by (rule task_inv_mem_upd [OF _ mem_upd_destroy])

lemma task_inv_paging_switch: "task_inv s \<Longrightarrow> task_inv (paging_switch pd s)"
  by (simp add: task_inv_def paging_switch_def)

lemma task_exit_inv:
  assumes "task_inv s" "task_exit s = Some s'"
  shows "task_inv s'"
proof (cases "current_task s \<le> 0")
  case True
  then show ?thesis using assms by (simp add: task_exit_def)
next
  case False
  note c = cur_bound [OF assms(1)]
  let ?s1 = "upd_task (cur s) (\<lambda>t. t\<lparr>t_state := TASK_TERMINATED, active := False\<rparr>) s"
  have i1: "task_inv ?s1" using False by (intro task_inv_terminate [OF assms(1) c]) auto
  from assms(2) False obtain s2 where s2: "free_task_memory (cur s) ?s1 = Some s2"
    and s': "s' = task_yield (if t_pd (tasks s2 ! cur s) \<noteq> 0
        then upd_task (cur s) (\<lambda>t. t\<lparr>t_pd := 0\<rparr>)
          (paging_destroy_address_space (t_pd (tasks s2 ! cur s)) (paging_switch (paging_get_kernel_pd s2) s2)) else s2)"
    by (auto simp: task_exit_def Let_def bind_eq_Some_conv)
  have i2: "task_inv s2" by (rule task_inv_mem_upd [OF i1 free_task_memory_upd [OF s2]])
  show ?thesis unfolding s'
    by (rule task_yield_inv) (auto intro!: i2 task_inv_clear_pd task_inv_destroy task_inv_paging_switch c)
qed

lemma find_slot_enumerate:
  "find_slot (\<lambda>(i, t). P i t) (enumerate 0 xs) = Some i \<Longrightarrow> i < length xs \<and> P i (xs ! i) \<and> (\<forall>j < i. \<not> P j (xs ! j))"
  using find_slot_SomeD [of "\<lambda>(i, t). P i t" "enumerate 0 xs" i] by (auto simp: nth_enumerate_eq)

lemma task_kill_inv:
  assumes "task_inv s" "task_kill pid s = Some s'"
  shows "task_inv s'"
proof (cases "find_slot (\<lambda>(i, t). active t \<and> t_id t = pid \<and> i \<noteq> 0) (enumerate 0 (tasks s))")
  case None
  then show ?thesis using assms by (simp add: task_kill_def)
next
  case (Some i)
  have i: "i < 32" "i \<noteq> 0"
    using find_slot_enumerate [OF Some] assms(1) by (auto simp: task_inv_def table_inv_def)
  let ?s1 = "upd_task i (\<lambda>t. t\<lparr>t_state := TASK_TERMINATED, active := False\<rparr>) s"
  have i1: "task_inv ?s1" by (rule task_inv_terminate [OF assms(1) i])
  from assms(2) Some obtain s2 where s2: "free_task_memory i ?s1 = Some s2"
    and s': "s' = (if t_pd (tasks s2 ! i) \<noteq> 0 then
        upd_task i (\<lambda>t. t\<lparr>t_pd := 0\<rparr>) (paging_destroy_address_space (t_pd (tasks s2 ! i))
          (if cr3 s2 = t_pd (tasks s2 ! i) then paging_switch (paging_get_kernel_pd s2) s2 else s2)) else s2)"
    by (auto simp: task_kill_def Let_def bind_eq_Some_conv)
  have i2: "task_inv s2" by (rule task_inv_mem_upd [OF i1 free_task_memory_upd [OF s2]])
  show ?thesis unfolding s'
    by (auto intro!: i2 task_inv_clear_pd task_inv_destroy task_inv_paging_switch i)
qed

lemma setup_stack_inv:
  "task_inv s \<Longrightarrow> i < 32 \<Longrightarrow> task_inv (setup_kernel_stack i entry s)"
  "task_inv s \<Longrightarrow> i < 32 \<Longrightarrow> task_inv (setup_user_stack i entry s)"
proof -
  assume a: "task_inv s" "i < 32"
  then have m: "task_inv (s\<lparr>mem := m\<rparr>)" for m by (simp add: task_inv_def)
  from a(2) show "task_inv (setup_kernel_stack i entry s)" "task_inv (setup_user_stack i entry s)"
    unfolding setup_kernel_stack_def setup_user_stack_def Let_def
    by (auto intro!: task_inv_upd_plain m split: prod.split)
qed

lemma task_inv_new:
  assumes "task_inv s" "find_free_task s = Some i" "next_pid s + 1 \<noteq> 0" "t_id e = next_pid s" "t_state e \<noteq> TASK_RUNNING"
  shows "task_inv (s\<lparr>tasks := (tasks s)[i := e], next_pid := next_pid s + 1\<rparr>)" "i < 32"
proof -
  have len: "length (tasks s) = 32" using assms(1) by (simp add: task_inv_def table_inv_def)
  have i: "i < 32" "\<not> active (tasks s ! i)"
    using find_slot_SomeD(1,2) [OF assms(2) [unfolded find_free_task_def]] len by auto
  then show "i < 32" by simp
  have "table_inv (tasks s) (cur s) (next_pid s)" using assms(1) by (simp add: task_inv_def)
  from table_inv_new [OF this i assms(3-5)] show "task_inv (s\<lparr>tasks := (tasks s)[i := e], next_pid := next_pid s + 1\<rparr>)"
    using assms(1) by (simp add: task_inv_def)
qed

lemma task_inv_new_upd:
  assumes "task_inv s" "find_free_task s = Some i" "next_pid s + 1 \<noteq> 0" "mem_upd s s1" "t_id e = next_pid s1" "t_state e \<noteq> TASK_RUNNING"
  shows "task_inv (s1\<lparr>tasks := (tasks s1)[i := e], next_pid := next_pid s1 + 1\<rparr>)"
  by (rule task_inv_new(1) [OF task_inv_mem_upd [OF assms(1,4)]])
    (use assms mem_updD [OF assms(4)] in \<open>simp_all add: find_free_task_def\<close>)

lemma find_free_task_bound: "task_inv s \<Longrightarrow> find_free_task s = Some i \<Longrightarrow> i < 32"
  using find_slot_SomeD(1) [of _ "tasks s" i] by (auto simp: find_free_task_def task_inv_def table_inv_def)

lemma task_create_inv:
  assumes "task_inv s" "next_pid s + 1 \<noteq> 0" "task_create nm entry prio s = Some (r, s')"
  shows "task_inv s'"
proof (cases "find_free_task s")
  case None
  then show ?thesis using assms by (simp add: task_create_def)
next
  case (Some slot)
  from assms(3) Some obtain st s1 where k: "kmalloc TASK_STACK_SIZE s = Some (st, s1)"
    by (auto simp: task_create_def bind_eq_Some_conv)
  note m = mem_upd_kmalloc [OF k]
  note new = task_inv_new_upd [OF assms(1) Some assms(2) m]
  show ?thesis
  proof (cases "st = 0")
    case True
    then show ?thesis using assms(3) Some k task_inv_mem_upd [OF assms(1) m] by (simp add: task_create_def)
  next
    case False
    then show ?thesis using assms(3) Some k by (auto simp: task_create_def Let_def intro!: setup_stack_inv new find_free_task_bound [OF assms(1) Some])
  qed
qed

lemma task_create_user_inv:
  assumes "task_inv s" "next_pid s + 1 \<noteq> 0" "task_create_user nm entry prio iopl s = Some (r, s')"
  shows "task_inv s'"
proof (cases "find_free_task s")
  case None
  then show ?thesis using assms by (simp add: task_create_user_def)
next
  case (Some slot)
  have old: "task_inv s'" if "mem_upd s s'" by (rule task_inv_mem_upd [OF assms(1) that])
  from assms(3) Some obtain us s1 where k: "kmalloc TASK_STACK_SIZE s = Some (us, s1)"
    by (auto simp: task_create_user_def bind_eq_Some_conv)
  note m1 = mem_upd_kmalloc [OF k]
  show ?thesis
  proof (cases "us = 0")
    case True
    then show ?thesis using assms(3) Some k old m1 by (simp add: task_create_user_def)
  next
    case us: False
    from assms(3) Some k us obtain ks s2 where k2: "kmalloc KERNEL_STACK_SIZE s1 = Some (ks, s2)"
      by (auto simp: task_create_user_def bind_eq_Some_conv)
    note m2 = mem_upd_trans [OF m1 mem_upd_kmalloc [OF k2]]
    obtain pd s3 where p: "paging_create_address_space s2 = (pd, s3)" by force
    note m3 = mem_upd_trans [OF m2 mem_upd_create [OF p]]
    consider "ks = 0" | "ks \<noteq> 0" "pd = 0" | "ks \<noteq> 0" "pd \<noteq> 0" by blast
    then show ?thesis
    proof cases
      case 1
      then show ?thesis using assms(3) Some k us k2 m2 old
        by (auto simp: task_create_user_def bind_eq_Some_conv intro!: old dest!: mem_upd_kfree intro: mem_upd_trans)
    next
      case 2
      then show ?thesis using assms(3) Some k us k2 p m3
        by (auto simp: task_create_user_def bind_eq_Some_conv intro!: old dest!: mem_upd_kfree intro: mem_upd_trans)
    next
      case 3
      then show ?thesis using assms(3) Some k us k2 p
        by (auto simp: task_create_user_def Let_def intro!: setup_stack_inv task_inv_new_upd [OF assms(1) Some assms(2) m3]
          find_free_task_bound [OF assms(1) Some])
    qed
  qed
qed

lemma task_create_from_elf_inv:
  assumes "task_inv s" "next_pid s + 1 \<noteq> 0"
  shows "task_inv (snd (task_create_from_elf nm entry ust pd kb ks prio iopl s))"
proof (cases "find_free_task s")
  case None
  then show ?thesis using assms by (simp add: task_create_from_elf_def)
next
  case (Some slot)
  obtain m sp where u: "user_frame (kb + ks) ust entry iopl (mem s) = (m, sp)" by force
  have m: "task_inv (s\<lparr>mem := m\<rparr>)" if "task_inv s" for s :: "'a task_state_scheme" using that by (simp add: task_inv_def)
  show ?thesis
    by (auto simp: task_create_from_elf_def Some u Let_def intro!: m task_inv_new(1) [OF assms(1) Some assms(2)])
qed

lemma task_init_inv: "next_pid s + 1 \<noteq> 0 \<Longrightarrow> task_inv (task_init s)"
proof -
  assume a: "next_pid s + 1 \<noteq> 0"
  let ?ts = "\<lambda>t. (replicate 32 task0)[0 := t]"
  have n: "?ts t ! i = (if i = 0 then t else task0)" if "i < 32" for i t
    using that by (simp add: nth_list_update)
  have z: "t_state task0 \<noteq> TASK_RUNNING" "\<not> active task0" by (simp_all add: task0_def)
  have "table_inv (?ts t) 0 (next_pid s + 1)" if "active t" "t_id t = next_pid s" for t
    unfolding table_inv_def using that a z by (simp add: n less_add_one_word)
  then show ?thesis by (simp add: task_init_def Let_def task_inv_def MAX_TASKS_def)
qed

section \<open>Reachable states\<close>

text \<open>The operations of \<^verbatim>\<open>src/task.c\<close> as steps.  \<open>next_pid\<close> is a 32-bit counter that is never
  reset: a creation step needs that it does not wrap.  Other code changes memory and the page
  bitmap (\<^const>\<open>mem_upd\<close>) and the fields of a task that the scheduler does not own.\<close>

inductive task_step :: "'a task_state_scheme \<Rightarrow> 'a task_state_scheme \<Rightarrow> bool" where
  step_tick: "task_step s (timer_callback regs s)"
| step_check: "task_step s (snd (task_preempt_check s))"
| step_schedule: "task_step s (snd (task_schedule live s))"
| step_yield: "task_step s (task_yield s)"
| step_sleep: "task_step s (task_sleep ms s)"
| step_exit: "task_exit s = Some s' \<Longrightarrow> task_step s s'"
| step_kill: "task_kill pid s = Some s' \<Longrightarrow> task_step s s'"
| step_fault: "page_fault_handler err s = Some (Some s') \<Longrightarrow> task_step s s'"
| step_create: "next_pid s + 1 \<noteq> 0 \<Longrightarrow> task_create nm entry prio s = Some (r, s') \<Longrightarrow> task_step s s'"
| step_create_user: "next_pid s + 1 \<noteq> 0 \<Longrightarrow> task_create_user nm entry prio iopl s = Some (r, s') \<Longrightarrow> task_step s s'"
| step_create_elf: "next_pid s + 1 \<noteq> 0 \<Longrightarrow> task_step s (snd (task_create_from_elf nm entry ust pd kb ks prio iopl s))"
| step_lock: "task_step s (task_lock_scheduler s)"
| step_unlock: "task_step s (task_unlock_scheduler s)"
| step_quantum: "task_step s (task_set_quantum q s)"
| step_preemptive: "task_step s (task_set_preemptive b s)"
| step_mem: "mem_upd s s' \<Longrightarrow> task_step s s'"

lemma task_settings_inv:
  assumes "task_inv s"
  shows "task_inv (snd (task_preempt_check s))" "task_inv (task_lock_scheduler s)" "task_inv (task_unlock_scheduler s)"
    "task_inv (task_set_quantum q s)" "task_inv (task_set_preemptive b s)"
  using assms by (auto simp: task_preempt_check_def task_lock_scheduler_def task_unlock_scheduler_def
      task_set_quantum_def task_set_preemptive_def task_inv_def Let_def)

lemma task_step_inv: "task_step s s' \<Longrightarrow> task_inv s \<Longrightarrow> task_inv s'"
proof (induction rule: task_step.induct)
  case (step_fault err s s')
  then show ?case
    by (auto simp: page_fault_handler_def bind_eq_Some_conv intro!: task_yield_inv
        elim: task_kill_inv [rotated] split: option.splits if_splits)
qed (auto intro: timer_callback_inv task_schedule_inv task_yield_inv task_sleep_inv task_exit_inv
    task_kill_inv task_create_inv task_create_user_inv task_create_from_elf_inv task_inv_mem_upd task_settings_inv)

lemma task_steps_inv: "task_step\<^sup>*\<^sup>* s s' \<Longrightarrow> task_inv s \<Longrightarrow> task_inv s'"
  by (induction rule: rtranclp_induct) (auto intro: task_step_inv)

definition task_sample :: task_state where
  "task_sample = \<lparr>mem = \<lambda>_. 0, bitmap = replicate 32768 0, total_pages = 16384, used_pages = 0, kernel_end = 0x200000, heap_start = 0, heap_total = 0,
     page_directory = 0x1000, page_tables = 0x2000, cr3 = 0x1000, tick_count = 0, timer_freq = 100,
     tss_esp0 = 0, tasks = replicate 32 task0, current_task = -1, next_pid = 0, scheduler_enabled = False,
     preemptive_enabled = True, default_quantum = 10, sched_lock_count = 0, switch_new_esp = 0,
     switch_pending = False, total_ctx_switches = 0\<rparr>"

lemma sample_free: "find_free_task (task_init task_sample) = Some 1"
  by (simp add: find_free_task_def find_slot_Some task_init_def Let_def MAX_TASKS_def nth_list_update) (simp add: task0_def)

section \<open>Time slices and dispatch\<close>

text \<open>The page directory a task runs on, and the invariant that CR3 holds that of the current task.\<close>

definition pd_of :: "'a task_state_scheme \<Rightarrow> nat \<Rightarrow> u32" where
  "pd_of s i = (if t_pd (tasks s ! i) = 0 then page_directory s else t_pd (tasks s ! i))"

definition cr3_ok :: "'a task_state_scheme \<Rightarrow> bool" where
  "cr3_ok s \<longleftrightarrow> cr3 s = pd_of s (cur s)"

lemma upd_task_nth: "length (tasks s) = 32 \<Longrightarrow> i < 32 \<Longrightarrow> tasks (upd_task i f s) ! j = (if j = i then f (tasks s ! i) else tasks s ! j)"
  by (simp add: upd_task_def nth_list_update)

lemma upd_task_sel [simp]:
  "length (tasks (upd_task i f s)) = length (tasks s)" "current_task (upd_task i f s) = current_task s" "tick_count (upd_task i f s) = tick_count s"
  "page_directory (upd_task i f s) = page_directory s" "cr3 (upd_task i f s) = cr3 s" "tss_esp0 (upd_task i f s) = tss_esp0 s"
  "scheduler_enabled (upd_task i f s) = scheduler_enabled s" "preemptive_enabled (upd_task i f s) = preemptive_enabled s"
  "sched_lock_count (upd_task i f s) = sched_lock_count s" "total_ctx_switches (upd_task i f s) = total_ctx_switches s"
  by (simp_all add: upd_task_def)

definition slice_over :: "'a task_state_scheme \<Rightarrow> bool" where
  "slice_over s \<longleftrightarrow> task_waits (cur s) s \<or> ticks_left (tasks s ! cur s) \<le> 1"

text \<open>A tick in the middle of a slice only counts.\<close>

lemma tick_running:
  assumes "task_inv s" "scheduler_enabled s" "preemptive_enabled s" "sched_lock_count s = 0" "\<not> slice_over s"
  shows "timer_callback regs s = upd_task (cur s) (\<lambda>t. t\<lparr>cpu_ticks := cpu_ticks t + 1, total_ticks := total_ticks t + 1,
            ticks_left := ticks_left t - 1\<rparr>) (s\<lparr>tick_count := tick_count s + 1\<rparr>)"
proof -
  have l: "length (tasks s) = 32" "cur s < 32" "\<not> current_task s < 0"
    using assms(1) by (auto simp: task_inv_def table_inv_def)
  have w: "ticks_left (tasks s ! cur s) > 1" "\<not> task_waits (cur s) s" using assms(5) by (auto simp: slice_over_def)
  then have p: "ticks_left (tasks s ! cur s) > 0" "ticks_left (tasks s ! cur s) - 1 > 0"
    by (auto simp: word_less_nat_alt unat_sub word_le_nat_alt)
  have st: "t_state (tasks s ! cur s) \<notin> {TASK_SLEEPING, TASK_BLOCKED, TASK_TERMINATED}" using w(2) by (simp add: task_waits_def)
  show ?thesis
    using assms(2-4) l p st
    by (simp add: timer_callback_def task_timer_tick_def Let_def upd_task_def)
qed

lemma slice_ticks:
  assumes "task_inv s" "scheduler_enabled s" "preemptive_enabled s" "sched_lock_count s = 0" "\<not> task_waits (cur s) s"
    "n < unat (ticks_left (tasks s ! cur s))"
  shows "(timer_callback regs ^^ n) s = upd_task (cur s) (\<lambda>t. t\<lparr>cpu_ticks := cpu_ticks t + of_nat n,
            total_ticks := total_ticks t + of_nat n, ticks_left := ticks_left t - of_nat n\<rparr>) (s\<lparr>tick_count := tick_count s + of_nat n\<rparr>)"
  using assms(6)
proof (induction n)
  case 0
  then show ?case by (simp add: upd_task_def)
next
  case (Suc n)
  let ?s = "(timer_callback regs ^^ n) s"
  have IH: "?s = upd_task (cur s) (\<lambda>t. t\<lparr>cpu_ticks := cpu_ticks t + of_nat n,
            total_ticks := total_ticks t + of_nat n, ticks_left := ticks_left t - of_nat n\<rparr>) (s\<lparr>tick_count := tick_count s + of_nat n\<rparr>)"
    by (rule Suc.IH) (use Suc.prems in simp)
  have l: "length (tasks s) = 32" "cur s < 32" using assms(1) by (auto simp: task_inv_def table_inv_def)
  have inv: "task_inv ?s" by (induction n) (use assms(1) timer_callback_inv in auto)
  have "n < 2 ^ 32" using Suc.prems unat_u32 [of "ticks_left (tasks s ! cur s)"] by simp
  then have "unat (of_nat n :: u32) = n" by (simp add: unat_of_nat)
  then have "ticks_left (tasks s ! cur s) - of_nat n > 1"
    using Suc.prems by (simp add: word_less_nat_alt unat_sub word_le_nat_alt)
  then have so: "\<not> slice_over ?s"
    using assms(5) l unfolding IH slice_over_def task_waits_def by (simp add: upd_task_nth)
  have "timer_callback regs ?s = upd_task (cur ?s) (\<lambda>t. t\<lparr>cpu_ticks := cpu_ticks t + 1, total_ticks := total_ticks t + 1,
            ticks_left := ticks_left t - 1\<rparr>) (?s\<lparr>tick_count := tick_count ?s + 1\<rparr>)"
    by (rule tick_running [OF inv _ _ _ so]) (use assms(2-4) in \<open>simp_all add: IH\<close>)
  also have "\<dots> = upd_task (cur s) (\<lambda>t. t\<lparr>cpu_ticks := cpu_ticks t + of_nat (Suc n),
            total_ticks := total_ticks t + of_nat (Suc n), ticks_left := ticks_left t - of_nat (Suc n)\<rparr>) (s\<lparr>tick_count := tick_count s + of_nat (Suc n)\<rparr>)"
    using l unfolding IH upd_task_def by (simp add: algebra_simps)
  finally show ?case by simp
qed

text \<open>A task keeps the processor for its quantum: while the scheduler is on and the current task
  neither sleeps nor blocks, the first \<open>ticks_left - 1\<close> timer interrupts change nothing but its own
  counters and the clock.\<close>

theorem time_slice_kept:
  fixes regs :: u32
  assumes "task_inv s" "scheduler_enabled s" "preemptive_enabled s" "sched_lock_count s = 0" "\<not> task_waits (cur s) s"
    "n < unat (ticks_left (tasks s ! cur s))"
  defines "s' \<equiv> (timer_callback regs ^^ n) s"
  shows "current_task s' = current_task s \<and> switch_pending s' = switch_pending s \<and> cr3 s' = cr3 s
    \<and> tick_count s' = tick_count s + of_nat n
    \<and> total_ticks (tasks s' ! cur s) = total_ticks (tasks s ! cur s) + of_nat n
    \<and> unat (ticks_left (tasks s' ! cur s)) = unat (ticks_left (tasks s ! cur s)) - n
    \<and> (\<forall>j. j \<noteq> cur s \<longrightarrow> tasks s' ! j = tasks s ! j)"
proof -
  have l: "length (tasks s) = 32" "cur s < 32" using assms(1) by (auto simp: task_inv_def table_inv_def)
  have "n < 2 ^ 32" using assms(6) unat_u32 [of "ticks_left (tasks s ! cur s)"] by simp
  then have "unat (of_nat n :: u32) = n" by (simp add: unat_of_nat)
  then show ?thesis unfolding s'_def slice_ticks [OF assms(1-6)]
    using l assms(6) by (auto simp: upd_task_def nth_list_update unat_sub word_le_nat_alt)
qed

lemma time_slice_kept_witness:
  "current_task ((timer_callback 0x9000 ^^ 9) (task_init task_sample)) = 0"
proof -
  have i: "task_inv (task_init task_sample)" by (rule task_init_inv) (simp add: task_sample_def)
  show ?thesis
    using time_slice_kept [OF i, of 9 "0x9000"]
    by (simp add: task_init_def task_sample_def task_waits_def MAX_TASKS_def Let_def)
qed

lemma wake_task_keeps [simp]:
  "active (wake_task n t) = active t" "priority (wake_task n t) = priority t" "t_pd (wake_task n t) = t_pd t"
  "saved_esp (wake_task n t) = saved_esp t" "is_user (wake_task n t) = is_user t" "kernel_stack_top (wake_task n t) = kernel_stack_top t"
  "t_id (wake_task n t) = t_id t"
  by (simp_all add: wake_task_def)

lemma woken_nth: "length (tasks s) = 32 \<Longrightarrow> i < 32 \<Longrightarrow> woken s ! i = wake_task (tick_count s) (tasks s ! i)"
  by (simp add: woken_def)

text \<open>The state before \<open>find_next_task\<close> runs in a tick differs from \<open>s\<close> in counters of the current
  task only.\<close>

definition counted :: "'a task_state_scheme \<Rightarrow> 'a task_state_scheme" where
  "counted s =
     (let s = upd_task (cur s) (\<lambda>t. t\<lparr>cpu_ticks := cpu_ticks t + 1, total_ticks := total_ticks t + 1\<rparr>) s
      in if \<not> task_waits (cur s) s \<and> ticks_left (tasks s ! cur s) > 0
         then upd_task (cur s) (\<lambda>t. t\<lparr>ticks_left := ticks_left t - 1\<rparr>) s else s)"

lemma counted_sel:
  assumes "task_inv s"
  shows "counted s = s\<lparr>tasks := tasks (counted s)\<rparr>" "length (tasks (counted s)) = 32"
    "j \<noteq> cur s \<Longrightarrow> tasks (counted s) ! j = tasks s ! j"
    "t_state (tasks (counted s) ! j) = t_state (tasks s ! j)" "active (tasks (counted s) ! j) = active (tasks s ! j)"
    "priority (tasks (counted s) ! j) = priority (tasks s ! j)" "t_pd (tasks (counted s) ! j) = t_pd (tasks s ! j)"
    "wake_tick (tasks (counted s) ! j) = wake_tick (tasks s ! j)"
proof -
  have l: "length (tasks s) = 32" "cur s < 32" using assms by (auto simp: task_inv_def table_inv_def)
  show "counted s = s\<lparr>tasks := tasks (counted s)\<rparr>" by (simp add: counted_def upd_task_def Let_def)
  show "length (tasks (counted s)) = 32" "j \<noteq> cur s \<Longrightarrow> tasks (counted s) ! j = tasks s ! j"
    "t_state (tasks (counted s) ! j) = t_state (tasks s ! j)" "active (tasks (counted s) ! j) = active (tasks s ! j)"
    "priority (tasks (counted s) ! j) = priority (tasks s ! j)" "t_pd (tasks (counted s) ! j) = t_pd (tasks s ! j)"
    "wake_tick (tasks (counted s) ! j) = wake_tick (tasks s ! j)"
    using l by (simp_all add: counted_def upd_task_nth Let_def)
qed

lemma counted_inv: "task_inv s \<Longrightarrow> task_inv (counted s)"
  unfolding counted_def Let_def by (auto intro!: task_inv_upd_plain dest: cur_bound simp: cur_bound)

lemma tick_slice_over:
  assumes "task_inv s" "scheduler_enabled s" "preemptive_enabled s" "sched_lock_count s = 0" "slice_over s"
  shows "task_timer_tick regs s =
    (let (next, s') = find_next_task (counted s) in
     if next = cur s then upd_task (cur s) (\<lambda>t. t\<lparr>ticks_left := quantum t\<rparr>) s'
     else let s' = upd_task (cur s) (\<lambda>t. t\<lparr>saved_esp := regs,
                       t_state := (if t_state t = TASK_RUNNING then TASK_READY else t_state t)\<rparr>) s';
              s' = upd_task next (\<lambda>t. t\<lparr>t_state := TASK_RUNNING, ticks_left := quantum t, switches := switches t + 1\<rparr>) s';
              s' = (do_switch_context next (s'\<lparr>total_ctx_switches := total_ctx_switches s' + 1\<rparr>))\<lparr>current_task := int next\<rparr>
          in s'\<lparr>switch_new_esp := saved_esp (tasks s' ! next), switch_pending := True\<rparr>)"
proof -
  have l: "length (tasks s) = 32" "cur s < 32" "\<not> current_task s < 0" using assms(1) by (auto simp: task_inv_def table_inv_def)
  let ?t = "tasks s ! cur s"
  have no: "\<not> (\<not> task_waits (cur s) s \<and> ticks_left (tasks (counted s) ! cur s) > 0)"
  proof
    assume a: "\<not> task_waits (cur s) s \<and> ticks_left (tasks (counted s) ! cur s) > 0"
    then have "ticks_left ?t \<le> 1" using assms(5) by (simp add: slice_over_def)
    then have "unat (ticks_left ?t) = 0 \<or> unat (ticks_left ?t) = unat (1 :: u32)" by (auto simp: word_le_nat_alt)
    then have "ticks_left ?t = 0 \<or> ticks_left ?t = 1" by (auto simp: word_unat_eq_iff)
    moreover have "ticks_left (tasks (counted s) ! cur s) = (if ticks_left ?t > 0 then ticks_left ?t - 1 else ticks_left ?t)"
      using a l by (simp add: counted_def upd_task_nth task_waits_def Let_def)
    ultimately show False using a by auto
  qed
  have c: "current_task (snd (find_next_task (counted s))) = current_task s"
    using find_next_task_state [of "counted s"] by (simp add: counted_def Let_def)
  have sel: "preemptive_enabled (counted s) = preemptive_enabled s" "current_task (counted s) = current_task s" by (simp_all add: counted_def Let_def)
  have w: "(t_state (tasks (upd_task (cur s) (\<lambda>t. t\<lparr>cpu_ticks := cpu_ticks t + 1, total_ticks := total_ticks t + 1\<rparr>) s) ! cur s)
      \<in> {TASK_SLEEPING, TASK_BLOCKED, TASK_TERMINATED}) = task_waits (cur s) s"
    using l by (auto simp: upd_task_nth task_waits_def)
  have fold: "(if \<not> task_waits (cur s) s
         \<and> ticks_left (tasks (upd_task (cur s) (\<lambda>t. t\<lparr>cpu_ticks := cpu_ticks t + 1, total_ticks := total_ticks t + 1\<rparr>) s) ! cur s) > 0
      then upd_task (cur s) (\<lambda>t. t\<lparr>ticks_left := ticks_left t - 1\<rparr>)
        (upd_task (cur s) (\<lambda>t. t\<lparr>cpu_ticks := cpu_ticks t + 1, total_ticks := total_ticks t + 1\<rparr>) s)
      else upd_task (cur s) (\<lambda>t. t\<lparr>cpu_ticks := cpu_ticks t + 1, total_ticks := total_ticks t + 1\<rparr>) s) = counted s"
  proof -
    have "task_waits (cur s) (upd_task (cur s) (\<lambda>t. t\<lparr>cpu_ticks := cpu_ticks t + 1, total_ticks := total_ticks t + 1\<rparr>) s) = task_waits (cur s) s"
      using l by (simp add: upd_task_nth task_waits_def)
    then show ?thesis by (simp add: counted_def Let_def)
  qed
  show ?thesis
    using assms(2-4) l(3) no c unfolding task_timer_tick_def Let_def upd_task_sel w fold
    by (auto simp: sel split: prod.split)
qed

lemma if_holds: "(if C then P else Q) \<Longrightarrow> C \<Longrightarrow> P"
  by simp

lemma woken_counted:
  assumes "task_inv s" "i < 32"
  shows "runnable (woken (counted s) ! i) = runnable (woken s ! i)" "priority (woken (counted s) ! i) = priority (tasks s ! i)"
    "i \<noteq> cur s \<Longrightarrow> woken (counted s) ! i = woken s ! i" "t_pd (woken (counted s) ! i) = t_pd (tasks s ! i)"
proof -
  have l: "length (tasks s) = 32" using assms by (auto simp: task_inv_def table_inv_def)
  have tc: "tick_count (counted s) = tick_count s" by (simp add: counted_def Let_def)
  note c = counted_sel [OF assms(1)]
  show "runnable (woken (counted s) ! i) = runnable (woken s ! i)" "priority (woken (counted s) ! i) = priority (tasks s ! i)"
    "i \<noteq> cur s \<Longrightarrow> woken (counted s) ! i = woken s ! i" "t_pd (woken (counted s) ! i) = t_pd (tasks s ! i)"
    using l assms(2) c(2-8) by (simp_all add: woken_nth tc) (simp add: runnable_def wake_task_def)
qed

text \<open>C4. The end of a slice dispatches the right task: when the current task's slice is over or it
  waits, and another task is runnable (sleepers whose time has come included), the timer interrupt
  hands the processor to a runnable task of the least priority value, the first of these after the
  current one in the circular order of the table; the interrupted stack pointer is saved, the
  pending switch names the saved stack of the new task, the kernel stack of the TSS is that of a new
  user task, and CR3 holds the new task's page directory.\<close>

theorem timer_dispatch:
  fixes regs :: u32
  assumes "task_inv s" "scheduler_enabled s" "preemptive_enabled s" "sched_lock_count s = 0" "slice_over s" "cr3_ok s"
    and "\<exists>i < MAX_TASKS. i \<noteq> cur s \<and> runnable (woken s ! i) \<and> priority (tasks s ! i) < 0xFFFFFFFF"
  defines "s' \<equiv> task_timer_tick regs s"
  shows "cur s' < MAX_TASKS \<and> cur s' \<noteq> cur s \<and> runnable (woken s ! cur s')
    \<and> (\<forall>j < MAX_TASKS. j \<noteq> cur s \<and> runnable (woken s ! j) \<longrightarrow> priority (tasks s ! cur s') \<le> priority (tasks s ! j)
         \<and> (priority (tasks s ! cur s') = priority (tasks s ! j) \<longrightarrow> rr_dist (cur s) (cur s') \<le> rr_dist (cur s) j))
    \<and> t_state (tasks s' ! cur s') = TASK_RUNNING \<and> ticks_left (tasks s' ! cur s') = quantum (tasks s ! cur s')
    \<and> t_state (tasks s' ! cur s) \<noteq> TASK_RUNNING \<and> saved_esp (tasks s' ! cur s) = regs
    \<and> switch_pending s' \<and> switch_new_esp s' = saved_esp (tasks s ! cur s')
    \<and> (is_user (tasks s ! cur s') \<and> kernel_stack_top (tasks s ! cur s') \<noteq> 0 \<longrightarrow> tss_esp0 s' = kernel_stack_top (tasks s ! cur s'))
    \<and> cr3_ok s'"
proof -
  note l = table_invD(1,2) [OF assms(1) [unfolded task_inv_def, THEN conjunct2]]
  have c0: "\<not> current_task s < 0" using assms(1) by (simp add: task_inv_def)
  obtain n s1 where fn: "find_next_task (counted s) = (n, s1)" by force
  note i1 = find_next_task_inv [OF counted_inv [OF assms(1)] fn]
  have cc: "cur (counted s) = cur s" by (simp add: counted_def Let_def)
  have "\<exists>i < 32. i \<noteq> cur s \<and> runnable (woken (counted s) ! i) \<and> priority (woken (counted s) ! i) < 0xFFFFFFFF"
  proof -
    from assms(7) obtain i where i: "i < 32" "i \<noteq> cur s" "runnable (woken s ! i)" "priority (tasks s ! i) < 0xFFFFFFFF"
      unfolding MAX_TASKS_def by (elim exE conjE)
    then show ?thesis using woken_counted(1,2) [OF assms(1) i(1)] by (intro exI [of _ i]) simp
  qed
  with find_next_task_choice [OF task_inv_shape [OF counted_inv [OF assms(1)]]]
  have ch: "n < 32 \<and> n \<noteq> cur s \<and> runnable (woken (counted s) ! n)
      \<and> (\<forall>j < 32. j \<noteq> cur s \<and> runnable (woken (counted s) ! j) \<longrightarrow> priority (woken (counted s) ! n) \<le> priority (woken (counted s) ! j)
           \<and> (priority (woken (counted s) ! n) = priority (woken (counted s) ! j) \<longrightarrow> rr_dist (cur s) n \<le> rr_dist (cur s) j))"
    unfolding cc fn fst_conv by (rule if_holds)
  then have n32: "n < 32" by (elim conjE)
  from ch have choice: "\<forall>j < 32. j \<noteq> cur s \<and> runnable (woken s ! j) \<longrightarrow> priority (tasks s ! n) \<le> priority (tasks s ! j)
         \<and> (priority (tasks s ! n) = priority (tasks s ! j) \<longrightarrow> rr_dist (cur s) n \<le> rr_dist (cur s) j)"
    and n: "n < 32" "n \<noteq> cur s" "runnable (woken s ! n)"
    using woken_counted(1,2) [OF assms(1)] woken_counted(1,2) [OF assms(1) n32] by simp_all
  define s2 where "s2 = upd_task n (\<lambda>t. t\<lparr>t_state := TASK_RUNNING, ticks_left := quantum t, switches := switches t + 1\<rparr>)
     (upd_task (cur s) (\<lambda>t. t\<lparr>saved_esp := regs, t_state := (if t_state t = TASK_RUNNING then TASK_READY else t_state t)\<rparr>) s1)"
  define s3 where "s3 = do_switch_context n (s2\<lparr>total_ctx_switches := total_ctx_switches s2 + 1\<rparr>)"
  have s': "s' = s3\<lparr>current_task := int n, switch_new_esp := saved_esp (tasks s3 ! n), switch_pending := True\<rparr>"
    unfolding s'_def tick_slice_over [OF assms(1-5)] fn using n(2) by (simp add: s2_def s3_def Let_def)
  have t1: "tasks s1 = woken (counted s)" "length (tasks s1) = 32" "tasks s1 ! n = woken s ! n"
    "t_pd (tasks s1 ! cur s) = t_pd (tasks s ! cur s)"
    using i1(3) woken_counted(3) [OF assms(1) n(1,2)] woken_counted(4) [OF assms(1) l(2)] counted_sel(2) [OF assms(1)]
    by (simp_all add: woken_def)
  have fr: "page_directory s1 = page_directory s" "cr3 s1 = cr3 s" "current_task s1 = current_task s" "tss_esp0 s1 = tss_esp0 s"
    using i1(3) by (simp_all add: counted_def Let_def)
  have ts: "tasks s3 = tasks s2" by (simp add: s3_def do_switch_context_frame)
  have wn: "woken s ! n = wake_task (tick_count s) (tasks s ! n)" using woken_nth [OF l(1) n(1)] .
  have t2: "tasks s2 ! n = (woken s ! n)\<lparr>t_state := TASK_RUNNING, ticks_left := quantum (woken s ! n), switches := switches (woken s ! n) + 1\<rparr>"
    "t_state (tasks s2 ! cur s) \<noteq> TASK_RUNNING" "saved_esp (tasks s2 ! cur s) = regs" "t_pd (tasks s2 ! cur s) = t_pd (tasks s ! cur s)"
    "page_directory s2 = page_directory s" "cr3 s2 = cr3 s" "current_task s2 = current_task s"
    using t1 l n(1,2) fr by (simp_all add: s2_def upd_task_nth)
  have sw: "page_directory s3 = page_directory s" "cr3 s3 = (if t_pd (tasks s ! n) = 0 then page_directory s else t_pd (tasks s ! n))"
    "is_user (tasks s ! n) \<and> kernel_stack_top (tasks s ! n) \<noteq> 0 \<longrightarrow> tss_esp0 s3 = kernel_stack_top (tasks s ! n)"
    using assms(6) c0 t2 wn
    by (auto simp: s3_def do_switch_context_def paging_switch_def tss_set_kernel_stack_def paging_get_kernel_pd_def Let_def cr3_ok_def pd_of_def)
  have q: "quantum (woken s ! n) = quantum (tasks s ! n)" by (simp add: wn wake_task_def)
  show ?thesis
    using n choice t2 sw ts wn q by (simp add: s' MAX_TASKS_def cr3_ok_def pd_of_def)
qed

lemma timer_dispatch_witness:
  "\<exists>s :: task_state. task_inv s \<and> slice_over s \<and> cur s = 0 \<and> cur (task_timer_tick 0x9000 s) = 1
     \<and> cr3_ok (task_timer_tick 0x9000 s) \<and> tss_esp0 (task_timer_tick 0x9000 s) = 0x301000"
proof -
  define s where "s = task_yield (snd (task_create_from_elf ''init'' 0xC0000000 0xBFFFF000 0x5000 0x300000 4096 5 False (task_init task_sample)))"
  let ?s' = "task_timer_tick 0x9000 s"
  obtain m sp where u: "user_frame (0x300000 + 4096) 0xBFFFF000 0xC0000000 False (mem (task_init task_sample)) = (m, sp)" by force
  have i: "task_inv s" unfolding s_def
    by (intro task_yield_inv task_create_from_elf_inv task_init_inv) (simp_all add: task_init_def task_sample_def)
  have c: "cur s = 0" and en: "scheduler_enabled s" "preemptive_enabled s" "sched_lock_count s = 0" "slice_over s" "cr3_ok s"
    and t1: "active (tasks s ! 1)" "t_state (tasks s ! 1) = TASK_READY" "priority (tasks s ! 1) = 5"
      "is_user (tasks s ! 1)" "kernel_stack_top (tasks s ! 1) = 0x301000"
    and t2: "\<And>j. 2 \<le> j \<Longrightarrow> j < 32 \<Longrightarrow> \<not> active (tasks s ! j)"
    using sample_free u unfolding s_def
    by (simp_all add: task_create_from_elf_def task_yield_def slice_over_def cr3_ok_def pd_of_def upd_task_def Let_def)
       (simp_all add: task_init_def task_sample_def MAX_TASKS_def task0_def nth_list_update Let_def)
  have l: "length (tasks s) = 32" using i by (simp add: task_inv_def table_inv_def)
  have w: "woken s ! 1 = wake_task (tick_count s) (tasks s ! 1)" by (rule woken_nth [OF l]) simp
  then have "runnable (woken s ! 1)" using t1 by (simp add: runnable_def wake_task_def)
  then have "\<exists>i < MAX_TASKS. i \<noteq> cur s \<and> runnable (woken s ! i) \<and> priority (tasks s ! i) < 0xFFFFFFFF"
    using c t1 by (intro exI [of _ 1]) (simp add: MAX_TASKS_def)
  note T = timer_dispatch [OF i en this, of "0x9000", unfolded MAX_TASKS_def]
  from T have n: "cur ?s' \<noteq> 0" "cur ?s' < 32" "runnable (woken s ! cur ?s')" unfolding c by (simp_all only: simp_thms)
  then have "active (tasks s ! cur ?s')" using woken_nth [OF l] by (simp add: runnable_def)
  then have one: "cur ?s' = 1" using t2 [of "cur ?s'"] n by (cases "2 \<le> cur ?s'") auto
  have "cr3_ok ?s'" using T by (simp only: simp_thms)
  moreover have "is_user (tasks s ! 1) \<and> kernel_stack_top (tasks s ! 1) \<noteq> 0 \<longrightarrow> tss_esp0 ?s' = kernel_stack_top (tasks s ! 1)"
    using T unfolding one by (elim conjE) assumption
  ultimately show ?thesis using i en(4) c one t1 by (intro exI [of _ s]) simp
qed

section \<open>Initial stack frames\<close>

text \<open>The \<open>n\<close> words of memory from \<open>a\<close> on.\<close>

definition words :: "memory \<Rightarrow> u32 \<Rightarrow> nat \<Rightarrow> u32 list" where
  "words m a n = map (\<lambda>k. load32 m (a + 4 * of_nat k)) [0..<n]"

lemma words_append: "words m a (n + k) = words m a n @ words m (a + 4 * of_nat n) k"
proof -
  have "map (\<lambda>i. load32 m (a + 4 * of_nat i)) [n..<n + k] = map (\<lambda>i. load32 m (a + 4 * of_nat n + 4 * of_nat i)) [0..<k]"
    by (rule nth_equalityI) (simp_all add: algebra_simps)
  then show ?thesis by (simp add: words_def upt_add_eq_append [of 0 n k])
qed

lemma words_one: "words m a (Suc 0) = [load32 m a]"
  by (simp add: words_def)

lemma words_cong:
  assumes "\<And>p. unat (p - a) < 4 * n \<Longrightarrow> m p = m' p" "4 * n \<le> 4294967296"
  shows "words m a n = words m' a n"
proof -
  have "m (a + 4 * of_nat k + of_nat j) = m' (a + 4 * of_nat k + of_nat j)" if "k < n" "j < 4" for k j
  proof (rule assms(1))
    have e: "a + 4 * of_nat k + of_nat j - a = (of_nat (4 * k + j) :: u32)" by (simp add: algebra_simps)
    show "unat (a + 4 * of_nat k + of_nat j - a) < 4 * n" unfolding e
      using that assms(2) by (subst unat_of_nat32) simp_all
  qed
  from this [of _ 0] this [of _ 1] this [of _ 2] this [of _ 3] show ?thesis
    unfolding words_def by (intro map_cong refl load32_cong) simp_all
qed

lemma push_all_words:
  assumes "push_all vs (m, sp) = (m', sp')" "4 * length vs \<le> 4294967296"
  shows "sp' = sp - 4 * of_nat (length vs) \<and> words m' sp' (length vs) = rev vs
    \<and> (\<forall>p. 4 * length vs \<le> unat (p - sp') \<longrightarrow> m' p = m p)"
  using assms
proof (induction vs arbitrary: m sp)
  case Nil
  then show ?case by (simp add: words_def)
next
  case (Cons v vs)
  let ?n = "length vs" and ?m = "store32 m (sp - 4) v"
  from Cons.prems have p: "push_all vs (?m, sp - 4) = (m', sp')" by simp
  from Cons.IH [OF p] Cons.prems(2) have IH: "sp' = sp - 4 - 4 * of_nat ?n" "words m' sp' ?n = rev vs"
    "\<And>p. 4 * ?n \<le> unat (p - sp') \<Longrightarrow> m' p = ?m p" by auto
  have top: "sp' + 4 * of_nat ?n = sp - 4" using IH(1) by simp
  have off: "m' (sp - 4 + of_nat j) = ?m (sp - 4 + of_nat j)" if "j < 4" for j
  proof (rule IH(3))
    have e: "sp - 4 + of_nat j - sp' = of_nat (4 * ?n + j)" using IH(1) by simp
    show "4 * ?n \<le> unat (sp - 4 + of_nat j - sp')" unfolding e using that Cons.prems(2) by (subst unat_of_nat32) simp_all
  qed
  have "load32 m' (sp - 4) = load32 ?m (sp - 4)"
    using off [of 0] off [of 1] off [of 2] off [of 3] by (intro load32_cong) simp_all
  then have "words m' sp' (Suc ?n) = rev (v # vs)"
    using words_append [of m' sp' ?n "Suc 0"] IH(2) by (simp add: top words_one)
  moreover have "m' p = m p" if "4 * Suc ?n \<le> unat (p - sp')" for p
  proof -
    have "m' p = ?m p" by (rule IH(3)) (use that in simp)
    moreover have "4 \<le> p - (sp - 4)"
    proof -
      have e: "p - (sp - 4) = (p - sp') - of_nat (4 * ?n)" using IH(1) by (simp add: algebra_simps)
      have u: "unat (of_nat (4 * ?n) :: u32) = 4 * ?n" using Cons.prems(2) by (subst unat_of_nat32) simp_all
      have "of_nat (4 * ?n) \<le> p - sp'" unfolding word_le_nat_alt u using that by simp
      from unat_sub [OF this] have "unat (p - (sp - 4)) = unat (p - sp') - 4 * ?n" unfolding e u .
      then show ?thesis using that by (simp add: word_le_nat_alt)
    qed
    ultimately show ?thesis by (simp add: store32_other)
  qed
  moreover have "sp' = sp - 4 * of_nat (length (v # vs))" using IH(1) by (simp add: algebra_simps)
  ultimately show ?case by simp
qed

text \<open>The words a new ring 3 task resumes from, from the lowest address: the data segment, the eight
  registers of \<^verbatim>\<open>popa\<close>, interrupt number and error code, then the frame of \<^verbatim>\<open>iret\<close>.\<close>

definition user_frame_words :: "u32 \<Rightarrow> u32 \<Rightarrow> bool \<Rightarrow> u32 list" where
  "user_frame_words entry user_esp iopl =
     [SEG_UDATA] @ replicate 8 0 @ [32, 0, entry, SEG_UCODE, if iopl then 0x3202 else 0x202, user_esp, SEG_UDATA]"

lemma user_frame_layout:
  assumes "user_frame ktop user_esp entry iopl m = (m', sp)"
  shows "sp = ktop - 64 \<and> words m' sp 16 = user_frame_words entry user_esp iopl \<and> (\<forall>p. 64 \<le> unat (p - sp) \<longrightarrow> m' p = m p)"
proof -
  obtain m1 sp1 where p1: "push_all [SEG_UDATA, user_esp, 0x202] (m, ktop) = (m1, sp1)" by force
  define m2 where "m2 = (if iopl then store32 m1 sp1 (load32 m1 sp1 OR push_bit 12 3) else m1)"
  have p2: "push_all ([SEG_UCODE, entry, 0, 32] @ replicate 8 0 @ [SEG_UDATA]) (m2, sp1) = (m', sp)"
    using assms unfolding user_frame_def p1 by (simp add: m2_def Let_def del: push_all.simps append.simps)
  from push_all_words [OF p1] have a: "sp1 = ktop - 12" "words m1 sp1 3 = [0x202, user_esp, SEG_UDATA]"
    "\<And>p. 12 \<le> unat (p - sp1) \<Longrightarrow> m1 p = m p" by (auto simp: numeral_3_eq_3)
  from push_all_words [OF p2] have b: "sp = sp1 - 52" "words m' sp 13 = [SEG_UDATA] @ replicate 8 0 @ [32, 0, entry, SEG_UCODE]"
    "\<And>p. 52 \<le> unat (p - sp) \<Longrightarrow> m' p = m2 p" by auto
  have w3: "words x a 3 = [load32 x a, load32 x (a + 4), load32 x (a + 8)]" for x a by (simp add: words_def upt_rec)
  have w: "words m2 sp1 3 = [if iopl then 0x3202 else 0x202, user_esp, SEG_UDATA]"
    using a(2) unfolding w3 m2_def by (simp add: load32_store32_disj)
  have off: "unat (p - sp) = (if unat (p - sp1) + 52 < 4294967296 then unat (p - sp1) + 52 else unat (p - sp1) + 52 - 4294967296)" for p
  proof -
    have "unat (p - sp) = unat ((p - sp1) + 52)" unfolding b(1) by (simp add: algebra_simps)
    also have "\<dots> = (if unat (p - sp1) + 52 < 4294967296 then unat (p - sp1) + 52 else unat (p - sp1) + 52 - 4294967296)"
      by (simp only: unat_plus_if') simp
    finally show ?thesis .
  qed
  have "words m' sp1 3 = words m2 sp1 3" by (rule words_cong) (auto intro!: b(3) simp: off)
  moreover have "words m' sp 16 = words m' sp 13 @ words m' sp1 3"
    using words_append [of m' sp 13 3] b(1) by simp
  moreover have "m' p = m p" if "64 \<le> unat (p - sp)" for p
  proof -
    have "12 \<le> unat (p - sp1)" using that off [of p] unat_u32 [of "p - sp1"] by (auto split: if_splits)
    then have "m2 p = m p" using a(3) [of p] by (simp add: m2_def store32_other word_le_nat_alt)
    then show ?thesis using b(3) [of p] that by simp
  qed
  ultimately show ?thesis using a(1) b(1,2) w by (simp add: user_frame_words_def)
qed

text \<open>A successful creation: the slot was free, gets the fields \<open>e\<close>, and the rest of the table stays.\<close>

lemma task_create_user_cases:
  assumes "task_create_user nm entry prio iopl s = Some (r, s')" "task_inv s"
  shows "r = -1 \<and> tasks s' = tasks s \<and> next_pid s' = next_pid s \<or>
    (\<exists>i e. i < 32 \<and> \<not> active (tasks s ! i) \<and> tasks s' = (tasks s)[i := e] \<and> next_pid s' = next_pid s + 1
      \<and> r = sint (next_pid s) \<and> t_id e = next_pid s \<and> active e \<and> t_state e = TASK_READY \<and> is_user e
      \<and> priority e = prio \<and> io_privileged e = iopl \<and> ticks_left e = default_quantum s \<and> t_pd e \<noteq> 0
      \<and> kernel_stack_top e = kernel_stack_base e + 4096 \<and> saved_esp e = kernel_stack_top e - 64
      \<and> words (mem s') (saved_esp e) 16 = user_frame_words entry (stack_base e + 8192) iopl)"
proof (cases "find_free_task s")
  case None
  then show ?thesis using assms by (simp add: task_create_user_def)
next
  case (Some i)
  have i: "i < 32" "\<not> active (tasks s ! i)"
    using find_free_task_bound [OF assms(2) Some] find_slot_SomeD(2) [OF Some [unfolded find_free_task_def]] by auto
  have len: "length (tasks s) = 32" using assms(2) by (simp add: task_inv_def table_inv_def)
  from assms(1) Some obtain us s1 where k: "kmalloc TASK_STACK_SIZE s = Some (us, s1)"
    by (auto simp: task_create_user_def bind_eq_Some_conv)
  note m1 = mem_upd_kmalloc [OF k]
  show ?thesis
  proof (cases "us = 0")
    case True
    then show ?thesis using assms(1) Some k mem_updD [OF m1] by (simp add: task_create_user_def)
  next
    case us: False
    from assms(1) Some k us obtain ks s2 where k2: "kmalloc KERNEL_STACK_SIZE s1 = Some (ks, s2)"
      by (auto simp: task_create_user_def bind_eq_Some_conv)
    note m2 = mem_upd_trans [OF m1 mem_upd_kmalloc [OF k2]]
    obtain pd s3 where p: "paging_create_address_space s2 = (pd, s3)" by force
    note m3 = mem_upd_trans [OF m2 mem_upd_create [OF p]]
    consider "ks = 0" | "ks \<noteq> 0" "pd = 0" | "ks \<noteq> 0" "pd \<noteq> 0" by blast
    then show ?thesis
    proof cases
      case 1
      then obtain s4 where "kfree us s2 = Some s4" "r = -1" "s' = s4"
        using assms(1) Some k us k2 by (auto simp: task_create_user_def bind_eq_Some_conv)
      then show ?thesis using mem_updD [OF mem_upd_trans [OF m2 mem_upd_kfree]] by auto
    next
      case 2
      then obtain s4 s5 where "kfree us s3 = Some s4" "kfree ks s4 = Some s5" "r = -1" "s' = s5"
        using assms(1) Some k us k2 p by (auto simp: task_create_user_def bind_eq_Some_conv)
      then show ?thesis using mem_updD [OF mem_upd_trans [OF mem_upd_trans [OF m3 mem_upd_kfree] mem_upd_kfree]] by auto
    next
      case 3
      note d = mem_updD [OF m3]
      define e where "e = task0\<lparr>t_id := next_pid s, t_name := task_name_of nm, t_state := TASK_READY, active := True,
           priority := prio, stack_base := us, stack_size := TASK_STACK_SIZE,
           quantum := default_quantum s, ticks_left := default_quantum s, is_user := True,
           io_privileged := iopl, t_pd := pd, kernel_stack_base := ks,
           kernel_stack_top := ks + KERNEL_STACK_SIZE, blocked_on := BLOCKED_NONE\<rparr>"
      have s': "s' = setup_user_stack i entry (s3\<lparr>tasks := (tasks s)[i := e], next_pid := next_pid s + 1\<rparr>)" "r = sint (next_pid s)"
        using assms(1) Some k us k2 p 3 d by (simp_all add: task_create_user_def Let_def e_def)
      obtain m sp where u: "user_frame (ks + KERNEL_STACK_SIZE) (us + TASK_STACK_SIZE) entry iopl (mem s3) = (m, sp)" by force
      note L = user_frame_layout [OF u]
      have "tasks s' = (tasks s)[i := e\<lparr>saved_esp := sp\<rparr>]" "mem s' = m" "next_pid s' = next_pid s + 1"
        unfolding s'(1) setup_user_stack_def Let_def using len i u by (simp_all add: e_def upd_task_def)
      then show ?thesis using i s'(2) L 3
        by (intro disjI2 exI [of _ i] exI [of _ "e\<lparr>saved_esp := sp\<rparr>"])
          (auto simp: e_def KERNEL_STACK_SIZE_def TASK_STACK_SIZE_def)
    qed
  qed
qed

text \<open>Creating a task from a loaded ELF image takes a free slot and a fresh PID, leaves every other
  task alone, and builds on the new kernel stack exactly the frame from which the interrupt return
  starts the program in ring 3: user segments, the entry point, the user stack, interrupts enabled
  and I/O privilege only if asked for; no other byte of memory changes.\<close>

theorem elf_task_frame:
  assumes "task_inv s" "find_free_task s = Some i"
    and "task_create_from_elf nm entry ustack pd kbase ksize prio iopl s = (r, s')"
  shows "r = sint (next_pid s) \<and> next_pid s' = next_pid s + 1 \<and> \<not> active (tasks s ! i)
    \<and> (\<forall>j. j \<noteq> i \<longrightarrow> tasks s' ! j = tasks s ! j)
    \<and> t_id (tasks s' ! i) = next_pid s \<and> active (tasks s' ! i) \<and> t_state (tasks s' ! i) = TASK_READY
    \<and> is_user (tasks s' ! i) \<and> t_pd (tasks s' ! i) = pd \<and> priority (tasks s' ! i) = prio
    \<and> kernel_stack_top (tasks s' ! i) = kbase + ksize \<and> saved_esp (tasks s' ! i) = kbase + ksize - 64
    \<and> words (mem s') (saved_esp (tasks s' ! i)) 16 = user_frame_words entry ustack iopl
    \<and> (\<forall>p. 64 \<le> unat (p - (kbase + ksize - 64)) \<longrightarrow> mem s' p = mem s p)"
proof -
  have len: "length (tasks s) = 32" using assms(1) by (simp add: task_inv_def table_inv_def)
  note i = find_free_task_bound [OF assms(1,2)] find_slot_SomeD(2) [OF assms(2) [unfolded find_free_task_def]]
  obtain m sp where u: "user_frame (kbase + ksize) ustack entry iopl (mem s) = (m, sp)" by force
  note L = user_frame_layout [OF u]
  show ?thesis using assms(2,3) u L i len by (auto simp: task_create_from_elf_def Let_def)
qed

lemma elf_task_frame_witness:
  "words (mem (snd (task_create_from_elf ''init'' 0xC0000000 0xBFFFF000 0x5000 0x300000 4096 5 False (task_init task_sample))))
     0x300FC0 16 = [0x23, 0, 0, 0, 0, 0, 0, 0, 0, 32, 0, 0xC0000000, 0x1B, 0x202, 0xBFFFF000, 0x23]"
proof -
  have i: "task_inv (task_init task_sample)" by (rule task_init_inv) (simp add: task_sample_def)
  obtain r s' where c: "task_create_from_elf ''init'' 0xC0000000 0xBFFFF000 0x5000 0x300000 4096 5 False (task_init task_sample) = (r, s')"
    by force
  from elf_task_frame [OF i sample_free c] have "saved_esp (tasks s' ! 1) = 0x300000 + 4096 - 64"
    "words (mem s') (saved_esp (tasks s' ! 1)) 16 = user_frame_words 0xC0000000 0xBFFFF000 False" by blast+
  then show ?thesis by (simp add: c user_frame_words_def SEG_UDATA_def SEG_UCODE_def numeral_eq_Suc)
qed

text \<open>\<open>task_create_user\<close> either reports failure with the table and the PID counter unchanged (no
  slot, no memory for one of the stacks, or no address space), or fills a free slot with a fresh PID
  and its own page directory and builds the ring 3 frame at the top of the new kernel stack.\<close>

theorem task_create_user_outcome:
  assumes "task_inv s" "task_create_user nm entry prio iopl s = Some (r, s')"
  shows "r = -1 \<and> tasks s' = tasks s \<and> next_pid s' = next_pid s \<or>
    (\<exists>i e. i < MAX_TASKS \<and> \<not> active (tasks s ! i) \<and> tasks s' = (tasks s)[i := e] \<and> next_pid s' = next_pid s + 1
      \<and> r = sint (next_pid s) \<and> t_id e = next_pid s \<and> active e \<and> t_state e = TASK_READY \<and> is_user e
      \<and> priority e = prio \<and> io_privileged e = iopl \<and> ticks_left e = default_quantum s \<and> t_pd e \<noteq> 0
      \<and> kernel_stack_top e = kernel_stack_base e + 4096 \<and> saved_esp e = kernel_stack_top e - 64
      \<and> words (mem s') (saved_esp e) 16 = user_frame_words entry (stack_base e + 8192) iopl)"
  using task_create_user_cases [OF assms(2,1)] unfolding MAX_TASKS_def .

lemma task_create_user_outcome_witness:
  "\<exists>s'. task_create_user ''vfs'' 0x101000 5 False (task_init task_sample) = Some (-1, s') \<and> next_pid s' = 1"
proof -
  have i: "task_inv (task_init task_sample)" by (rule task_init_inv) (simp add: task_sample_def)
  have "kmalloc_loop (mem (task_init task_sample)) 0 n = Some (0, mem (task_init task_sample))" for n
    by (subst kmalloc_loop.simps) simp
  then have k: "kmalloc TASK_STACK_SIZE (task_init task_sample) = Some (0, task_init task_sample)"
    by (simp add: kmalloc_def TASK_STACK_SIZE_def task_init_def task_sample_def Let_def)
  then have c: "task_create_user ''vfs'' 0x101000 5 False (task_init task_sample) = Some (-1, task_init task_sample)"
    using sample_free by (simp add: task_create_user_def)
  from task_create_user_outcome [OF i c] c show ?thesis by (auto simp: task_init_def task_sample_def Let_def)
qed



end
