(* ===== verification/Ipc.thy ===== *)
theory Ipc
  imports Sched Slots
begin

text \<open>
  Synchronous message passing and the service registry: \<^verbatim>\<open>src/ipc.c\<close>.  A message is a
  64-byte buffer in memory, its first word the sender's PID and its second the type; the buffers of
  the tasks and of the kernel are addresses of the one identity-mapped memory, the region every
  address space shares.  A call that waits for its partner ends in \<open>task_yield\<close>: its outcome
  is \<open>Blocks\<close>, and the call returns 0 when the task is made ready again.
\<close>

section \<open>Definitions\<close>

definition PID_ANY :: u32 where "PID_ANY = 0xFFFFFFFF"
definition MAX_SERVICES :: nat where "MAX_SERVICES = 16"
definition SERVICE_NAME_LEN :: nat where "SERVICE_NAME_LEN = 32"

record service_entry =
  sv_active :: bool
  sv_name :: string
  sv_pid :: u32

record ipc_state = task_state +
  services :: "service_entry list"
  total_messages :: u32
  pending_notify :: "u32 list"
  notify_msg :: "u8 list list"

datatype outcome = Returns int | Blocks

text \<open>The size of \<^verbatim>\<open>message_t\<close>, and the bytes of a list written to memory.\<close>

definition MSG_SIZE :: nat where "MSG_SIZE = 64"

fun put_bytes :: "memory \<Rightarrow> u32 \<Rightarrow> u8 list \<Rightarrow> memory" where
  "put_bytes m p [] = m"
| "put_bytes m p (b # bs) = put_bytes (m(p := b)) (p + 1) bs"

definition service0 :: service_entry where
  "service0 = \<lparr>sv_active = False, sv_name = replicate SERVICE_NAME_LEN NUL, sv_pid = 0\<rparr>"

definition ipc_init :: "'a ipc_state_scheme \<Rightarrow> 'a ipc_state_scheme" where
  "ipc_init s = s\<lparr>services := replicate MAX_SERVICES service0, pending_notify := replicate MAX_TASKS 0, total_messages := 0\<rparr>"

definition copy_message :: "u32 \<Rightarrow> u32 \<Rightarrow> memory \<Rightarrow> memory" where
  "copy_message src dst m = memcpy m dst src MSG_SIZE"

definition blocked_sender :: "u32 \<Rightarrow> u32 \<Rightarrow> task \<Rightarrow> bool" where
  "blocked_sender receiver_pid from_pid t \<longleftrightarrow>
     active t \<and> t_state t = TASK_BLOCKED \<and> (blocked_on t = BLOCKED_SEND \<or> blocked_on t = BLOCKED_SENDREC)
     \<and> send_to t = receiver_pid \<and> (from_pid = PID_ANY \<or> t_id t = from_pid)"

definition find_blocked_sender :: "u32 \<Rightarrow> u32 \<Rightarrow> 'a task_state_scheme \<Rightarrow> nat option" where
  "find_blocked_sender receiver_pid from_pid s = find_slot (blocked_sender receiver_pid from_pid) (tasks s)"

text \<open>The test with which a sender finds its partner already waiting.\<close>

definition accepts :: "task \<Rightarrow> u32 \<Rightarrow> bool" where
  "accepts t pid \<longleftrightarrow> t_state t = TASK_BLOCKED \<and> blocked_on t = BLOCKED_RECEIVE
     \<and> (receive_from t = PID_ANY \<or> receive_from t = pid)"

definition ipc_send :: "u32 \<Rightarrow> u32 \<Rightarrow> 'a ipc_state_scheme \<Rightarrow> outcome \<times> 'a ipc_state_scheme" where
  "ipc_send dest_pid msg s =
     (case task_get_current s of
        None \<Rightarrow> (Returns (-1), s)
      | Some c \<Rightarrow>
        if msg = 0 then (Returns (-1), s)
        else
          (case task_get_by_pid dest_pid s of
             None \<Rightarrow> (Returns (-2), s)
           | Some d \<Rightarrow>
             let id = t_id (tasks s ! c);
                 s = s\<lparr>mem := store32 (mem s) msg id, total_messages := total_messages s + 1\<rparr>;
                 dest = tasks s ! d
             in if accepts dest id then
                  let m = copy_message msg (msg_buf dest) (mem s);
                      m = store32 m (msg_buf dest) id
                  in (Returns 0, upd_task d (\<lambda>t. t\<lparr>t_state := TASK_READY, blocked_on := BLOCKED_NONE\<rparr>) (s\<lparr>mem := m\<rparr>))
                else
                  (Blocks, task_yield (upd_task c (\<lambda>t. t\<lparr>t_state := TASK_BLOCKED, blocked_on := BLOCKED_SEND,
                     send_to := dest_pid, msg_buf := msg\<rparr>) s))))"

definition notify_slot :: "u32 \<Rightarrow> nat" where
  "notify_slot pid = unat (pid mod of_nat MAX_TASKS)"

definition ipc_receive :: "u32 \<Rightarrow> u32 \<Rightarrow> 'a ipc_state_scheme \<Rightarrow> outcome \<times> 'a ipc_state_scheme" where
  "ipc_receive from_pid msg s =
     (case task_get_current s of
        None \<Rightarrow> (Returns (-1), s)
      | Some c \<Rightarrow>
        if msg = 0 then (Returns (-1), s)
        else
          let id = t_id (tasks s ! c); k = notify_slot id in
          if pending_notify s ! k \<noteq> 0
          then (Returns 0, s\<lparr>mem := put_bytes (mem s) msg (notify_msg s ! k), pending_notify := (pending_notify s)[k := 0]\<rparr>)
          else
            (case find_blocked_sender id from_pid s of
               Some i \<Rightarrow>
                 let sender = tasks s ! i;
                     m = copy_message (msg_buf sender) msg (mem s);
                     m = store32 m msg (t_id sender);
                     s = s\<lparr>mem := m\<rparr>
                 in (Returns 0,
                     if blocked_on sender = BLOCKED_SENDREC
                     then upd_task i (\<lambda>t. t\<lparr>blocked_on := BLOCKED_SENDREC, t_state := TASK_BLOCKED\<rparr>) s
                     else upd_task i (\<lambda>t. t\<lparr>t_state := TASK_READY, blocked_on := BLOCKED_NONE\<rparr>) s)
             | None \<Rightarrow>
                 (Blocks, task_yield (upd_task c (\<lambda>t. t\<lparr>t_state := TASK_BLOCKED, blocked_on := BLOCKED_RECEIVE,
                    receive_from := from_pid, msg_buf := msg\<rparr>) s))))"

definition ipc_sendrec :: "u32 \<Rightarrow> u32 \<Rightarrow> 'a ipc_state_scheme \<Rightarrow> outcome \<times> 'a ipc_state_scheme" where
  "ipc_sendrec dest_pid msg s =
     (case task_get_current s of
        None \<Rightarrow> (Returns (-1), s)
      | Some c \<Rightarrow>
        if msg = 0 then (Returns (-1), s)
        else
          (case task_get_by_pid dest_pid s of
             None \<Rightarrow> (Returns (-2), s)
           | Some d \<Rightarrow>
             let id = t_id (tasks s ! c);
                 s = s\<lparr>mem := store32 (mem s) msg id, total_messages := total_messages s + 1\<rparr>;
                 dest = tasks s ! d;
                 s = (if accepts dest id then
                        let m = copy_message msg (msg_buf dest) (mem s);
                            m = store32 m (msg_buf dest) id
                        in upd_task d (\<lambda>t. t\<lparr>t_state := TASK_READY, blocked_on := BLOCKED_NONE\<rparr>) (s\<lparr>mem := m\<rparr>)
                      else s)
             in (Blocks, task_yield (upd_task c (\<lambda>t. t\<lparr>t_state := TASK_BLOCKED, blocked_on := BLOCKED_SENDREC,
                   send_to := dest_pid, msg_buf := msg\<rparr>) s))))"

definition ipc_reply :: "u32 \<Rightarrow> u32 \<Rightarrow> 'a ipc_state_scheme \<Rightarrow> outcome \<times> 'a ipc_state_scheme" where
  "ipc_reply dest_pid msg s =
     (case task_get_current s of
        None \<Rightarrow> (Returns (-1), s)
      | Some c \<Rightarrow>
        if msg = 0 then (Returns (-1), s)
        else
          (case task_get_by_pid dest_pid s of
             None \<Rightarrow> (Returns (-2), s)
           | Some d \<Rightarrow>
             let dest = tasks s ! d in
             if t_state dest = TASK_BLOCKED \<and> blocked_on dest = BLOCKED_SENDREC then
               let m = store32 (mem s) msg (t_id (tasks s ! c));
                   m = copy_message msg (msg_buf dest) m;
                   s = upd_task d (\<lambda>t. t\<lparr>t_state := TASK_READY, blocked_on := BLOCKED_NONE\<rparr>) (s\<lparr>mem := m\<rparr>)
               in (Returns 0, s\<lparr>total_messages := total_messages s + 1\<rparr>)
             else (Returns (-3), s)))"

definition ipc_notify :: "u32 \<Rightarrow> u32 \<Rightarrow> 'a ipc_state_scheme \<Rightarrow> outcome \<times> 'a ipc_state_scheme" where
  "ipc_notify dest_pid msg s =
     (case task_get_by_pid dest_pid s of
        None \<Rightarrow> (Returns (-2), s)
      | Some d \<Rightarrow>
        let s = s\<lparr>mem := store32 (mem s) msg 0, total_messages := total_messages s + 1\<rparr>;
            dest = tasks s ! d
        in if t_state dest = TASK_BLOCKED \<and> blocked_on dest = BLOCKED_RECEIVE then
             (Returns 0, upd_task d (\<lambda>t. t\<lparr>t_state := TASK_READY, blocked_on := BLOCKED_NONE\<rparr>)
                (s\<lparr>mem := copy_message msg (msg_buf dest) (mem s)\<rparr>))
           else
             let k = notify_slot dest_pid
             in (Returns 0, s\<lparr>notify_msg := (notify_msg s)[k := bytes (mem s) msg MSG_SIZE],
                              pending_notify := (pending_notify s)[k := 1]\<rparr>))"

text \<open>The registry works on its table alone.\<close>

definition service_match :: "string \<Rightarrow> service_entry \<Rightarrow> bool" where
  "service_match name e \<longleftrightarrow> sv_active e \<and> strcmp (sv_name e) name = 0"

definition register_service :: "string \<Rightarrow> u32 \<Rightarrow> service_entry list \<Rightarrow> int \<times> service_entry list" where
  "register_service name pid svs =
     (case find_slot (service_match name) svs of
        Some i \<Rightarrow> (int i, svs[i := (svs ! i)\<lparr>sv_pid := pid\<rparr>])
      | None \<Rightarrow>
        (case find_slot (\<lambda>e. \<not> sv_active e) svs of
           Some i \<Rightarrow>
             (int i, svs[i := \<lparr>sv_active = True,
                sv_name = (strncpy (sv_name (svs ! i)) name (SERVICE_NAME_LEN - 1))[SERVICE_NAME_LEN - 1 := NUL],
                sv_pid = pid\<rparr>])
         | None \<Rightarrow> (-1, svs)))"

definition lookup_service :: "string \<Rightarrow> service_entry list \<Rightarrow> u32" where
  "lookup_service name svs =
     (case find_slot (service_match name) svs of Some i \<Rightarrow> sv_pid (svs ! i) | None \<Rightarrow> 0)"

definition ipc_register_service :: "string \<Rightarrow> u32 \<Rightarrow> 'a ipc_state_scheme \<Rightarrow> int \<times> 'a ipc_state_scheme" where
  "ipc_register_service name pid s = (let (r, svs) = register_service name pid (services s) in (r, s\<lparr>services := svs\<rparr>))"

definition ipc_lookup_service :: "string \<Rightarrow> 'a ipc_state_scheme \<Rightarrow> u32" where
  "ipc_lookup_service name s = lookup_service name (services s)"

definition ipc_message_count :: "'a ipc_state_scheme \<Rightarrow> u32" where
  "ipc_message_count s = total_messages s"

definition ipc_port_count :: "'a ipc_state_scheme \<Rightarrow> nat" where
  "ipc_port_count s = count_slots sv_active (services s)"

definition ipc_create_port :: "string \<Rightarrow> u32 \<Rightarrow> 'a ipc_state_scheme \<Rightarrow> int \<times> 'a ipc_state_scheme" where
  "ipc_create_port name owner s = ipc_register_service name owner s"

definition ipc_find_port :: "string \<Rightarrow> 'a ipc_state_scheme \<Rightarrow> int" where
  "ipc_find_port name s = (let pid = ipc_lookup_service name s in if pid \<noteq> 0 then sint pid else -1)"

section \<open>Delivery of a message\<close>

text \<open>What delivery of the message at \<open>src\<close> to the buffer \<open>dst\<close> does: the receiver sees the sender's
  PID and the 60 bytes after it; besides the buffer only the sender field of the message changes.\<close>

definition delivered :: "u32 \<Rightarrow> u32 \<Rightarrow> u32 \<Rightarrow> memory \<Rightarrow> memory \<Rightarrow> bool" where
  "delivered pid src dst m m' \<longleftrightarrow> load32 m' dst = pid
     \<and> (\<forall>i. 4 \<le> i \<and> i < MSG_SIZE \<longrightarrow> m' (dst + of_nat i) = m (src + of_nat i))
     \<and> (\<forall>p. MSG_SIZE \<le> unat (p - dst) \<and> 4 \<le> unat (p - src) \<longrightarrow> m' p = m p)"

text \<open>Buffers that do not overlap.\<close>

definition apart :: "u32 \<Rightarrow> u32 \<Rightarrow> bool" where
  "apart a b \<longleftrightarrow> MSG_SIZE \<le> unat (a - b) \<and> MSG_SIZE \<le> unat (b - a)"

lemma apart_sym: "apart a b \<Longrightarrow> apart b a"
  by (simp add: apart_def)

lemma copy_message_apply:
  assumes "apart src dst"
  shows "copy_message src dst m p = (if unat (p - dst) < 64 then m (src + (p - dst)) else m p)"
  unfolding copy_message_def MSG_SIZE_def by (rule memcpy_apply) (use assms in \<open>auto simp: apart_def MSG_SIZE_def\<close>)

lemma store32_apply_other: "4 \<le> unat (p - a) \<Longrightarrow> store32 m a v p = m p"
  by (rule store32_other) (simp add: word_le_nat_alt)

lemma load32_copy_message:
  assumes "apart src dst"
  shows "load32 (copy_message src dst m) dst = load32 m src"
proof -
  have "copy_message src dst m (dst + of_nat i) = m (src + of_nat i)" if "i < 4" for i
    using that unat_of_nat32 [of i] by (simp add: copy_message_apply [OF assms])
  from this [of 0] this [of 1] this [of 2] this [of 3] show ?thesis
    by (simp add: load32_def)
qed

lemma deliver:
  assumes "apart src dst"
  shows "delivered pid src dst m (store32 (copy_message src dst (store32 m src pid)) dst pid)"
    and "delivered pid src dst m (copy_message src dst (store32 m src pid))"
proof -
  let ?c = "copy_message src dst (store32 m src pid)"
  have off: "unat (of_nat i :: u32) = i" if "i < 64" for i using that unat_of_nat32 [of i] by simp
  have body: "?c (dst + of_nat i) = m (src + of_nat i)" if "4 \<le> i" "i < 64" for i
    using that off by (simp add: copy_message_apply [OF assms] store32_apply_other)
  have frame: "?c p = m p" if "64 \<le> unat (p - dst)" "4 \<le> unat (p - src)" for p
    using that by (simp add: copy_message_apply [OF assms] store32_apply_other)
  show "delivered pid src dst m ?c"
    using body frame load32_copy_message [OF assms] by (simp add: delivered_def MSG_SIZE_def)
  show "delivered pid src dst m (store32 ?c dst pid)"
    using body frame off by (simp add: delivered_def MSG_SIZE_def store32_apply_other)
qed

text \<open>A message already stamped with the sender's PID, as \<open>ipc_receive\<close> finds it.\<close>

lemma deliver_waiting:
  assumes "apart src dst"
  shows "delivered pid src dst m (store32 (copy_message src dst m) dst pid)"
proof -
  have off: "unat (of_nat i :: u32) = i" if "i < 64" for i using that unat_of_nat32 [of i] by simp
  have "copy_message src dst m (dst + of_nat i) = m (src + of_nat i)" if "4 \<le> i" "i < 64" for i
    using that off by (simp add: copy_message_apply [OF assms])
  moreover have "copy_message src dst m p = m p" if "64 \<le> unat (p - dst)" for p
    using that by (simp add: copy_message_apply [OF assms])
  ultimately show ?thesis using off by (simp add: delivered_def MSG_SIZE_def store32_apply_other)
qed

section \<open>Invariants\<close>

definition ipc_inv :: "'a ipc_state_scheme \<Rightarrow> bool" where
  "ipc_inv s \<longleftrightarrow> task_inv s \<and> length (services s) = MAX_SERVICES \<and> length (pending_notify s) = MAX_TASKS
     \<and> length (notify_msg s) = MAX_TASKS \<and> (\<forall>b \<in> set (notify_msg s). length b = MSG_SIZE)"

lemma ipc_upd_task [simp]:
  "services (upd_task i f s) = services s" "pending_notify (upd_task i f s) = pending_notify s"
  "notify_msg (upd_task i f s) = notify_msg s" "total_messages (upd_task i f s) = total_messages s" "mem (upd_task i f s) = mem s"
  by (simp_all add: upd_task_def)

lemma task_yield_ipc [simp]:
  "services (task_yield s) = services s" "pending_notify (task_yield s) = pending_notify s"
  "notify_msg (task_yield s) = notify_msg s" "mem (task_yield s) = mem s" "current_task (task_yield s) = current_task s"
  by (simp_all add: task_yield_def)

text \<open>Changes of the fields that the task invariant does not read.\<close>

lemma task_inv_ipc [simp]:
  "task_inv (s\<lparr>mem := m\<rparr>) = task_inv s" "task_inv (s\<lparr>total_messages := k\<rparr>) = task_inv s"
  "task_inv (s\<lparr>pending_notify := ps\<rparr>) = task_inv s" "task_inv (s\<lparr>notify_msg := ms\<rparr>) = task_inv s" "task_inv (s\<lparr>services := svs\<rparr>) = task_inv s"
  by (simp_all add: task_inv_def)

lemma task_get_bound:
  "task_inv s \<Longrightarrow> task_get_by_pid pid s = Some i \<Longrightarrow> i < 32 \<and> active (tasks s ! i) \<and> t_id (tasks s ! i) = pid"
  using find_slot_SomeD [of "\<lambda>t. active t \<and> t_id t = pid" "tasks s" i]
  by (auto simp: task_get_by_pid_def task_inv_def table_inv_def)

lemma task_get_current_inv: "task_inv s \<Longrightarrow> task_get_current s = Some (cur s)"
  by (simp add: task_get_current_def task_inv_def)

lemma task_inv_unblock: "task_inv s \<Longrightarrow> i < 32 \<Longrightarrow> task_inv (upd_task i (\<lambda>t. t\<lparr>t_state := TASK_READY, blocked_on := BLOCKED_NONE\<rparr>) s)"
  by (rule task_inv_upd_plain) simp_all

lemma task_inv_block:
  assumes "task_inv s" "c < 32"
  shows "task_inv (task_yield (upd_task c (\<lambda>t. t\<lparr>t_state := TASK_BLOCKED, blocked_on := b, send_to := d, msg_buf := p\<rparr>) s))"
    "task_inv (task_yield (upd_task c (\<lambda>t. t\<lparr>t_state := TASK_BLOCKED, blocked_on := b, receive_from := d, msg_buf := p\<rparr>) s))"
  using assms by (auto intro!: task_yield_inv task_inv_upd_plain)

lemma ipc_send_inv: "ipc_inv s \<Longrightarrow> ipc_inv (snd (ipc_send d p s))"
  unfolding ipc_send_def ipc_inv_def
  by (auto simp: Let_def task_get_current_inv intro!: task_inv_block task_inv_unblock cur_bound dest: task_get_bound split: option.split)

lemma ipc_sendrec_inv: "ipc_inv s \<Longrightarrow> ipc_inv (snd (ipc_sendrec d p s))"
  unfolding ipc_sendrec_def ipc_inv_def
  by (auto simp: Let_def task_get_current_inv intro!: task_inv_block task_inv_unblock cur_bound dest: task_get_bound split: option.split)

lemma ipc_reply_inv: "ipc_inv s \<Longrightarrow> ipc_inv (snd (ipc_reply d p s))"
  unfolding ipc_reply_def ipc_inv_def
  by (auto simp: Let_def task_get_current_inv intro!: task_inv_unblock dest: task_get_bound split: option.split)

lemma ipc_notify_inv: "ipc_inv s \<Longrightarrow> ipc_inv (snd (ipc_notify d p s))"
  unfolding ipc_notify_def ipc_inv_def
  by (auto simp: Let_def intro!: task_inv_unblock dest: task_get_bound dest!: set_update_subset_insert [THEN subsetD] split: option.split)

lemma ipc_receive_inv:
  assumes "ipc_inv s"
  shows "ipc_inv (snd (ipc_receive f p s))"
proof -
  have b: "i < 32" if "find_blocked_sender r f s = Some i" for i r
    using find_slot_SomeD(1) [OF that [unfolded find_blocked_sender_def]] assms by (simp add: ipc_inv_def task_inv_def table_inv_def)
  have u: "task_inv (upd_task i (\<lambda>t. t\<lparr>blocked_on := BLOCKED_SENDREC, t_state := TASK_BLOCKED\<rparr>) (s\<lparr>mem := m\<rparr>))" if "i < 32" for i m
    by (rule task_inv_upd_plain) (use assms that in \<open>simp_all add: ipc_inv_def\<close>)
  from assms show ?thesis unfolding ipc_receive_def ipc_inv_def
    by (auto simp: Let_def task_get_current_inv intro!: u task_inv_block task_inv_unblock cur_bound dest: b split: option.split)
qed

lemma ipc_register_inv: "ipc_inv s \<Longrightarrow> ipc_inv (snd (ipc_register_service name pid s))"
  unfolding ipc_register_service_def register_service_def ipc_inv_def by (auto simp: Let_def split: option.split)

section \<open>Rendezvous\<close>

text \<open>The processor in the hands of task \<open>i\<close>.\<close>

definition run_as :: "nat \<Rightarrow> 'a task_state_scheme \<Rightarrow> 'a task_state_scheme" where
  "run_as i s = s\<lparr>current_task := int i\<rparr>"

lemma run_as_sel [simp]:
  "current_task (run_as i s) = int i" "tasks (run_as i s) = tasks s" "mem (run_as i s) = mem s"
  "pending_notify (run_as i (s1 :: 'a ipc_state_scheme)) = pending_notify s1"
  by (simp_all add: run_as_def)

lemma find_slot_update:
  "find_slot P xs = None \<Longrightarrow> i < length xs \<Longrightarrow> P y \<Longrightarrow> find_slot P (xs[i := y]) = Some i"
  by (auto simp: find_slot_Some find_slot_None nth_list_update all_set_conv_all_nth)

text \<open>Two tasks \<open>S\<close> and \<open>R\<close> that can talk: both in use under their own PIDs, neither blocked, with
  buffers apart, and nothing else waiting for \<open>R\<close>.\<close>

definition ready_pair :: "'a ipc_state_scheme \<Rightarrow> nat \<Rightarrow> nat \<Rightarrow> u32 \<Rightarrow> u32 \<Rightarrow> bool" where
  "ready_pair s S R sbuf rbuf \<longleftrightarrow> length (tasks s) = MAX_TASKS \<and> S < MAX_TASKS \<and> R < MAX_TASKS \<and> S \<noteq> R
     \<and> active (tasks s ! S) \<and> active (tasks s ! R)
     \<and> task_get_by_pid (t_id (tasks s ! S)) s = Some S \<and> task_get_by_pid (t_id (tasks s ! R)) s = Some R
     \<and> t_state (tasks s ! S) \<noteq> TASK_BLOCKED \<and> t_state (tasks s ! R) \<noteq> TASK_BLOCKED
     \<and> sbuf \<noteq> 0 \<and> rbuf \<noteq> 0 \<and> apart sbuf rbuf
     \<and> pending_notify s ! notify_slot (t_id (tasks s ! R)) = 0"

lemma task_get_by_pid_cong:
  assumes "length ts = length (tasks s)" "\<And>j. j < length ts \<Longrightarrow> active (ts ! j) = active (tasks s ! j) \<and> t_id (ts ! j) = t_id (tasks s ! j)"
    "tasks s' = ts"
  shows "task_get_by_pid pid s' = task_get_by_pid pid s"
  unfolding task_get_by_pid_def assms(3) by (rule find_slot_cong) (use assms(1,2) in auto)

lemma upd_task_pid:
  "length (tasks s) = 32 \<Longrightarrow> i < 32 \<Longrightarrow> active (f (tasks s ! i)) = active (tasks s ! i) \<Longrightarrow> t_id (f (tasks s ! i)) = t_id (tasks s ! i) \<Longrightarrow>
   tasks s' = tasks (upd_task i f s) \<Longrightarrow> task_get_by_pid pid s' = task_get_by_pid pid s"
  by (rule task_get_by_pid_cong [of "tasks (upd_task i f s)"]) (simp_all add: upd_task_nth)

text \<open>The two halves, for any state in which the partner already waits.\<close>

lemma send_to_waiting:
  assumes "length (tasks s) = 32" "current_task s = int c" "task_get_by_pid pid s = Some d" "sbuf \<noteq> 0"
    "accepts (tasks s ! d) (t_id (tasks s ! c))" "apart sbuf (msg_buf (tasks s ! d))" "d < 32"
    "ipc_send pid sbuf s = (r, s')"
  shows "r = Returns 0" "delivered (t_id (tasks s ! c)) sbuf (msg_buf (tasks s ! d)) (mem s) (mem s')"
    "tasks s' = (tasks s)[d := (tasks s ! d)\<lparr>t_state := TASK_READY, blocked_on := BLOCKED_NONE\<rparr>]"
    "mem s' = store32 (copy_message sbuf (msg_buf (tasks s ! d)) (store32 (mem s) sbuf (t_id (tasks s ! c)))) (msg_buf (tasks s ! d)) (t_id (tasks s ! c))"
proof -
  from assms(8) have e: "r = Returns 0" "s' = upd_task d (\<lambda>t. t\<lparr>t_state := TASK_READY, blocked_on := BLOCKED_NONE\<rparr>)
     (s\<lparr>total_messages := total_messages s + 1,
        mem := store32 (copy_message sbuf (msg_buf (tasks s ! d)) (store32 (mem s) sbuf (t_id (tasks s ! c)))) (msg_buf (tasks s ! d)) (t_id (tasks s ! c))\<rparr>)"
    using assms(2-5) by (simp_all add: ipc_send_def task_get_current_def Let_def)
  show "r = Returns 0" using e by simp
  show m: "mem s' = store32 (copy_message sbuf (msg_buf (tasks s ! d)) (store32 (mem s) sbuf (t_id (tasks s ! c)))) (msg_buf (tasks s ! d)) (t_id (tasks s ! c))"
    using e(2) by simp
  show "delivered (t_id (tasks s ! c)) sbuf (msg_buf (tasks s ! d)) (mem s) (mem s')"
    unfolding m by (rule deliver(1) [OF assms(6)])
  show "tasks s' = (tasks s)[d := (tasks s ! d)\<lparr>t_state := TASK_READY, blocked_on := BLOCKED_NONE\<rparr>]"
    using e(2) by (simp add: upd_task_def)
qed

lemma receive_blocks:
  assumes "current_task s = int c" "rbuf \<noteq> 0" "pending_notify s ! notify_slot (t_id (tasks s ! c)) = 0"
    "find_blocked_sender (t_id (tasks s ! c)) from s = None"
  shows "ipc_receive from rbuf s = (Blocks, task_yield (upd_task c (\<lambda>t. t\<lparr>t_state := TASK_BLOCKED, blocked_on := BLOCKED_RECEIVE,
      receive_from := from, msg_buf := rbuf\<rparr>) s))"
  using assms by (simp add: ipc_receive_def task_get_current_def Let_def)

lemma receive_from_waiting:
  assumes "current_task s = int c" "rbuf \<noteq> 0" "pending_notify s ! notify_slot (t_id (tasks s ! c)) = 0"
    "find_blocked_sender (t_id (tasks s ! c)) from s = Some i"
  shows "fst (ipc_receive from rbuf s) = Returns 0"
    "mem (snd (ipc_receive from rbuf s)) = store32 (copy_message (msg_buf (tasks s ! i)) rbuf (mem s)) rbuf (t_id (tasks s ! i))"
    "blocked_on (tasks s ! i) = BLOCKED_SEND \<Longrightarrow>
       tasks (snd (ipc_receive from rbuf s)) = (tasks s)[i := (tasks s ! i)\<lparr>t_state := TASK_READY, blocked_on := BLOCKED_NONE\<rparr>]"
    "blocked_on (tasks s ! i) = BLOCKED_SENDREC \<Longrightarrow> tasks (snd (ipc_receive from rbuf s)) = tasks s"
proof -
  have b: "t_state (tasks s ! i) = TASK_BLOCKED"
    using find_slot_SomeD(2) [OF assms(4) [unfolded find_blocked_sender_def]] by (simp add: blocked_sender_def)
  show "fst (ipc_receive from rbuf s) = Returns 0"
    "mem (snd (ipc_receive from rbuf s)) = store32 (copy_message (msg_buf (tasks s ! i)) rbuf (mem s)) rbuf (t_id (tasks s ! i))"
    using assms by (simp_all add: ipc_receive_def task_get_current_def Let_def)
  show "tasks (snd (ipc_receive from rbuf s)) = (tasks s)[i := (tasks s ! i)\<lparr>t_state := TASK_READY, blocked_on := BLOCKED_NONE\<rparr>]"
    if "blocked_on (tasks s ! i) = BLOCKED_SEND"
    using assms that by (simp add: ipc_receive_def task_get_current_def upd_task_def Let_def)
  have "(tasks s ! i)\<lparr>blocked_on := BLOCKED_SENDREC, t_state := TASK_BLOCKED\<rparr> = tasks s ! i"
    if "blocked_on (tasks s ! i) = BLOCKED_SENDREC" by (rule task.equality) (use b that in simp_all)
  then show "tasks (snd (ipc_receive from rbuf s)) = tasks s" if "blocked_on (tasks s ! i) = BLOCKED_SENDREC"
    using assms that by (simp add: ipc_receive_def task_get_current_def upd_task_def Let_def)
qed

lemma send_blocks:
  assumes "current_task s = int c" "task_get_by_pid pid s = Some d" "sbuf \<noteq> 0" "\<not> accepts (tasks s ! d) (t_id (tasks s ! c))"
  shows "ipc_send pid sbuf s = (Blocks, task_yield (upd_task c (\<lambda>t. t\<lparr>t_state := TASK_BLOCKED, blocked_on := BLOCKED_SEND,
      send_to := pid, msg_buf := sbuf\<rparr>) (s\<lparr>mem := store32 (mem s) sbuf (t_id (tasks s ! c)), total_messages := total_messages s + 1\<rparr>)))"
  using assms by (simp add: ipc_send_def task_get_current_def Let_def)

lemma yield_upd: "0 \<le> current_task s \<Longrightarrow> task_yield s = upd_task (cur s) (\<lambda>t. t\<lparr>ticks_left := 0\<rparr>) s"
  by (simp add: task_yield_def)

text \<open>C3. Messages pass by rendezvous, in either order: whether the receiver waits first or the sender
  does, the first call blocks and the second returns 0, the receiver's buffer holds the sender's PID
  and the 60 bytes of the message, no other memory changes but the sender field of the message, the
  two orders leave the same memory, and afterwards neither task is blocked.\<close>

theorem ipc_rendezvous:
  assumes "ready_pair s S R sbuf rbuf" "from = PID_ANY \<or> from = t_id (tasks s ! S)"
    and "find_blocked_sender (t_id (tasks s ! R)) from s = None"
    and r1: "ipc_receive from rbuf (run_as R s) = (o1, s1)" and r2: "ipc_send (t_id (tasks s ! R)) sbuf (run_as S s1) = (o2, s2)"
    and q1: "ipc_send (t_id (tasks s ! R)) sbuf (run_as S s) = (p1, t1)" and q2: "ipc_receive from rbuf (run_as R t1) = (p2, t2)"
  shows "o1 = Blocks \<and> o2 = Returns 0 \<and> p1 = Blocks \<and> p2 = Returns 0
    \<and> delivered (t_id (tasks s ! S)) sbuf rbuf (mem s) (mem s2) \<and> mem t2 = mem s2
    \<and> (\<forall>u \<in> {s2, t2}. t_state (tasks u ! S) \<noteq> TASK_BLOCKED \<and> t_state (tasks u ! R) \<noteq> TASK_BLOCKED)"
proof -
  note a = assms(1) [unfolded ready_pair_def MAX_TASKS_def, simplified]
  have len: "length (tasks s) = 32" using a by simp
  let ?idS = "t_id (tasks s ! S)" and ?idR = "t_id (tasks s ! R)"
  have fb: "find_blocked_sender ?idR from (run_as i s) = None" for i using assms(3) by (simp add: find_blocked_sender_def)
  \<comment> \<open>receiver first\<close>
  have e1: "o1 = Blocks" "s1 = task_yield (upd_task R (\<lambda>t. t\<lparr>t_state := TASK_BLOCKED, blocked_on := BLOCKED_RECEIVE,
      receive_from := from, msg_buf := rbuf\<rparr>) (run_as R s))"
    using receive_blocks [of "run_as R s" R rbuf "from"] a fb r1 by simp_all
  have ts1: "tasks s1 = (tasks s)[R := (tasks s ! R)\<lparr>t_state := TASK_BLOCKED, blocked_on := BLOCKED_RECEIVE,
      receive_from := from, msg_buf := rbuf, ticks_left := 0\<rparr>]" "mem s1 = mem s"
    unfolding e1(2) using a by (simp_all add: yield_upd) (simp add: upd_task_def)
  have pid1: "task_get_by_pid ?idR (run_as S s1) = Some R"
    using a task_get_by_pid_cong [of "tasks s1" s "run_as S s1" ?idR] by (simp add: ts1 nth_list_update)
  note D = send_to_waiting [OF _ _ pid1 _ _ _ _ r2, of S]
  have acc: "accepts (tasks (run_as S s1) ! R) ?idS" using assms(2) a by (simp add: ts1 accepts_def)
  have "o2 = Returns 0" and del: "delivered ?idS sbuf rbuf (mem s) (mem s2)"
    and ts2: "tasks s2 = (tasks s1)[R := (tasks s1 ! R)\<lparr>t_state := TASK_READY, blocked_on := BLOCKED_NONE\<rparr>]"
    and m2: "mem s2 = store32 (copy_message sbuf rbuf (store32 (mem s) sbuf ?idS)) rbuf ?idS"
    using D acc a by (simp_all add: ts1)
  \<comment> \<open>sender first\<close>
  have na: "\<not> accepts (tasks (run_as S s) ! R) ?idS" using a by (simp add: accepts_def)
  have pid0: "task_get_by_pid ?idR (run_as S s) = Some R" using a by (simp add: task_get_by_pid_def)
  have f1: "p1 = Blocks" "t1 = task_yield (upd_task S (\<lambda>t. t\<lparr>t_state := TASK_BLOCKED, blocked_on := BLOCKED_SEND,
      send_to := ?idR, msg_buf := sbuf\<rparr>) ((run_as S s)\<lparr>mem := store32 (mem s) sbuf ?idS, total_messages := total_messages (run_as S s) + 1\<rparr>))"
    using send_blocks [of "run_as S s" S ?idR R sbuf] a na pid0 q1 by simp_all
  have tt1: "tasks t1 = (tasks s)[S := (tasks s ! S)\<lparr>t_state := TASK_BLOCKED, blocked_on := BLOCKED_SEND,
      send_to := ?idR, msg_buf := sbuf, ticks_left := 0\<rparr>]" "mem t1 = store32 (mem s) sbuf ?idS" "pending_notify t1 = pending_notify s"
    unfolding f1(2) using a by (simp_all add: yield_upd) (simp add: upd_task_def)
  have fs: "find_blocked_sender ?idR from (run_as R t1) = Some S"
    unfolding find_blocked_sender_def run_as_sel tt1
    by (rule find_slot_update) (use assms(2,3) a in \<open>auto simp: find_blocked_sender_def blocked_sender_def\<close>)
  have idR: "t_id (tasks t1 ! R) = ?idR" using a by (simp add: tt1)
  note E = receive_from_waiting [of "run_as R t1" R rbuf "from" S, unfolded q2 fst_conv snd_conv]
  have "p2 = Returns 0" "mem t2 = store32 (copy_message sbuf rbuf (store32 (mem s) sbuf ?idS)) rbuf ?idS"
    and tt2: "tasks t2 = (tasks t1)[S := (tasks t1 ! S)\<lparr>t_state := TASK_READY, blocked_on := BLOCKED_NONE\<rparr>]"
    using E fs idR a by (simp_all add: tt1)
  then show ?thesis using e1(1) f1(1) \<open>o2 = Returns 0\<close> del m2 a ts2 tt2 by (simp add: ts1 tt1)
qed

text \<open>A state with the kernel task, a client (slot 1, PID 1) and a server (slot 2, PID 2).\<close>

definition ipc_sample :: ipc_state where
  "ipc_sample = task_state.extend (task_sample\<lparr>tasks := (replicate 32 task0)[0 := task0\<lparr>active := True, t_state := TASK_RUNNING\<rparr>,
       1 := task0\<lparr>active := True, t_id := 1\<rparr>, 2 := task0\<lparr>active := True, t_id := 2\<rparr>], current_task := 0, next_pid := 3\<rparr>)
     \<lparr>services = replicate 16 service0, total_messages = 0, pending_notify = replicate 32 0, notify_msg = replicate 32 (replicate 64 0)\<rparr>"

lemma ipc_sample_tasks:
  "length (tasks ipc_sample) = 32" "pending_notify ipc_sample = replicate 32 0"
  "i < 32 \<Longrightarrow> tasks ipc_sample ! i = (if i = 0 then task0\<lparr>active := True, t_state := TASK_RUNNING\<rparr>
     else if i = 1 then task0\<lparr>active := True, t_id := 1\<rparr> else if i = 2 then task0\<lparr>active := True, t_id := 2\<rparr> else task0)"
  by (simp_all add: ipc_sample_def task_state.defs nth_list_update)

lemma ipc_sample_pid: "task_get_by_pid 1 ipc_sample = Some 1" "task_get_by_pid 2 ipc_sample = Some 2"
  by (auto simp: task_get_by_pid_def find_slot_Some ipc_sample_tasks task0_def)

lemma ipc_sample_no_sender: "find_blocked_sender r f (s :: 'a task_state_scheme) = None" if "tasks s = tasks ipc_sample"
proof -
  have "\<not> blocked_sender r f (tasks ipc_sample ! i)" if "i < 32" for i
    using that by (auto simp: ipc_sample_tasks blocked_sender_def task0_def)
  then show ?thesis using that by (simp add: find_blocked_sender_def find_slot_None all_set_conv_all_nth ipc_sample_tasks(1))
qed

lemma ipc_sample_id: "t_id (tasks ipc_sample ! 1) = 1" "t_id (tasks ipc_sample ! 2) = 2"
  by (simp_all add: ipc_sample_tasks)

lemma ipc_sample_pair: "ready_pair ipc_sample 1 2 0x1000 0x2000"
  by (simp add: ready_pair_def ipc_sample_tasks ipc_sample_pid apart_def MSG_SIZE_def MAX_TASKS_def notify_slot_def) (simp add: task0_def)

lemma ipc_rendezvous_witness:
  "\<exists>s1. ipc_receive PID_ANY 0x2000 (run_as 2 ipc_sample) = (Blocks, s1)
     \<and> fst (ipc_send 2 0x1000 (run_as 1 s1)) = Returns 0
     \<and> delivered 1 0x1000 0x2000 (mem ipc_sample) (mem (snd (ipc_send 2 0x1000 (run_as 1 s1))))"
proof -
  obtain o1 s1 where r1: "ipc_receive PID_ANY 0x2000 (run_as 2 ipc_sample) = (o1, s1)" by force
  obtain o2 s2 where r2: "ipc_send 2 0x1000 (run_as 1 s1) = (o2, s2)" by force
  obtain p1 t1 where q1: "ipc_send 2 0x1000 (run_as 1 ipc_sample) = (p1, t1)" by force
  obtain p2 t2 where q2: "ipc_receive PID_ANY 0x2000 (run_as 2 t1) = (p2, t2)" by force
  from ipc_rendezvous [OF ipc_sample_pair _ ipc_sample_no_sender [OF refl], of PID_ANY, unfolded ipc_sample_id, OF _ r1 r2 q1 q2]
  show ?thesis using r1 r2 by simp
qed

lemma sendrec_to_waiting:
  assumes "current_task s = int c" "c \<noteq> d" "c < 32" "d < 32" "length (tasks s) = 32" "task_get_by_pid pid s = Some d" "buf \<noteq> 0"
    "accepts (tasks s ! d) (t_id (tasks s ! c))" "ipc_sendrec pid buf s = (r, s')"
  shows "r = Blocks" "tasks s' = (tasks s)[d := (tasks s ! d)\<lparr>t_state := TASK_READY, blocked_on := BLOCKED_NONE\<rparr>,
      c := (tasks s ! c)\<lparr>t_state := TASK_BLOCKED, blocked_on := BLOCKED_SENDREC, send_to := pid, msg_buf := buf, ticks_left := 0\<rparr>]"
    "mem s' = store32 (copy_message buf (msg_buf (tasks s ! d)) (store32 (mem s) buf (t_id (tasks s ! c)))) (msg_buf (tasks s ! d)) (t_id (tasks s ! c))"
proof -
  from assms(9) have e: "r = Blocks" "s' = task_yield (upd_task c (\<lambda>t. t\<lparr>t_state := TASK_BLOCKED, blocked_on := BLOCKED_SENDREC,
       send_to := pid, msg_buf := buf\<rparr>) (upd_task d (\<lambda>t. t\<lparr>t_state := TASK_READY, blocked_on := BLOCKED_NONE\<rparr>)
     (s\<lparr>total_messages := total_messages s + 1,
        mem := store32 (copy_message buf (msg_buf (tasks s ! d)) (store32 (mem s) buf (t_id (tasks s ! c)))) (msg_buf (tasks s ! d)) (t_id (tasks s ! c))\<rparr>)))"
    using assms(1,6-8) by (simp_all add: ipc_sendrec_def task_get_current_def Let_def)
  show "r = Blocks" "mem s' = store32 (copy_message buf (msg_buf (tasks s ! d)) (store32 (mem s) buf (t_id (tasks s ! c)))) (msg_buf (tasks s ! d)) (t_id (tasks s ! c))"
    using e by simp_all
  show "tasks s' = (tasks s)[d := (tasks s ! d)\<lparr>t_state := TASK_READY, blocked_on := BLOCKED_NONE\<rparr>,
      c := (tasks s ! c)\<lparr>t_state := TASK_BLOCKED, blocked_on := BLOCKED_SENDREC, send_to := pid, msg_buf := buf, ticks_left := 0\<rparr>]"
    unfolding e(2) using assms(1-5) by (simp add: yield_upd) (simp add: upd_task_def)
qed

lemma reply_to_waiting:
  assumes "current_task s = int c" "task_get_by_pid pid s = Some d" "buf \<noteq> 0"
    "t_state (tasks s ! d) = TASK_BLOCKED" "blocked_on (tasks s ! d) = BLOCKED_SENDREC" "ipc_reply pid buf s = (r, s')"
  shows "r = Returns 0" "tasks s' = (tasks s)[d := (tasks s ! d)\<lparr>t_state := TASK_READY, blocked_on := BLOCKED_NONE\<rparr>]"
    "mem s' = copy_message buf (msg_buf (tasks s ! d)) (store32 (mem s) buf (t_id (tasks s ! c)))"
  using assms by (auto simp: ipc_reply_def task_get_current_def upd_task_def Let_def)

text \<open>C17. A remote call: a server \<open>V\<close> waits for requests, a client \<open>C\<close> calls it with \<open>ipc_sendrec\<close>, and
  the server answers with \<open>ipc_reply\<close>.  The request reaches the server's buffer stamped with the
  client's PID and makes the server ready while the client stays blocked; the reply reaches the
  client's own buffer stamped with the server's PID and makes the client ready.\<close>

theorem ipc_call_reply:
  assumes "ready_pair s C V cbuf vbuf" "find_blocked_sender (t_id (tasks s ! V)) PID_ANY s = None"
    and "apart rbuf cbuf" "rbuf \<noteq> 0"
    and r1: "ipc_receive PID_ANY vbuf (run_as V s) = (o1, s1)"
    and r2: "ipc_sendrec (t_id (tasks s ! V)) cbuf (run_as C s1) = (o2, s2)"
    and r3: "ipc_reply (t_id (tasks s ! C)) rbuf (run_as V s2) = (o3, s3)"
  shows "o1 = Blocks \<and> o2 = Blocks \<and> o3 = Returns 0
    \<and> delivered (t_id (tasks s ! C)) cbuf vbuf (mem s) (mem s2) \<and> t_state (tasks s2 ! V) = TASK_READY
    \<and> t_state (tasks s2 ! C) = TASK_BLOCKED
    \<and> delivered (t_id (tasks s ! V)) rbuf cbuf (mem s2) (mem s3) \<and> t_state (tasks s3 ! C) = TASK_READY"
proof -
  note a = assms(1) [unfolded ready_pair_def MAX_TASKS_def, simplified]
  let ?idC = "t_id (tasks s ! C)" and ?idV = "t_id (tasks s ! V)"
  have fb: "find_blocked_sender ?idV PID_ANY (run_as V s) = None" using assms(2) by (simp add: find_blocked_sender_def)
  have e1: "o1 = Blocks" "s1 = task_yield (upd_task V (\<lambda>t. t\<lparr>t_state := TASK_BLOCKED, blocked_on := BLOCKED_RECEIVE,
      receive_from := PID_ANY, msg_buf := vbuf\<rparr>) (run_as V s))"
    using receive_blocks [of "run_as V s" V vbuf PID_ANY] a fb r1 by simp_all
  have ts1: "tasks s1 = (tasks s)[V := (tasks s ! V)\<lparr>t_state := TASK_BLOCKED, blocked_on := BLOCKED_RECEIVE,
      receive_from := PID_ANY, msg_buf := vbuf, ticks_left := 0\<rparr>]" "mem s1 = mem s"
    unfolding e1(2) using a by (simp_all add: yield_upd) (simp add: upd_task_def)
  have pid1: "task_get_by_pid ?idV (run_as C s1) = Some V"
    using a task_get_by_pid_cong [of "tasks s1" s "run_as C s1" ?idV] by (simp add: ts1 nth_list_update)
  have acc: "accepts (tasks (run_as C s1) ! V) ?idC" using a by (simp add: ts1 accepts_def)
  note D = sendrec_to_waiting [of "run_as C s1" C V ?idV cbuf, OF _ _ _ _ _ pid1 _ _ r2]
  have o2: "o2 = Blocks" and ts2: "tasks s2 = (tasks s1)[V := (tasks s1 ! V)\<lparr>t_state := TASK_READY, blocked_on := BLOCKED_NONE\<rparr>,
      C := (tasks s1 ! C)\<lparr>t_state := TASK_BLOCKED, blocked_on := BLOCKED_SENDREC, send_to := ?idV, msg_buf := cbuf, ticks_left := 0\<rparr>]"
    and m2: "mem s2 = store32 (copy_message cbuf vbuf (store32 (mem s) cbuf ?idC)) vbuf ?idC"
    using D acc a by (simp_all add: ts1)
  have pid2: "task_get_by_pid ?idC (run_as V s2) = Some C"
    using a task_get_by_pid_cong [of "tasks s2" s "run_as V s2" ?idC] by (simp add: ts2 ts1 nth_list_update)
  note E = reply_to_waiting [OF _ pid2 _ _ _ r3, of V]
  have "o3 = Returns 0" "tasks s3 = (tasks s2)[C := (tasks s2 ! C)\<lparr>t_state := TASK_READY, blocked_on := BLOCKED_NONE\<rparr>]"
    "mem s3 = copy_message rbuf cbuf (store32 (mem s2) rbuf ?idV)"
    using E a assms(4) by (simp_all add: ts2 ts1 nth_list_update)
  then show ?thesis
    using e1(1) o2 a deliver(2) [OF assms(3), of ?idV "mem s2"] deliver(1) [of cbuf vbuf ?idC "mem s"] m2
    by (simp add: ts2 ts1 nth_list_update)
qed

lemma ipc_call_reply_witness:
  "\<exists>s1 s2. ipc_receive PID_ANY 0x2000 (run_as 2 ipc_sample) = (Blocks, s1) \<and> ipc_sendrec 2 0x1000 (run_as 1 s1) = (Blocks, s2)
     \<and> fst (ipc_reply 1 0x3000 (run_as 2 s2)) = Returns 0"
proof -
  have ap: "apart 0x3000 0x1000" by (simp add: apart_def MSG_SIZE_def)
  obtain o1 s1 where r1: "ipc_receive PID_ANY 0x2000 (run_as 2 ipc_sample) = (o1, s1)" by force
  obtain o2 s2 where r2: "ipc_sendrec 2 0x1000 (run_as 1 s1) = (o2, s2)" by force
  obtain o3 s3 where r3: "ipc_reply 1 0x3000 (run_as 2 s2) = (o3, s3)" by force
  from ipc_call_reply [OF ipc_sample_pair ipc_sample_no_sender [OF refl] ap _, unfolded ipc_sample_id, OF _ r1 r2 r3]
  show ?thesis using r1 r2 r3 by simp
qed

section \<open>Weak points of the protocol\<close>

text \<open>A request made with \<open>ipc_sendrec\<close> is delivered again and again: \<open>ipc_receive\<close> leaves the
  caller blocked exactly as it was, so until the reply every further \<open>ipc_receive\<close> of the server
  finds the same caller and delivers the same request once more.\<close>

theorem sendrec_redelivered:
  assumes "current_task s = int c" "buf \<noteq> 0" "buf2 \<noteq> 0" "pending_notify s ! notify_slot (t_id (tasks s ! c)) = 0"
    and "find_blocked_sender (t_id (tasks s ! c)) from s = Some i" "blocked_on (tasks s ! i) = BLOCKED_SENDREC"
    and "apart (msg_buf (tasks s ! i)) buf" "apart (msg_buf (tasks s ! i)) buf2"
    and r1: "ipc_receive from buf s = (o1, s1)" and r2: "ipc_receive from buf2 s1 = (o2, s2)"
  shows "o1 = Returns 0 \<and> o2 = Returns 0
    \<and> delivered (t_id (tasks s ! i)) (msg_buf (tasks s ! i)) buf (mem s) (mem s1)
    \<and> delivered (t_id (tasks s ! i)) (msg_buf (tasks s ! i)) buf2 (mem s1) (mem s2)"
proof -
  note A = receive_from_waiting [OF assms(1,2,4,5), unfolded r1 fst_conv snd_conv]
  have t: "tasks s1 = tasks s" using A(4) assms(6) by simp
  have "current_task s1 = int c" "pending_notify s1 = pending_notify s"
    using r1 assms(1-6) by (auto simp: ipc_receive_def task_get_current_def Let_def)
  then have p: "current_task s1 = int c" "pending_notify s1 ! notify_slot (t_id (tasks s1 ! c)) = 0"
    "find_blocked_sender (t_id (tasks s1 ! c)) from s1 = Some i"
    using assms(4,5) by (simp_all add: t find_blocked_sender_def)
  note B = receive_from_waiting [OF p(1) assms(3) p(2,3), unfolded r2 fst_conv snd_conv t]
  show ?thesis using A(1,2) B(1,2) deliver_waiting [OF assms(7)] deliver_waiting [OF assms(8)] by simp
qed

text \<open>The client's call reaches no waiting server: the client waits in the table.\<close>

lemma sendrec_blocks:
  assumes "current_task s = int c" "task_get_by_pid pid s = Some d" "buf \<noteq> 0" "\<not> accepts (tasks s ! d) (t_id (tasks s ! c))"
  shows "ipc_sendrec pid buf s = (Blocks, task_yield (upd_task c (\<lambda>t. t\<lparr>t_state := TASK_BLOCKED, blocked_on := BLOCKED_SENDREC,
      send_to := pid, msg_buf := buf\<rparr>) (s\<lparr>mem := store32 (mem s) buf (t_id (tasks s ! c)), total_messages := total_messages s + 1\<rparr>)))"
  using assms by (simp add: ipc_sendrec_def task_get_current_def Let_def)

definition calling_sample :: ipc_state where
  "calling_sample = ipc_sample\<lparr>tasks := (tasks ipc_sample)[1 := (tasks ipc_sample ! 1)\<lparr>t_state := TASK_BLOCKED,
     blocked_on := BLOCKED_SENDREC, send_to := 2, msg_buf := 0x1000\<rparr>], current_task := 2\<rparr>"

lemma calling_sample_sender: "find_blocked_sender 2 PID_ANY calling_sample = Some 1"
  unfolding find_blocked_sender_def calling_sample_def
  by (simp, rule find_slot_update) (use ipc_sample_no_sender [of ipc_sample 2 PID_ANY] in
      \<open>simp_all add: find_blocked_sender_def ipc_sample_tasks blocked_sender_def\<close>)

lemma calling_sample_tasks:
  "current_task calling_sample = int 2" "pending_notify calling_sample = replicate 32 0" "t_id (tasks calling_sample ! 2) = 2"
  "tasks calling_sample ! Suc 0 = (tasks ipc_sample ! 1)\<lparr>t_state := TASK_BLOCKED, blocked_on := BLOCKED_SENDREC, send_to := 2, msg_buf := 0x1000\<rparr>"
  by (simp_all add: calling_sample_def ipc_sample_tasks)

lemma sendrec_redelivered_witness:
  "\<exists>s1. ipc_receive PID_ANY 0x2000 calling_sample = (Returns 0, s1) \<and> fst (ipc_receive PID_ANY 0x3000 s1) = Returns 0"
proof -
  obtain o1 s1 where r1: "ipc_receive PID_ANY 0x2000 calling_sample = (o1, s1)" by force
  obtain o2 s2 where r2: "ipc_receive PID_ANY 0x3000 s1 = (o2, s2)" by force
  from sendrec_redelivered [OF calling_sample_tasks(1) _ _ _ _ _ _ _ r1 r2, of 1]
  show ?thesis using r1 r2 calling_sample_sender
    by (simp add: calling_sample_tasks notify_slot_def MAX_TASKS_def apart_def MSG_SIZE_def)
qed

text \<open>\<open>ipc_reply\<close> does not check that the caller waits for this task: any task that knows the PID of
  a caller blocked in \<open>ipc_sendrec\<close> to another server can answer in that server's place.\<close>

theorem reply_unchecked:
  assumes "current_task s = int c" "task_get_by_pid pid s = Some d" "buf \<noteq> 0"
    and "t_state (tasks s ! d) = TASK_BLOCKED" "blocked_on (tasks s ! d) = BLOCKED_SENDREC"
    and "send_to (tasks s ! d) \<noteq> t_id (tasks s ! c)" "apart buf (msg_buf (tasks s ! d))" "d < length (tasks s)"
    and "ipc_reply pid buf s = (r, s')"
  shows "r = Returns 0 \<and> t_state (tasks s' ! d) = TASK_READY
    \<and> delivered (t_id (tasks s ! c)) buf (msg_buf (tasks s ! d)) (mem s) (mem s')"
  using reply_to_waiting [OF assms(1-5,9)] deliver(2) [OF assms(7)] assms(8) by simp

lemma reply_unchecked_witness:
  "send_to (tasks calling_sample ! 1) = 2 \<and> fst (ipc_reply 1 0x5000 (run_as 0 calling_sample)) = Returns 0"
proof -
  have pid: "task_get_by_pid 1 (run_as 0 calling_sample) = Some 1"
    by (auto simp: task_get_by_pid_def find_slot_Some calling_sample_def ipc_sample_tasks nth_list_update task0_def)
  obtain r s' where r: "ipc_reply 1 0x5000 (run_as 0 calling_sample) = (r, s')" by force
  have z: "t_id (tasks (run_as 0 calling_sample) ! 0) = 0" "length (tasks calling_sample) = 32"
    by (simp_all add: calling_sample_def ipc_sample_tasks task0_def)
  from reply_unchecked [OF _ pid _ _ _ _ _ _ r, of 0] z show ?thesis
    by (simp add: calling_sample_tasks apart_def MSG_SIZE_def r)
qed

section \<open>Notifications\<close>

lemma put_bytes_apply:
  assumes "length bs \<le> 4294967296"
  shows "put_bytes m d bs p = (if unat (p - d) < length bs then bs ! unat (p - d) else m p)"
  using assms
proof (induction bs arbitrary: m d)
  case (Cons b bs)
  have IH: "put_bytes (m(d := b)) (d + 1) bs p = (if unat (p - (d + 1)) < length bs then bs ! unat (p - (d + 1)) else (m(d := b)) p)"
    using Cons.prems by (intro Cons.IH) simp
  show ?case
  proof (cases "p = d")
    case True
    have "unat (-1 :: u32) = 4294967295" by (simp add: unsigned_minus_1_eq_mask mask_eq_exp_minus_1)
    with True IH Cons.prems show ?thesis by simp
  next
    case False
    with IH unat_diff_pos [OF False] show ?thesis by (auto simp: unat_offset_step)
  qed
qed simp

lemma bytes_put_bytes: "length bs \<le> 4294967296 \<Longrightarrow> bytes (put_bytes m d bs) d (length bs) = bs"
  by (rule nth_equalityI) (simp_all add: put_bytes_apply unat_of_nat32)

text \<open>A notification reaches its task once: if the task waits in \<open>ipc_receive\<close> it gets the message at
  once and becomes ready; otherwise the message is kept, and the next \<open>ipc_receive\<close> of the task
  returns it, whatever sender was asked for, and takes it from the store.\<close>

theorem notify_received:
  assumes "ipc_inv s" "task_get_by_pid pid s = Some d" "ipc_notify pid msg s = (r, s1)"
    and "current_task s2 = int d" "tasks s2 ! d = tasks s1 ! d" "pending_notify s2 = pending_notify s1" "notify_msg s2 = notify_msg s1"
    and "buf \<noteq> 0"
  shows "r = Returns 0
    \<and> (t_state (tasks s ! d) = TASK_BLOCKED \<and> blocked_on (tasks s ! d) = BLOCKED_RECEIVE \<and> apart msg (msg_buf (tasks s ! d)) \<longrightarrow>
         t_state (tasks s1 ! d) = TASK_READY \<and> delivered 0 msg (msg_buf (tasks s ! d)) (mem s) (mem s1))
    \<and> (\<not> (t_state (tasks s ! d) = TASK_BLOCKED \<and> blocked_on (tasks s ! d) = BLOCKED_RECEIVE) \<longrightarrow>
         (\<exists>s3. ipc_receive from buf s2 = (Returns 0, s3)
            \<and> bytes (mem s3) buf MSG_SIZE = bytes (store32 (mem s) msg 0) msg MSG_SIZE
            \<and> pending_notify s3 ! notify_slot pid = 0))"
proof -
  have inv: "task_inv s" "length (pending_notify s) = 32" "length (notify_msg s) = 32" "length (tasks s) = 32"
    using assms(1) by (auto simp: ipc_inv_def MAX_TASKS_def task_inv_def table_inv_def)
  note d = task_get_bound [OF inv(1) assms(2)]
  have k: "notify_slot pid < 32"
    unfolding notify_slot_def MAX_TASKS_def by (simp add: unat_mod)
  show ?thesis
  proof (cases "t_state (tasks s ! d) = TASK_BLOCKED \<and> blocked_on (tasks s ! d) = BLOCKED_RECEIVE")
    case True
    then have "r = Returns 0" "tasks s1 = (tasks s)[d := (tasks s ! d)\<lparr>t_state := TASK_READY, blocked_on := BLOCKED_NONE\<rparr>]"
      "mem s1 = copy_message msg (msg_buf (tasks s ! d)) (store32 (mem s) msg 0)"
      using assms(2,3) by (auto simp: ipc_notify_def upd_task_def Let_def)
    then show ?thesis using True d inv(4) deliver(2) [of msg "msg_buf (tasks s ! d)" 0 "mem s"] by simp
  next
    case False
    let ?b = "bytes (store32 (mem s) msg 0) msg MSG_SIZE"
    have s1: "r = Returns 0" "tasks s1 = tasks s" "pending_notify s1 = (pending_notify s)[notify_slot pid := 1]"
      "notify_msg s1 = (notify_msg s)[notify_slot pid := ?b]"
      using assms(2,3) False by (auto simp: ipc_notify_def Let_def)
    have id: "t_id (tasks s2 ! d) = pid" using assms(5) s1(2) d by simp
    have c2: "task_get_current s2 = Some d" using assms(4) by (simp add: task_get_current_def)
    have p: "pending_notify s2 ! notify_slot pid = 1" "notify_msg s2 ! notify_slot pid = ?b" "length (pending_notify s2) = 32"
      using assms(6,7) s1(3,4) k inv by simp_all
    let ?s3 = "s2\<lparr>mem := put_bytes (mem s2) buf ?b, pending_notify := (pending_notify s2)[notify_slot pid := 0]\<rparr>"
    have "ipc_receive from buf s2 = (Returns 0, ?s3)"
      unfolding ipc_receive_def c2 option.case Let_def id p using assms(8) by simp
    moreover have "bytes (mem ?s3) buf MSG_SIZE = ?b"
      using bytes_put_bytes [of ?b "mem s2" buf] by (simp add: MSG_SIZE_def)
    ultimately show ?thesis using False s1(1) p(3) k by auto
  qed
qed

lemma notify_received_witness:
  "\<exists>s1 s3. ipc_notify 2 0x1000 ipc_sample = (Returns 0, s1) \<and> ipc_receive 1 0x2000 (run_as 2 s1) = (Returns 0, s3)
     \<and> bytes (mem s3) 0x2000 MSG_SIZE = replicate 64 0"
proof -
  have "table_inv (tasks ipc_sample) 0 3"
    by (auto simp: table_inv_def ipc_sample_tasks task0_def)
  then have "ipc_inv ipc_sample"
    by (simp add: ipc_inv_def task_inv_def ipc_sample_def task_state.defs MAX_TASKS_def MSG_SIZE_def MAX_SERVICES_def)
  moreover obtain r s1 where n: "ipc_notify 2 0x1000 ipc_sample = (r, s1)" by force
  ultimately have "r = Returns 0 \<and> (\<exists>s3. ipc_receive 1 0x2000 (run_as 2 s1) = (Returns 0, s3)
      \<and> bytes (mem s3) 0x2000 MSG_SIZE = bytes (store32 (mem ipc_sample) 0x1000 0) 0x1000 MSG_SIZE)"
    using notify_received [OF _ ipc_sample_pid(2), of "0x1000" r s1 "run_as 2 s1" "0x2000" 1]
    by (auto simp: ipc_sample_tasks run_as_def task0_def)
  moreover have "bytes (store32 (mem ipc_sample) 0x1000 0) 0x1000 MSG_SIZE = replicate 64 0"
    by (rule nth_equalityI) (simp_all add: MSG_SIZE_def ipc_sample_def task_state.defs task_sample_def store32_def)
  ultimately show ?thesis using n by auto
qed

section \<open>The service registry\<close>

abbreviation svc_name :: "service_entry \<Rightarrow> string" where "svc_name e \<equiv> c_str (sv_name e)"

definition svc_wf :: "service_entry \<Rightarrow> bool" where
  "svc_wf e \<longleftrightarrow> length (sv_name e) = SERVICE_NAME_LEN \<and> last (sv_name e) = NUL"

definition svc_inv :: "service_entry list \<Rightarrow> bool" where
  "svc_inv svs \<longleftrightarrow> length svs = MAX_SERVICES \<and> (\<forall>e \<in> set svs. svc_wf e) \<and> keys_unique sv_active svc_name svs"

definition svc_lookup :: "service_entry list \<Rightarrow> string \<Rightarrow> u32 option" where
  "svc_lookup svs k = (if NUL \<in> set k then None else map_option (\<lambda>i. sv_pid (svs ! i)) (find_slot (service_match k) svs))"

definition svc_put :: "string \<Rightarrow> u32 \<Rightarrow> service_entry list \<Rightarrow> service_entry list" where
  "svc_put k v svs = snd (register_service k v svs)"

definition svc_room :: "service_entry list \<Rightarrow> nat" where
  "svc_room svs = count_slots (\<lambda>e. \<not> sv_active e) svs"

definition svc_fits :: "string \<Rightarrow> u32 \<Rightarrow> bool" where
  "svc_fits k v \<longleftrightarrow> NUL \<notin> set k \<and> length k < SERVICE_NAME_LEN"

lemma find_service_match: "find_slot (service_match k) svs = find_key sv_active svc_name svs (c_str k)"
  by (simp add: find_key_def service_match_def [abs_def] strcmp_eq_0)

lemma svc_lookup_key:
  "NUL \<notin> set k \<Longrightarrow> svc_lookup svs k = map_option (\<lambda>i. sv_pid (svs ! i)) (find_key sv_active svc_name svs k)"
  by (simp add: svc_lookup_def find_service_match c_str_id)

lemma svc_room_0: "svc_room svs = 0 \<longleftrightarrow> (\<forall>e \<in> set svs. sv_active e)"
  by (simp add: svc_room_def count_slots_filter filter_empty_conv)

lemma stored_name:
  assumes "svc_wf e" "NUL \<notin> set k" "length k < SERVICE_NAME_LEN"
  defines "b \<equiv> (strncpy (sv_name e) k (SERVICE_NAME_LEN - 1))[SERVICE_NAME_LEN - 1 := NUL]"
  shows "length b = SERVICE_NAME_LEN" "last b = NUL" "c_str b = k"
proof -
  have l: "length (sv_name e) = Suc 31" "last (sv_name e) = NUL" using assms(1) by (simp_all add: svc_wf_def SERVICE_NAME_LEN_def)
  note t = strncpy_terminated [OF l, of k]
  have "strncpy (sv_name e) k 31 \<noteq> []" using l(1) by (metis length_strncpy list.size(3) nat.distinct(1))
  then have "strncpy (sv_name e) k 31 ! 31 = NUL" using t(1) l(1) by (simp add: last_conv_nth)
  then have "b = strncpy (sv_name e) k 31" using list_update_id [of "strncpy (sv_name e) k 31" 31] by (simp add: b_def SERVICE_NAME_LEN_def)
  then show "length b = SERVICE_NAME_LEN" "last b = NUL" "c_str b = k"
    using l t assms(2,3) by (simp_all add: SERVICE_NAME_LEN_def c_str_id)
qed

lemma svc_put_cases:
  assumes inv: "svc_inv svs" and fits: "svc_fits k v"
  obtains (put) i e where "svc_put k v svs = svs[i := e]" "i < length svs" "sv_active e" "svc_name e = k" "sv_pid e = v" "svc_wf e"
      "find_key sv_active svc_name svs k = Some i \<or> find_key sv_active svc_name svs k = None \<and> \<not> sv_active (svs ! i)"
  | (full) "svc_put k v svs = svs" "find_key sv_active svc_name svs k = None" "\<forall>e \<in> set svs. sv_active e"
proof -
  have ck: "c_str k = k" "NUL \<notin> set k" "length k < SERVICE_NAME_LEN" using fits by (auto simp: svc_fits_def c_str_id)
  have wf: "svc_wf (svs ! i)" if "i < length svs" for i using inv that by (simp add: svc_inv_def)
  show thesis
  proof (cases "find_key sv_active svc_name svs k")
    case (Some i)
    note i = find_key_SomeD [OF Some]
    show thesis
      by (rule put [of i "(svs ! i)\<lparr>sv_pid := v\<rparr>"])
        (use i Some wf [of i] ck in \<open>simp_all add: svc_put_def register_service_def find_service_match svc_wf_def\<close>)
  next
    case None
    show thesis
    proof (cases "find_slot (\<lambda>e. \<not> sv_active e) svs")
      case n: None
      then have "\<forall>e \<in> set svs. sv_active e" by (simp add: find_slot_None)
      then show thesis using None ck n full by (simp add: svc_put_def register_service_def find_service_match)
    next
      case (Some i)
      note i = find_slot_SomeD [OF Some] and st = stored_name [OF wf ck(2,3), of i]
      show thesis
        by (rule put [of i "\<lparr>sv_active = True, sv_name = (strncpy (sv_name (svs ! i)) k (SERVICE_NAME_LEN - 1))[SERVICE_NAME_LEN - 1 := NUL], sv_pid = v\<rparr>"])
          (use i None Some st ck in \<open>simp_all add: svc_put_def register_service_def find_service_match svc_wf_def\<close>)
    qed
  qed
qed

interpretation svc: name_table svc_lookup svc_put svc_inv svc_room svc_fits
proof (unfold_locales, goal_cases)
  case (1 k v)
  then show ?case by (simp add: svc_fits_def)
next
  case (2 t k v k')
  have k: "NUL \<notin> set k" using 2(2) by (simp add: svc_fits_def)
  from 2(1,2) show ?case
  proof (cases rule: svc_put_cases)
    case (put i e)
    have "keys_unique sv_active svc_name t" using 2(1) by (simp add: svc_inv_def)
    note fk = find_key_put [OF this put(2,3), of k, OF put(4,7)]
    show ?thesis
    proof (cases "NUL \<in> set k'")
      case False
      have "j \<noteq> i" if "find_key sv_active svc_name t k' = Some j" "k' \<noteq> k" for j
        using that put(7) find_key_SomeD [OF that(1)] find_key_SomeD [of sv_active _ t k i] by auto
      then show ?thesis using False put k fk [of k']
        by (cases "find_key sv_active svc_name t k'") (auto simp: svc_lookup_key)
    qed (use k in \<open>auto simp: svc_lookup_def\<close>)
  next
    case full
    with 2(3) k show ?thesis by (auto simp: svc_lookup_key svc_room_0 [THEN iffD2])
  qed
next
  case (3 t k v)
  then have "find_slot (\<lambda>e. \<not> sv_active e) t = None" by (simp add: find_slot_None svc_room_0)
  with 3 show ?case by (simp add: svc_put_def register_service_def find_service_match svc_lookup_key c_str_id)
next
  case (4 t k v)
  then show ?case
  proof (cases rule: svc_put_cases)
    case (put i e)
    have "keys_unique sv_active svc_name (t[i := e])"
      using 4(1) put(2-4,7) by (intro keys_unique_put [where k = k]) (auto simp: svc_inv_def)
    then show ?thesis using 4(1) put
      by (auto simp: svc_inv_def dest!: set_update_subset_insert [THEN subsetD])
  qed (use 4 in simp)
next
  case (5 t k v)
  have k: "NUL \<notin> set k" using 5(2) by (simp add: svc_fits_def)
  from 5 show ?case
  proof (cases rule: svc_put_cases)
    case (put i e)
    with count_slots_update [OF put(2), of "\<lambda>e. \<not> sv_active e" e] k show ?thesis
      by (auto simp: svc_room_def svc_lookup_key dest: find_key_SomeD)
  next
    case full
    with k show ?thesis by (simp add: svc_lookup_key svc_room_0 [THEN iffD2])
  qed
qed

text \<open>The service registry is a finite map from names to PIDs: after \<open>ipc_init\<close>, registering any
  list of at most 16 services whose names fit in 31 characters makes \<open>ipc_lookup_service\<close> return
  for each name the PID registered for it last, and 0 for every other name.\<close>

theorem services_map:
  assumes "\<forall>(k, v) \<in> set kvs. svc_fits k v" "length kvs \<le> MAX_SERVICES" "NUL \<notin> set name"
  shows "ipc_lookup_service name (fold (\<lambda>(k, v) s. snd (ipc_register_service k v s)) kvs (ipc_init s))
    = (case map_of (rev kvs) name of Some pid \<Rightarrow> pid | None \<Rightarrow> 0)"
proof -
  have sv: "services (fold (\<lambda>(k, v) s. snd (ipc_register_service k v s)) kvs t) = svc.put_all kvs (services t)" for t :: "'a ipc_state_scheme"
    by (induction kvs arbitrary: t) (auto simp: svc.put_all_def ipc_register_service_def svc_put_def split: prod.split)
  have i: "svc_inv (services (ipc_init s))" "MAX_SERVICES \<le> svc_room (services (ipc_init s))" "svc_lookup (services (ipc_init s)) name = None"
    by (auto simp: ipc_init_def svc_inv_def svc_wf_def service0_def keys_unique_def MAX_SERVICES_def SERVICE_NAME_LEN_def
        svc_room_def count_slots_filter svc_lookup_def find_slot_None service_match_def)
  have "svc_lookup (svc.put_all kvs (services (ipc_init s))) name = map_of (rev kvs) name"
    using svc.lookup_put_all [OF i(1) assms(1) order.trans [OF assms(2) i(2)], of name] i(3) by (simp split: option.split)
  then show ?thesis using assms(3)
    by (auto simp: ipc_lookup_service_def lookup_service_def sv svc_lookup_def split: option.splits)
qed

lemma services_map_witness:
  "ipc_lookup_service ''vfs'' (fold (\<lambda>(k, v) s. snd (ipc_register_service k v s)) [(''console'', 3), (''vfs'', 4)] (ipc_init ipc_sample)) = 4"
  by (subst services_map) (simp_all add: svc_fits_def SERVICE_NAME_LEN_def MAX_SERVICES_def)

end
