(* ===== verification/Descr.thy ===== *)
theory Descr
  imports Tasks
begin

text \<open>
  The descriptor tables: \<^verbatim>\<open>src/gdt.c\<close> and the gates of \<^verbatim>\<open>src/idt.c\<close>.  The table entries are
  records with the fields of the packed structs; the processor's reading of them (base, limit,
  privilege level) is given beside them.  The addresses of the assembler entry points and of the
  statically allocated tables are arguments.
\<close>

section \<open>Segments\<close>

record gdt_entry =
  g_limit_low :: u16
  g_base_low :: u16
  g_base_middle :: u8
  g_access :: u8
  g_granularity :: u8
  g_base_high :: u8

record table_ptr =
  p_limit :: u16
  p_base :: u32




definition gdt_set_gate :: "nat \<Rightarrow> u32 \<Rightarrow> u32 \<Rightarrow> u8 \<Rightarrow> u8 \<Rightarrow> gdt_entry list \<Rightarrow> gdt_entry list" where
  "gdt_set_gate num base limit access gran gs = gs[num := (gs ! num)\<lparr>
     g_base_low := ucast (base AND 0xFFFF),
     g_base_middle := ucast (drop_bit 16 base AND 0xFF),
     g_base_high := ucast (drop_bit 24 base AND 0xFF),
     g_limit_low := ucast (limit AND 0xFFFF),
     g_granularity := ucast (drop_bit 16 limit AND 0x0F) OR (gran AND 0xF0),
     g_access := access\<rparr>]"


section \<open>Interrupt gates\<close>

record idt_entry =
  i_base_lo :: u16
  i_sel :: u16
  i_always0 :: u8
  i_flags :: u8
  i_base_hi :: u16

definition idt_entry0 :: idt_entry where
  "idt_entry0 = \<lparr>i_base_lo = 0, i_sel = 0, i_always0 = 0, i_flags = 0, i_base_hi = 0\<rparr>"

definition idt_set_gate :: "u8 \<Rightarrow> u32 \<Rightarrow> u16 \<Rightarrow> u8 \<Rightarrow> idt_entry list \<Rightarrow> idt_entry list" where
  "idt_set_gate num base sel flags es = es[unat num := \<lparr>i_base_lo = ucast (base AND 0xFFFF), i_sel = sel,
     i_always0 = 0, i_flags = flags, i_base_hi = ucast (drop_bit 16 base AND 0xFFFF)\<rparr>]"

text \<open>The writes to the two interrupt controllers, in order (port and byte).\<close>

definition pic_remap :: "(u16 \<times> u8) list" where
  "pic_remap = concat (map (\<lambda>w. [w, (0x80, 0)])
       [(0x20, 0x11), (0xA0, 0x11), (0x21, 0x20), (0xA1, 0x28), (0x21, 0x04), (0xA1, 0x02), (0x21, 0x01), (0xA1, 0x01)])
     @ [(0x21, 0xF8), (0xA1, 0xFF)]"

text \<open>\<open>isr n\<close> and \<open>irq n\<close> are the entry points \<^verbatim>\<open>isr0\<close> to \<^verbatim>\<open>isr31\<close>, \<^verbatim>\<open>isr128\<close> and \<^verbatim>\<open>irq0\<close> to \<^verbatim>\<open>irq15\<close>.\<close>

definition idt_init :: "(nat \<Rightarrow> u32) \<Rightarrow> (nat \<Rightarrow> u32) \<Rightarrow> u32 \<Rightarrow> table_ptr \<times> idt_entry list" where
  "idt_init isr irq idt_addr =
     (let es = replicate 256 idt_entry0;
          es = fold (\<lambda>n. idt_set_gate (of_nat n) (isr n) 0x08 0x8E) [0..<32] es;
          es = fold (\<lambda>n. idt_set_gate (of_nat (32 + n)) (irq n) 0x08 0x8E) [0..<16] es;
          es = idt_set_gate 128 (isr 128) 0x08 0xEE es
      in (\<lparr>p_limit = 8 * 256 - 1, p_base = idt_addr\<rparr>, es))"

definition irq_unmask :: "u8 \<Rightarrow> (u16 \<Rightarrow> u8) \<Rightarrow> u16 \<times> u8" where
  "irq_unmask irq inb =
     (let port = (if irq < 8 then 0x21 else 0xA1);
          irq = (if irq < 8 then irq else irq - 8)
      in (port, inb port AND NOT (push_bit (unat irq) 1)))"

section \<open>What the processor reads\<close>

definition seg_base :: "gdt_entry \<Rightarrow> u32" where
  "seg_base g = ucast (g_base_low g) OR push_bit 16 (ucast (g_base_middle g)) OR push_bit 24 (ucast (g_base_high g))"



definition gate_offset :: "idt_entry \<Rightarrow> u32" where
  "gate_offset e = ucast (i_base_lo e) OR push_bit 16 (ucast (i_base_hi e))"

definition gate_dpl :: "idt_entry \<Rightarrow> u8" where
  "gate_dpl e = drop_bit 5 (i_flags e) AND 3"

definition gate_present :: "idt_entry \<Rightarrow> bool" where
  "gate_present e \<longleftrightarrow> bit (i_flags e) 7"

lemma and_masks:
  "v AND 0xFFFF = take_bit 16 v" "v AND 0xFF = take_bit 8 v" "v AND 0x0F = take_bit 4 v" for v :: u32
proof -
  have "mask 16 = (0xFFFF :: u32)" "mask 8 = (0xFF :: u32)" "mask 4 = (0x0F :: u32)" by (simp_all add: mask_eq_exp_minus_1)
  then show "v AND 0xFFFF = take_bit 16 v" "v AND 0xFF = take_bit 8 v" "v AND 0x0F = take_bit 4 v" by (simp_all add: take_bit_eq_mask)
qed

lemma ucast_take: "ucast (take_bit 16 v) = (ucast v :: u16)" "ucast (take_bit 8 v) = (ucast v :: u8)" for v :: u32
  by (rule bit_word_eqI, simp add: bit_simps)+

lemma halves_of_u32: "ucast (ucast v :: u16) OR push_bit 16 (ucast (ucast (drop_bit 16 v) :: u16)) = (v :: u32)"
proof (rule bit_word_eqI)
  fix n assume "n < LENGTH(32)"
  then show "bit (ucast (ucast v :: u16) OR push_bit 16 (ucast (ucast (drop_bit 16 v) :: u16)) :: u32) n = bit v n"
    by (cases "n < 16") (auto simp: bit_simps)
qed

lemma parts_of_u32: "ucast (ucast v :: u16) OR push_bit 16 (ucast (ucast (drop_bit 16 v) :: u8))
    OR push_bit 24 (ucast (ucast (drop_bit 24 v) :: u8)) = (v :: u32)"
proof (rule bit_word_eqI)
  fix n assume "n < LENGTH(32)"
  then consider "n < 16" | "16 \<le> n \<and> n < 24" | "24 \<le> n \<and> n < 32" by (simp, linarith)
  then show "bit (ucast (ucast v :: u16) OR push_bit 16 (ucast (ucast (drop_bit 16 v) :: u8))
      OR push_bit 24 (ucast (ucast (drop_bit 24 v) :: u8)) :: u32) n = bit v n"
    by cases (auto simp: bit_simps)
qed

lemma seg_base_gate: "i < length gs \<Longrightarrow> seg_base (gdt_set_gate i base limit access gran gs ! i) = base"
  by (simp add: gdt_set_gate_def seg_base_def and_masks ucast_take parts_of_u32)

lemma gate_offset_gate: "unat num < length es \<Longrightarrow> gate_offset (idt_set_gate num base sel flags es ! unat num) = base"
  by (simp add: idt_set_gate_def gate_offset_def and_masks ucast_take halves_of_u32)

text \<open>Filling a range of gates.\<close>

lemma fold_gates:
  assumes "b + n \<le> 256" "length es = 256" "i < 256"
  shows "fold (\<lambda>k. idt_set_gate (of_nat (b + k)) (f k) sel flags) [0..<n] es ! i
    = (if b \<le> i \<and> i < b + n then \<lparr>i_base_lo = ucast (f (i - b)), i_sel = sel, i_always0 = 0, i_flags = flags,
         i_base_hi = ucast (drop_bit 16 (f (i - b)))\<rparr> else es ! i)
    \<and> length (fold (\<lambda>k. idt_set_gate (of_nat (b + k)) (f k) sel flags) [0..<n] es) = 256"
  using assms
proof (induction n)
  case (Suc n)
  have u: "unat (of_nat (b + n) :: u8) = b + n" using Suc.prems(1) by (subst unat_of_nat) simp
  from Suc show ?case unfolding upt_Suc_append [of 0 n, simplified] fold_append comp_def
    by (simp add: idt_set_gate_def and_masks ucast_take u nth_list_update del: of_nat_add) auto
qed auto


section \<open>Properties\<close>

text \<open>C38. After \<open>idt_init\<close> ring 3 code can enter the kernel through \<open>int 0x80\<close> only: of the 256 gates
  exactly number 128 has privilege level 3; the gates of the 32 exceptions, the 16 hardware
  interrupts and the system call are present and lead to their entry points in the kernel's code
  segment; no other gate is present.\<close>

theorem idt_user_gate:
  assumes "n < 256"
  shows "let es = snd (idt_init isr irq addr) in length es = 256
    \<and> (gate_dpl (es ! n) = 3 \<longleftrightarrow> n = 128) \<and> (gate_present (es ! n) \<longleftrightarrow> n < 48 \<or> n = 128)
    \<and> (n < 32 \<or> n = 128 \<longrightarrow> gate_offset (es ! n) = isr n \<and> i_sel (es ! n) = 0x08)
    \<and> (32 \<le> n \<and> n < 48 \<longrightarrow> gate_offset (es ! n) = irq (n - 32) \<and> i_sel (es ! n) = 0x08)"
proof -
  define e1 where "e1 = fold (\<lambda>n. idt_set_gate (of_nat n) (isr n) 0x08 0x8E) [0..<32] (replicate 256 idt_entry0)"
  define e2 where "e2 = fold (\<lambda>n. idt_set_gate (of_nat (32 + n)) (irq n) 0x08 0x8E) [0..<16] e1"
  define g where "g = (\<lambda>a fl. \<lparr>i_base_lo = ucast (a :: u32), i_sel = 0x08, i_always0 = 0, i_flags = fl, i_base_hi = ucast (drop_bit 16 a)\<rparr>)"
  have 1: "e1 ! i = (if i < 32 then g (isr i) 0x8E else idt_entry0) \<and> length e1 = 256" if "i < 256" for i
    using fold_gates [of 0 32 "replicate 256 idt_entry0" i isr "0x08" "0x8E"] that by (simp add: e1_def g_def)
  have 2: "e2 ! i = (if 32 \<le> i \<and> i < 48 then g (irq (i - 32)) 0x8E else e1 ! i) \<and> length e2 = 256" if "i < 256" for i
    using fold_gates [of 32 16 e1 i irq "0x08" "0x8E"] 1 that by (simp add: e2_def g_def)
  have es: "snd (idt_init isr irq addr) = e2[128 := g (isr 128) 0xEE]"
    by (simp add: idt_init_def Let_def e1_def e2_def idt_set_gate_def and_masks ucast_take g_def)
  have off: "gate_offset (g a fl) = a" "i_sel (g a fl) = 0x08" for a fl by (simp_all add: gate_offset_def halves_of_u32 g_def)
  have b: "bit (0x8E :: u8) 7" "bit (0xEE :: u8) 7" by (simp_all add: bit_numeral_rec)
  have dpl: "gate_dpl (g a 0x8E) \<noteq> 3" "gate_dpl (g a 0xEE) = 3" "gate_dpl idt_entry0 \<noteq> 3"
    "gate_present (g a 0x8E)" "gate_present (g a 0xEE)" "\<not> gate_present idt_entry0" for a
    using b by (simp_all add: gate_dpl_def gate_present_def idt_entry0_def g_def)
  have n: "snd (idt_init isr irq addr) ! n = (if n = 128 then g (isr 128) 0xEE else if n < 32 then g (isr n) 0x8E
      else if n < 48 then g (irq (n - 32)) 0x8E else idt_entry0)"
    using 1 [OF assms] 2 [OF assms] unfolding es by (auto simp: nth_list_update)
  have "length (snd (idt_init isr irq addr)) = 256" using 2 [OF assms] es by simp
  moreover consider "n = 128" | "n < 32" | "32 \<le> n" "n < 48" | "48 \<le> n" "n \<noteq> 128" by linarith
  ultimately show ?thesis unfolding Let_def n by cases (simp_all add: off dpl)
qed

lemma idt_user_gate_witness:
  "gate_dpl (snd (idt_init (\<lambda>n. 0x100000 + of_nat n) (\<lambda>n. 0x200000 + of_nat n) 0x3000) ! 14) \<noteq> 3
   \<and> gate_offset (snd (idt_init (\<lambda>n. 0x100000 + of_nat n) (\<lambda>n. 0x200000 + of_nat n) 0x3000) ! 14) = 0x10000E"
  using idt_user_gate [of 14 "\<lambda>n. 0x100000 + of_nat n" "\<lambda>n. 0x200000 + of_nat n" "0x3000"] by (simp add: Let_def)


end
