(* ===== verification/Syscall.thy ===== *)
theory Syscall
  imports Ipc Keyboard Descr
begin

text \<open>
  The system call and interrupt entry of the kernel: \<^verbatim>\<open>src/syscall.c\<close> and the dispatch of
  \<^verbatim>\<open>src/idt.c\<close>.  The register frame of an interrupted task lies in memory at the address \<open>regs\<close>
  with the layout of \<^verbatim>\<open>registers_t\<close>.  The graphics and network drivers the handlers call are the
  functions of the record \<open>drivers\<close>.  Bytes written to the terminal are appended to \<open>tty\<close>.
\<close>

section \<open>State\<close>

datatype handler = H_timer | H_keyboard | H_page_fault | H_syscall | H_driver nat

record kernel_state = ipc_state +
  irq_owners :: "u32 list"
  interrupt_handlers :: "handler option list"
  kbd :: kbd_state
  tty :: "u8 list"

text \<open>How a handler ends: it returns; it waits in \<open>task_yield\<close> and stores a value in \<^verbatim>\<open>eax\<close> when
  resumed; it waits for keys, with so many bytes still to read to an address; the task is gone; the
  kernel halts.\<close>

datatype sysret = Done | Waits u32 | Reading u32 nat | Gone | Panic

text \<open>The parts of the kernel the handlers only call.  The clear colour is passed as its four bytes;
  \<open>driver_irq n\<close> is the interrupt handler of driver \<open>n\<close>.\<close>

record 's drivers =
  gui_elf_win_open :: "u32 \<Rightarrow> u32 \<Rightarrow> u32 \<Rightarrow> 's \<Rightarrow> u32 \<times> 's"
  gui_elf_win_present :: "u32 \<Rightarrow> 's \<Rightarrow> 's"
  gui_elf_win_close :: "u32 \<Rightarrow> 's \<Rightarrow> 's"
  virgl_submit_command :: "u32 \<Rightarrow> u32 \<Rightarrow> 's \<Rightarrow> int \<times> 's"
  virgl_init :: "'s \<Rightarrow> bool \<times> 's"
  virgl_setup_framebuffer :: "u16 \<Rightarrow> u16 \<Rightarrow> 's \<Rightarrow> bool \<times> 's"
  virgl_setup_pipeline_state :: "'s \<Rightarrow> bool \<times> 's"
  virgl_cmd_set_viewport :: "u16 \<Rightarrow> u16 \<Rightarrow> 's \<Rightarrow> 's"
  virgl_cmd_begin :: "'s \<Rightarrow> 's"
  virgl_cmd_clear :: "u32 \<Rightarrow> u8 \<times> u8 \<times> u8 \<times> u8 \<Rightarrow> 's \<Rightarrow> 's"
  virgl_upload_vertices :: "u32 \<Rightarrow> u32 \<Rightarrow> 's \<Rightarrow> 's"
  virgl_cmd_set_constant_buffer :: "u8 list \<Rightarrow> 's \<Rightarrow> 's"
  virgl_cmd_set_vertex_buffer :: "u32 \<Rightarrow> u32 \<Rightarrow> 's \<Rightarrow> 's"
  virgl_cmd_draw :: "u32 \<Rightarrow> u32 \<Rightarrow> u32 \<Rightarrow> 's \<Rightarrow> 's"
  virgl_cmd_submit :: "'s \<Rightarrow> 's"
  virgl_present :: "'s \<Rightarrow> 's"
  driver_irq :: "nat \<Rightarrow> u32 \<Rightarrow> 's \<Rightarrow> 's"

text \<open>The fields of \<^verbatim>\<open>registers_t\<close> that are used, and a C string argument: names are compared with
  and copied to arrays of 32 characters, so only its first 32 bytes are ever read.\<close>

definition reg_ebx :: "u32 \<Rightarrow> memory \<Rightarrow> u32" where "reg_ebx regs m = load32 m (regs + 20)"
definition reg_edx :: "u32 \<Rightarrow> memory \<Rightarrow> u32" where "reg_edx regs m = load32 m (regs + 24)"
definition reg_ecx :: "u32 \<Rightarrow> memory \<Rightarrow> u32" where "reg_ecx regs m = load32 m (regs + 28)"
definition reg_eax :: "u32 \<Rightarrow> memory \<Rightarrow> u32" where "reg_eax regs m = load32 m (regs + 32)"
definition reg_int_no :: "u32 \<Rightarrow> memory \<Rightarrow> u32" where "reg_int_no regs m = load32 m (regs + 36)"
definition reg_err_code :: "u32 \<Rightarrow> memory \<Rightarrow> u32" where "reg_err_code regs m = load32 m (regs + 40)"

definition set_eax :: "u32 \<Rightarrow> u32 \<Rightarrow> 'a kernel_state_scheme \<Rightarrow> 'a kernel_state_scheme" where
  "set_eax regs v s = s\<lparr>mem := store32 (mem s) (regs + 32) v\<rparr>"

definition mem_name :: "memory \<Rightarrow> u32 \<Rightarrow> string" where
  "mem_name m p = map (\<lambda>b. char_of (unat b)) (bytes m p 32)"

definition irq_get_owner :: "u32 \<Rightarrow> 'a kernel_state_scheme \<Rightarrow> u32" where
  "irq_get_owner irq s = (if irq \<ge> 16 then 0 else irq_owners s ! unat irq)"

section \<open>System calls\<close>

definition SYS_WRITE :: u32 where "SYS_WRITE = 1"
definition SYS_READ :: u32 where "SYS_READ = 2"
definition SYS_GETPID :: u32 where "SYS_GETPID = 5"
definition SYS_EXIT :: u32 where "SYS_EXIT = 6"
definition SYS_SLEEP :: u32 where "SYS_SLEEP = 7"
definition SYS_TIME :: u32 where "SYS_TIME = 8"
definition SYS_MALLOC :: u32 where "SYS_MALLOC = 9"
definition SYS_FREE :: u32 where "SYS_FREE = 10"
definition SYS_GET_TICKS :: u32 where "SYS_GET_TICKS = 13"
definition SYS_SEND :: u32 where "SYS_SEND = 20"
definition SYS_RECEIVE :: u32 where "SYS_RECEIVE = 21"
definition SYS_SENDREC :: u32 where "SYS_SENDREC = 22"
definition SYS_REPLY :: u32 where "SYS_REPLY = 23"
definition SYS_NOTIFY :: u32 where "SYS_NOTIFY = 24"
definition SYS_REGISTER_SVC :: u32 where "SYS_REGISTER_SVC = 30"
definition SYS_LOOKUP_SVC :: u32 where "SYS_LOOKUP_SVC = 31"
definition SYS_GRANT_IO :: u32 where "SYS_GRANT_IO = 32"
definition SYS_REGISTER_IRQ :: u32 where "SYS_REGISTER_IRQ = 33"
definition SYS_CREATE_TASK :: u32 where "SYS_CREATE_TASK = 34"
definition SYS_DEBUG_LOG :: u32 where "SYS_DEBUG_LOG = 57"
definition SYS_GUI_WIN_OPEN :: u32 where "SYS_GUI_WIN_OPEN = 60"
definition SYS_GUI_PRESENT :: u32 where "SYS_GUI_PRESENT = 61"
definition SYS_GUI_WIN_CLOSE :: u32 where "SYS_GUI_WIN_CLOSE = 62"
definition SYS_GUI_GET_TICKS :: u32 where "SYS_GUI_GET_TICKS = 63"
definition SYS_VIRGL_SUBMIT :: u32 where "SYS_VIRGL_SUBMIT = 70"
definition SYS_GPU3D_INIT :: u32 where "SYS_GPU3D_INIT = 71"
definition SYS_GPU3D_CLEAR :: u32 where "SYS_GPU3D_CLEAR = 72"
definition SYS_GPU3D_UPLOAD :: u32 where "SYS_GPU3D_UPLOAD = 73"
definition SYS_GPU3D_MVP :: u32 where "SYS_GPU3D_MVP = 74"
definition SYS_GPU3D_DRAW :: u32 where "SYS_GPU3D_DRAW = 75"
definition SYS_GPU3D_PRESENT :: u32 where "SYS_GPU3D_PRESENT = 76"
definition ENOMEM :: u32 where "ENOMEM = 12"
definition EFAULT :: u32 where "EFAULT = 14"
definition EINVAL :: u32 where "EINVAL = 22"

lemmas sys_numbers = SYS_WRITE_def SYS_READ_def SYS_GETPID_def SYS_EXIT_def SYS_SLEEP_def SYS_TIME_def SYS_MALLOC_def SYS_FREE_def
  SYS_GET_TICKS_def SYS_SEND_def SYS_RECEIVE_def SYS_SENDREC_def SYS_REPLY_def SYS_NOTIFY_def SYS_REGISTER_SVC_def
  SYS_LOOKUP_SVC_def SYS_GRANT_IO_def SYS_REGISTER_IRQ_def SYS_CREATE_TASK_def SYS_DEBUG_LOG_def SYS_GUI_WIN_OPEN_def
  SYS_GUI_PRESENT_def SYS_GUI_WIN_CLOSE_def SYS_GUI_GET_TICKS_def SYS_VIRGL_SUBMIT_def SYS_GPU3D_INIT_def SYS_GPU3D_CLEAR_def
  SYS_GPU3D_UPLOAD_def SYS_GPU3D_MVP_def SYS_GPU3D_DRAW_def SYS_GPU3D_PRESENT_def

type_synonym 's step_result = "(sysret \<times> 's) option"

text \<open>The loop of \<^verbatim>\<open>SYS_READ\<close>: it reads keys until the ring is empty or the count is reached.\<close>

primrec read_keys :: "nat \<Rightarrow> u32 \<Rightarrow> 'a kernel_state_scheme \<Rightarrow> (u32 \<times> nat) option \<times> 'a kernel_state_scheme" where
  "read_keys 0 p s = (None, s)"
| "read_keys (Suc n) p s =
     (case keyboard_getchar (kbd s) of
        None \<Rightarrow> (Some (p, Suc n), s)
      | Some (c, k) \<Rightarrow> read_keys n (p + 1) (s\<lparr>kbd := k, mem := (mem s)(p := of_nat (of_char c))\<rparr>))"

definition sys_basic :: "u32 \<Rightarrow> u32 \<Rightarrow> u32 \<Rightarrow> u32 \<Rightarrow> 'a kernel_state_scheme \<Rightarrow> 'a kernel_state_scheme step_result" where
  "sys_basic regs num arg1 arg2 s =
     (if num = SYS_WRITE then
        Some (Done, set_eax regs arg2 (s\<lparr>tty := tty s @ bytes (mem s) arg1 (unat arg2)\<rparr>))
      else if num = SYS_READ then
        (case read_keys (unat arg2) arg1 s of
           (None, s) \<Rightarrow> Some (Done, set_eax regs arg2 s)
         | (Some (p, n), s) \<Rightarrow> Some (Reading p n, s))
      else if num = SYS_GETPID then
        Some (Done, set_eax regs (case task_get_current s of Some c \<Rightarrow> t_id (tasks s ! c) | None \<Rightarrow> 0) s)
      else if num = SYS_EXIT then
        map_option (\<lambda>s'. (if current_task s \<le> 0 then Done else Gone, s')) (task_exit s)
      else if num = SYS_SLEEP then
        (if current_task s < 0 then Some (Done, set_eax regs 0 (task_sleep arg1 s)) else Some (Waits 0, task_sleep arg1 s))
      else if num = SYS_TIME \<or> num = SYS_GET_TICKS then Some (Done, set_eax regs (timer_get_ticks s) s)
      else if num = SYS_MALLOC then do { (p, s) \<leftarrow> kmalloc arg1 s; Some (Done, set_eax regs p s) }
      else do { s \<leftarrow> kfree arg1 s; Some (Done, set_eax regs 0 s) })"

definition ipc_ret :: "u32 \<Rightarrow> outcome \<times> 'a kernel_state_scheme \<Rightarrow> 'a kernel_state_scheme step_result" where
  "ipc_ret regs r = (case r of (Returns v, s) \<Rightarrow> Some (Done, set_eax regs (word_of_int v) s) | (Blocks, s) \<Rightarrow> Some (Waits 0, s))"

definition sys_ipc :: "u32 \<Rightarrow> u32 \<Rightarrow> u32 \<Rightarrow> u32 \<Rightarrow> 'a kernel_state_scheme \<Rightarrow> 'a kernel_state_scheme step_result" where
  "sys_ipc regs num arg1 arg2 s = ipc_ret regs
     (if num = SYS_SEND then ipc_send arg1 arg2 s
      else if num = SYS_RECEIVE then ipc_receive arg1 arg2 s
      else if num = SYS_SENDREC then ipc_sendrec arg1 arg2 s
      else if num = SYS_REPLY then ipc_reply arg1 arg2 s
      else ipc_notify arg1 arg2 s)"

text \<open>The calls that use \<^verbatim>\<open>task_get_current()->id\<close> fault when there is no current task.\<close>

definition sys_service :: "u32 \<Rightarrow> u32 \<Rightarrow> u32 \<Rightarrow> u32 \<Rightarrow> u32 \<Rightarrow> 'a kernel_state_scheme \<Rightarrow> 'a kernel_state_scheme step_result" where
  "sys_service regs num arg1 arg2 arg3 s =
     (if num = SYS_REGISTER_SVC then
        do { c \<leftarrow> task_get_current s;
             let (r, s) = ipc_register_service (mem_name (mem s) arg1) (t_id (tasks s ! c)) s
             in Some (Done, set_eax regs (word_of_int r) s) }
      else if num = SYS_LOOKUP_SVC then
        Some (Done, set_eax regs (ipc_lookup_service (mem_name (mem s) arg1) s) s)
      else if num = SYS_GRANT_IO then
        do { target_pid \<leftarrow> (if arg1 \<noteq> 0 then Some arg1 else map_option (\<lambda>c. t_id (tasks s ! c)) (task_get_current s));
             case task_get_by_pid target_pid s of
               Some i \<Rightarrow> Some (Done, set_eax regs 0 (upd_task i (\<lambda>t. t\<lparr>io_privileged := True\<rparr>) s))
             | None \<Rightarrow> Some (Done, set_eax regs (-1) s) }
      else if num = SYS_REGISTER_IRQ then
        (if arg1 < 16 then
           do { c \<leftarrow> task_get_current s;
                let s = s\<lparr>irq_owners := (irq_owners s)[unat arg1 := t_id (tasks s ! c)]\<rparr>;
                    s = upd_task c (\<lambda>t. t\<lparr>owned_irqs := owned_irqs t OR push_bit (unat arg1) 1\<rparr>) s
                in Some (Done, set_eax regs 0 s) }
         else Some (Done, set_eax regs (-1) s))
      else if num = SYS_CREATE_TASK then
        do { (r, s) \<leftarrow> task_create_user (mem_name (mem s) arg1) arg2 arg3 False s;
             Some (Done, set_eax regs (word_of_int r) s) }
      else Some (Done, set_eax regs 0 s))"

definition sys_gui :: "'a kernel_state_scheme drivers \<Rightarrow> u32 \<Rightarrow> u32 \<Rightarrow> u32 \<Rightarrow> 'a kernel_state_scheme \<Rightarrow> 'a kernel_state_scheme step_result" where
  "sys_gui drv regs num arg1 s =
     (if num = SYS_GUI_WIN_OPEN then
        (case task_get_current s of
           Some c \<Rightarrow>
             (if t_pd (tasks s ! c) \<noteq> 0
              then let (v, s) = gui_elf_win_open drv (t_id (tasks s ! c)) (t_pd (tasks s ! c)) arg1 s in Some (Done, set_eax regs v s)
              else Some (Done, set_eax regs 0 s))
         | None \<Rightarrow> Some (Done, set_eax regs 0 s))
      else if num = SYS_GUI_PRESENT then
        Some (Done, set_eax regs 0 (case task_get_current s of Some c \<Rightarrow> gui_elf_win_present drv (t_id (tasks s ! c)) s | None \<Rightarrow> s))
      else if num = SYS_GUI_WIN_CLOSE then
        Some (Done, set_eax regs 0 (case task_get_current s of Some c \<Rightarrow> gui_elf_win_close drv (t_id (tasks s ! c)) s | None \<Rightarrow> s))
      else Some (Done, set_eax regs (timer_get_ticks s) s))"

text \<open>The two calls that copy a user buffer to the heap.\<close>

definition sys_virgl_submit :: "'a kernel_state_scheme drivers \<Rightarrow> u32 \<Rightarrow> u32 \<Rightarrow> u32 \<Rightarrow> 'a kernel_state_scheme \<Rightarrow> 'a kernel_state_scheme step_result" where
  "sys_virgl_submit drv regs user_buf len s =
     (if len = 0 \<or> len > 128 * 1024 \<or> user_buf = 0 then Some (Done, set_eax regs (-1) s)
      else do { (kbuf, s) \<leftarrow> kmalloc len s;
        if kbuf = 0 then Some (Done, set_eax regs (- ENOMEM) s)
        else
          let (r, s) = copy_from_user kbuf user_buf len s in
          if r \<noteq> 0 then do { s \<leftarrow> kfree kbuf s; Some (Done, set_eax regs (- EFAULT) s) }
          else
            let (ret, s) = virgl_submit_command drv kbuf (len div 4) s
            in do { s \<leftarrow> kfree kbuf s; Some (Done, set_eax regs (word_of_int ret) s) } })"

definition sys_gpu3d_upload :: "'a kernel_state_scheme drivers \<Rightarrow> u32 \<Rightarrow> u32 \<Rightarrow> u32 \<Rightarrow> 'a kernel_state_scheme \<Rightarrow> 'a kernel_state_scheme step_result" where
  "sys_gpu3d_upload drv regs arg1 num_floats s =
     (if num_floats = 0 \<or> num_floats > 200000 \<or> arg1 = 0 then Some (Done, set_eax regs (- EINVAL) s)
      else
        let sz = num_floats * 4 in
        do { (kbuf, s) \<leftarrow> kmalloc sz s;
          if kbuf = 0 then Some (Done, set_eax regs (- ENOMEM) s)
          else
            let (r, s) = copy_from_user kbuf arg1 sz s in
            if r \<noteq> 0 then do { s \<leftarrow> kfree kbuf s; Some (Done, set_eax regs (- EFAULT) s) }
            else do { s \<leftarrow> kfree kbuf (virgl_upload_vertices drv kbuf num_floats s); Some (Done, set_eax regs 0 s) } })"

definition sys_gpu3d_init :: "'a kernel_state_scheme drivers \<Rightarrow> u32 \<Rightarrow> u32 \<Rightarrow> u32 \<Rightarrow> 'a kernel_state_scheme \<Rightarrow> 'a kernel_state_scheme step_result" where
  "sys_gpu3d_init drv regs arg1 arg2 s =
     (let w = ucast (if arg1 \<noteq> 0 then arg1 else 320); h = ucast (if arg2 \<noteq> 0 then arg2 else 200);
          (ok, s) = virgl_init drv s in
      if \<not> ok then Some (Done, set_eax regs (-1) s)
      else
        let (ok, s) = virgl_setup_framebuffer drv w h s in
        if \<not> ok then Some (Done, set_eax regs (-1) s)
        else
          let (ok, s) = virgl_setup_pipeline_state drv s in
          if \<not> ok then Some (Done, set_eax regs (-1) s)
          else Some (Done, set_eax regs 0 (virgl_cmd_set_viewport drv w h s)))"

text \<open>\<^verbatim>\<open>SYS_GPU3D_PRESENT\<close> puts the caller to sleep for one tick.\<close>

definition sys_gpu3d_present :: "'a kernel_state_scheme drivers \<Rightarrow> 'a kernel_state_scheme \<Rightarrow> 'a kernel_state_scheme step_result" where
  "sys_gpu3d_present drv s =
     (let s = virgl_present drv (virgl_cmd_submit drv s) in
      do { c \<leftarrow> task_get_current s;
           let s = gui_elf_win_present drv (t_id (tasks s ! c)) s;
               s = upd_task c (\<lambda>t. t\<lparr>t_state := TASK_SLEEPING, wake_tick := timer_get_ticks s + 1\<rparr>) s
           in Some (Waits 0, task_yield s) })"

definition sys_gpu :: "'a kernel_state_scheme drivers \<Rightarrow> u32 \<Rightarrow> u32 \<Rightarrow> u32 \<Rightarrow> u32 \<Rightarrow> u32 \<Rightarrow> 'a kernel_state_scheme \<Rightarrow> 'a kernel_state_scheme step_result" where
  "sys_gpu drv regs num arg1 arg2 arg3 s =
     (if num = SYS_VIRGL_SUBMIT then sys_virgl_submit drv regs arg1 arg2 s
      else if num = SYS_GPU3D_INIT then sys_gpu3d_init drv regs arg1 arg2 s
      else if num = SYS_GPU3D_CLEAR then
        let c = (ucast (drop_bit 16 arg2 AND 0xFF), ucast (drop_bit 8 arg2 AND 0xFF), ucast (arg2 AND 0xFF), ucast (drop_bit 24 arg2 AND 0xFF))
        in Some (Done, set_eax regs 0 (virgl_cmd_clear drv (4 OR 1) c (virgl_cmd_begin drv s)))
      else if num = SYS_GPU3D_UPLOAD then sys_gpu3d_upload drv regs arg1 arg2 s
      else if num = SYS_GPU3D_MVP then
        (if arg1 = 0 then Some (Done, set_eax regs (- EINVAL) s)
         else Some (Done, set_eax regs 0 (virgl_cmd_set_constant_buffer drv (bytes (mem s) arg1 64) s)))
      else if num = SYS_GPU3D_DRAW then
        Some (Done, set_eax regs 0 (virgl_cmd_draw drv arg1 arg2 arg3 (virgl_cmd_set_vertex_buffer drv 32 0 s)))
      else sys_gpu3d_present drv s)"

definition syscall_handler :: "'a kernel_state_scheme drivers \<Rightarrow> u32 \<Rightarrow> 'a kernel_state_scheme \<Rightarrow> 'a kernel_state_scheme step_result" where
  "syscall_handler drv regs s =
     (let num = reg_eax regs (mem s); arg1 = reg_ebx regs (mem s); arg2 = reg_ecx regs (mem s); arg3 = reg_edx regs (mem s) in
      if num \<in> {SYS_WRITE, SYS_READ, SYS_GETPID, SYS_EXIT, SYS_SLEEP, SYS_TIME, SYS_GET_TICKS, SYS_MALLOC, SYS_FREE}
      then sys_basic regs num arg1 arg2 s
      else if num \<in> {SYS_SEND, SYS_RECEIVE, SYS_SENDREC, SYS_REPLY, SYS_NOTIFY} then sys_ipc regs num arg1 arg2 s
      else if num \<in> {SYS_REGISTER_SVC, SYS_LOOKUP_SVC, SYS_GRANT_IO, SYS_REGISTER_IRQ, SYS_CREATE_TASK, SYS_DEBUG_LOG}
      then sys_service regs num arg1 arg2 arg3 s
      else if num \<in> {SYS_GUI_WIN_OPEN, SYS_GUI_PRESENT, SYS_GUI_WIN_CLOSE, SYS_GUI_GET_TICKS} then sys_gui drv regs num arg1 s
      else if num \<in> {SYS_VIRGL_SUBMIT, SYS_GPU3D_INIT, SYS_GPU3D_CLEAR, SYS_GPU3D_UPLOAD, SYS_GPU3D_MVP, SYS_GPU3D_DRAW, SYS_GPU3D_PRESENT}
      then sys_gpu drv regs num arg1 arg2 arg3 s
      else Some (Done, set_eax regs (-1) s))"

section \<open>Interrupt dispatch\<close>


text \<open>The call through the handler table; \<open>sc\<close> is what port \<open>0x60\<close> reads.\<close>

definition run_handler :: "'a kernel_state_scheme drivers \<Rightarrow> u8 \<Rightarrow> u32 \<Rightarrow> handler \<Rightarrow> 'a kernel_state_scheme \<Rightarrow> 'a kernel_state_scheme step_result" where
  "run_handler drv sc regs h s =
     (case h of
        H_timer \<Rightarrow> Some (Done, timer_callback regs s)
      | H_keyboard \<Rightarrow> Some (Done, s\<lparr>kbd := keyboard_callback sc (kbd s)\<rparr>)
      | H_page_fault \<Rightarrow> map_option (\<lambda>r. case r of Some s \<Rightarrow> (Gone, s) | None \<Rightarrow> (Panic, s)) (page_fault_handler (reg_err_code regs (mem s)) s)
      | H_syscall \<Rightarrow> syscall_handler drv regs s
      | H_driver n \<Rightarrow> Some (Done, driver_irq drv n regs s))"


text \<open>The message of an interrupt notification, built at the address \<open>p\<close> of the local variable.\<close>

definition MSG_IRQ_NOTIFY :: u32 where "MSG_IRQ_NOTIFY = 100"

definition irq_message :: "u32 \<Rightarrow> u32 \<Rightarrow> u32 \<Rightarrow> memory \<Rightarrow> memory" where
  "irq_message p irq ticks m =
     (let m = memset m p 0 MSG_SIZE;
          m = store32 m (p + 4) MSG_IRQ_NOTIFY;
          m = store32 m (p + 8) irq
      in store32 m (p + 12) ticks)"

text \<open>\<open>irq_handler\<close> returns the bytes sent to the interrupt controllers and, when its handler
  returned, the new stack pointer (0 for no switch).\<close>

definition irq_handler :: "'a kernel_state_scheme drivers \<Rightarrow> u8 \<Rightarrow> u32 \<Rightarrow> u32 \<Rightarrow> 'a kernel_state_scheme
    \<Rightarrow> ((u16 \<times> u8) list \<times> u32 option \<times> 'a kernel_state_scheme) option" where
  "irq_handler drv sc nbuf regs s =
     (let int_no = reg_int_no regs (mem s);
          acks = (if int_no \<ge> 40 then [(0xA0, 0x20)] else []) @ [(0x20, 0x20)]
      in do { (r, s) \<leftarrow> (case interrupt_handlers s ! unat int_no of Some h \<Rightarrow> run_handler drv sc regs h s | None \<Rightarrow> Some (Done, s));
              if r \<noteq> Done then Some (acks, None, s)
              else
                let irq_num = reg_int_no regs (mem s) - 32;
                    s = (if irq_num < 16 then
                           let owner = irq_get_owner irq_num s in
                           if owner \<noteq> 0
                           then snd (ipc_notify owner nbuf (s\<lparr>mem := irq_message nbuf irq_num (timer_get_ticks s) (mem s)\<rparr>))
                           else s
                         else s);
                    (esp, s) = task_preempt_check s
                in Some (acks, Some esp, s) })"

section \<open>The invariant of the kernel\<close>

definition kernel_inv :: "'a kernel_state_scheme \<Rightarrow> bool" where
  "kernel_inv s \<longleftrightarrow> ipc_inv s \<and> length (irq_owners s) = 16 \<and> length (interrupt_handlers s) = 256"

text \<open>The operations on tasks leave the fields of the other components alone.\<close>

lemma more_fields:
  fixes s s' :: "'a kernel_state_scheme"
  assumes "task_state.more s' = task_state.more s"
  shows "services s' = services s" "pending_notify s' = pending_notify s" "notify_msg s' = notify_msg s"
    "irq_owners s' = irq_owners s" "interrupt_handlers s' = interrupt_handlers s" "kbd s' = kbd s" "tty s' = tty s"
  using assms by (cases s, cases s', simp)+

lemma kernel_inv_more:
  fixes s s' :: "'a kernel_state_scheme"
  shows "kernel_inv s \<Longrightarrow> task_inv s' \<Longrightarrow> task_state.more s' = task_state.more s \<Longrightarrow> kernel_inv s'"
  using more_fields [of s' s] by (simp add: kernel_inv_def ipc_inv_def)

lemma more_upd_task [simp]: "task_state.more (upd_task i f s) = task_state.more s"
  by (simp add: upd_task_def)






lemma more_setup_user [simp]: "task_state.more (setup_user_stack i entry s) = task_state.more s"
  by (simp add: setup_user_stack_def Let_def split: prod.split)



lemma kernel_inv_plain [simp]:
  "kernel_inv (s\<lparr>mem := m\<rparr>) = kernel_inv s" "kernel_inv (s\<lparr>kbd := k\<rparr>) = kernel_inv s" "kernel_inv (s\<lparr>tty := t\<rparr>) = kernel_inv s"
  "kernel_inv (set_eax regs v s) = kernel_inv s"
  by (simp_all add: kernel_inv_def ipc_inv_def set_eax_def task_inv_def)

lemma kernel_inv_task: "kernel_inv s \<Longrightarrow> task_inv s"
  by (simp add: kernel_inv_def ipc_inv_def)



lemma kernel_inv_upd: "kernel_inv s \<Longrightarrow> task_inv (upd_task i f s) \<Longrightarrow> kernel_inv (upd_task i f s)"
  by (rule kernel_inv_more [of s]) auto
















lemma done_inv: "kernel_inv s1 \<Longrightarrow> Some (x, set_eax regs v s1) = Some (r, s') \<Longrightarrow> kernel_inv s'"
  by auto












section \<open>Runs of the kernel\<close>






lemma task_inv_pid_unique:
  assumes "task_inv s" "i < 32" "active (tasks s ! i)"
  shows "task_get_by_pid (t_id (tasks s ! i)) s = Some i"
proof -
  note d = table_invD [OF assms(1) [unfolded task_inv_def, THEN conjunct2]]
  show ?thesis unfolding task_get_by_pid_def find_slot_Some
  proof (intro conjI allI impI notI)
    fix j assume "j < i" "active (tasks s ! j) \<and> t_id (tasks s ! j) = t_id (tasks s ! i)"
    then show False using d(6) [of j i] assms(2,3) by simp
  qed (use assms(2,3) d(1) in simp_all)
qed


text \<open>Drivers that do nothing.\<close>

definition idle_drivers :: "'s drivers" where
  "idle_drivers = \<lparr>gui_elf_win_open = \<lambda>_ _ _ s. (0, s), gui_elf_win_present = \<lambda>_ s. s, gui_elf_win_close = \<lambda>_ s. s,
     virgl_submit_command = \<lambda>_ _ s. (0, s), virgl_init = \<lambda>s. (False, s), virgl_setup_framebuffer = \<lambda>_ _ s. (False, s),
     virgl_setup_pipeline_state = \<lambda>s. (False, s), virgl_cmd_set_viewport = \<lambda>_ _ s. s, virgl_cmd_begin = \<lambda>s. s,
     virgl_cmd_clear = \<lambda>_ _ s. s, virgl_upload_vertices = \<lambda>_ _ s. s, virgl_cmd_set_constant_buffer = \<lambda>_ s. s,
     virgl_cmd_set_vertex_buffer = \<lambda>_ _ s. s, virgl_cmd_draw = \<lambda>_ _ _ s. s, virgl_cmd_submit = \<lambda>s. s, virgl_present = \<lambda>s. s,
     driver_irq = \<lambda>_ _ s. s\<rparr>"


definition kernel_sample :: kernel_state where
  "kernel_sample = ipc_state.extend ipc_sample
     \<lparr>irq_owners = replicate 16 0, interrupt_handlers = replicate 256 None,
      kbd = \<lparr>key_buffer = replicate 256 NUL, key_head = 0, key_tail = 0, shift_held = False, ctrl_held = False, alt_held = False,
        caps_lock = False, extended = False\<rparr>, tty = []\<rparr>"

lemma kernel_sample_sel:
  "tasks kernel_sample = tasks ipc_sample" "current_task kernel_sample = 0" "next_pid kernel_sample = 3"
  "notify_msg kernel_sample = replicate 32 (replicate 64 0)" "services kernel_sample = replicate 16 service0"
  "pending_notify kernel_sample = replicate 32 0" "irq_owners kernel_sample = replicate 16 0"
  "interrupt_handlers kernel_sample = replicate 256 None"
  by (simp_all add: kernel_sample_def ipc_state.defs ipc_sample_def task_state.defs)


section \<open>Interrupts as messages\<close>

lemma delivered_words:
  assumes "delivered pid src dst m m'" "0 < k" "k < 16"
  shows "load32 m' (dst + 4 * of_nat k) = load32 m (src + 4 * of_nat k)"
proof -
  have b: "m' (dst + of_nat i) = m (src + of_nat i)" if "4 \<le> i" "i < 64" for i
    using assms(1) that by (simp add: delivered_def MSG_SIZE_def)
  have "m' (dst + 4 * of_nat k + of_nat j) = m (src + 4 * of_nat k + of_nat j)" if "j < 4" for j
    using b [of "4 * k + j"] assms(2,3) that by (simp add: add.assoc)
  from this [of 0] this [of 1] this [of 2] this [of 3] show ?thesis by (simp add: load32_def)
qed

lemma irq_message_words:
  "load32 (irq_message p irq ticks m) (p + 4) = MSG_IRQ_NOTIFY" "load32 (irq_message p irq ticks m) (p + 8) = irq"
  "load32 (irq_message p irq ticks m) (p + 12) = ticks"
  by (simp_all add: irq_message_def Let_def load32_store32_disj)

lemma irq_num: "irq < 16 \<Longrightarrow> unat (32 + irq) = 32 + unat (irq :: u32)"
  by (subst unat_add_nowrap) (auto simp: word_less_nat_alt)

text \<open>C34. Hardware interrupts reach the server that asked for them: once a task has registered an
  interrupt line with \<^const>\<open>SYS_REGISTER_IRQ\<close>, an interrupt on that line, as long as the registration
  stands and the kernel has no handler of its own for it, is acknowledged at the controllers and
  delivered to the waiting task as a message from PID 0 that carries the line and the tick count,
  and makes the task ready.\<close>

theorem irq_routed:
  assumes "kernel_inv s" "syscall_handler drv regs s = Some (r, s1)" "reg_eax regs (mem s) = SYS_REGISTER_IRQ"
    and "reg_ebx regs (mem s) = irq" "irq < 16" "t_id (tasks s ! cur s) = pid" "pid \<noteq> 0"
    and "kernel_inv t" "irq_owners t = irq_owners s1" "task_get_by_pid pid t = Some d"
    and "t_state (tasks t ! d) = TASK_BLOCKED" "blocked_on (tasks t ! d) = BLOCKED_RECEIVE" "apart nbuf (msg_buf (tasks t ! d))"
    and "interrupt_handlers t ! (32 + unat irq) = None" "reg_int_no regs' (mem t) = 32 + irq"
  shows "\<exists>esp t'. irq_handler drv sc nbuf regs' t = Some ((if irq \<ge> 8 then [(0xA0, 0x20)] else []) @ [(0x20, 0x20)], Some esp, t')
    \<and> t_state (tasks t' ! d) = TASK_READY
    \<and> words (mem t') (msg_buf (tasks t ! d)) 4 = [0, MSG_IRQ_NOTIFY, irq, tick_count t]"
proof -
  note ti = kernel_inv_task [OF assms(1)]
  have own: "irq_get_owner irq t = pid"
  proof -
    have "length (irq_owners s) = 16" using assms(1) by (simp add: kernel_inv_def)
    moreover have "unat irq < 16" using assms(5) by (simp add: word_less_nat_alt)
    ultimately have "irq_owners s1 ! unat irq = pid"
      using assms(2-6) task_get_current_inv [OF ti]
      by (auto simp: syscall_handler_def sys_service_def sys_numbers set_eax_def upd_task_def Let_def)
    then show ?thesis using assms(5,9) by (simp add: irq_get_owner_def not_le [symmetric])
  qed
  let ?buf = "msg_buf (tasks t ! d)" and ?m = "irq_message nbuf irq (timer_get_ticks t) (mem t)"
  let ?t = "t\<lparr>mem := ?m\<rparr>"
  have pid: "task_get_by_pid pid ?t = Some d" using assms(10) by (simp add: task_get_by_pid_def)
  have ki: "ipc_inv ?t" using assms(8) by (simp add: kernel_inv_def ipc_inv_def)
  obtain x t1 where n: "ipc_notify pid nbuf ?t = (x, t1)" by force
  have len: "length (tasks t) = 32" and db: "d < 32"
    using kernel_inv_task [OF assms(8)] task_get_bound [OF kernel_inv_task [OF assms(8)] assms(10)] by (simp_all add: task_inv_def table_inv_def)
  have t1: "mem t1 = copy_message nbuf ?buf (store32 ?m nbuf 0)" "t_state (tasks t1 ! d) = TASK_READY"
    using n pid assms(11,12) len db by (auto simp: ipc_notify_def upd_task_def Let_def)
  have del: "delivered 0 nbuf ?buf ?m (mem t1)" unfolding t1(1) by (rule deliver(2) [OF assms(13)])
  have w: "words (mem t1) ?buf 4 = [0, MSG_IRQ_NOTIFY, irq, tick_count t]"
    using del delivered_words [OF del, of 1] delivered_words [OF del, of 2] delivered_words [OF del, of 3]
    by (simp add: words_def upt_rec irq_message_words timer_get_ticks_def delivered_def)
  obtain esp t' where pc: "task_preempt_check t1 = (esp, t')" by force
  then have t': "tasks t' = tasks t1" "mem t' = mem t1" by (auto simp: task_preempt_check_def split: if_splits)
  have ge: "40 \<le> 32 + irq \<longleftrightarrow> 8 \<le> irq" using assms(5) irq_num [OF assms(5)] by (simp add: word_le_nat_alt)
  have "irq_handler drv sc nbuf regs' t = Some ((if irq \<ge> 8 then [(0xA0, 0x20)] else []) @ [(0x20, 0x20)], Some esp, t')"
    using assms(5,7,14,15) own n pc irq_num [OF assms(5)] by (simp add: irq_handler_def Let_def ge)
  then show ?thesis using t' t1(2) w by auto
qed

text \<open>The server (PID 2) of the sample waits for messages at \<open>0x2000\<close>, and its registers ask for
  line 9.\<close>

definition irq_sample :: kernel_state where
  "irq_sample = kernel_sample\<lparr>current_task := 2, mem := store32 (store32 (\<lambda>_. 0) 0x9020 33) 0x9014 9,
     tasks := (tasks kernel_sample)[0 := task0\<lparr>active := True\<rparr>]\<rparr>"

definition irq_sample2 :: kernel_state where
  "irq_sample2 = irq_sample\<lparr>mem := store32 (\<lambda>_. 0) 0x8024 41, irq_owners := (replicate 16 0)[9 := 2], tick_count := 77,
     tasks := (tasks irq_sample)[2 := (tasks irq_sample ! 2)\<lparr>t_state := TASK_BLOCKED, blocked_on := BLOCKED_RECEIVE,
       receive_from := PID_ANY, msg_buf := 0x2000, owned_irqs := 512\<rparr>]\<rparr>"

lemma irq_sample_tasks:
  "i < 32 \<Longrightarrow> tasks irq_sample ! i = (if i = 0 then task0\<lparr>active := True\<rparr>
     else if i = 1 then task0\<lparr>active := True, t_id := 1\<rparr> else if i = 2 then task0\<lparr>active := True, t_id := 2\<rparr> else task0)"
  "length (tasks irq_sample) = 32"
  by (auto simp: irq_sample_def kernel_sample_sel ipc_sample_tasks nth_list_update)

lemma irq_sample_inv: "kernel_inv irq_sample" "kernel_inv irq_sample2"
proof -
  have "table_inv (tasks irq_sample) 2 3"
    unfolding table_inv_def irq_sample_tasks(2) by (auto simp: irq_sample_tasks(1) task0_def split: if_splits)
  then show k: "kernel_inv irq_sample"
    by (simp add: kernel_inv_def ipc_inv_def task_inv_def irq_sample_def kernel_sample_sel MAX_TASKS_def MSG_SIZE_def MAX_SERVICES_def)
  have "task_inv (upd_task 2 (\<lambda>t. t\<lparr>t_state := TASK_BLOCKED, blocked_on := BLOCKED_RECEIVE,
       receive_from := PID_ANY, msg_buf := 0x2000, owned_irqs := 512\<rparr>) irq_sample)"
    by (rule task_inv_upd_plain [OF kernel_inv_task [OF k]]) auto
  then have "task_inv irq_sample2" by (simp add: task_inv_def irq_sample2_def upd_task_def)
  then show "kernel_inv irq_sample2" using k
    by (simp add: kernel_inv_def ipc_inv_def irq_sample2_def)
qed

lemma irq_routed_witness:
  "\<exists>esp t'. irq_handler idle_drivers 0 0x5000 0x8000 irq_sample2 = Some ([(0xA0, 0x20), (0x20, 0x20)], Some esp, t')
     \<and> words (mem t') 0x2000 4 = [0, 100, 9, 77]"
proof -
  have r: "reg_eax 0x9000 (mem irq_sample) = SYS_REGISTER_IRQ" "reg_ebx 0x9000 (mem irq_sample) = 9"
    by (simp_all add: irq_sample_def reg_eax_def reg_ebx_def sys_numbers load32_store32_disj)
  have c: "cur irq_sample = 2" by (simp add: irq_sample_def)
  have cs: "task_get_current irq_sample = Some 2" by (simp add: task_get_current_def irq_sample_def)
  have o: "irq_owners irq_sample = replicate 16 0" by (simp add: irq_sample_def kernel_sample_sel)
  obtain s1 where s1: "syscall_handler idle_drivers 0x9000 irq_sample = Some (Done, s1)" "irq_owners s1 = irq_owners irq_sample2"
    using r cs o by (simp add: syscall_handler_def sys_service_def sys_numbers set_eax_def upd_task_def Let_def irq_sample_tasks)
      (simp add: irq_sample2_def)
  have t2: "tasks irq_sample2 ! 2 = (tasks irq_sample ! 2)\<lparr>t_state := TASK_BLOCKED, blocked_on := BLOCKED_RECEIVE,
       receive_from := PID_ANY, msg_buf := 0x2000, owned_irqs := 512\<rparr>"
    by (simp add: irq_sample2_def irq_sample_tasks)
  have pid: "task_get_by_pid 2 irq_sample2 = Some 2"
    using task_inv_pid_unique [OF kernel_inv_task [OF irq_sample_inv(2)], of 2] by (simp add: t2 irq_sample_tasks)
  have i: "interrupt_handlers irq_sample2 ! (32 + unat (9 :: u32)) = None" "reg_int_no 0x8000 (mem irq_sample2) = 32 + 9" "tick_count irq_sample2 = 77"
    by (simp_all add: irq_sample2_def irq_sample_def kernel_sample_sel reg_int_no_def)
  from irq_routed [OF irq_sample_inv(1) s1(1) r _ _ _ irq_sample_inv(2) s1(2) [symmetric] pid, of "0x5000" "0x8000" 0] i
  show ?thesis by (fastforce simp: c t2 irq_sample_tasks apart_def MSG_SIZE_def MSG_IRQ_NOTIFY_def)
qed

section \<open>Missing privilege checks\<close>

text \<open>\<^const>\<open>SYS_GRANT_IO\<close> is not a privileged operation: any task, also an unprivileged one in ring 3,
  gives itself (or any other task) the I/O privilege flag and is answered with success.\<close>

theorem grant_io_unchecked:
  assumes "kernel_inv s" "reg_eax regs (mem s) = SYS_GRANT_IO" "reg_ebx regs (mem s) = 0"
    and "active (tasks s ! cur s)" "is_user (tasks s ! cur s)" "\<not> io_privileged (tasks s ! cur s)"
  shows "\<exists>s'. syscall_handler drv regs s = Some (Done, s') \<and> io_privileged (tasks s' ! cur s) \<and> reg_eax regs (mem s') = 0"
proof -
  note t = kernel_inv_task [OF assms(1)]
  note d = cur_bound [OF t]
  have len: "length (tasks s) = 32" using t by (simp add: task_inv_def table_inv_def)
  note p = task_inv_pid_unique [OF t d assms(4)] and c = task_get_current_inv [OF t]
  show ?thesis using assms(2,3) p c d len
    by (simp add: syscall_handler_def sys_service_def sys_numbers set_eax_def upd_task_def reg_eax_def Let_def)
qed

lemma grant_io_unchecked_witness:
  "\<exists>s s' :: kernel_state. \<not> io_privileged (tasks s ! cur s) \<and> syscall_handler idle_drivers 0x9000 s = Some (Done, s') \<and> io_privileged (tasks s' ! cur s)"
proof -
  let ?s = "(upd_task 2 (\<lambda>t. t\<lparr>is_user := True\<rparr>) irq_sample)\<lparr>mem := store32 (\<lambda>_. 0) 0x9020 32\<rparr>"
  have "kernel_inv (upd_task 2 (\<lambda>t. t\<lparr>is_user := True\<rparr>) irq_sample)"
    by (rule kernel_inv_upd [OF irq_sample_inv(1)], rule task_inv_upd_plain [OF kernel_inv_task [OF irq_sample_inv(1)]]) simp_all
  then have k: "kernel_inv ?s" by simp
  have r: "reg_eax 0x9000 (mem ?s) = SYS_GRANT_IO" "reg_ebx 0x9000 (mem ?s) = 0"
    by (simp_all add: reg_eax_def reg_ebx_def sys_numbers load32_store32_disj) (simp add: load32_def)
  have c: "cur ?s = 2" "tasks ?s ! 2 = task0\<lparr>active := True, t_id := 2, is_user := True\<rparr>"
    by (simp_all add: irq_sample_def [of] upd_task_nth irq_sample_tasks) (simp_all add: irq_sample_def kernel_sample_sel ipc_sample_tasks upd_task_def)
  have f: "active (tasks ?s ! cur ?s)" "is_user (tasks ?s ! cur ?s)" "\<not> io_privileged (tasks ?s ! cur ?s)"
    unfolding c by (simp_all add: task0_def)
  from grant_io_unchecked [OF k r f] f(3) show ?thesis by blast
qed

end
