(* ===== verification/Ramfs.thy ===== *)
theory Ramfs
  imports Syscall
begin

text \<open>
  The file system in memory, \<^verbatim>\<open>src/ramfs.c\<close>.  The nodes are an array of 64; the contents of a file
  are an area of the kernel heap.  Paths are C strings; the fixed arrays the code copies them to are
  lists of their length, and an operation whose copy would run past its array has the result \<open>None\<close>.
  The file systems on disk and \<^verbatim>\<open>/proc\<close>, to which some paths are passed on, are the functions of the
  record \<open>disks\<close>.
\<close>

section \<open>State\<close>

definition RAMFS_MAX_FILES :: nat where "RAMFS_MAX_FILES = 64"
definition RAMFS_MAX_NAME :: nat where "RAMFS_MAX_NAME = 32"
definition RAMFS_MAX_DATA :: u32 where "RAMFS_MAX_DATA = 50 * 1024 * 1024"
definition RAMFS_MAX_PATH :: nat where "RAMFS_MAX_PATH = 128"

datatype ramfs_type_t = RAMFS_FILE | RAMFS_DIR

record ramfs_node =
  n_active :: bool
  n_name :: string
  n_type :: ramfs_type_t
  n_data :: u32
  n_size :: u32
  n_capacity :: u32
  n_parent :: int
  n_created :: u32
  n_modified :: u32

record fs_state = kernel_state +
  nodes :: "ramfs_node list"
  cwd :: string

text \<open>The other file systems: FAT16 and NTFS on a drive, and \<^verbatim>\<open>/proc\<close>.\<close>

record 's disks =
  fat16_is_mounted :: "'s \<Rightarrow> bool"
  fat16_get_drive_idx :: "'s \<Rightarrow> int"
  fat16_mkdir :: "string \<Rightarrow> 's \<Rightarrow> int \<times> 's"
  fat16_write_file :: "string \<Rightarrow> u32 \<Rightarrow> u32 \<Rightarrow> 's \<Rightarrow> int \<times> 's"
  fat16_read_file :: "string \<Rightarrow> u32 \<Rightarrow> u32 \<Rightarrow> 's \<Rightarrow> int \<times> 's"
  fat16_delete_file :: "string \<Rightarrow> 's \<Rightarrow> int \<times> 's"
  fat16_is_dir :: "string \<Rightarrow> 's \<Rightarrow> bool"
  fat16_file_size :: "string \<Rightarrow> 's \<Rightarrow> int"
  ntfs_is_mounted :: "'s \<Rightarrow> bool"
  ntfs_get_drive_idx :: "'s \<Rightarrow> int"
  ntfs_mkdir :: "string \<Rightarrow> 's \<Rightarrow> int \<times> 's"
  ntfs_write_file :: "string \<Rightarrow> u32 \<Rightarrow> u32 \<Rightarrow> 's \<Rightarrow> int \<times> 's"
  ntfs_read_file :: "string \<Rightarrow> u32 \<Rightarrow> u32 \<Rightarrow> 's \<Rightarrow> int \<times> 's"
  ntfs_delete_file :: "string \<Rightarrow> 's \<Rightarrow> int \<times> 's"
  ntfs_is_dir :: "string \<Rightarrow> 's \<Rightarrow> bool"
  ntfs_file_size :: "string \<Rightarrow> 's \<Rightarrow> int"
  procfs_read :: "string \<Rightarrow> u32 \<Rightarrow> u32 \<Rightarrow> 's \<Rightarrow> int \<times> 's"
  procfs_stat :: "string \<Rightarrow> 's \<Rightarrow> int \<times> (ramfs_type_t \<times> u32) option"

definition procfs_is_virtual :: "string \<Rightarrow> bool" where
  "procfs_is_virtual path \<longleftrightarrow> strncmp path ''/proc'' 5 = 0"

definition upd_node :: "nat \<Rightarrow> (ramfs_node \<Rightarrow> ramfs_node) \<Rightarrow> 'a fs_state_scheme \<Rightarrow> 'a fs_state_scheme" where
  "upd_node i f s = s\<lparr>nodes := (nodes s)[i := f (nodes s ! i)]\<rparr>"

abbreviation node :: "'a fs_state_scheme \<Rightarrow> int \<Rightarrow> ramfs_node" where
  "node s i \<equiv> nodes s ! nat i"

section \<open>Paths\<close>

definition match_disk :: "string \<Rightarrow> nat \<times> string" where
  "match_disk resolved =
     (if strncmp resolved ''/disk2'' 6 = 0 \<and> deref (drop 6 resolved) = NUL then (2, ''/'')
      else if strncmp resolved ''/disk2'' 6 = 0 \<and> deref (drop 6 resolved) = CHR ''/'' then (2, drop 6 resolved)
      else if strncmp resolved ''/disk'' 5 = 0 \<and> deref (drop 5 resolved) = NUL then (1, ''/'')
      else if strncmp resolved ''/disk'' 5 = 0 \<and> deref (drop 5 resolved) = CHR ''/'' then (1, drop 5 resolved)
      else (0, []))"

definition match_disk_content :: "string \<Rightarrow> nat \<times> string" where
  "match_disk_content resolved =
     (if strncmp resolved ''/disk2/'' 7 = 0 \<and> deref (drop 7 resolved) \<noteq> NUL then (2, drop 6 resolved)
      else if strncmp resolved ''/disk/'' 6 = 0 \<and> deref (drop 6 resolved) \<noteq> NUL then (1, drop 5 resolved)
      else (0, []))"

definition is_fat16_on :: "'s disks \<Rightarrow> int \<Rightarrow> 's \<Rightarrow> bool" where
  "is_fat16_on d drv s \<longleftrightarrow> fat16_is_mounted d s \<and> fat16_get_drive_idx d s = drv"

definition is_ntfs_on :: "'s disks \<Rightarrow> int \<Rightarrow> 's \<Rightarrow> bool" where
  "is_ntfs_on d drv s \<longleftrightarrow> ntfs_is_mounted d s \<and> ntfs_get_drive_idx d s = drv"

text \<open>The array \<open>out\<close> is filled with the absolute form of the path.  An empty \<open>cwd\<close> would make the code
  read before the array.\<close>

definition ramfs_resolve_path :: "string \<Rightarrow> string \<Rightarrow> 'a fs_state_scheme \<Rightarrow> string option" where
  "ramfs_resolve_path input out s =
     do { out \<leftarrow> (if deref input = CHR ''/'' then strcpy out input
                  else do { out \<leftarrow> strcpy out (cwd s);
                            out \<leftarrow> (if strlen out = 0 then None
                                    else if out ! (strlen out - 1) \<noteq> CHR ''/'' then strcat out ''/'' else Some out);
                            strcat out input });
          let len = strlen out;
          Some (if len > 1 \<and> out ! (len - 1) = CHR ''/'' then out[len - 1 := NUL] else out) }"

abbreviation resolve :: "string \<Rightarrow> 'a fs_state_scheme \<Rightarrow> string option" where
  "resolve path s \<equiv> ramfs_resolve_path path (replicate RAMFS_MAX_PATH NUL) s"

text \<open>The loop that copies one component, with room for so many characters; and the index of a child.\<close>

fun take_component :: "nat \<Rightarrow> string \<Rightarrow> string \<times> string" where
  "take_component 0 p = ([], p)"
| "take_component (Suc n) [] = ([], [])"
| "take_component (Suc n) (c # p) =
     (if c = NUL \<or> c = CHR ''/'' then ([], c # p)
      else let (w, r) = take_component n p in (c # w, r))"

definition find_child :: "ramfs_node list \<Rightarrow> int \<Rightarrow> string \<Rightarrow> nat option" where
  "find_child ns dir name = find_slot (\<lambda>n. n_active n \<and> n_parent n = dir \<and> strcmp (n_name n) name = 0) ns"

lemma take_component_length: "take_component n p = (w, r) \<Longrightarrow> length w + length r = length p"
  by (induction n p arbitrary: w r rule: take_component.induct) (auto split: if_splits prod.splits)

lemma take_component_shorter:
  assumes "take_component (Suc n) p = (w, r)" "deref p \<noteq> NUL"
  shows "length (if deref r = CHR ''/'' then tl r else r) < length p"
proof (cases p)
  case (Cons c q)
  with assms take_component_length [OF assms(1)] show ?thesis
    by (cases r) (auto split: if_splits prod.splits)
qed (use assms in simp)

text \<open>One component and the rest of the path after its slash.\<close>

definition next_component :: "string \<Rightarrow> string \<times> string" where
  "next_component p =
     (let (component, r) = take_component (RAMFS_MAX_NAME - 1) p
      in (component, if deref r = CHR ''/'' then tl r else r))"

lemma next_component_shorter: "next_component p = (w, r) \<Longrightarrow> deref p \<noteq> NUL \<Longrightarrow> length r < length p"
  using take_component_shorter [of 30 p]
  by (auto simp: next_component_def RAMFS_MAX_NAME_def Let_def split: prod.splits)

function find_loop :: "ramfs_node list \<Rightarrow> int \<Rightarrow> string \<Rightarrow> int" where
  "find_loop ns current p =
     (if deref p = NUL then current
      else let (component, p) = next_component p
           in if strcmp component ''.'' = 0 then find_loop ns current p
              else if strcmp component ''..'' = 0
              then find_loop ns (if n_parent (ns ! nat current) \<ge> 0 then n_parent (ns ! nat current) else current) p
              else case find_child ns current component of
                     None \<Rightarrow> -1
                   | Some i \<Rightarrow> find_loop ns (int i) p)"
  by pat_completeness auto
termination
  by (relation "measure (\<lambda>(ns, c, p). length p)") (auto dest: next_component_shorter sym)

declare find_loop.simps [simp del]

definition ramfs_find :: "string \<Rightarrow> 'a fs_state_scheme \<Rightarrow> int option" where
  "ramfs_find path s =
     do { resolved \<leftarrow> resolve path s;
          Some (if strcmp resolved ''/'' = 0 then 0 else find_loop (nodes s) 0 (tl resolved)) }"

text \<open>The index of the last slash, or 0.\<close>

fun last_slash :: "nat \<Rightarrow> nat \<Rightarrow> string \<Rightarrow> nat" where
  "last_slash i found [] = found"
| "last_slash i found (c # p) = (if c = NUL then found else last_slash (Suc i) (if c = CHR ''/'' then i else found) p)"

definition parse_path :: "string \<Rightarrow> string \<Rightarrow> 'a fs_state_scheme \<Rightarrow> (int \<times> string) option" where
  "parse_path path filename s =
     do { resolved \<leftarrow> resolve path s;
          let slash = last_slash 0 0 resolved;
          filename \<leftarrow> strcpy filename (drop (slash + 1) resolved);
          if slash = 0 \<and> resolved ! 0 = CHR ''/'' then Some (0, filename)
          else do { let plen = (if slash = 0 then 1 else slash);
                    let parent_path = (strncpy (replicate RAMFS_MAX_PATH NUL) resolved plen)[plen := NUL];
                    parent \<leftarrow> ramfs_find parent_path s;
                    Some (parent, filename) } }"

section \<open>Operations\<close>

definition node0 :: ramfs_node where
  "node0 = \<lparr>n_active = False, n_name = replicate RAMFS_MAX_NAME NUL, n_type = RAMFS_FILE, n_data = 0, n_size = 0,
     n_capacity = 0, n_parent = 0, n_created = 0, n_modified = 0\<rparr>"

definition ramfs_init :: "'a fs_state_scheme \<Rightarrow> 'a fs_state_scheme" where
  "ramfs_init s = s\<lparr>nodes := (replicate RAMFS_MAX_FILES node0)
     [0 := node0\<lparr>n_active := True, n_name := CHR ''/'' # replicate (RAMFS_MAX_NAME - 1) NUL, n_type := RAMFS_DIR, n_data := 0,
        n_capacity := 0, n_parent := -1, n_created := timer_get_ticks s, n_modified := timer_get_ticks s\<rparr>]\<rparr>"

definition ramfs_create :: "'a fs_state_scheme disks \<Rightarrow> string \<Rightarrow> ramfs_type_t \<Rightarrow> 'a fs_state_scheme \<Rightarrow> (int \<times> 'a fs_state_scheme) option" where
  "ramfs_create d path type s =
     do { resolved \<leftarrow> resolve path s;
          let (dm, dp) = match_disk_content resolved;
          let drv = int dm - 1;
          if dm \<noteq> 0 \<and> type = RAMFS_DIR \<and> is_fat16_on d drv s then Some (fat16_mkdir d dp s)
          else if dm \<noteq> 0 \<and> type = RAMFS_DIR \<and> is_ntfs_on d drv s then Some (ntfs_mkdir d dp s)
          else do {
            (parent, filename) \<leftarrow> parse_path path (replicate RAMFS_MAX_NAME NUL) s;
            if parent < 0 \<or> strlen filename = 0 then Some (-1, s)
            else if n_type (node s parent) \<noteq> RAMFS_DIR then Some (-2, s)
            else if find_child (nodes s) parent filename \<noteq> None then Some (-3, s)
            else case find_slot (\<lambda>n. \<not> n_active n) (tl (nodes s)) of
                   None \<Rightarrow> Some (-4, s)
                 | Some j \<Rightarrow>
                     do { let i = Suc j;
                          name \<leftarrow> strcpy (n_name (nodes s ! i)) filename;
                          Some (int i, upd_node i (\<lambda>n. n\<lparr>n_active := True, n_name := name, n_type := type, n_parent := parent,
                            n_size := 0, n_data := 0, n_capacity := 0, n_created := timer_get_ticks s, n_modified := timer_get_ticks s\<rparr>) s) } } }"

text \<open>The part of \<open>ramfs_write\<close> after the node is known: a larger area when the old one is too small, then
  the copy.\<close>

definition write_node :: "nat \<Rightarrow> u32 \<Rightarrow> u32 \<Rightarrow> 'a fs_state_scheme \<Rightarrow> (int \<times> 'a fs_state_scheme) option" where
  "write_node idx data size0 s =
     (let size = (if size0 > RAMFS_MAX_DATA then RAMFS_MAX_DATA else size0) in
      do { (ok, s) \<leftarrow>
             (if size > n_capacity (nodes s ! idx) then
                do { s \<leftarrow> (if n_data (nodes s ! idx) \<noteq> 0 then kfree (n_data (nodes s ! idx)) s else Some s);
                     (p, s) \<leftarrow> kmalloc size s;
                     let s = upd_node idx (\<lambda>n. n\<lparr>n_data := p\<rparr>) s;
                     Some (if p = 0 then (False, upd_node idx (\<lambda>n. n\<lparr>n_capacity := 0, n_size := 0\<rparr>) s)
                           else (True, upd_node idx (\<lambda>n. n\<lparr>n_capacity := size\<rparr>) s)) }
              else Some (True, s));
           if \<not> ok then Some (-5, s)
           else do { let s = s\<lparr>mem := memcpy (mem s) (n_data (nodes s ! idx)) data (unat size)\<rparr>;
                     Some (sint size, upd_node idx (\<lambda>n. n\<lparr>n_size := size, n_modified := timer_get_ticks s\<rparr>) s) } })"

definition ramfs_write :: "'a fs_state_scheme disks \<Rightarrow> string \<Rightarrow> u32 \<Rightarrow> u32 \<Rightarrow> 'a fs_state_scheme \<Rightarrow> (int \<times> 'a fs_state_scheme) option" where
  "ramfs_write d path data sz s =
     do { resolved \<leftarrow> resolve path s;
          let (dm, dp) = match_disk_content resolved;
          let drv = int dm - 1;
          if dm \<noteq> 0 \<and> is_fat16_on d drv s then Some (fat16_write_file d dp data sz s)
          else if dm \<noteq> 0 \<and> is_ntfs_on d drv s then Some (ntfs_write_file d dp data sz s)
          else do {
            idx \<leftarrow> ramfs_find path s;
            (idx, s) \<leftarrow> (if idx < 0 then ramfs_create d path RAMFS_FILE s else Some (idx, s));
            if idx < 0 then Some (idx, s)
            else if n_type (node s idx) \<noteq> RAMFS_FILE then Some (-1, s)
            else write_node (nat idx) data sz s } }"

text \<open>The part of \<open>ramfs_append\<close> for a file that exists.\<close>

definition append_node :: "nat \<Rightarrow> u32 \<Rightarrow> u32 \<Rightarrow> 'a fs_state_scheme \<Rightarrow> (int \<times> 'a fs_state_scheme) option" where
  "append_node idx data sz s =
     (let n = nodes s ! idx;
          new_size = (if n_size n + sz > RAMFS_MAX_DATA then RAMFS_MAX_DATA else n_size n + sz);
          to_add = new_size - n_size n
      in do { (ok, s) \<leftarrow>
                (if new_size > n_capacity n then
                   do { (p, s) \<leftarrow> kmalloc new_size s;
                        if p = 0 then Some (False, s)
                        else do { let s = (if n_data n \<noteq> 0 \<and> n_size n > 0
                                           then s\<lparr>mem := memcpy (mem s) p (n_data n) (unat (n_size n))\<rparr> else s);
                                  s \<leftarrow> (if n_data n \<noteq> 0 then kfree (n_data n) s else Some s);
                                  Some (True, upd_node idx (\<lambda>n. n\<lparr>n_data := p, n_capacity := new_size\<rparr>) s) } }
                 else Some (True, s));
              if \<not> ok then Some (-5, s)
              else do { let s = s\<lparr>mem := memcpy (mem s) (n_data (nodes s ! idx) + n_size n) data (unat to_add)\<rparr>;
                        Some (sint to_add, upd_node idx (\<lambda>n. n\<lparr>n_size := new_size, n_modified := timer_get_ticks s\<rparr>) s) } })"

definition ramfs_append :: "'a fs_state_scheme disks \<Rightarrow> string \<Rightarrow> u32 \<Rightarrow> u32 \<Rightarrow> 'a fs_state_scheme \<Rightarrow> (int \<times> 'a fs_state_scheme) option" where
  "ramfs_append d path data sz s =
     do { idx \<leftarrow> ramfs_find path s;
          if idx < 0 then ramfs_write d path data sz s
          else if n_type (node s idx) \<noteq> RAMFS_FILE then Some (-1, s)
          else append_node (nat idx) data sz s }"

definition ramfs_read :: "'a fs_state_scheme disks \<Rightarrow> string \<Rightarrow> u32 \<Rightarrow> u32 \<Rightarrow> 'a fs_state_scheme \<Rightarrow> (int \<times> 'a fs_state_scheme) option" where
  "ramfs_read d path buf mx s =
     do { resolved \<leftarrow> resolve path s;
          if procfs_is_virtual resolved then Some (procfs_read d resolved buf mx s)
          else do {
            let (dm, dp) = match_disk resolved;
            let drv = int dm - 1;
            if dm \<noteq> 0 \<and> is_fat16_on d drv s then Some (fat16_read_file d dp buf mx s)
            else if dm \<noteq> 0 \<and> is_ntfs_on d drv s then Some (ntfs_read_file d dp buf mx s)
            else do {
              idx \<leftarrow> ramfs_find path s;
              if idx < 0 \<or> n_type (node s idx) \<noteq> RAMFS_FILE then Some (-1, s)
              else if n_data (node s idx) = 0 then Some (0, s)
              else let to_read = (if n_size (node s idx) < mx then n_size (node s idx) else mx)
                   in Some (sint to_read, s\<lparr>mem := memcpy (mem s) buf (n_data (node s idx)) (unat to_read)\<rparr>) } } }"

definition ramfs_delete :: "'a fs_state_scheme disks \<Rightarrow> string \<Rightarrow> 'a fs_state_scheme \<Rightarrow> (int \<times> 'a fs_state_scheme) option" where
  "ramfs_delete d path s =
     do { resolved \<leftarrow> resolve path s;
          let (dm, dp) = match_disk_content resolved;
          let drv = int dm - 1;
          if dm \<noteq> 0 \<and> is_fat16_on d drv s then Some (fat16_delete_file d dp s)
          else if dm \<noteq> 0 \<and> is_ntfs_on d drv s then Some (ntfs_delete_file d dp s)
          else do {
            idx \<leftarrow> ramfs_find path s;
            if idx \<le> 0 then Some (-1, s)
            else if n_type (node s idx) = RAMFS_DIR \<and> list_ex (\<lambda>n. n_active n \<and> n_parent n = idx) (nodes s) then Some (-2, s)
            else do { s \<leftarrow> (if n_data (node s idx) \<noteq> 0 then kfree (n_data (node s idx)) s else Some s);
                      Some (0, upd_node (nat idx) (\<lambda>n. n\<lparr>n_data := 0, n_capacity := 0, n_active := False\<rparr>) s) } } }"

text \<open>The type and size are stored only when the result is 0.\<close>

definition disk_stat :: "(string \<Rightarrow> 's \<Rightarrow> bool) \<Rightarrow> (string \<Rightarrow> 's \<Rightarrow> int) \<Rightarrow> string \<Rightarrow> 's \<Rightarrow> int \<times> (ramfs_type_t \<times> u32) option" where
  "disk_stat is_dir file_size dp s =
     (if strcmp dp ''/'' = 0 \<or> is_dir dp s then (0, Some (RAMFS_DIR, 0))
      else if file_size dp s \<ge> 0 then (0, Some (RAMFS_FILE, word_of_int (file_size dp s)))
      else (-1, None))"

definition ramfs_stat :: "'a fs_state_scheme disks \<Rightarrow> string \<Rightarrow> 'a fs_state_scheme \<Rightarrow> (int \<times> (ramfs_type_t \<times> u32) option) option" where
  "ramfs_stat d path s =
     do { resolved \<leftarrow> resolve path s;
          if procfs_is_virtual resolved \<and> strlen resolved > 5 then Some (procfs_stat d resolved s)
          else do {
            let (dm, dp) = match_disk resolved;
            let drv = int dm - 1;
            if dm \<noteq> 0 \<and> is_fat16_on d drv s then Some (disk_stat (fat16_is_dir d) (fat16_file_size d) dp s)
            else if dm \<noteq> 0 \<and> is_ntfs_on d drv s then Some (disk_stat (ntfs_is_dir d) (ntfs_file_size d) dp s)
            else do {
              idx \<leftarrow> ramfs_find path s;
              Some (if idx < 0 then (-1, None) else (0, Some (n_type (node s idx), n_size (node s idx)))) } } }"

definition ramfs_set_cwd :: "string \<Rightarrow> 'a fs_state_scheme \<Rightarrow> 'a fs_state_scheme option" where
  "ramfs_set_cwd path s =
     do { resolved \<leftarrow> resolve path s;
          idx \<leftarrow> ramfs_find resolved s;
          if idx \<ge> 0 \<and> n_type (node s idx) = RAMFS_DIR
          then do { c \<leftarrow> strcpy (cwd s) resolved; Some (s\<lparr>cwd := c\<rparr>) }
          else Some s }"

definition ramfs_get_cwd :: "'a fs_state_scheme \<Rightarrow> string" where
  "ramfs_get_cwd s = cwd s"

definition ramfs_file_count :: "'a fs_state_scheme \<Rightarrow> u32" where
  "ramfs_file_count s = of_nat (count_slots n_active (nodes s))"

definition ramfs_total_size :: "'a fs_state_scheme \<Rightarrow> u32" where
  "ramfs_total_size s = fold (\<lambda>n c. if n_active n \<and> n_type n = RAMFS_FILE then c + n_size n else c) (nodes s) 0"

definition ramfs_rename :: "string \<Rightarrow> string \<Rightarrow> 'a fs_state_scheme \<Rightarrow> (int \<times> 'a fs_state_scheme) option" where
  "ramfs_rename old_path new_path s =
     do { src \<leftarrow> ramfs_find old_path s;
          if src \<le> 0 then Some (-1, s)
          else do {
            (new_parent, new_name) \<leftarrow> parse_path new_path (replicate RAMFS_MAX_NAME NUL) s;
            if new_parent < 0 \<or> strlen new_name = 0 then Some (-2, s)
            else if n_type (node s new_parent) \<noteq> RAMFS_DIR then Some (-3, s)
            else if find_child (nodes s) new_parent new_name \<noteq> None then Some (-4, s)
            else Some (0, upd_node (nat src) (\<lambda>n. n\<lparr>
                   n_name := (strncpy (n_name n) new_name (RAMFS_MAX_NAME - 1))[RAMFS_MAX_NAME - 1 := NUL],
                   n_parent := new_parent, n_modified := timer_get_ticks s\<rparr>) s) } }"

definition ramfs_get_node :: "int \<Rightarrow> 'a fs_state_scheme \<Rightarrow> nat option" where
  "ramfs_get_node idx s =
     (if idx < 0 \<or> idx \<ge> int RAMFS_MAX_FILES then None
      else if \<not> n_active (node s idx) then None else Some (nat idx))"

text \<open>The names on the way to the root, at most so many, the last one first in the array \<^verbatim>\<open>parts\<close> and
  last in this list.\<close>

fun path_parts :: "nat \<Rightarrow> int \<Rightarrow> ramfs_node list \<Rightarrow> string list" where
  "path_parts 0 c ns = []"
| "path_parts (Suc k) c ns =
     (if c > 0 then path_parts k (n_parent (ns ! nat c)) ns @ [n_name (ns ! nat c)] else [])"

fun join_parts :: "string list \<Rightarrow> u32 \<Rightarrow> string \<Rightarrow> string option" where
  "join_parts [] mx buf = Some buf"
| "join_parts (part # parts) mx buf =
     (if strlen buf + strlen part + 2 < unat mx
      then do { buf \<leftarrow> strcat buf ''/''; buf \<leftarrow> strcat buf part; join_parts parts mx buf }
      else join_parts parts mx buf)"

definition ramfs_get_path :: "int \<Rightarrow> string \<Rightarrow> u32 \<Rightarrow> 'a fs_state_scheme \<Rightarrow> string option" where
  "ramfs_get_path idx buf mx s =
     (if idx < 0 \<or> idx \<ge> int RAMFS_MAX_FILES \<or> \<not> n_active (node s idx) then (if buf = [] then None else Some (buf[0 := NUL]))
      else if idx = 0 then strcpy buf ''/''
      else if buf = [] then None
      else do { buf \<leftarrow> join_parts (path_parts 8 idx (nodes s)) mx (buf[0 := NUL]);
                if deref buf = NUL then strcpy buf ''/'' else Some buf })"

section \<open>Lookup as a walk\<close>

text \<open>A path as the list of its components.\<close>

definition valid_name :: "string \<Rightarrow> bool" where
  "valid_name nm \<longleftrightarrow> nm \<noteq> [] \<and> length nm < RAMFS_MAX_NAME \<and> NUL \<notin> set nm \<and> CHR ''/'' \<notin> set nm \<and> nm \<noteq> ''.'' \<and> nm \<noteq> ''..''"

fun tail_of :: "string list \<Rightarrow> string" where
  "tail_of [] = []"
| "tail_of (nm # cs) = CHR ''/'' # nm @ tail_of cs"

definition path_of :: "string list \<Rightarrow> string" where
  "path_of cs = (if cs = [] then ''/'' else tail_of cs)"

definition path_ok :: "string list \<Rightarrow> bool" where
  "path_ok cs \<longleftrightarrow> list_all valid_name cs \<and> length (path_of cs) < RAMFS_MAX_PATH"

fun walk :: "ramfs_node list \<Rightarrow> nat \<Rightarrow> string list \<Rightarrow> nat option" where
  "walk ns c [] = Some c"
| "walk ns c (nm # cs) = (case find_child ns (int c) nm of None \<Rightarrow> None | Some i \<Rightarrow> walk ns i cs)"

definition idx_of :: "nat option \<Rightarrow> int" where
  "idx_of x = (case x of None \<Rightarrow> -1 | Some i \<Rightarrow> int i)"

lemma idx_of_simps [simp]: "idx_of None = -1" "idx_of (Some i) = int i" "idx_of x < 0 \<longleftrightarrow> x = None"
  by (simp_all add: idx_of_def split: option.splits)

lemma walk_append: "walk ns c (xs @ ys) = (case walk ns c xs of None \<Rightarrow> None | Some i \<Rightarrow> walk ns i ys)"
  by (induction xs arbitrary: c) (auto split: option.splits)

lemma tail_of_append: "tail_of (xs @ ys) = tail_of xs @ tail_of ys"
  by (induction xs) auto

lemma NUL_tail_of: "list_all valid_name cs \<Longrightarrow> NUL \<notin> set (tail_of cs)"
  by (induction cs) (auto simp: valid_name_def)

lemma NUL_path_of: "list_all valid_name cs \<Longrightarrow> NUL \<notin> set (path_of cs)"
  by (simp add: path_of_def NUL_tail_of)

lemma deref_path_of [simp]: "deref (path_of cs) = CHR ''/''"
  by (cases cs) (simp_all add: path_of_def)

lemma deref_c_str: "deref (c_str p) = deref p"
  by (cases p) auto

lemma tail_of_last: "cs \<noteq> [] \<Longrightarrow> list_all valid_name cs \<Longrightarrow> last (tail_of cs) \<noteq> CHR ''/''"
proof (induction cs)
  case (Cons nm cs)
  then show ?case by (cases cs) (auto simp: valid_name_def last_append dest: last_in_set)
qed simp

lemma c_str_NULs [simp]: "c_str (replicate n NUL) = []" "deref (replicate n NUL) = NUL"
  by (cases n, simp_all)+

lemma resolve_path_of:
  assumes "c_str p = path_of cs" "path_ok cs"
  shows "resolve p s = Some (path_of cs @ replicate (RAMFS_MAX_PATH - length (path_of cs)) NUL)"
proof -
  let ?r = "path_of cs @ NUL # replicate (RAMFS_MAX_PATH - Suc (length (path_of cs))) NUL"
  have len: "length (path_of cs) < RAMFS_MAX_PATH" using assms(2) by (simp add: path_ok_def)
  have n: "NUL \<notin> set (path_of cs)" using assms(2) by (simp add: path_ok_def NUL_path_of)
  have d: "deref p = CHR ''/''" using deref_c_str [of p] assms(1) by simp
  have c: "strcpy (replicate RAMFS_MAX_PATH NUL) p = Some ?r" using len by (simp add: strcpy_eq assms(1))
  have l: "strlen ?r = length (path_of cs)" using n by (simp add: strlen_c_str c_str_append)
  have "?r ! (length (path_of cs) - 1) \<noteq> CHR ''/''" if "1 < length (path_of cs)"
  proof -
    have "cs \<noteq> []" using that by (auto simp: path_of_def)
    then have "last (path_of cs) \<noteq> CHR ''/''" "path_of cs \<noteq> []"
      using tail_of_last [of cs] assms(2) by (auto simp: path_ok_def path_of_def elim: tail_of.elims)
    then show ?thesis by (simp add: nth_append last_conv_nth)
  qed
  moreover have "?r = path_of cs @ replicate (RAMFS_MAX_PATH - length (path_of cs)) NUL"
    using len by (metis Suc_diff_Suc replicate_Suc)
  ultimately show ?thesis using d c l by (auto simp: ramfs_resolve_path_def Let_def)
qed

lemma take_component_name:
  assumes "length nm \<le> n" "NUL \<notin> set nm" "CHR ''/'' \<notin> set nm" "deref r = NUL \<or> deref r = CHR ''/''"
  shows "take_component n (nm @ r) = (nm, r)"
  using assms
proof (induction nm arbitrary: n)
  case Nil
  then show ?case by (cases n; cases r) auto
next
  case (Cons c nm)
  then show ?case by (cases n) auto
qed

lemma next_component_name:
  assumes "valid_name nm" "deref r = NUL \<or> deref r = CHR ''/''"
  shows "next_component (nm @ r) = (nm, if deref r = CHR ''/'' then tl r else r)"
proof -
  have "length nm \<le> RAMFS_MAX_NAME - 1" using assms(1) by (auto simp: valid_name_def)
  then have "take_component (RAMFS_MAX_NAME - 1) (nm @ r) = (nm, r)"
    using take_component_name [of nm "RAMFS_MAX_NAME - 1" r] assms by (simp add: valid_name_def)
  then show ?thesis by (simp add: next_component_def)
qed

lemma find_loop_walk:
  assumes "list_all valid_name (nm # cs)" "deref z = NUL"
  shows "find_loop ns (int c) (nm @ tail_of cs @ z) = idx_of (walk ns c (nm # cs))"
  using assms
proof (induction cs arbitrary: nm c)
  case Nil
  have d: "deref (nm @ z) \<noteq> NUL" using Nil by (cases nm) (auto simp: valid_name_def)
  show ?case using Nil next_component_name [of nm z] d
    by (subst find_loop.simps) (auto simp: strcmp_eq_0 valid_name_def c_str_id find_loop.simps split: option.splits)
next
  case (Cons m cs)
  let ?r = "m @ tail_of cs @ z"
  have d: "deref (nm @ CHR ''/'' # ?r) \<noteq> NUL" using Cons by (cases nm) (auto simp: valid_name_def)
  have n: "next_component (nm @ CHR ''/'' # ?r) = (nm, ?r)" using Cons.prems next_component_name [of nm "CHR ''/'' # ?r"] by simp
  have "find_loop ns (int c) (nm @ CHR ''/'' # ?r) = (case find_child ns (int c) nm of None \<Rightarrow> -1 | Some i \<Rightarrow> find_loop ns (int i) ?r)"
    using Cons.prems d n by (subst find_loop.simps) (simp add: strcmp_eq_0 valid_name_def c_str_id)
  then show ?case using Cons.IH [of m] Cons.prems by (auto split: option.splits)
qed

text \<open>\<open>ramfs_find\<close> follows the components of an absolute path from the root.\<close>

lemma ramfs_find_walk:
  assumes "c_str p = path_of cs" "path_ok cs"
  shows "ramfs_find p s = Some (idx_of (walk (nodes s) 0 cs))"
proof (cases cs)
  case Nil
  then show ?thesis using resolve_path_of [OF assms, of s]
    by (simp add: ramfs_find_def strcmp_eq_0 path_of_def RAMFS_MAX_PATH_def c_str_append)
next
  case (Cons nm cs')
  let ?z = "replicate (RAMFS_MAX_PATH - length (path_of cs)) NUL"
  have z: "deref ?z = NUL" by simp
  have v: "list_all valid_name (nm # cs')" using assms(2) Cons by (simp add: path_ok_def)
  have "c_str (path_of cs @ ?z) \<noteq> ''/''"
    using v Cons NUL_path_of [of cs] by (auto simp: c_str_append path_of_def valid_name_def)
  then show ?thesis using resolve_path_of [OF assms, of s] find_loop_walk [OF v z, of "nodes s" 0] Cons
    by (simp add: ramfs_find_def strcmp_eq_0 path_of_def)
qed

lemma last_slash_skip: "NUL \<notin> set w \<Longrightarrow> CHR ''/'' \<notin> set w \<Longrightarrow> last_slash i f (w @ r) = last_slash (i + length w) f r"
  by (induction w arbitrary: i) auto

lemma last_slash_NULs: "last_slash i f (replicate k NUL) = f"
  by (cases k) auto

lemma last_slash_tail:
  assumes "list_all valid_name (cs @ [nm])"
  shows "last_slash i f (tail_of (cs @ [nm]) @ replicate k NUL) = i + length (tail_of cs)"
  using assms
proof (induction cs arbitrary: i f)
  case Nil
  then show ?case using last_slash_skip [of nm "Suc i" i "replicate k NUL"] by (simp add: valid_name_def last_slash_NULs)
next
  case (Cons m cs)
  then show ?case using last_slash_skip [of m "Suc i" i "tail_of (cs @ [nm]) @ replicate k NUL"]
    by (simp add: valid_name_def)
qed

lemma path_ok_butlast: "path_ok (cs @ [nm]) \<Longrightarrow> path_ok cs"
  by (auto simp: path_ok_def path_of_def tail_of_append RAMFS_MAX_PATH_def split: if_splits)

text \<open>\<open>parse_path\<close> splits off the last component and looks up the rest.\<close>

lemma parse_path_of:
  assumes "c_str p = path_of (cs @ [nm])" "path_ok (cs @ [nm])"
  shows "parse_path p (replicate RAMFS_MAX_NAME NUL) s
    = Some (idx_of (walk (nodes s) 0 cs), nm @ replicate (RAMFS_MAX_NAME - length nm) NUL)"
proof -
  define k where "k = RAMFS_MAX_PATH - length (path_of (cs @ [nm]))"
  define R where "R = (tail_of cs @ CHR ''/'' # nm) @ replicate k NUL"
  have po: "path_of (cs @ [nm]) = tail_of cs @ CHR ''/'' # nm" by (simp add: path_of_def tail_of_append)
  have r: "resolve p s = Some R" using resolve_path_of [OF assms, of s] by (simp add: R_def k_def po)
  have v: "list_all valid_name (cs @ [nm])" using assms(2) by (simp add: path_ok_def)
  then have nm: "valid_name nm" by simp
  have ls: "last_slash 0 0 R = length (tail_of cs)"
    using last_slash_tail [OF v, of 0 0 k] by (simp add: tail_of_append R_def)
  have cp: "strcpy (replicate RAMFS_MAX_NAME NUL) (drop (Suc (length (tail_of cs))) R)
      = Some (nm @ replicate (RAMFS_MAX_NAME - length nm) NUL)"
  proof -
    have "c_str (nm @ replicate k NUL) = nm" using nm by (simp add: valid_name_def c_str_append)
    moreover have "Suc (RAMFS_MAX_NAME - Suc (length nm)) = RAMFS_MAX_NAME - length nm" using nm by (auto simp: valid_name_def)
    ultimately show ?thesis using nm by (simp add: strcpy_eq valid_name_def R_def flip: replicate_Suc)
  qed
  show ?thesis
  proof (cases "cs = []")
    case True
    then have "R ! 0 = CHR ''/''" by (simp add: R_def)
    then show ?thesis using r ls cp True by (simp add: parse_path_def Let_def)
  next
    case False
    then have ne: "tail_of cs \<noteq> []" by (cases cs) auto
    let ?pp = "(strncpy (replicate RAMFS_MAX_PATH NUL) R (length (tail_of cs)))[length (tail_of cs) := NUL]"
    have len: "length (tail_of cs) + length nm + 1 < RAMFS_MAX_PATH" using assms(2) by (simp add: path_ok_def po)
    have n: "NUL \<notin> set (tail_of cs)" using v by (simp add: NUL_tail_of)
    have cr: "c_str R = tail_of cs @ CHR ''/'' # nm"
      unfolding R_def using n nm by (subst c_str_append) (auto simp: valid_name_def)
    have "strncpy (replicate RAMFS_MAX_PATH NUL) R (length (tail_of cs))
        = tail_of cs @ replicate (RAMFS_MAX_PATH - length (tail_of cs)) NUL"
      using len by (subst strncpy_eq) (simp_all add: cr)
    moreover have "RAMFS_MAX_PATH - length (tail_of cs) = Suc (RAMFS_MAX_PATH - Suc (length (tail_of cs)))" using len by simp
    ultimately have "?pp = tail_of cs @ NUL # replicate (RAMFS_MAX_PATH - Suc (length (tail_of cs))) NUL" by simp
    then have "c_str ?pp = path_of cs" using n False by (simp add: c_str_append path_of_def)
    from ramfs_find_walk [OF this path_ok_butlast [OF assms(2)], of s] show ?thesis
      using r ls cp ne by (simp add: parse_path_def Let_def)
  qed
qed

text \<open>Paths that stay in this file system.\<close>

definition plain :: "string list \<Rightarrow> bool" where
  "plain cs \<longleftrightarrow> cs \<noteq> [] \<and> hd cs \<noteq> ''disk'' \<and> hd cs \<noteq> ''disk2'' \<and> take 4 (hd cs) \<noteq> ''proc''"

lemma hd_component:
  assumes "path_ok cs" "cs \<noteq> []" "take (Suc (length w)) (path_of cs) = CHR ''/'' # w"
    and "deref (drop (Suc (length w)) (path_of cs)) = NUL \<or> deref (drop (Suc (length w)) (path_of cs)) = CHR ''/''"
    and "CHR ''/'' \<notin> set w"
  shows "hd cs = w"
proof -
  obtain nm cs' where cs: "cs = nm # cs'" using assms(2) by (cases cs) auto
  have nm: "CHR ''/'' \<notin> set nm" "NUL \<notin> set nm" using assms(1) by (auto simp: cs path_ok_def valid_name_def)
  have n: "NUL \<notin> set (path_of cs)" using assms(1) by (simp add: path_ok_def NUL_path_of)
  let ?P = "takeWhile (\<lambda>c. c \<noteq> CHR ''/'')"
  have "?P (nm @ tail_of cs') = nm" using nm by (cases cs') (auto simp: takeWhile_append)
  moreover have "?P (w @ drop (Suc (length w)) (path_of cs)) = w"
  proof (cases "drop (Suc (length w)) (path_of cs)")
    case Nil
    then show ?thesis using assms(5) by (auto simp: takeWhile_append)
  next
    case (Cons c r)
    then have "c \<in> set (path_of cs)" by (metis in_set_dropD list.set_intros(1))
    then show ?thesis using assms(4,5) n Cons by (auto simp: takeWhile_append)
  qed
  moreover have "path_of cs = CHR ''/'' # w @ drop (Suc (length w)) (path_of cs)"
    using append_take_drop_id [of "Suc (length w)" "path_of cs"] assms(3) by simp
  ultimately show ?thesis by (metis cs list.sel(1,3) path_of_def tail_of.simps(2) list.distinct(1))
qed

lemma deref_drop: "k \<le> length (c_str p) \<Longrightarrow> deref (drop k (c_str p)) = deref (drop k p)"
proof (induction k arbitrary: p)
  case (Suc k)
  then show ?case by (cases p) (auto split: if_splits)
qed (simp add: deref_c_str)

lemma take_snoc_deref:
  assumes "take (Suc k) (c_str r) = w @ [c]" "length w = k"
  shows "take k (c_str r) = w" "deref (drop k r) = c"
proof -
  obtain z where z: "c_str r = w @ c # z" using append_take_drop_id [of "Suc k" "c_str r"] assms(1) by (metis append_Cons append_Nil append_assoc)
  with assms(2) deref_drop [of k r] show "take k (c_str r) = w" "deref (drop k r) = c" by simp_all
qed

lemma plain_no_disk:
  assumes "c_str r = path_of cs" "path_ok cs" "plain cs"
  shows "match_disk_content r = (0, [])" "match_disk r = (0, [])" "\<not> procfs_is_virtual r"
proof -
  have cs: "cs \<noteq> []" "hd cs \<noteq> ''disk''" "hd cs \<noteq> ''disk2''" "take 4 (hd cs) \<noteq> ''proc''" using assms(3) by (auto simp: plain_def)
  have no: "\<not> (deref (drop k r) = NUL \<or> deref (drop k r) = CHR ''/'')"
    if "w = ''disk'' \<or> w = ''disk2''" "take k (path_of cs) = CHR ''/'' # w" "k = Suc (length w)" for w k
  proof
    assume a: "deref (drop k r) = NUL \<or> deref (drop k r) = CHR ''/''"
    have "k \<le> length (c_str r)" unfolding assms(1) using arg_cong [OF that(2), of length] that(3) by simp
    then have "deref (drop k (path_of cs)) = deref (drop k r)" using deref_drop [of k r] assms(1) by simp
    with a that have "hd cs = w" by (intro hd_component [OF assms(2) cs(1)]) auto
    with cs that show False by auto
  qed
  have l: "5 = Suc (length ''disk'')" "6 = Suc (length ''disk2'')" by simp_all
  have d: "take 5 (path_of cs) = ''/disk'' \<Longrightarrow> deref (drop 5 r) \<noteq> NUL \<and> deref (drop 5 r) \<noteq> CHR ''/''"
    "take 6 (path_of cs) = ''/disk2'' \<Longrightarrow> deref (drop 6 r) \<noteq> NUL \<and> deref (drop 6 r) \<noteq> CHR ''/''"
    using no [OF disjI1 [OF refl] _ l(1)] no [OF disjI2 [OF refl] _ l(2)] by blast+
  then show "match_disk r = (0, [])" by (auto simp: match_disk_def strncmp_eq_0 assms(1))
  have "take 7 (path_of cs) \<noteq> ''/disk2/''" "take 6 (path_of cs) \<noteq> ''/disk/''"
    using d take_snoc_deref [of 6 r "''/disk2''"] take_snoc_deref [of 5 r "''/disk''"] by (auto simp: assms(1))
  then show "match_disk_content r = (0, [])" by (simp add: match_disk_content_def strncmp_eq_0 assms(1))
  obtain nm cs' where nm: "cs = nm # cs'" using cs(1) by (cases cs) auto
  have "take 4 (nm @ tail_of cs') \<noteq> ''proc''"
  proof
    assume a: "take 4 (nm @ tail_of cs') = ''proc''"
    show False
    proof (cases "4 \<le> length nm")
      case False
      then have t: "take (4 - length nm) (tail_of cs') \<noteq> []" using a arg_cong [OF a, of length] by (cases cs') auto
      then have "CHR ''/'' \<in> set (take 4 (nm @ tail_of cs'))" using False by (cases cs') (auto simp: take_Cons')
      with a show False by simp
    qed (use a cs(4) nm in simp)
  qed
  then show "\<not> procfs_is_virtual r"
    by (auto simp: procfs_is_virtual_def strncmp_eq_0 assms(1) path_of_def nm take_Cons')
qed


section \<open>The tree of nodes\<close>

definition tree_inv :: "ramfs_node list \<Rightarrow> bool" where
  "tree_inv ns \<longleftrightarrow> length ns = 64 \<and> n_active (ns ! 0) \<and> n_type (ns ! 0) = RAMFS_DIR \<and> n_parent (ns ! 0) = -1
     \<and> (\<forall>i < 64. length (n_name (ns ! i)) = 32)
     \<and> (\<forall>i < 64. i \<noteq> 0 \<and> n_active (ns ! i) \<longrightarrow> valid_name (c_str (n_name (ns ! i))) \<and> 0 \<le> n_parent (ns ! i) \<and> n_parent (ns ! i) < 64
          \<and> n_active (ns ! nat (n_parent (ns ! i))) \<and> n_type (ns ! nat (n_parent (ns ! i))) = RAMFS_DIR)
     \<and> (\<forall>i < 64. \<forall>j < 64. n_active (ns ! i) \<and> n_active (ns ! j) \<and> n_parent (ns ! i) = n_parent (ns ! j)
          \<and> c_str (n_name (ns ! i)) = c_str (n_name (ns ! j)) \<longrightarrow> i = j)"

lemma tree_invD:
  assumes "tree_inv ns"
  shows "length ns = 64" "n_active (ns ! 0)" "n_type (ns ! 0) = RAMFS_DIR" "n_parent (ns ! 0) = -1"
    "i < 64 \<Longrightarrow> length (n_name (ns ! i)) = 32"
    "i < 64 \<Longrightarrow> i \<noteq> 0 \<Longrightarrow> n_active (ns ! i) \<Longrightarrow> valid_name (c_str (n_name (ns ! i))) \<and> 0 \<le> n_parent (ns ! i) \<and> n_parent (ns ! i) < 64
       \<and> n_active (ns ! nat (n_parent (ns ! i))) \<and> n_type (ns ! nat (n_parent (ns ! i))) = RAMFS_DIR"
    "i < 64 \<Longrightarrow> j < 64 \<Longrightarrow> n_active (ns ! i) \<Longrightarrow> n_active (ns ! j) \<Longrightarrow> n_parent (ns ! i) = n_parent (ns ! j) \<Longrightarrow>
       c_str (n_name (ns ! i)) = c_str (n_name (ns ! j)) \<Longrightarrow> i = j"
  using assms unfolding tree_inv_def by blast+

definition is_child :: "ramfs_node list \<Rightarrow> int \<Rightarrow> string \<Rightarrow> nat \<Rightarrow> bool" where
  "is_child ns d nm i \<longleftrightarrow> i < 64 \<and> n_active (ns ! i) \<and> n_parent (ns ! i) = d \<and> c_str (n_name (ns ! i)) = c_str nm"

lemma find_child_Some:
  assumes "tree_inv ns"
  shows "find_child ns d nm = Some i \<longleftrightarrow> is_child ns d nm i"
proof
  assume "find_child ns d nm = Some i"
  then show "is_child ns d nm i"
    using tree_invD(1) [OF assms] by (auto simp: find_child_def find_slot_Some strcmp_eq_0 is_child_def)
next
  assume c: "is_child ns d nm i"
  then have "\<not> (n_active (ns ! j) \<and> n_parent (ns ! j) = d \<and> c_str (n_name (ns ! j)) = c_str nm)" if "j < i" for j
    using tree_invD(7) [OF assms, of j i] that by (auto simp: is_child_def)
  with c show "find_child ns d nm = Some i"
    using tree_invD(1) [OF assms] by (simp add: find_child_def find_slot_Some strcmp_eq_0 is_child_def)
qed

lemma find_child_None: "tree_inv ns \<Longrightarrow> find_child ns d nm = None \<longleftrightarrow> (\<forall>i. \<not> is_child ns d nm i)"
  using find_child_Some [of ns d nm] by (metis not_Some_eq)

lemma find_child_eqI:
  assumes "tree_inv ns" "tree_inv ns'" "\<And>i. is_child ns d nm i \<longleftrightarrow> is_child ns' d nm i"
  shows "find_child ns d nm = find_child ns' d nm"
  using assms by (metis find_child_Some not_Some_eq)

lemma walk_snoc:
  "walk ns c (cs @ [nm]) = (case walk ns c cs of None \<Rightarrow> None | Some d \<Rightarrow> find_child ns (int d) nm)"
  by (auto simp: walk_append split: option.splits)

lemma child_not_root:
  assumes "tree_inv ns" "is_child ns (int d) nm i"
  shows "i \<noteq> 0"
proof
  assume "i = 0"
  then show False using tree_invD(4) [OF assms(1)] assms(2) by (simp add: is_child_def)
qed

lemma walk_active:
  assumes "tree_inv ns" "walk ns 0 cs = Some i"
  shows "i < 64" "n_active (ns ! i)" "cs = [] \<longleftrightarrow> i = 0"
    "cs \<noteq> [] \<Longrightarrow> walk ns 0 (butlast cs) = Some (nat (n_parent (ns ! i))) \<and> c_str (last cs) = c_str (n_name (ns ! i)) \<and> 0 \<le> n_parent (ns ! i)"
proof -
  have "i < 64 \<and> n_active (ns ! i) \<and> (cs = [] \<longleftrightarrow> i = 0) \<and> (cs \<noteq> [] \<longrightarrow> walk ns 0 (butlast cs) = Some (nat (n_parent (ns ! i)))
      \<and> c_str (last cs) = c_str (n_name (ns ! i)) \<and> 0 \<le> n_parent (ns ! i))"
  proof (cases cs rule: rev_cases)
    case Nil
    then show ?thesis using assms tree_invD(2) [OF assms(1)] by simp
  next
    case (snoc ds nm)
    with assms(2) obtain d where d: "walk ns 0 ds = Some d" "is_child ns (int d) nm i"
      by (auto simp: walk_snoc find_child_Some [OF assms(1)] split: option.splits)
    then have "i \<noteq> 0" using child_not_root [OF assms(1)] by blast
    with d show ?thesis using snoc by (auto simp: is_child_def)
  qed
  then show "i < 64" "n_active (ns ! i)" "cs = [] \<longleftrightarrow> i = 0"
    "cs \<noteq> [] \<Longrightarrow> walk ns 0 (butlast cs) = Some (nat (n_parent (ns ! i))) \<and> c_str (last cs) = c_str (n_name (ns ! i)) \<and> 0 \<le> n_parent (ns ! i)" by blast+
qed

text \<open>A node is reached along one path only.\<close>

lemma walk_unique:
  assumes "tree_inv ns" "walk ns 0 cs = Some i" "walk ns 0 ds = Some i" "list_all valid_name cs" "list_all valid_name ds"
  shows "cs = ds"
  using assms(2-5)
proof (induction cs arbitrary: ds i rule: rev_induct)
  case Nil
  then show ?case using walk_active(3) [OF assms(1)] by fastforce
next
  case (snoc nm cs)
  note a = walk_active [OF assms(1) snoc.prems(1)] and b = walk_active [OF assms(1) snoc.prems(2)]
  obtain es m where ds: "ds = es @ [m]" using a(3) b(3) by (cases ds rule: rev_cases) auto
  have "cs = es" using snoc.IH [of "nat (n_parent (ns ! i))" es] a(4) b(4) snoc.prems(3,4) ds by simp
  moreover have "nm = m" using a(4) b(4) ds snoc.prems(3,4) by (simp add: valid_name_def c_str_id)
  ultimately show ?case using ds by simp
qed

text \<open>Changes that do not touch names, parents and flags do not matter to lookups.\<close>

lemma walk_cong:
  assumes "tree_inv ns" "tree_inv ns'" "\<And>d nm i. is_child ns d nm i \<longleftrightarrow> is_child ns' d nm i"
  shows "walk ns c cs = walk ns' c cs"
  using find_child_eqI [OF assms] by (induction cs arbitrary: c) (auto split: option.splits)

definition same_links :: "ramfs_node \<Rightarrow> ramfs_node \<Rightarrow> bool" where
  "same_links n n' \<longleftrightarrow> n_active n = n_active n' \<and> n_name n = n_name n' \<and> n_parent n = n_parent n' \<and> n_type n = n_type n'"

lemma same_links_update:
  assumes "tree_inv ns" "same_links (ns ! i) n"
  shows "tree_inv (ns[i := n])" "walk (ns[i := n]) c cs = walk ns c cs"
proof -
  have l: "length ns = 64" by (rule tree_invD(1) [OF assms(1)])
  have e: "n_active (ns[i := n] ! j) = n_active (ns ! j)" "n_name (ns[i := n] ! j) = n_name (ns ! j)"
    "n_parent (ns[i := n] ! j) = n_parent (ns ! j)" "n_type (ns[i := n] ! j) = n_type (ns ! j)" for j
  proof -
    have "same_links (ns ! j) (ns[i := n] ! j)"
      using assms(2) by (cases "i < length ns"; cases "j = i") (simp_all add: same_links_def list_update_beyond)
    then show "n_active (ns[i := n] ! j) = n_active (ns ! j)" "n_name (ns[i := n] ! j) = n_name (ns ! j)"
      "n_parent (ns[i := n] ! j) = n_parent (ns ! j)" "n_type (ns[i := n] ! j) = n_type (ns ! j)" by (simp_all add: same_links_def)
  qed
  show t: "tree_inv (ns[i := n])" using assms(1) l unfolding tree_inv_def e by simp
  show "walk (ns[i := n]) c cs = walk ns c cs" by (rule walk_cong [OF t assms(1)]) (simp add: is_child_def e)
qed

lemma no_child_of_inactive:
  assumes "tree_inv ns" "is_child ns (int d) nm j" "d < 64"
  shows "n_active (ns ! d)"
proof -
  have "j \<noteq> 0" by (rule child_not_root [OF assms(1,2)])
  then show ?thesis using tree_invD(6) [OF assms(1), of j] assms(2) by (auto simp: is_child_def)
qed

text \<open>A new node becomes a child of a directory.\<close>

lemma tree_insert:
  assumes "tree_inv ns" "0 < i" "i < 64" "\<not> n_active (ns ! i)" "p < 64" "n_active (ns ! p)" "n_type (ns ! p) = RAMFS_DIR"
    and "n_active n" "n_parent n = int p" "c_str (n_name n) = nm" "length (n_name n) = 32" "valid_name nm" "find_child ns (int p) nm = None"
  shows "tree_inv (ns[i := n])"
    "walk ns 0 cs = Some p \<Longrightarrow> list_all valid_name cs \<Longrightarrow> list_all valid_name ds \<Longrightarrow>
      walk (ns[i := n]) 0 ds = (if ds = cs @ [nm] then Some i else walk ns 0 ds)"
proof -
  have l: "length ns = 64" by (rule tree_invD(1) [OF assms(1)])
  have pi: "p \<noteq> i" using assms(4,6) by auto
  have nc: "\<not> is_child ns (int p) nm j" for j using find_child_None [OF assms(1)] assms(13) by blast
  have nth: "ns[i := n] ! j = (if j = i then n else ns ! j)" for j using assms(3) l by (simp add: nth_list_update)
  have par: "0 \<le> n_parent (ns ! j) \<Longrightarrow> nat (n_parent (ns ! j)) \<noteq> i" if "j < 64" "j \<noteq> 0" "n_active (ns ! j)" for j
    using tree_invD(6) [OF assms(1), of j] that assms(4) by auto
  have cnm: "c_str nm = nm" using assms(12) by (simp add: valid_name_def c_str_id)
  have "j = k" if "j < 64" "k < 64" "n_active (ns[i := n] ! j)" "n_active (ns[i := n] ! k)"
    "n_parent (ns[i := n] ! j) = n_parent (ns[i := n] ! k)" "c_str (n_name (ns[i := n] ! j)) = c_str (n_name (ns[i := n] ! k))" for j k
    using that nc [of j] nc [of k] tree_invD(7) [OF assms(1), of j k] assms(9,10) cnm
    by (cases "j = i"; cases "k = i") (simp_all add: nth is_child_def)
  moreover have "valid_name (c_str (n_name (ns[i := n] ! j))) \<and> 0 \<le> n_parent (ns[i := n] ! j) \<and> n_parent (ns[i := n] ! j) < 64
      \<and> n_active (ns[i := n] ! nat (n_parent (ns[i := n] ! j))) \<and> n_type (ns[i := n] ! nat (n_parent (ns[i := n] ! j))) = RAMFS_DIR"
    if "j < 64" "j \<noteq> 0" "n_active (ns[i := n] ! j)" for j
    using tree_invD(6) [OF assms(1), of j] that assms(5-7,9,10,12) pi par [of j] by (auto simp: nth split: if_splits)
  ultimately show t: "tree_inv (ns[i := n])"
    using tree_invD(1-5) [OF assms(1)] assms(2,11) unfolding tree_inv_def by (auto simp: nth)
  assume w: "walk ns 0 cs = Some p" and v: "list_all valid_name cs"
  show "walk (ns[i := n]) 0 ds = (if ds = cs @ [nm] then Some i else walk ns 0 ds)" if "list_all valid_name ds"
    using that
  proof (induction ds rule: rev_induct)
    case (snoc m ds)
    have fc: "find_child (ns[i := n]) (int q) m = (if q = p \<and> m = nm then Some i else find_child ns (int q) m)" for q
    proof -
      have "c_str m = m" using snoc.prems by (simp add: valid_name_def c_str_id)
      then have c: "is_child (ns[i := n]) (int q) m j \<longleftrightarrow> (if q = p \<and> m = nm then j = i else is_child ns (int q) m j)" for j
        using assms(3,4,8-10) nc [of j] cnm by (auto simp: is_child_def nth)
      show ?thesis
      proof (cases "q = p \<and> m = nm")
        case True
        then show ?thesis using c by (simp add: find_child_Some [OF t])
      next
        case False
        then have "find_child (ns[i := n]) (int q) m = find_child ns (int q) m"
          by (intro find_child_eqI [OF t assms(1)]) (auto simp: c)
        with False show ?thesis by auto
      qed
    qed
    have fi: "find_child ns (int i) m = None"
      using no_child_of_inactive [OF assms(1), of i m] assms(3,4) by (auto simp: find_child_None [OF assms(1)])
    have cn: "walk ns 0 (cs @ [nm]) = None" using w assms(13) by (simp add: walk_snoc)
    have IH: "walk (ns[i := n]) 0 ds = (if ds = cs @ [nm] then Some i else walk ns 0 ds)" using snoc by simp
    show ?case
    proof (cases "ds = cs @ [nm]")
      case True
      then have "walk (ns[i := n]) 0 ds = Some i" using IH by simp
      then have "walk (ns[i := n]) 0 (ds @ [m]) = None" using fi pi by (simp add: walk_snoc [of _ _ ds] fc)
      moreover have "walk ns 0 (ds @ [m]) = None" using cn walk_append [of ns 0 "cs @ [nm]" "[m]"] True by simp
      ultimately show ?thesis using True by auto
    next
      case False
      show ?thesis
      proof (cases "walk ns 0 ds")
        case None
        with False IH w show ?thesis by (auto simp: walk_snoc)
      next
        case (Some q)
        then have "q = p \<longleftrightarrow> ds = cs" using walk_unique [OF assms(1) _ w, of ds] v w snoc.prems by auto
        with Some False IH show ?thesis by (auto simp: walk_snoc fc)
      qed
    qed
  qed simp
qed

text \<open>A node without children is removed.\<close>

lemma tree_remove:
  assumes "tree_inv ns" "0 < i" "i < 64" "\<not> n_active n" "length (n_name n) = 32" "\<forall>j < 64. n_active (ns ! j) \<longrightarrow> n_parent (ns ! j) \<noteq> int i"
  shows "tree_inv (ns[i := n])" "walk (ns[i := n]) 0 ds = (if walk ns 0 ds = Some i then None else walk ns 0 ds)"
proof -
  have l: "length ns = 64" by (rule tree_invD(1) [OF assms(1)])
  have nth: "ns[i := n] ! j = (if j = i then n else ns ! j)" for j using assms(3) l by (simp add: nth_list_update)
  have "j = k" if "j < 64" "k < 64" "n_active (ns[i := n] ! j)" "n_active (ns[i := n] ! k)"
    "n_parent (ns[i := n] ! j) = n_parent (ns[i := n] ! k)" "c_str (n_name (ns[i := n] ! j)) = c_str (n_name (ns[i := n] ! k))" for j k
    using that tree_invD(7) [OF assms(1), of j k] assms(4) by (auto simp: nth split: if_splits)
  moreover have "valid_name (c_str (n_name (ns[i := n] ! j))) \<and> 0 \<le> n_parent (ns[i := n] ! j) \<and> n_parent (ns[i := n] ! j) < 64
      \<and> n_active (ns[i := n] ! nat (n_parent (ns[i := n] ! j))) \<and> n_type (ns[i := n] ! nat (n_parent (ns[i := n] ! j))) = RAMFS_DIR"
    if "j < 64" "j \<noteq> 0" "n_active (ns[i := n] ! j)" for j
    using tree_invD(6) [OF assms(1), of j] that assms(4) assms(6) [rule_format, of j] by (auto simp: nth split: if_splits)
  ultimately show t: "tree_inv (ns[i := n])"
    using tree_invD(1-5) [OF assms(1)] assms(2,5) unfolding tree_inv_def by (auto simp: nth)
  show "walk (ns[i := n]) 0 ds = (if walk ns 0 ds = Some i then None else walk ns 0 ds)"
  proof (induction ds rule: rev_induct)
    case (snoc m ds)
    have c: "is_child (ns[i := n]) q m j \<longleftrightarrow> j \<noteq> i \<and> is_child ns q m j" for q j using assms(4) by (auto simp: is_child_def nth)
    have fc: "find_child (ns[i := n]) q m = (if find_child ns q m = Some i then None else find_child ns q m)" for q
    proof (cases "find_child ns q m = Some i")
      case True
      then have "\<not> is_child (ns[i := n]) q m j" for j using find_child_Some [OF assms(1), of q m] c by (metis option.inject)
      with True show ?thesis by (simp add: find_child_None [OF t])
    next
      case False
      then have "is_child (ns[i := n]) q m j \<longleftrightarrow> is_child ns q m j" for j using find_child_Some [OF assms(1), of q m] c by auto
      then show ?thesis using find_child_eqI [OF t assms(1), of q m] False by simp
    qed
    have "find_child ns (int i) m = None" using assms(6) by (auto simp: find_child_None [OF assms(1)] is_child_def)
    with snoc show ?case by (auto simp: walk_snoc fc split: option.splits)
  qed (use assms(2) in simp)
qed

end
