(* ===== verification/RamfsMap.thy ===== *)
theory RamfsMap
  imports Ramfs
begin

text \<open>
  What the file system in memory promises: the contents of the files in the kernel heap, and the
  refinement of a map from paths to entries by the nodes and the heap.  The proofs use the heap only
  through the contract \<open>arena_allocator\<close>.
\<close>

section \<open>Contents in the heap\<close>

text \<open>The entry a node stands for: a directory, or a file with its bytes.\<close>

datatype entry = ADir | AFile "u8 list"

definition entry_of :: "memory \<Rightarrow> ramfs_node \<Rightarrow> entry" where
  "entry_of m n = (if n_type n = RAMFS_DIR then ADir else AFile (bytes m (n_data n) (unat (n_size n))))"

definition file_ok :: "(nat \<times> nat) set \<Rightarrow> ramfs_node \<Rightarrow> bool" where
  "file_ok B n \<longleftrightarrow>
     (if n_data n = 0 then n_size n = 0 \<and> n_capacity n = 0
      else n_type n = RAMFS_FILE \<and> n_size n \<le> n_capacity n \<and> n_capacity n \<le> RAMFS_MAX_DATA
        \<and> (\<exists>k. (unat (n_data n), k) \<in> B \<and> unat (n_capacity n) \<le> k))"

text \<open>Every node in \<open>I\<close> that is in use has its own area.\<close>

definition data_inv :: "nat set \<Rightarrow> ramfs_node list \<Rightarrow> (nat \<times> nat) set \<Rightarrow> bool" where
  "data_inv I ns B \<longleftrightarrow> (\<forall>i \<in> I. n_active (ns ! i) \<longrightarrow> file_ok B (ns ! i))
     \<and> (\<forall>i \<in> I. \<forall>j \<in> I. n_active (ns ! i) \<and> n_active (ns ! j) \<and> n_data (ns ! i) \<noteq> 0 \<and> n_data (ns ! i) = n_data (ns ! j) \<longrightarrow> i = j)"

definition fs_inv :: "'a fs_state_scheme \<Rightarrow> (nat \<times> nat) set \<Rightarrow> bool" where
  "fs_inv s B \<longleftrightarrow> tree_inv (nodes s) \<and> data_inv {..<64} (nodes s) B \<and> heap_areas s B"






























section \<open>The file system as a map\<close>

text \<open>The contents: a map from paths to entries.\<close>

type_synonym afs = "string list \<rightharpoonup> entry"

definition fs_abs :: "'a fs_state_scheme \<Rightarrow> afs" where
  "fs_abs s cs = (if list_all valid_name cs then map_option (\<lambda>i. entry_of (mem s) (nodes s ! i)) (walk (nodes s) 0 cs) else None)"









lemma path_of_c_str: "path_ok cs \<Longrightarrow> c_str (path_of cs) = path_of cs"
  by (simp add: path_ok_def NUL_path_of c_str_id)

lemma find_path: "path_ok cs \<Longrightarrow> ramfs_find (path_of cs) s = Some (idx_of (walk (nodes s) 0 cs))"
  by (simp add: ramfs_find_walk path_of_c_str)

























section \<open>Sequences of operations\<close>












lemma ramfs_init_inv:
  fixes s :: "'a fs_state_scheme"
  assumes "heap_areas s B"
  shows "fs_inv (ramfs_init s) B" "fs_abs (ramfs_init s) = [[] \<mapsto> ADir]" "heap_arena (ramfs_init s) = heap_arena s"
proof -
  let ?ns = "nodes (ramfs_init s)"
  have l: "length ?ns = 64" by (simp add: ramfs_init_def RAMFS_MAX_FILES_def)
  have n0: "n_active (?ns ! 0)" "n_type (?ns ! 0) = RAMFS_DIR" "n_parent (?ns ! 0) = -1" "length (n_name (?ns ! 0)) = 32"
    "n_data (?ns ! 0) = 0" "n_size (?ns ! 0) = 0" "n_capacity (?ns ! 0) = 0"
    by (simp_all add: ramfs_init_def RAMFS_MAX_FILES_def RAMFS_MAX_NAME_def node0_def)
  have ni: "?ns ! i = node0" if "0 < i" "i < 64" for i using that by (simp add: ramfs_init_def RAMFS_MAX_FILES_def nth_list_update)
  have act: "n_active (?ns ! i) \<longleftrightarrow> i = 0" if "i < 64" for i using ni [of i] n0(1) that by (cases "i = 0") (simp_all add: node0_def)
  have len: "length (n_name (?ns ! i)) = 32" if "i < 64" for i using ni [of i] n0(4) that by (cases "i = 0") (simp_all add: node0_def RAMFS_MAX_NAME_def)
  have t: "tree_inv ?ns" unfolding tree_inv_def using l n0 act len by auto
  have "data_inv {..<64} ?ns B" using n0 act by (auto simp: data_inv_def file_ok_def)
  moreover have "heap_areas (ramfs_init s) B" using assms by (simp add: ramfs_init_def heap_areas_def heap_rep_def)
  ultimately show "fs_inv (ramfs_init s) B" using t by (simp add: fs_inv_def)
  have "walk ?ns 0 cs = None" if "cs \<noteq> []" for cs
  proof (rule ccontr)
    assume "walk ?ns 0 cs \<noteq> None"
    then obtain i where i: "walk ?ns 0 cs = Some i" by blast
    from walk_active [OF t i] act that show False by simp
  qed
  then show "fs_abs (ramfs_init s) = [[] \<mapsto> ADir]" using n0 by (auto simp: fs_abs_def fun_eq_iff entry_of_def)
  show "heap_arena (ramfs_init s) = heap_arena s" by (simp add: ramfs_init_def heap_arena_def)
qed

section \<open>Properties\<close>




definition fs_sample :: fs_state where
  "fs_sample = kernel_state.extend kernel_sample \<lparr>nodes = [], cwd = CHR ''/'' # replicate 127 NUL\<rparr>"



subsection \<open>Paths of nodes\<close>

lemma strcat_fits:
  assumes "length (c_str dst) + length (c_str src) < length dst"
  obtains b where "strcat dst src = Some b" "c_str b = c_str dst @ c_str src" "length b = length dst"
proof -
  have d: "take (strlen dst) dst = c_str dst" unfolding strlen_c_str unfolding c_str_def by (rule takeWhile_eq_take [symmetric])
  let ?b = "c_str dst @ c_str src @ NUL # drop (Suc (length (c_str src))) (drop (strlen dst) dst)"
  have "strcat dst src = Some ?b" using assms d by (simp add: strcat_def strcpy_eq strlen_c_str)
  moreover have "c_str ?b = c_str dst @ c_str src" by (simp add: c_str_append)
  moreover have "length ?b = length dst" using assms by (simp add: strlen_c_str)
  ultimately show thesis by (rule that)
qed

lemma join_parts_path:
  assumes "map c_str parts = cs" "length (c_str buf) + length (tail_of cs) + 1 < unat mx" "unat mx \<le> length buf"
  shows "\<exists>b. join_parts parts mx buf = Some b \<and> c_str b = c_str buf @ tail_of cs"
  using assms
proof (induction parts arbitrary: cs buf)
  case (Cons p parts)
  then obtain ds where cs: "cs = c_str p # ds" "map c_str parts = ds" by auto
  obtain b1 where b1: "strcat buf ''/'' = Some b1" "c_str b1 = c_str buf @ ''/''" "length b1 = length buf"
    using strcat_fits [of buf "''/''"] Cons.prems(2,3) cs by auto
  obtain b2 where b2: "strcat b1 p = Some b2" "c_str b2 = c_str buf @ CHR ''/'' # c_str p" "length b2 = length buf"
    using strcat_fits [of b1 p] b1 Cons.prems(2,3) cs by auto
  from Cons.IH [OF cs(2), of b2] b1 b2 Cons.prems(2,3) cs show ?case by (auto simp: strlen_c_str)
qed simp

lemma path_parts_walk:
  assumes "tree_inv ns" "walk ns 0 cs = Some i" "list_all valid_name cs" "length cs \<le> k"
  shows "map c_str (path_parts k (int i) ns) = cs"
  using assms(2-4)
proof (induction cs arbitrary: i k rule: rev_induct)
  case Nil
  then show ?case using walk_active(3) [OF assms(1) Nil(1)] by (cases k) auto
next
  case (snoc nm cs)
  note a = walk_active [OF assms(1) snoc.prems(1)]
  obtain j where k: "k = Suc j" using snoc.prems(3) by (cases k) auto
  have nm: "c_str (n_name (ns ! i)) = nm" using a(4) snoc.prems(2) by (simp add: valid_name_def c_str_id)
  have "map c_str (path_parts j (int (nat (n_parent (ns ! i)))) ns) = cs" using a(4) snoc.prems k by (intro snoc.IH) simp_all
  moreover have "0 < i" using a(3) by simp
  ultimately show ?case using a(4) k nm by simp
qed

text \<open>C31. Printing and parsing of paths are inverse: for every node at most eight levels below the
  root, \<open>ramfs_get_path\<close> fills a large enough buffer with the path of its names, and \<open>ramfs_find\<close> of
  that buffer returns the node.\<close>

theorem path_roundtrip:
  fixes s :: "'a fs_state_scheme"
  assumes "tree_inv (nodes s)" "walk (nodes s) 0 cs = Some i" "path_ok cs" "length cs \<le> 8"
    and "length (path_of cs) + 1 < unat mx" "unat mx \<le> length buf"
  shows "\<exists>b. ramfs_get_path (int i) buf mx s = Some b \<and> c_str b = path_of cs \<and> ramfs_find b s = Some (int i)"
proof -
  note a = walk_active(1-3) [OF assms(1,2)]
  have v: "list_all valid_name cs" using assms(3) by (simp add: path_ok_def)
  have "\<exists>b. ramfs_get_path (int i) buf mx s = Some b \<and> c_str b = path_of cs"
  proof (cases "cs = []")
    case True
    then show ?thesis using a assms(5,6) by (simp add: ramfs_get_path_def strcpy_eq path_of_def RAMFS_MAX_FILES_def)
  next
    case False
    then have i: "0 < i" and ne: "buf \<noteq> []" and p: "path_of cs = tail_of cs" using a(3) assms(5,6) by (auto simp: path_of_def)
    have c0: "c_str (buf[0 := NUL]) = []" using ne by (cases buf) auto
    from join_parts_path [OF path_parts_walk [OF assms(1,2) v assms(4)], of "buf[0 := NUL]" mx] c0 assms(5,6) p
    obtain b where b: "join_parts (path_parts 8 (int i) (nodes s)) mx (buf[0 := NUL]) = Some b" "c_str b = tail_of cs" by auto
    then have "deref b \<noteq> NUL" using False deref_c_str [of b] by (cases cs) auto
    then show ?thesis using a i ne b p by (simp add: ramfs_get_path_def RAMFS_MAX_FILES_def)
  qed
  then obtain b where "ramfs_get_path (int i) buf mx s = Some b" "c_str b = path_of cs" by blast
  with ramfs_find_walk [OF this(2) assms(3), of s] assms(2) show ?thesis by simp
qed


text \<open>A file system with one directory \<^verbatim>\<open>/a\<close>.\<close>

definition dir_node :: ramfs_node where
  "dir_node = node0\<lparr>n_active := True, n_name := CHR ''a'' # replicate 31 NUL, n_type := RAMFS_DIR\<rparr>"

definition dir_sample :: fs_state where
  "dir_sample = upd_node 1 (\<lambda>_. dir_node) (ramfs_init (heap_init 0x200000 0x1000 fs_sample))"

lemma valid_a: "valid_name ''a''" "valid_name ''b''"
  by (simp_all add: valid_name_def RAMFS_MAX_NAME_def)

lemma dir_sample_tree:
  "tree_inv (nodes dir_sample)" "walk (nodes dir_sample) 0 [''a''] = Some 1" "find_child (nodes dir_sample) 1 ''b'' = None"
  "nodes dir_sample ! 1 = dir_node"
proof -
  let ?s = "ramfs_init (heap_init 0x200000 0x1000 fs_sample)"
  have h: "heap_areas (heap_init 0x200000 0x1000 fs_sample) {}"
    using heap_init_rep [of "0x200000" "0x1000" fs_sample] by (force simp: heap_areas_def)
  have t: "tree_inv (nodes ?s)" and ab: "fs_abs ?s = [[] \<mapsto> ADir]" using ramfs_init_inv(1,2) [OF h] by (simp_all add: fs_inv_def)
  have l: "length (nodes ?s) = 64" by (rule tree_invD(1) [OF t])
  have i: "\<not> n_active (nodes ?s ! 1)" by (simp add: ramfs_init_def RAMFS_MAX_FILES_def node0_def)
  have fc: "find_child (nodes ?s) (int 0) ''a'' = None"
    using fun_cong [OF ab, of "[''a'']"] valid_a by (auto simp: fs_abs_def split: option.splits)
  have d: "n_active dir_node" "n_parent dir_node = int 0" "c_str (n_name dir_node) = ''a''" "length (n_name dir_node) = 32"
    by (simp_all add: dir_node_def node0_def)
  have n: "nodes dir_sample = (nodes ?s)[1 := dir_node]" by (simp add: dir_sample_def upd_node_def)
  show t': "tree_inv (nodes dir_sample)" unfolding n by (rule tree_insert(1) [OF t _ _ i _ tree_invD(2,3) [OF t] d valid_a(1) fc]) simp_all
  have w: "walk (nodes dir_sample) 0 ds = (if ds = [] @ [''a''] then Some 1 else walk (nodes ?s) 0 ds)" if "list_all valid_name ds" for ds
    unfolding n by (rule tree_insert(2) [OF t _ _ i _ tree_invD(2,3) [OF t] d valid_a(1) fc]) (use that in simp_all)
  show "walk (nodes dir_sample) 0 [''a''] = Some 1" using w [of "[''a'']"] valid_a by simp
  have "walk (nodes ?s) 0 [''a'', ''b''] = None" using fun_cong [OF ab, of "[''a'', ''b'']"] valid_a by (simp add: fs_abs_def)
  then have "walk (nodes dir_sample) 0 [''a'', ''b''] = None" using w [of "[''a'', ''b'']"] valid_a by simp
  then show "find_child (nodes dir_sample) 1 ''b'' = None"
    using walk_snoc [of "nodes dir_sample" 0 "[''a'']" "''b''"] w [of "[''a'']"] valid_a by simp
  show "nodes dir_sample ! 1 = dir_node" using l by (simp add: n)
qed

lemma path_roundtrip_witness:
  "\<exists>b. ramfs_get_path 1 (replicate 128 NUL) 128 dir_sample = Some b \<and> c_str b = ''/a'' \<and> ramfs_find b dir_sample = Some 1"
proof -
  have p: "path_ok [''a'']" using valid_a by (simp add: path_ok_def path_of_def RAMFS_MAX_PATH_def)
  have "\<exists>b. ramfs_get_path (int 1) (replicate 128 NUL) 128 dir_sample = Some b \<and> c_str b = path_of [''a''] \<and> ramfs_find b dir_sample = Some (int 1)"
    by (rule path_roundtrip [OF dir_sample_tree(1,2) p]) (simp_all add: path_of_def)
  then show ?thesis by (simp add: path_of_def)
qed

subsection \<open>Renaming into itself\<close>

lemma rename_tree:
  assumes t: "tree_inv ns" and i: "0 < i" "i < 64" "n_active (ns ! i)" "n_type (ns ! i) = RAMFS_DIR"
    and n: "n_active n" "n_type n = RAMFS_DIR" "n_parent n = int i" "c_str (n_name n) = nm" "length (n_name n) = 32" "valid_name nm" "find_child ns (int i) nm = None"
  shows "tree_inv (ns[i := n])" "walk (ns[i := n]) 0 ds \<noteq> Some i"
proof -
  have l: "length ns = 64" by (rule tree_invD(1) [OF t])
  have nth: "ns[i := n] ! j = (if j = i then n else ns ! j)" for j using i(2) l by (simp add: nth_list_update)
  have cnm: "c_str nm = nm" using n(6) by (simp add: valid_name_def c_str_id)
  have nc: "\<not> is_child ns (int i) nm j" for j using find_child_None [OF t] n(7) by blast
  have "j = k" if "j < 64" "k < 64" "n_active (ns[i := n] ! j)" "n_active (ns[i := n] ! k)"
    "n_parent (ns[i := n] ! j) = n_parent (ns[i := n] ! k)" "c_str (n_name (ns[i := n] ! j)) = c_str (n_name (ns[i := n] ! k))" for j k
    using that nc [of j] nc [of k] tree_invD(7) [OF t, of j k] n(3,4) cnm
    by (cases "j = i"; cases "k = i") (simp_all add: nth is_child_def)
  moreover have "valid_name (c_str (n_name (ns[i := n] ! j))) \<and> 0 \<le> n_parent (ns[i := n] ! j) \<and> n_parent (ns[i := n] ! j) < 64
      \<and> n_active (ns[i := n] ! nat (n_parent (ns[i := n] ! j))) \<and> n_type (ns[i := n] ! nat (n_parent (ns[i := n] ! j))) = RAMFS_DIR"
    if "j < 64" "j \<noteq> 0" "n_active (ns[i := n] ! j)" for j
    using tree_invD(6) [OF t, of j] that i n by (cases "j = i") (simp_all add: nth)
  ultimately show t': "tree_inv (ns[i := n])"
    using tree_invD(1-5) [OF t] i(1) n(5) unfolding tree_inv_def by (simp add: nth)
  show "walk (ns[i := n]) 0 ds \<noteq> Some i"
  proof (induction ds rule: length_induct)
    case (1 ds)
    show ?case
    proof
      assume w: "walk (ns[i := n]) 0 ds = Some i"
      then have "ds \<noteq> []" using i(1) by auto
      with walk_active(4) [OF t' w] have "walk (ns[i := n]) 0 (butlast ds) = Some i" using i(2) l n(3) by simp
      moreover have "length (butlast ds) < length ds" using \<open>ds \<noteq> []\<close> by (cases ds rule: rev_cases) simp_all
      ultimately show False using 1 by blast
    qed
  qed
qed

text \<open>Moving a directory into itself succeeds and loses it: \<open>ramfs_rename\<close> of a directory to a new name
  inside it returns 0, and afterwards the directory is still in use and no absolute path leads to
  it, so neither it nor what it holds can be read or deleted any more.\<close>

theorem rename_orphans:
  fixes s :: "'a fs_state_scheme"
  assumes "tree_inv (nodes s)" "walk (nodes s) 0 cs = Some i" "n_type (nodes s ! i) = RAMFS_DIR" "cs \<noteq> []"
    and "path_ok (cs @ [nm])" "find_child (nodes s) (int i) nm = None"
  shows "\<exists>s'. ramfs_rename (path_of cs) (path_of (cs @ [nm])) s = Some (0, s') \<and> n_active (nodes s' ! i)
    \<and> (\<forall>ds. path_ok ds \<longrightarrow> ramfs_find (path_of ds) s' \<noteq> Some (int i))"
proof -
  note a = walk_active(1-3) [OF assms(1,2)]
  have i: "0 < i" using a(3) assms(4) by simp
  have l: "length (nodes s) = 64" "length (n_name (nodes s ! i)) = 32" using tree_invD(1,5) [OF assms(1)] a(1) by simp_all
  have p: "path_ok cs" by (rule path_ok_butlast [OF assms(5)])
  have vn: "valid_name nm" using assms(5) by (simp add: path_ok_def)
  let ?fn = "nm @ replicate (RAMFS_MAX_NAME - length nm) NUL"
  let ?name = "(strncpy (n_name (nodes s ! i)) ?fn (RAMFS_MAX_NAME - 1))[RAMFS_MAX_NAME - 1 := NUL]"
  let ?n = "(nodes s ! i)\<lparr>n_name := ?name, n_parent := int i, n_modified := timer_get_ticks s\<rparr>"
  have fn: "c_str ?fn = nm" "strlen ?fn \<noteq> 0" using vn by (simp_all add: valid_name_def c_str_append strlen_c_str)
  have fc: "find_child (nodes s) (int i) ?fn = None"
    using fn(1) vn assms(6) by (simp add: find_child_def strcmp_eq_0 valid_name_def c_str_id)
  have nn: "n_active ?n" "n_type ?n = RAMFS_DIR" "n_parent ?n = int i" "length (n_name ?n) = 32" using a(2) assms(3) l(2) by simp_all
  have cn: "c_str (n_name ?n) = nm"
  proof -
    have ln: "length nm \<le> 31" using vn by (simp add: valid_name_def RAMFS_MAX_NAME_def)
    have "strncpy (n_name (nodes s ! i)) ?fn 31 = nm @ replicate (31 - length nm) NUL @ drop 31 (n_name (nodes s ! i))"
      using l(2) ln by (subst strncpy_eq) (simp_all only: fn, simp_all)
    moreover have "drop 31 (n_name (nodes s ! i)) = [n_name (nodes s ! i) ! 31]"
      using Cons_nth_drop_Suc [of 31 "n_name (nodes s ! i)"] l(2) by simp
    ultimately have "?name = nm @ replicate (31 - length nm) NUL @ [NUL]"
      using ln by (simp add: RAMFS_MAX_NAME_def list_update_append)
    then show ?thesis using vn by (cases "31 - length nm") (simp_all add: c_str_append valid_name_def)
  qed
  note rt = rename_tree [OF assms(1) i a(1,2) assms(3) nn(1-3) cn nn(4) vn assms(6)]
  let ?s = "s\<lparr>nodes := (nodes s)[i := ?n]\<rparr>"
  have "ramfs_rename (path_of cs) (path_of (cs @ [nm])) s = Some (0, ?s)"
    using find_path [OF p, of s] parse_path_of [OF path_of_c_str [OF assms(5)] assms(5), of s] assms(2,3) i fn fc
    by (simp add: ramfs_rename_def upd_node_def)
  moreover have "ramfs_find (path_of ds) ?s \<noteq> Some (int i)" if "path_ok ds" for ds
    using find_path [OF that, of ?s] rt(2) [of ds] by (auto simp: idx_of_def split: option.splits)
  moreover have "n_active (nodes ?s ! i)" using a(1,2) l(1) by simp
  ultimately show ?thesis by blast
qed

lemma rename_orphans_witness:
  "\<exists>s'. ramfs_rename ''/a'' ''/a/b'' dir_sample = Some (0, s') \<and> n_active (nodes s' ! 1) \<and> ramfs_find ''/a/b'' s' \<noteq> Some 1"
proof -
  have p: "path_ok ([''a''] @ [''b''])" using valid_a by (simp add: path_ok_def path_of_def RAMFS_MAX_PATH_def)
  have ty: "n_type (nodes dir_sample ! 1) = RAMFS_DIR" unfolding dir_sample_tree(4) by (simp add: dir_node_def)
  from rename_orphans [OF dir_sample_tree(1,2) ty _ p] dir_sample_tree(3) obtain s' where
    s': "ramfs_rename (path_of [''a'']) (path_of ([''a''] @ [''b''])) dir_sample = Some (0, s')" "n_active (nodes s' ! 1)"
      "\<forall>ds. path_ok ds \<longrightarrow> ramfs_find (path_of ds) s' \<noteq> Some (int 1)" by auto
  from s'(3) p have "ramfs_find (path_of ([''a''] @ [''b''])) s' \<noteq> Some (int 1)" by blast
  with s'(1,2) show ?thesis by (simp add: path_of_def)
qed

end
