(* ===== verification/Elf.thy ===== *)
theory Elf
  imports Sched
begin

text \<open>
  The ELF loader, \<^verbatim>\<open>src/elf.c\<close>: validation of the header, loading of the segments into a fresh
  address space, the user stack and the creation of the task.  The file is in memory at an address;
  the headers are read from there whenever the code reads them.  \<open>None\<close> is a page fault in the kernel.
\<close>

section \<open>Definitions\<close>

definition ELF_MAGIC :: u32 where "ELF_MAGIC = 0x464C457F"
definition ELFCLASS32 :: u8 where "ELFCLASS32 = 1"
definition ELFDATA2LSB :: u8 where "ELFDATA2LSB = 1"
definition ET_EXEC :: u16 where "ET_EXEC = 2"
definition EM_386 :: u16 where "EM_386 = 3"
definition PT_LOAD :: u32 where "PT_LOAD = 1"
definition PF_W :: u32 where "PF_W = 2"
definition USER_BASE :: u32 where "USER_BASE = 0xC0000000"
definition USER_STACK_TOP :: u32 where "USER_STACK_TOP = 0xE0000000"
definition USER_STACK_PAGES :: u32 where "USER_STACK_PAGES = 4"
definition USER_VGA_VADDR :: u32 where "USER_VGA_VADDR = 0xB0000000"
definition VGA_PHYS_BASE :: u32 where "VGA_PHYS_BASE = 0xB8000"
definition ELF_MAP_VGA :: u32 where "ELF_MAP_VGA = 1"
definition TEMP_MAP_VA :: u32 where "TEMP_MAP_VA = 0x3FD00000"

text \<open>The fields of the two headers the loader uses.\<close>

record elf32_ehdr =
  e_ident_magic :: u32
  e_ident_class :: u8
  e_ident_data :: u8
  e_type :: u16
  e_machine :: u16
  e_entry :: u32
  e_phoff :: u32
  e_phentsize :: u16
  e_phnum :: u16

definition EHDR_SIZE :: u32 where "EHDR_SIZE = 52"

definition read_ehdr :: "memory \<Rightarrow> u32 \<Rightarrow> elf32_ehdr" where
  "read_ehdr m p = \<lparr>e_ident_magic = load32 m p, e_ident_class = m (p + 4), e_ident_data = m (p + 5), e_type = load16 m (p + 16),
     e_machine = load16 m (p + 18), e_entry = load32 m (p + 24), e_phoff = load32 m (p + 28), e_phentsize = load16 m (p + 42),
     e_phnum = load16 m (p + 44)\<rparr>"

record elf32_phdr =
  p_type :: u32
  p_offset :: u32
  p_vaddr :: u32
  p_filesz :: u32
  p_memsz :: u32
  p_flags :: u32

definition read_phdr :: "memory \<Rightarrow> u32 \<Rightarrow> elf32_phdr" where
  "read_phdr m p = \<lparr>p_type = load32 m p, p_offset = load32 m (p + 4), p_vaddr = load32 m (p + 8), p_filesz = load32 m (p + 16),
     p_memsz = load32 m (p + 20), p_flags = load32 m (p + 24)\<rparr>"

definition elf_validate :: "memory \<Rightarrow> u32 \<Rightarrow> u32 \<Rightarrow> int" where
  "elf_validate m data sz =
     (if data = 0 \<or> sz < EHDR_SIZE then -1
      else
        let h = read_ehdr m data in
        if e_ident_magic h \<noteq> ELF_MAGIC then -1
        else if e_ident_class h \<noteq> ELFCLASS32 \<or> e_ident_data h \<noteq> ELFDATA2LSB \<or> e_type h \<noteq> ET_EXEC \<or> e_machine h \<noteq> EM_386 then -1
        else if e_phnum h = 0 \<or> e_phoff h = 0 then -1
        else if e_phoff h + ucast (e_phnum h) * ucast (e_phentsize h) > sz then -1
        else if e_entry h < USER_BASE then -1
        else 0)"

text \<open>One page of a segment: a zeroed frame, the part of the file that falls into it, the mapping.  The
  result says whether a frame was free.\<close>

definition page_copy :: "elf32_phdr \<Rightarrow> u32 \<Rightarrow> u32 \<Rightarrow> u32 \<Rightarrow> memory \<Rightarrow> memory" where
  "page_copy ph file page_vaddr frame_phys m =
     (let seg_file_start = p_vaddr ph;
          seg_file_end = p_vaddr ph + p_filesz ph;
          page_start = page_vaddr;
          page_end = page_vaddr + PAGE_SIZE
      in if seg_file_end > page_start \<and> seg_file_start < page_end then
           let copy_start = (if seg_file_start > page_start then seg_file_start else page_start);
               copy_end = (if seg_file_end < page_end then seg_file_end else page_end);
               copy_len = copy_end - copy_start;
               file_offset = p_offset ph + (copy_start - p_vaddr ph);
               page_offset = copy_start - page_start
           in memcpy m (frame_phys + page_offset) (file + file_offset) (unat copy_len)
         else m)"

definition map_segment_page :: "u32 \<Rightarrow> u32 \<Rightarrow> u32 \<Rightarrow> u32 \<Rightarrow> u32 \<Rightarrow> 'a paging_state_scheme \<Rightarrow> (bool \<times> 'a paging_state_scheme) option" where
  "map_segment_page pd phdr file flags page_vaddr s =
     (let (frame_phys, s) = pmm_alloc_page s in
      if frame_phys = 0 then Some (False, s)
      else
        let m = memset (mem s) frame_phys 0 (unat PAGE_SIZE);
            s = s\<lparr>mem := page_copy (read_phdr m phdr) file page_vaddr frame_phys m\<rparr>
        in map_option (\<lambda>s. (True, s)) (paging_map_user pd page_vaddr frame_phys flags s))"

fun map_segment_loop :: "u32 list \<Rightarrow> u32 \<Rightarrow> u32 \<Rightarrow> u32 \<Rightarrow> u32 \<Rightarrow> 'a paging_state_scheme \<Rightarrow> (bool \<times> 'a paging_state_scheme) option" where
  "map_segment_loop [] pd phdr file flags s = Some (True, s)"
| "map_segment_loop (page_vaddr # pages) pd phdr file flags s =
     do { (ok, s) \<leftarrow> map_segment_page pd phdr file flags page_vaddr s;
          if ok then map_segment_loop pages pd phdr file flags s else Some (False, s) }"

definition segment_pages :: "elf32_phdr \<Rightarrow> u32 list" where
  "segment_pages ph =
     (let vaddr_start = p_vaddr ph AND NOT 0xFFF;
          vaddr_end = (p_vaddr ph + p_memsz ph + 0xFFF) AND NOT 0xFFF;
          num_pages = (vaddr_end - vaddr_start) div PAGE_SIZE
      in map (\<lambda>i. vaddr_start + of_nat i * PAGE_SIZE) [0..<unat num_pages])"

definition map_segment :: "u32 \<Rightarrow> u32 \<Rightarrow> u32 \<Rightarrow> 'a paging_state_scheme \<Rightarrow> (bool \<times> 'a paging_state_scheme) option" where
  "map_segment pd phdr file s =
     (let ph = read_phdr (mem s) phdr;
          flags = PAGE_PRESENT OR PAGE_USER OR (if p_flags ph AND PF_W \<noteq> 0 then PAGE_WRITE else 0)
      in map_segment_loop (segment_pages ph) pd phdr file flags s)"

text \<open>The loop over the program headers, from the \<open>i\<close>-th on; \<open>False\<close> when the file is refused or memory is
  short.\<close>

function load_segments :: "nat \<Rightarrow> u32 \<Rightarrow> u32 \<Rightarrow> u32 \<Rightarrow> 'a paging_state_scheme \<Rightarrow> (bool \<times> 'a paging_state_scheme) option" where
  "load_segments i pd data sz s =
     (let h = read_ehdr (mem s) data in
      if i \<ge> unat (e_phnum h) then Some (True, s)
      else
        let phdr = data + e_phoff h + of_nat i * ucast (e_phentsize h);
            ph = read_phdr (mem s) phdr
        in if p_type ph \<noteq> PT_LOAD \<or> p_memsz ph = 0 then load_segments (Suc i) pd data sz s
           else if p_vaddr ph < USER_BASE then Some (False, s)
           else if p_offset ph + p_filesz ph > sz then Some (False, s)
           else do { (ok, s) \<leftarrow> map_segment pd phdr data s;
                     if ok then load_segments (Suc i) pd data sz s else Some (False, s) })"
  by pat_completeness auto
termination
proof (relation "measure (\<lambda>(i, pd, data, sz, s). 65536 - i)", goal_cases)
  case (2 i pd data sz s x xa xb)
  then show ?case using unat_u16 [of "e_phnum x"] by (simp add: not_le)
next
  case (3 i pd data sz s x xa xb y)
  then show ?case using unat_u16 [of "e_phnum x"] by (simp add: not_le)
qed simp

declare load_segments.simps [simp del]

text \<open>The user stack, page by page from the bottom.\<close>

fun map_stack :: "u32 list \<Rightarrow> u32 \<Rightarrow> 'a paging_state_scheme \<Rightarrow> (bool \<times> 'a paging_state_scheme) option" where
  "map_stack [] pd s = Some (True, s)"
| "map_stack (va # vas) pd s =
     (let (frame_phys, s) = pmm_alloc_page s in
      if frame_phys = 0 then Some (False, s)
      else
        let s = paging_map_page TEMP_MAP_VA frame_phys (PAGE_PRESENT OR PAGE_WRITE) s
        in do { pa \<leftarrow> mmu (mem s) (cr3 s) TEMP_MAP_VA;
                let s = s\<lparr>mem := memset (mem s) pa 0 (unat PAGE_SIZE)\<rparr>;
                let s = paging_unmap_page TEMP_MAP_VA s;
                s \<leftarrow> paging_map_user pd va frame_phys (PAGE_PRESENT OR PAGE_WRITE OR PAGE_USER) s;
                map_stack vas pd s })"

definition stack_pages :: "u32 list" where
  "stack_pages = map (\<lambda>i. USER_STACK_TOP - USER_STACK_PAGES * PAGE_SIZE + of_nat i * PAGE_SIZE) [0..<unat USER_STACK_PAGES]"

definition elf_load :: "u32 \<Rightarrow> u32 \<Rightarrow> string \<Rightarrow> u32 \<Rightarrow> bool \<Rightarrow> u32 \<Rightarrow> 'a task_state_scheme \<Rightarrow> (int \<times> 'a task_state_scheme) option" where
  "elf_load data sz name prio iopl flags s =
     (if elf_validate (mem s) data sz \<noteq> 0 then Some (-1, s)
      else
        let (pd, s) = paging_create_isolated_space s in
        if pd = 0 then Some (-1, s)
        else do {
          (ok, s) \<leftarrow> load_segments 0 pd data sz s;
          if \<not> ok then Some (-1, paging_destroy_address_space pd s)
          else do {
            (ok, s) \<leftarrow> map_stack stack_pages pd s;
            if \<not> ok then Some (-1, paging_destroy_address_space pd s)
            else do {
              s \<leftarrow> (if flags AND ELF_MAP_VGA \<noteq> 0 then
                      do { s \<leftarrow> paging_map_user pd USER_VGA_VADDR VGA_PHYS_BASE (PAGE_PRESENT OR PAGE_WRITE OR PAGE_USER) s;
                           paging_map_user pd (USER_VGA_VADDR + PAGE_SIZE) (VGA_PHYS_BASE + PAGE_SIZE) (PAGE_PRESENT OR PAGE_WRITE OR PAGE_USER) s }
                    else Some s);
              (kernel_stack, s) \<leftarrow> kmalloc KERNEL_STACK_SIZE s;
              if kernel_stack = 0 then Some (-1, paging_destroy_address_space pd s)
              else
                let (pid, s) = task_create_from_elf name (e_entry (read_ehdr (mem s) data)) USER_STACK_TOP pd kernel_stack KERNEL_STACK_SIZE prio iopl s
                in if pid < 0 then do { s \<leftarrow> kfree kernel_stack s; Some (-1, paging_destroy_address_space pd s) }
                   else Some (pid, s) } } })"

section \<open>Loading a segment\<close>

text \<open>What a byte of the segment's memory image should be: file contents first, zeros after.\<close>

definition segment_byte :: "memory \<Rightarrow> elf32_phdr \<Rightarrow> u32 \<Rightarrow> nat \<Rightarrow> u8" where
  "segment_byte m ph file x =
     (if unat (p_vaddr ph) \<le> x \<and> x < unat (p_vaddr ph) + unat (p_filesz ph)
      then m (ptr (unat file + unat (p_offset ph) + (x - unat (p_vaddr ph)))) else 0)"

text \<open>No address of the segment wraps, in the image or in the file of \<open>sz\<close> bytes.\<close>

definition segment_ok :: "elf32_phdr \<Rightarrow> u32 \<Rightarrow> nat \<Rightarrow> bool" where
  "segment_ok ph file sz \<longleftrightarrow>
     0xC0000000 \<le> unat (p_vaddr ph) \<and> unat (p_vaddr ph) + unat (p_memsz ph) + 4095 < 4294967296
     \<and> p_filesz ph \<le> p_memsz ph \<and> unat (p_offset ph) + unat (p_filesz ph) \<le> sz \<and> unat file + sz < 4294967296"

lemma memset_ptr:
  assumes "unat d + n \<le> 4294967296" "x < 4294967296"
  shows "memset m d c n (ptr x) = (if unat d \<le> x \<and> x < unat d + n then c else m (ptr x))"
proof (cases "unat d \<le> x")
  case True
  then have "unat (ptr x - d) = x - unat d"
    using assms(2) by (metis ptr_minus ptr_unat unat_ptr less_imp_diff_less)
  then show ?thesis using True assms by (auto simp: memset_apply)
next
  case False
  then have "x < unat d \<or> unat d + n \<le> x" by auto
  then have "n \<le> unat (ptr x - d)" using unat_outside [OF assms(2) _ assms(1)] by (simp add: ptr_def)
  then show ?thesis using False assms by (auto simp: memset_apply)
qed

lemma page_copy_byte:
  fixes F V :: nat
  assumes ok: "segment_ok ph file sz" and F: "F + 4096 \<le> 4294967296" and V: "V + 8192 \<le> 4294967296"
    and dj: "{F..<F + 4096} \<inter> {unat file..<unat file + sz} = {}" and x: "x < 4294967296"
  shows "page_copy ph file (ptr V) (ptr F) m (ptr x)
    = (if F \<le> x \<and> x < F + 4096 \<and> unat (p_vaddr ph) \<le> V + (x - F) \<and> V + (x - F) < unat (p_vaddr ph) + unat (p_filesz ph)
       then m (ptr (unat file + unat (p_offset ph) + (V + (x - F) - unat (p_vaddr ph)))) else m (ptr x))"
proof -
  let ?v = "unat (p_vaddr ph)" and ?n = "unat (p_filesz ph)" and ?o = "unat (p_offset ph)"
  have b: "?v + ?n < 4294967296" "?o + ?n \<le> sz" "unat file + sz < 4294967296"
    using ok by (auto simp: segment_ok_def word_le_nat_alt)
  define cs where "cs = max ?v V"
  define ce where "ce = min (?v + ?n) (V + 4096)"
  have w: "p_vaddr ph + p_filesz ph = ptr (?v + ?n)" "p_vaddr ph = ptr ?v" "p_offset ph = ptr ?o" "file = ptr (unat file)"
    by (simp_all add: ptr_def)
  show ?thesis
  proof (cases "V < ?v + ?n \<and> ?v < V + 4096")
    case True
    then have le: "cs \<le> ce" "?v \<le> cs" "V \<le> cs" "ce \<le> ?v + ?n" "ce \<le> V + 4096" "cs < V + 4096" by (auto simp: cs_def ce_def)
    have st: "(if p_vaddr ph > ptr V then p_vaddr ph else ptr V) = ptr cs"
      using V b by (subst (1 2) w(2)) (auto simp: cs_def max_def)
    have en: "(if ptr (?v + ?n) < ptr V + PAGE_SIZE then ptr (?v + ?n) else ptr V + PAGE_SIZE) = ptr ce"
      using V b by (auto simp: ce_def min_def PAGE_SIZE_def)
    have "page_copy ph file (ptr V) (ptr F) m
        = memcpy m (ptr F + (ptr cs - ptr V)) (file + (p_offset ph + (ptr cs - p_vaddr ph))) (unat (ptr ce - ptr cs))"
      unfolding page_copy_def Let_def w(1) st en using True V b by (subst w(2)) (simp add: PAGE_SIZE_def)
    also have "ptr F + (ptr cs - ptr V) = ptr (F + (cs - V))" using le by (simp add: ptr_minus ptr_def)
    also have "file + (p_offset ph + (ptr cs - p_vaddr ph)) = ptr (unat file + ?o + (cs - ?v))"
      using le(2) by (subst w(2), simp only: ptr_minus) (simp add: ptr_def)
    also have "unat (ptr ce - ptr cs) = ce - cs" using le b by (simp add: ptr_minus)
    finally have pc: "page_copy ph file (ptr V) (ptr F) m = memcpy m (ptr (F + (cs - V))) (ptr (unat file + ?o + (cs - ?v))) (ce - cs)" .
    have uF: "unat (ptr (F + (cs - V))) = F + (cs - V)" using le F V b by (intro unat_ptr) linarith
    have us: "unat (ptr (unat file + ?o + (cs - ?v))) = unat file + ?o + (cs - ?v)" using le b by (intro unat_ptr) linarith
    have sub: "{F + (cs - V)..<F + (cs - V) + (ce - cs)} \<inter> {unat file + ?o + (cs - ?v)..<unat file + ?o + (cs - ?v) + (ce - cs)} = {}"
    proof -
      have "{F + (cs - V)..<F + (cs - V) + (ce - cs)} \<subseteq> {F..<F + 4096}" using le by auto
      moreover have "{unat file + ?o + (cs - ?v)..<unat file + ?o + (cs - ?v) + (ce - cs)} \<subseteq> {unat file..<unat file + sz}"
        using le b by auto
      ultimately show ?thesis using dj by blast
    qed
    have "memcpy m (ptr (F + (cs - V))) (ptr (unat file + ?o + (cs - ?v))) (ce - cs) (ptr x)
       = (if F + (cs - V) \<le> x \<and> x < F + (cs - V) + (ce - cs) then m (ptr (unat file + ?o + (cs - ?v) + (x - (F + (cs - V))))) else m (ptr x))"
    proof (rule memcpy_ptr [of "ptr (F + (cs - V))" "ce - cs" "ptr (unat file + ?o + (cs - ?v))" x m, unfolded uF us, OF _ _ sub x])
      show "F + (cs - V) + (ce - cs) \<le> 4294967296" using le F by linarith
      show "unat file + ?o + (cs - ?v) + (ce - cs) \<le> 4294967296" using le b by linarith
    qed
    moreover have "F + (cs - V) \<le> x \<and> x < F + (cs - V) + (ce - cs)
        \<longleftrightarrow> F \<le> x \<and> x < F + 4096 \<and> ?v \<le> V + (x - F) \<and> V + (x - F) < ?v + ?n"
    proof -
      have "F + (cs - V) \<le> x \<longleftrightarrow> F \<le> x \<and> ?v \<le> V + (x - F)" by (cases "?v \<le> V") (simp add: cs_def; linarith)+
      moreover have "x < F + (cs - V) + (ce - cs) \<longleftrightarrow> x < F + (ce - V)" using le by linarith
      moreover have "x < F + (ce - V) \<longleftrightarrow> x < F + 4096 \<and> V + (x - F) < ?v + ?n" if "F \<le> x"
        using that True by (cases "?v + ?n \<le> V + 4096") (simp add: ce_def; linarith)+
      ultimately show ?thesis by metis
    qed
    moreover have "unat file + ?o + (cs - ?v) + (x - (F + (cs - V))) = unat file + ?o + (V + (x - F) - ?v)"
      if "F + (cs - V) \<le> x" using that le by linarith
    ultimately show ?thesis unfolding pc by auto
  next
    case False
    have "\<not> (ptr V < ptr (?v + ?n) \<and> ptr ?v < ptr V + PAGE_SIZE)" using False V b by (auto simp: PAGE_SIZE_def)
    then have "page_copy ph file (ptr V) (ptr F) m = m"
      unfolding page_copy_def Let_def w(1) by (subst (1 2) w(2)) (simp only: if_False split: if_split)
    then show ?thesis using False by auto
  qed
qed

text \<open>
  The address space being filled: a directory at \<open>T\<close> that shares the kernel's tables from
  \<open>0xC0000000\<close> up, as \<open>paging_create_isolated_space\<close> makes it.
\<close>

definition table_bytes :: "'a paging_state_scheme \<Rightarrow> nat \<Rightarrow> nat set" where
  "table_bytes s T = {T..<T + 4096} \<union> {unat (page_directory s)..<unat (page_directory s) + 4096}
     \<union> {unat (page_tables s)..<unat (page_tables s) + 4194304}"

definition elf_space :: "'a paging_state_scheme \<Rightarrow> nat \<Rightarrow> bool" where
  "elf_space s T \<longleftrightarrow> kernel_tables s \<and> page_clear s T
     \<and> (T + 4096 \<le> unat (page_tables s) \<or> unat (page_tables s) + 4194304 \<le> T)
     \<and> (\<forall>i. 768 \<le> i \<and> i < 1024 \<longrightarrow> load32 (mem s) (ptr (T + 4 * i)) = ptr (unat (page_tables s) + 4096 * i) OR 7)"

lemma table_bytes_upd [simp]:
  "table_bytes (s\<lparr>mem := m\<rparr>) T = table_bytes s T" "table_bytes (s\<lparr>bitmap := bm, used_pages := u\<rparr>) T = table_bytes s T"
  by (simp_all add: table_bytes_def)

lemma elf_space_pages [simp]: "elf_space (s\<lparr>bitmap := bm, used_pages := u\<rparr>) T = elf_space s T"
  by (simp add: elf_space_def kernel_tables_def paging_layout_def page_clear_def)

lemma elf_space_table:
  assumes "elf_space s T" "768 \<le> i" "i < 1024"
  defines "P \<equiv> unat (page_tables s) + 4096 * i"
  shows "page_clear s P" "P \<noteq> T" "present (ptr P OR 7)" "frame (ptr P OR 7) = ptr P" "(ptr P OR 7) OR PAGE_USER = ptr P OR 7"
proof -
  have lay: "paging_layout s" using assms(1) by (simp add: elf_space_def kernel_tables_def)
  note l = paging_layoutD [OF lay]
  have P: "P mod 4096 = 0" "P + 4096 \<le> 4294967296" "P < 4294967296" using l(2,6) assms(3) by (auto simp: P_def)
  show "page_clear s P" using P l assms(2,3) by (auto simp: page_clear_def P_def)
  show "P \<noteq> T" using assms(1-3) by (auto simp: elf_space_def P_def)
  show "present (ptr P OR 7)" unfolding present_bit bit_or_iff by (simp add: bit_0)
  have "(7 :: u32) = 7 AND 0xFFF" by simp
  then show "frame (ptr P OR 7) = ptr P" using frame_or_low [of "ptr P" 7] frame_ptr [OF P(1,3)] by simp
  have "(7 :: u32) OR PAGE_USER = 7" by (simp add: PAGE_USER_def)
  then show "(ptr P OR 7) OR PAGE_USER = ptr P OR 7" by (simp add: or.assoc)
qed

text \<open>Mapping one page there: the translations of the other pages, the directory and all memory outside
  the tables keep their contents.\<close>

lemma elf_space_map:
  fixes s :: "'a paging_state_scheme"
  assumes sp: "elf_space s T" and hi: "0xC0000000 \<le> virt"
  obtains m' where "paging_map_user (ptr T) virt phys flags s = Some (s\<lparr>mem := m'\<rparr>)" "elf_space (s\<lparr>mem := m'\<rparr>) T"
    "load32 m' (ptr (kpte_addr s virt)) = frame phys OR (user_flags virt flags AND 0xFFF)"
    "\<And>v. 0xC0000000 \<le> v \<Longrightarrow> unat v div 4096 \<noteq> unat virt div 4096 \<Longrightarrow> load32 m' (ptr (kpte_addr s v)) = load32 (mem s) (ptr (kpte_addr s v))"
    "\<And>x. x < 4294967296 \<Longrightarrow> x \<notin> table_bytes s T \<Longrightarrow> m' (ptr x) = mem s (ptr x)"
proof -
  let ?i = "unat (pd_idx virt)" and ?t = "unat (page_tables s)"
  let ?P = "?t + 4096 * ?i"
  have kt: "kernel_tables s" and cT: "page_clear s T" and far: "T + 4096 \<le> ?t \<or> ?t + 4194304 \<le> T"
    and ent: "\<And>i. 768 \<le> i \<Longrightarrow> i < 1024 \<Longrightarrow> load32 (mem s) (ptr (T + 4 * i)) = ptr (?t + 4096 * i) OR 7"
    using sp by (auto simp: elf_space_def)
  have lay: "paging_layout s" using kt by (simp add: kernel_tables_def)
  note l = paging_layoutD [OF lay]
  have i: "768 \<le> ?i" "?i < 1024" using hi unat_pd_idx [of virt] by (simp_all add: word_le_nat_alt)
  note P = elf_space_table [OF sp i]
  note cW = page_clear_word [OF lay cT]
  have kp: "?P + 4 * unat (pt_idx virt) = kpte_addr s virt" using page_number [of virt] by (simp add: kpte_addr_def)
  obtain m' where m': "paging_map_user (ptr T) virt phys flags s = Some (s\<lparr>mem := m'\<rparr>)"
    and all: "\<forall>b. b mod 4 = 0 \<and> b < 4294967296 \<longrightarrow> load32 m' (ptr b) =
         (if b \<in> window_entries s then 0 else if b = kpte_addr s virt then frame phys OR (user_flags virt flags AND 0xFFF)
          else if b = T + 4 * ?i then ptr ?P OR 7 else load32 (mem s) (ptr b))"
    using map_user_existing [OF kt cT P(1,2) ent [OF i] P(3,4), of phys flags, unfolded P(5) kp] by blast
  have win: "kpte_addr s v \<notin> window_entries s" if "0xC0000000 \<le> v" for v
  proof -
    have "768 * 1024 \<le> unat v div 4096" using that by (simp add: word_le_nat_alt)
    then show ?thesis by (auto simp: window_entries_def kpte_addr_def TEMP_PD_VA_def TEMP_PT_VA_def)
  qed
  have kT: "kpte_addr s v \<noteq> T + 4 * j" if "j < 1024" for v j
    using kpte_range(2,3) [OF lay, of v] far that by auto
  have new: "load32 m' (ptr (kpte_addr s virt)) = frame phys OR (user_flags virt flags AND 0xFFF)"
    using all kpte_range(1,4) [OF lay] win [OF hi] by simp
  have old: "load32 m' (ptr (kpte_addr s v)) = load32 (mem s) (ptr (kpte_addr s v))"
    if "0xC0000000 \<le> v" "unat v div 4096 \<noteq> unat virt div 4096" for v
  proof -
    have "kpte_addr s v \<noteq> kpte_addr s virt" using that(2) by (simp add: kpte_addr_def)
    then show ?thesis using all kpte_range(1,4) [OF lay] win [OF that(1)] kT [OF i(2)] by simp
  qed
  have ent': "load32 m' (ptr (T + 4 * j)) = ptr (?t + 4096 * j) OR 7" if "768 \<le> j" "j < 1024" for j
    using all [rule_format, of "T + 4 * j"] cW(1-3) [OF that(2)] kT [OF that(2), of virt] ent [OF that] by auto
  have kt': "kernel_tables (s\<lparr>mem := m'\<rparr>)"
    by (rule map_user_kernel_tables [OF kt cT P(1), of _ virt "frame phys OR (user_flags virt flags AND 0xFFF)" "ptr ?P OR 7"])
      (unfold kp, rule all)
  have sp': "elf_space (s\<lparr>mem := m'\<rparr>) T" using kt' cT far ent' by (simp add: elf_space_def)
  have out: "m' (ptr x) = mem s (ptr x)" if x: "x < 4294967296" "x \<notin> table_bytes s T" for x
  proof -
    define b where "b = x div 4 * 4"
    have b: "b mod 4 = 0" "b < 4294967296" "x = b + x mod 4" "x mod 4 < 4" "b \<le> x" "x < b + 4" using x by (auto simp: b_def)
    have "b \<noteq> kpte_addr s v" for v using kpte_range(2,3) [OF lay, of v] b(5,6) x(2) by (auto simp: table_bytes_def)
    then have "b \<notin> window_entries s" "b \<noteq> kpte_addr s virt" by (auto simp: window_entries_def)
    moreover have "b \<noteq> T + 4 * ?i" using b(5,6) x(2) i(2) by (auto simp: table_bytes_def)
    ultimately have "load32 m' (ptr b) = load32 (mem s) (ptr b)" using all b(1,2) by simp
    from load32_eq_bytes [OF this b(4)] show ?thesis using b(3) by simp
  qed
  show thesis by (rule that [OF m' sp' new old out])
qed

text \<open>No frame that \<open>pmm_alloc_page\<close> could hand out meets the bytes \<open>A\<close>.\<close>

definition kept :: "'a pmm_state_scheme \<Rightarrow> nat set \<Rightarrow> bool" where
  "kept s A \<longleftrightarrow> (\<forall>x \<in> A. x div 4096 < unat (total_pages s) \<longrightarrow> x div 4096 \<in> used_set s)"

definition elf_ready :: "'a paging_state_scheme \<Rightarrow> nat \<Rightarrow> u32 \<Rightarrow> nat \<Rightarrow> bool" where
  "elf_ready s T file sz \<longleftrightarrow> elf_space s T \<and> pmm_inv s \<and> kept s (table_bytes s T \<union> {unat file..<unat file + sz})
     \<and> table_bytes s T \<inter> {unat file..<unat file + sz} = {} \<and> 0 \<in> used_set s"

text \<open>A page of the image is in place: mapped, in a frame of its own that holds the bytes \<open>img\<close>.\<close>

definition page_loaded :: "'a paging_state_scheme \<Rightarrow> nat \<Rightarrow> (nat \<Rightarrow> u8) \<Rightarrow> u32 \<Rightarrow> nat \<Rightarrow> bool" where
  "page_loaded s T img flags V \<longleftrightarrow>
     (\<exists>F. F mod 4096 = 0 \<and> F + 4096 \<le> 4294967296 \<and> F div 4096 \<in> used_set s \<and> {F..<F + 4096} \<inter> table_bytes s T = {}
        \<and> load32 (mem s) (ptr (kpte_addr s (ptr V))) = frame (ptr F) OR (user_flags (ptr V) flags AND 0xFFF)
        \<and> (\<forall>i < 4096. mem s (ptr (F + i)) = img (V + i)))"

definition free_frames :: "'a pmm_state_scheme \<Rightarrow> nat" where
  "free_frames s = unat (total_pages s) - card (used_set s)"

lemma page_loadedE:
  assumes "page_loaded s T img flags V"
  obtains F where "F mod 4096 = 0" "F + 4096 \<le> 4294967296" "F div 4096 \<in> used_set s" "{F..<F + 4096} \<inter> table_bytes s T = {}"
    "load32 (mem s) (ptr (kpte_addr s (ptr V))) = frame (ptr F) OR (user_flags (ptr V) flags AND 0xFFF)"
    "\<forall>i < 4096. mem s (ptr (F + i)) = img (V + i)"
  using assms unfolding page_loaded_def by (elim exE conjE) (rule that)

lemma page_eqI: "a mod 4096 = 0 \<Longrightarrow> b mod 4096 = 0 \<Longrightarrow> a div 4096 = b div 4096 \<Longrightarrow> a = (b :: nat)"
  by (metis mod_div_mult_eq add_cancel_right_left)

lemma in_page: "a mod 4096 = 0 \<Longrightarrow> a \<le> x \<Longrightarrow> x < a + 4096 \<Longrightarrow> x div 4096 = a div (4096 :: nat)"
  by (intro div_nat_eqI) (auto simp: mult.commute dest: mod_0_imp_dvd elim!: dvdE)

lemma read_phdr_cong:
  assumes "\<And>i. i < 28 \<Longrightarrow> m (ptr (a + i)) = m' (ptr (a + i))"
  shows "read_phdr m (ptr a) = read_phdr m' (ptr a)"
proof -
  have "load32 m (ptr (a + k)) = load32 m' (ptr (a + k))" if "k + 4 \<le> 28" for k
    using assms [of k] assms [of "k + 1"] assms [of "k + 2"] assms [of "k + 3"] that
    by (simp add: load32_def add.assoc)
  from this [of 0] this [of 4] this [of 8] this [of 16] this [of 20] this [of 24] show ?thesis by (simp add: read_phdr_def)
qed

lemma map_segment_page_step:
  fixes s :: "'a paging_state_scheme"
  assumes rd: "elf_ready s T file sz" and ok: "segment_ok ph file sz" and ph: "read_phdr (mem s) (ptr a) = ph"
    and a: "unat file \<le> a" "a + 28 \<le> unat file + sz"
    and V: "V mod 4096 = 0" "0xC0000000 \<le> V" "V + 8192 \<le> 4294967296"
  obtains (full) "map_segment_page (ptr T) (ptr a) file flags (ptr V) s = Some (False, s)" "free_frames s = 0"
  | (mapped) s' where "map_segment_page (ptr T) (ptr a) file flags (ptr V) s = Some (True, s')" "elf_ready s' T file sz"
      "page_loaded s' T (segment_byte (mem s) ph file) flags V"
      "\<And>V' img. V' mod 4096 = 0 \<Longrightarrow> 0xC0000000 \<le> V' \<Longrightarrow> V' < 4294967296 \<Longrightarrow> V' \<noteq> V \<Longrightarrow> page_loaded s T img flags V' \<Longrightarrow> page_loaded s' T img flags V'"
      "\<And>x. unat file \<le> x \<Longrightarrow> x < unat file + sz \<Longrightarrow> mem s' (ptr x) = mem s (ptr x)" "free_frames s = Suc (free_frames s')"
proof -
  let ?file = "{unat file..<unat file + sz}"
  have sp: "elf_space s T" and pi: "pmm_inv s" and kp: "kept s (table_bytes s T \<union> ?file)"
    and dj: "table_bytes s T \<inter> ?file = {}" and z: "0 \<in> used_set s" using rd by (auto simp: elf_ready_def)
  have fb: "unat file + sz < 4294967296" using ok by (simp add: segment_ok_def)
  have t4: "unat (total_pages s) \<le> 262144" using pi by (simp add: pmm_inv_def MAX_PAGES_def word_le_nat_alt)
  from pi show thesis
  proof (cases rule: pmm_alloc_page_cases)
    case full
    then show thesis by (intro that(1)) (simp_all add: map_segment_page_def free_frames_def)
  next
    case (ok k s1)
    define F where "F = 4096 * k"
    have F: "F mod 4096 = 0" "F + 4096 \<le> 4294967296" "F div 4096 = k" using ok(1) t4 by (auto simp: F_def)
    have k0: "k \<noteq> 0" using ok(2) z by metis
    have al: "pmm_alloc_page s = (ptr F, s1)" using ok(4) by (simp add: F_def ptr_def PAGE_SIZE_def mult.commute)
    obtain bm u where s1: "s1 = s\<lparr>bitmap := bm, used_pages := u\<rparr>" using pmm_alloc_page_frame [OF al] by blast
    have out: "x \<notin> table_bytes s T \<union> ?file" if "F \<le> x" "x < F + 4096" for x
    proof
      assume "x \<in> table_bytes s T \<union> ?file"
      then show False using kp in_page [OF F(1) that] F(3) ok(1,2) by (auto simp: kept_def)
    qed
    let ?m = "memset (mem s1) (ptr F) 0 (unat PAGE_SIZE)"
    have ms: "?m (ptr x) = (if F \<le> x \<and> x < F + 4096 then 0 else mem s (ptr x))" if "x < 4294967296" for x
      using memset_ptr [of "ptr F" 4096 x "mem s1" 0] F(2) that ok(9) by (simp add: PAGE_SIZE_def)
    have ph': "read_phdr ?m (ptr a) = ph"
      unfolding ph [symmetric] by (rule read_phdr_cong) (use a fb out in \<open>force simp: ms\<close>)
    let ?m2 = "page_copy ph file (ptr V) (ptr F) ?m"
    have dF: "{F..<F + 4096} \<inter> ?file = {}" using out by fastforce
    note pc = page_copy_byte [OF assms(2) F(2) V(3) dF]
    have v: "unat (p_filesz ph) + unat (p_offset ph) \<le> sz" using assms(2) by (simp add: segment_ok_def)
    have in2: "?m2 (ptr (F + i)) = segment_byte (mem s) ph file (V + i)" if i: "i < 4096" for i
    proof -
      have "?m2 (ptr (F + i)) = (if unat (p_vaddr ph) \<le> V + i \<and> V + i < unat (p_vaddr ph) + unat (p_filesz ph)
         then ?m (ptr (unat file + unat (p_offset ph) + (V + i - unat (p_vaddr ph)))) else ?m (ptr (F + i)))"
        using pc [of "F + i" ?m] i F(2) by simp
      moreover have "?m (ptr (unat file + unat (p_offset ph) + d)) = mem s (ptr (unat file + unat (p_offset ph) + d))"
        if "d < unat (p_filesz ph)" for d
        using ms [of "unat file + unat (p_offset ph) + d"] out [of "unat file + unat (p_offset ph) + d"] that v fb by auto
      moreover have "V + i - unat (p_vaddr ph) < unat (p_filesz ph)"
        if "unat (p_vaddr ph) \<le> V + i \<and> V + i < unat (p_vaddr ph) + unat (p_filesz ph)" using that by linarith
      moreover have "?m (ptr (F + i)) = 0" using ms [of "F + i"] i F(2) by simp
      ultimately show ?thesis unfolding segment_byte_def by metis
    qed
    have out2: "?m2 (ptr x) = mem s (ptr x)" if "x < 4294967296" "\<not> (F \<le> x \<and> x < F + 4096)" for x
      using pc [OF that(1), of ?m] ms [OF that(1)] that(2) by auto
    let ?s2 = "s1\<lparr>mem := ?m2\<rparr>"
    have tb: "table_bytes ?s2 T = table_bytes s T" by (simp add: s1)
    have words: "load32 ?m2 (ptr b) = load32 (mem s) (ptr b)" if "{b..<b + 4} \<subseteq> table_bytes s T" "b + 4 \<le> 4294967296" for b
    proof (rule load32_cong_ptr)
      fix i assume "b \<le> i" "i < b + 4"
      then show "?m2 (ptr i) = mem s (ptr i)" using that out [of i] by (intro out2) (auto simp: subset_iff)
    qed
    have lay: "paging_layout s" using sp by (simp add: elf_space_def kernel_tables_def)
    note l = paging_layoutD [OF lay]
    have T4: "T + 4096 \<le> 4294967296" using sp by (simp add: elf_space_def page_clear_def)
    have sp2: "elf_space ?s2 T"
    proof -
      have "load32 ?m2 (ptr (T + 4 * i)) = load32 (mem s) (ptr (T + 4 * i))"
        "load32 ?m2 (ptr (unat (page_directory s) + 4 * i)) = load32 (mem s) (ptr (unat (page_directory s) + 4 * i))" if "i < 1024" for i
        using that T4 l(5) by (intro words; auto simp: table_bytes_def)+
      then show ?thesis using sp by (simp add: elf_space_def kernel_tables_def paging_layout_def s1 page_clear_def)
    qed
    have kw: "load32 ?m2 (ptr (kpte_addr s v)) = load32 (mem s) (ptr (kpte_addr s v))" for v
      using kpte_range [OF lay, of v] l(6) by (intro words) (auto simp: table_bytes_def)
    have k2: "kpte_addr ?s2 v = kpte_addr s v" for v by (simp add: kpte_addr_def s1)
    have hi: "0xC0000000 \<le> ptr V" using V by (simp add: word_le_nat_alt)
    obtain m' where m': "paging_map_user (ptr T) (ptr V) (ptr F) flags ?s2 = Some (?s2\<lparr>mem := m'\<rparr>)" "elf_space (?s2\<lparr>mem := m'\<rparr>) T"
      and new: "load32 m' (ptr (kpte_addr s (ptr V))) = frame (ptr F) OR (user_flags (ptr V) flags AND 0xFFF)"
      and old: "\<And>v. 0xC0000000 \<le> v \<Longrightarrow> unat v div 4096 \<noteq> unat (ptr V) div 4096 \<Longrightarrow> load32 m' (ptr (kpte_addr s v)) = load32 ?m2 (ptr (kpte_addr s v))"
      and same: "\<And>x. x < 4294967296 \<Longrightarrow> x \<notin> table_bytes s T \<Longrightarrow> m' (ptr x) = ?m2 (ptr x)"
      using elf_space_map [OF sp2 hi, of "ptr F" flags, unfolded tb k2] by (auto simp: s1)
    have F0: "ptr F \<noteq> 0" using k0 F(2) by (simp add: F_def)
    let ?s' = "?s2\<lparr>mem := m'\<rparr>"
    have us: "used_set ?s' = insert k (used_set s)" using ok(7) by (simp add: used_set_def bm_test_def)
    have tb': "table_bytes ?s' T = table_bytes s T" by (simp add: s1)
    have kpt': "kpte_addr ?s' v = kpte_addr s v" for v by (simp add: kpte_addr_def s1)
    have frm: "m' (ptr x) = mem s (ptr x)" if "x < 4294967296" "x \<notin> table_bytes s T" "\<not> (F \<le> x \<and> x < F + 4096)" for x
      using same [OF that(1,2)] out2 [OF that(1,3)] by simp
    show thesis
    proof (rule that(2))
      show "map_segment_page (ptr T) (ptr a) file flags (ptr V) s = Some (True, ?s')"
        using al F0 m'(1) by (simp add: map_segment_page_def Let_def ph')
      have "pmm_inv ?s'" using ok(6) by (simp add: pmm_inv_def used_set_def bm_test_def)
      moreover have "kept ?s' (table_bytes ?s' T \<union> ?file)" using kp unfolding kept_def us tb' by (auto simp: s1)
      ultimately show "elf_ready ?s' T file sz" using m'(2) dj z unfolding elf_ready_def us tb' by simp
      have "insert k (used_set s) \<subseteq> {..<unat (total_pages s)}" using used_set_bound ok(1) by blast
      from card_mono [OF _ this] have "Suc (card (used_set s)) \<le> unat (total_pages s)" using ok(2) by simp
      then show "free_frames s = Suc (free_frames ?s')" using ok(2,8) unfolding free_frames_def us by simp
      show "page_loaded ?s' T (segment_byte (mem s) ph file) flags V"
        unfolding page_loaded_def tb' us kpt'
      proof (intro exI [of _ F] conjI allI impI)
        show "mem ?s' (ptr (F + i)) = segment_byte (mem s) ph file (V + i)" if "i < 4096" for i
          using same [of "F + i"] out [of "F + i"] in2 [OF that] that F(2) by simp
      qed (use F new out in auto)
      show "mem ?s' (ptr x) = mem s (ptr x)" if "unat file \<le> x" "x < unat file + sz" for x
      proof -
        have "x \<in> ?file" using that by simp
        then have "x \<notin> table_bytes s T" "\<not> (F \<le> x \<and> x < F + 4096)" "x < 4294967296" using out [of x] dj fb by auto
        from frm [OF this(3,1,2)] show ?thesis by simp
      qed
      fix V' :: nat and img
      assume V': "V' mod 4096 = 0" "0xC0000000 \<le> V'" "V' < 4294967296" "V' \<noteq> V" and pl: "page_loaded s T img flags V'"
      from pl obtain G where G: "G mod 4096 = 0" "G + 4096 \<le> 4294967296" "G div 4096 \<in> used_set s" "{G..<G + 4096} \<inter> table_bytes s T = {}"
        "load32 (mem s) (ptr (kpte_addr s (ptr V'))) = frame (ptr G) OR (user_flags (ptr V') flags AND 0xFFF)"
        "\<forall>i < 4096. mem s (ptr (G + i)) = img (V' + i)" by (rule page_loadedE)
      have gk: "G div 4096 \<noteq> k" using G(3) ok(2) by metis
      have "unat (ptr V') div 4096 \<noteq> unat (ptr V) div 4096" using V' V page_eqI [of V' V] by auto
      moreover have "0xC0000000 \<le> ptr V'" using V' by (simp add: word_le_nat_alt)
      ultimately have "load32 m' (ptr (kpte_addr s (ptr V'))) = frame (ptr G) OR (user_flags (ptr V') flags AND 0xFFF)"
        using old kw G(5) by simp
      moreover have "m' (ptr (G + i)) = img (V' + i)" if "i < 4096" for i
      proof -
        have "\<not> (F \<le> G + i \<and> G + i < F + 4096)" using in_page [OF F(1), of "G + i"] in_page [OF G(1), of "G + i"] that gk F(3) by auto
        moreover have "G + i \<in> {G..<G + 4096}" using that by simp
        with G(4) have "G + i \<notin> table_bytes s T" by blast
        ultimately show ?thesis using frm [of "G + i"] G(2,6) that by simp
      qed
      ultimately show "page_loaded ?s' T img flags V'"
        unfolding page_loaded_def tb' us kpt' using G(1-4) by (intro exI [of _ G]) simp
    qed
  qed
qed

lemma segment_byte_cong:
  assumes "segment_ok ph file sz" "\<And>x. unat file \<le> x \<Longrightarrow> x < unat file + sz \<Longrightarrow> m (ptr x) = m' (ptr x)"
  shows "segment_byte m ph file = segment_byte m' ph file"
proof
  fix x
  show "segment_byte m ph file x = segment_byte m' ph file x"
    using assms(1) assms(2) [of "unat file + unat (p_offset ph) + (x - unat (p_vaddr ph))"]
    by (auto simp: segment_byte_def segment_ok_def)
qed

lemma map_segment_loop_pages:
  fixes s :: "'a paging_state_scheme"
  assumes "elf_ready s T file sz" and ok: "segment_ok ph file sz" and "read_phdr (mem s) (ptr a) = ph"
    and a: "unat file \<le> a" "a + 28 \<le> unat file + sz"
    and "distinct Vs" "\<forall>V \<in> set Vs. V mod 4096 = 0 \<and> 0xC0000000 \<le> V \<and> V + 8192 \<le> 4294967296"
  shows "\<exists>s'. map_segment_loop (map ptr Vs) (ptr T) (ptr a) file flags s = Some (length Vs \<le> free_frames s, s')
     \<and> (length Vs \<le> free_frames s \<longrightarrow> elf_ready s' T file sz \<and> (\<forall>V \<in> set Vs. page_loaded s' T (segment_byte (mem s) ph file) flags V)
            \<and> (\<forall>V img. V \<notin> set Vs \<and> V mod 4096 = 0 \<and> 0xC0000000 \<le> V \<and> V < 4294967296 \<and> page_loaded s T img flags V \<longrightarrow> page_loaded s' T img flags V))"
  using assms(1,3,6,7)
proof (induction Vs arbitrary: s)
  case Nil
  then show ?case by simp
next
  case (Cons V Vs)
  have V: "V mod 4096 = 0" "0xC0000000 \<le> V" "V + 8192 \<le> 4294967296" using Cons.prems(4) by auto
  show ?case
  proof (rule map_segment_page_step [OF Cons.prems(1) ok Cons.prems(2) a V, of flags], goal_cases)
    case 1
    then show ?case by simp
  next
    case (2 s1)
    have fb: "mem s1 (ptr x) = mem s (ptr x)" if "unat file \<le> x" "x < unat file + sz" for x by (rule 2(5) [OF that])
    have ph1: "read_phdr (mem s1) (ptr a) = ph"
      unfolding Cons.prems(2) [symmetric] by (rule read_phdr_cong) (use a fb in simp)
    have img: "segment_byte (mem s1) ph file = segment_byte (mem s) ph file" by (rule segment_byte_cong [OF ok]) (rule fb)
    let ?ok = "length Vs \<le> free_frames s1"
    obtain s' where IH: "map_segment_loop (map ptr Vs) (ptr T) (ptr a) file flags s1 = Some (?ok, s')"
      and ok': "?ok \<Longrightarrow> elf_ready s' T file sz \<and> (\<forall>V \<in> set Vs. page_loaded s' T (segment_byte (mem s) ph file) flags V)
            \<and> (\<forall>V img. V \<notin> set Vs \<and> V mod 4096 = 0 \<and> 0xC0000000 \<le> V \<and> V < 4294967296 \<and> page_loaded s1 T img flags V \<longrightarrow> page_loaded s' T img flags V)"
      using Cons.IH [OF 2(2) ph1] Cons.prems(3,4) unfolding img by auto
    have V4: "V < 4294967296" "V \<notin> set Vs" using V(3) Cons.prems(3) by auto
    have "page_loaded s' T (segment_byte (mem s) ph file) flags V" if ?ok using ok' [OF that] 2(3) V(1,2) V4 by auto
    moreover have "page_loaded s' T img flags W"
      if "?ok" "W \<notin> set (V # Vs)" "W mod 4096 = 0" "0xC0000000 \<le> W" "W < 4294967296" "page_loaded s T img flags W" for W img
      using ok' [OF that(1)] that 2(4) [of W img] by simp
    ultimately show ?case using IH ok' 2(1) unfolding 2(6) by (intro exI [of _ s']) auto
  qed
qed

lemma segment_pages_ptr:
  assumes "segment_ok ph file sz"
  defines "b \<equiv> unat (p_vaddr ph) div 4096" and "e \<equiv> (unat (p_vaddr ph) + unat (p_memsz ph) + 4095) div 4096"
  shows "segment_pages ph = map ptr (map (\<lambda>i. 4096 * i) [b..<e])"
proof -
  have n: "unat (p_vaddr ph) + unat (p_memsz ph) + 4095 < 4294967296" using assms(1) by (simp add: segment_ok_def)
  have fr: "x AND NOT 0xFFF = frame x" for x :: u32 by (rule bit_word_eqI) (simp only: bit_and_iff bit_not_iff page_bits, auto)
  have vs: "p_vaddr ph AND NOT 0xFFF = ptr (4096 * b)"
    using unat_frame [of "p_vaddr ph"] ptr_unat [of "frame (p_vaddr ph)"] unfolding fr by (simp add: b_def mult.commute)
  have "unat (p_vaddr ph + p_memsz ph + 0xFFF) = unat (p_vaddr ph) + unat (p_memsz ph) + 4095"
    using n by (simp add: unat_add_nowrap)
  then have ve: "(p_vaddr ph + p_memsz ph + 0xFFF) AND NOT 0xFFF = ptr (4096 * e)"
    using unat_frame [of "p_vaddr ph + p_memsz ph + 0xFFF"] ptr_unat [of "frame (p_vaddr ph + p_memsz ph + 0xFFF)"]
    unfolding fr by (simp add: e_def mult.commute)
  have be: "b \<le> e" "4096 * e < 4294967296" using n by (auto simp: b_def e_def div_le_mono)
  have "unat ((ptr (4096 * e) - ptr (4096 * b)) div PAGE_SIZE) = e - b"
    using be by (simp add: ptr_minus unat_div PAGE_SIZE_def diff_mult_distrib2 [symmetric])
  then have "segment_pages ph = map (\<lambda>i. ptr (4096 * b) + of_nat i * PAGE_SIZE) [0..<e - b]"
    unfolding segment_pages_def Let_def vs ve by simp
  also have "\<dots> = map (\<lambda>i. ptr (4096 * (b + i))) [0..<e - b]" by (simp add: ptr_def PAGE_SIZE_def algebra_simps)
  also have "\<dots> = map (\<lambda>i. ptr (4096 * i)) [b..<e]" using be(1) by (intro nth_equalityI) auto
  finally show ?thesis by simp
qed

lemma elf_space_mmu:
  assumes sp: "elf_space s T" and hi: "0xC0000000 \<le> v"
  shows "mmu (mem s) (ptr T) v = (let e = load32 (mem s) (ptr (kpte_addr s v)) in if present e then Some (frame e OR (v AND 0xFFF)) else None)"
proof -
  have i: "768 \<le> unat (pd_idx v)" "unat (pd_idx v) < 1024" using hi unat_pd_idx [of v] by (simp_all add: word_le_nat_alt)
  note P = elf_space_table [OF sp i]
  have "T mod 4096 = 0" "T < 4294967296" using sp by (auto simp: elf_space_def page_clear_def)
  note fT = frame_ptr [OF this]
  have ent: "load32 (mem s) (word_at (frame (ptr T)) (pd_idx v)) = ptr (unat (page_tables s) + 4096 * unat (pd_idx v)) OR 7"
    using sp i by (simp add: elf_space_def fT word_at_ptr)
  have "unat (page_tables s) + 4096 * unat (pd_idx v) + 4 * unat (pt_idx v) = kpte_addr s v"
    using page_number [of v] by (simp add: kpte_addr_def)
  then have "word_at (ptr (unat (page_tables s) + 4096 * unat (pd_idx v))) (pt_idx v) = ptr (kpte_addr s v)"
    by (simp only: word_at_ptr)
  then show ?thesis unfolding mmu_def Let_def ent using P(3,4) by simp
qed

text \<open>C15. Loading a segment builds its memory image: for an address space made by
  \<open>paging_create_isolated_space\<close> and a program header whose ranges do not wrap, \<open>map_segment\<close> always
  returns, succeeds exactly when there are frames enough for its pages, and then every address of the
  segment translates, in the new address space, to a byte that holds the file's byte or, past
  \<open>p_filesz\<close>, zero.\<close>

theorem segment_loaded:
  assumes rd: "elf_ready s T file sz" and ok: "segment_ok (read_phdr (mem s) (ptr a)) file sz"
    and a: "unat file \<le> a" "a + 28 \<le> unat file + sz"
  defines "ph \<equiv> read_phdr (mem s) (ptr a)"
  shows "\<exists>s'. map_segment (ptr T) (ptr a) file s = Some (length (segment_pages ph) \<le> free_frames s, s')
     \<and> (length (segment_pages ph) \<le> free_frames s \<longrightarrow> (\<forall>x. unat (p_vaddr ph) \<le> x \<and> x < unat (p_vaddr ph) + unat (p_memsz ph) \<longrightarrow>
              (\<exists>pa. mmu (mem s') (ptr T) (ptr x) = Some pa \<and> mem s' pa = segment_byte (mem s) ph file x)))"
proof -
  have ok': "segment_ok ph file sz" using ok by (simp add: ph_def)
  let ?v = "unat (p_vaddr ph)" and ?n = "unat (p_memsz ph)"
  define Vs where "Vs = map (\<lambda>i. 4096 * i) [?v div 4096..<(?v + ?n + 4095) div 4096]"
  have b: "0xC0000000 \<le> ?v" "?v + ?n + 4095 < 4294967296" using ok' by (auto simp: segment_ok_def)
  have sp: "segment_pages ph = map ptr Vs" unfolding Vs_def by (rule segment_pages_ptr [OF ok'])
  have d: "distinct Vs" unfolding Vs_def by (simp add: distinct_map inj_on_def)
  have al: "V mod 4096 = 0 \<and> 0xC0000000 \<le> V \<and> V + 8192 \<le> 4294967296" if "V \<in> set Vs" for V
  proof -
    obtain i where i: "V = 4096 * i" "?v div 4096 \<le> i" "i < (?v + ?n + 4095) div 4096" using \<open>V \<in> set Vs\<close> by (auto simp: Vs_def)
    have "786432 \<le> ?v div 4096" using div_le_mono [OF b(1), of 4096] by simp
    moreover have "(?v + ?n + 4095) div 4096 \<le> 1048575" using div_le_mono [of "?v + ?n + 4095" 4294967295 4096] b(2) by simp
    ultimately show ?thesis using i by auto
  qed
  have all: "\<forall>V \<in> set Vs. V mod 4096 = 0 \<and> 0xC0000000 \<le> V \<and> V + 8192 \<le> 4294967296" using al by blast
  have ph': "read_phdr (mem s) (ptr a) = ph" by (simp add: ph_def)
  define flags where "flags = PAGE_PRESENT OR PAGE_USER OR (if p_flags ph AND PF_W \<noteq> 0 then PAGE_WRITE else 0)"
  have eq: "map_segment (ptr T) (ptr a) file s = map_segment_loop (map ptr Vs) (ptr T) (ptr a) file flags s"
    by (simp add: map_segment_def ph_def [symmetric] sp flags_def)
  let ?ok = "length Vs \<le> free_frames s"
  have ls: "length (segment_pages ph) = length Vs" by (simp add: sp)
  obtain s' where r: "map_segment_loop (map ptr Vs) (ptr T) (ptr a) file flags s = Some (?ok, s')"
    "?ok \<Longrightarrow> elf_ready s' T file sz \<and> (\<forall>V \<in> set Vs. page_loaded s' T (segment_byte (mem s) ph file) flags V)"
    using map_segment_loop_pages [OF rd ok' ph' a d all, of flags] by metis
  have "\<exists>pa. mmu (mem s') (ptr T) (ptr x) = Some pa \<and> mem s' pa = segment_byte (mem s) ph file x"
    if "?ok" and x: "?v \<le> x" "x < ?v + ?n" for x
  proof -
    define V where "V = 4096 * (x div 4096)"
    have xV: "x = V + x mod 4096" "V mod 4096 = 0" by (simp_all add: V_def)
    have "V \<in> set Vs" unfolding V_def Vs_def using x by (auto simp: div_le_mono)
    then have "page_loaded s' T (segment_byte (mem s) ph file) flags V" using r(2) \<open>?ok\<close> by simp
    then obtain F where F: "F mod 4096 = 0" "F + 4096 \<le> 4294967296"
      "load32 (mem s') (ptr (kpte_addr s' (ptr V))) = frame (ptr F) OR (user_flags (ptr V) flags AND 0xFFF)"
      "\<forall>i < 4096. mem s' (ptr (F + i)) = segment_byte (mem s) ph file (V + i)"
      by (elim page_loadedE) (rule that)
    have x4: "x < 4294967296" using x b by linarith
    have kp: "kpte_addr s' (ptr x) = kpte_addr s' (ptr V)" using x4 by (simp add: kpte_addr_def V_def)
    have "elf_space s' T" using r(2) \<open>?ok\<close> by (simp add: elf_ready_def)
    moreover have "0xC0000000 \<le> ptr x" using x b x4 by (simp add: word_le_nat_alt)
    ultimately have "mmu (mem s') (ptr T) (ptr x) = Some (frame (ptr F) OR (ptr x AND 0xFFF))"
      using elf_space_mmu [of s' T "ptr x"] user_entry [of "ptr F" "ptr V" flags] by (simp add: kp F(3))
    also have "ptr x AND 0xFFF = ptr (x mod 4096)"
      using unat_and_mask [of "ptr x" 12] x4 ptr_unat [of "ptr x AND 0xFFF"] by (simp add: mask_eq_exp_minus_1)
    also have "frame (ptr F) OR ptr (x mod 4096) = ptr (F + x mod 4096)"
      using or_page_offset [of F "x mod 4096"] frame_ptr [of F] F(1,2) by simp
    finally show ?thesis using F(4) xV(1) by (intro exI [of _ "ptr (F + x mod 4096)"]) simp
  qed
  then show ?thesis unfolding eq ls using r by (intro exI [of _ s']) auto
qed

text \<open>A machine with the kernel's directory at 8 KB, the new directory at 12 KB, a file of one program
  header and four bytes of code at 16 KB and one free frame at 20 KB.\<close>

definition elf_sample_word :: "nat \<Rightarrow> nat" where
  "elf_sample_word k =
     (if 0x800 \<le> k \<and> k < 0x1000 then 0x400007 + 4096 * ((k - 0x800) mod 1024)
      else if k = 0x1000 then 1 else if k = 0x1001 then 0x20 else if k = 0x1002 then 0xC0000000
      else if k = 0x1004 then 4 else if k = 0x1005 then 8 else if k = 0x1008 then 0x04030201 else 0)"

definition elf_sample :: paging_state where
  "elf_sample = \<lparr>mem = (\<lambda>p. ucast (drop_bit (8 * (unat p mod 4)) (ptr (elf_sample_word (unat p div 4))))),
     bitmap = 31 # replicate 8191 0, total_pages = 6, used_pages = 5,
     kernel_end = 0x800000, heap_start = 0, heap_total = 0, page_directory = 0x2000, page_tables = 0x400000, cr3 = 0x2000\<rparr>"

lemma elf_sample_load: "b mod 4 = 0 \<Longrightarrow> b < 4294967292 \<Longrightarrow> load32 (mem elf_sample) (ptr b) = ptr (elf_sample_word (b div 4))"
proof -
  assume b: "b mod 4 = 0" "b < 4294967292"
  have "mem elf_sample (ptr (b + i)) = ucast (drop_bit (8 * i) (ptr (elf_sample_word (b div 4))))" if "i < 4" for i
  proof -
    have "(b + i) div 4 = b div 4" "(b + i) mod 4 = i" using b(1) that by (auto elim!: mod_0_imp_dvd [THEN dvdE])
    then show ?thesis using that b by (simp add: elf_sample_def)
  qed
  from this [of 0] this [of 1] this [of 2] this [of 3] show ?thesis
    using bytes_of_u32 [of "ptr (elf_sample_word (b div 4))"] by (simp add: load32_def)
qed

lemma elf_sample_phdr: "read_phdr (mem elf_sample) (ptr 0x4000)
    = \<lparr>p_type = 1, p_offset = 0x20, p_vaddr = 0xC0000000, p_filesz = 4, p_memsz = 8, p_flags = 0\<rparr>"
  by (simp add: read_phdr_def elf_sample_load) (simp add: elf_sample_word_def ptr_def)

lemma elf_sample_used: "used_set elf_sample = {..<5}"
proof -
  have "bm_test (of_nat k) elf_sample \<longleftrightarrow> k < 5" if "k < 6" for k
  proof -
    from that have "k \<in> {0, 1, 2, 3, 4, 5}" by auto
    then show ?thesis by (auto simp: bm_test_def elf_sample_def)
  qed
  moreover have "unat (total_pages elf_sample) = 6" by (simp add: elf_sample_def)
  ultimately have "k \<in> used_set elf_sample \<longleftrightarrow> k < 5" for k by (auto simp: used_set_def)
  then show ?thesis by (intro set_eqI) (simp only: lessThan_iff)
qed

lemma elf_sample_ready: "elf_ready elf_sample 0x3000 0x4000 36"
proof -
  have tb: "table_bytes elf_sample 0x3000 = {0x3000..<0x4000} \<union> {0x2000..<0x3000} \<union> {0x400000..<0x800000}"
    by (simp add: table_bytes_def elf_sample_def)
  have w: "load32 (mem elf_sample) (ptr (8192 + 4 * i)) = ptr (0x400000 + 4096 * i) OR 7"
    "load32 (mem elf_sample) (ptr (12288 + 4 * i)) = ptr (0x400000 + 4096 * i) OR 7" if "i < 1024" for i
  proof -
    have "ptr (0x400000 + 4096 * i) OR ptr 7 = ptr (0x400000 + 4096 * i + 7)" using that by (intro or_page_offset) auto
    moreover have "(8192 + 4 * i) mod 4 = 0" "(12288 + 4 * i) mod 4 = 0" by presburger+
    moreover have "(3072 + i - 2048) mod 1024 = i" using that by (simp add: mod_if)
    ultimately show "load32 (mem elf_sample) (ptr (8192 + 4 * i)) = ptr (0x400000 + 4096 * i) OR 7"
      "load32 (mem elf_sample) (ptr (12288 + 4 * i)) = ptr (0x400000 + 4096 * i) OR 7"
      using that elf_sample_load [of "8192 + 4 * i"] elf_sample_load [of "12288 + 4 * i"]
      by (simp_all add: elf_sample_word_def ptr_numeral)
  qed
  have lay: "paging_layout elf_sample" by (simp add: paging_layout_def elf_sample_def)
  have f: "page_directory elf_sample = 0x2000" "page_tables elf_sample = 0x400000" "total_pages elf_sample = 6" by (simp_all add: elf_sample_def)
  have "elf_space elf_sample 0x3000"
    using lay w by (simp add: elf_space_def kernel_tables_def page_clear_def f)
  moreover have "pmm_inv elf_sample" by (simp add: pmm_inv_def elf_sample_used) (simp add: elf_sample_def BITMAP_SIZE_eq MAX_PAGES_def)
  moreover have "kept elf_sample (table_bytes elf_sample 0x3000 \<union> {unat (0x4000 :: u32)..<unat (0x4000 :: u32) + 36})"
    unfolding kept_def tb elf_sample_used f by auto
  moreover have "table_bytes elf_sample 0x3000 \<inter> {unat (0x4000 :: u32)..<unat (0x4000 :: u32) + 36} = {}" unfolding tb by auto
  ultimately show ?thesis unfolding elf_ready_def by (simp add: elf_sample_used)
qed

lemma segment_loaded_witness:
  "\<exists>s'. map_segment (ptr 0x3000) (ptr 0x4000) 0x4000 elf_sample = Some (True, s')
     \<and> (\<exists>pa. mmu (mem s') (ptr 0x3000) (ptr 0xC0000002) = Some pa \<and> mem s' pa = 3)
     \<and> (\<exists>pa. mmu (mem s') (ptr 0x3000) (ptr 0xC0000005) = Some pa \<and> mem s' pa = 0)"
proof -
  have so: "segment_ok (read_phdr (mem elf_sample) (ptr 0x4000)) 0x4000 36" unfolding elf_sample_phdr by (simp add: segment_ok_def)
  have fr: "free_frames elf_sample = 1" by (simp add: free_frames_def elf_sample_used) (simp add: elf_sample_def)
  have pg: "length (segment_pages (read_phdr (mem elf_sample) (ptr 0x4000))) = 1"
    unfolding elf_sample_phdr by (simp add: segment_pages_def PAGE_SIZE_def)
  have b: "segment_byte (mem elf_sample) (read_phdr (mem elf_sample) (ptr 0x4000)) 0x4000 0xC0000002 = 3"
    "segment_byte (mem elf_sample) (read_phdr (mem elf_sample) (ptr 0x4000)) 0x4000 0xC0000005 = 0"
    unfolding elf_sample_phdr by (simp_all add: segment_byte_def) (simp add: elf_sample_def elf_sample_word_def ptr_def)
  obtain s' where s': "map_segment (ptr 0x3000) (ptr 0x4000) 0x4000 elf_sample = Some (True, s')"
    and "\<And>x. 0xC0000000 \<le> x \<Longrightarrow> x < 0xC0000008 \<Longrightarrow> (\<exists>pa. mmu (mem s') (ptr 0x3000) (ptr x) = Some pa
        \<and> mem s' pa = segment_byte (mem elf_sample) (read_phdr (mem elf_sample) (ptr 0x4000)) 0x4000 x)"
    using segment_loaded [OF elf_sample_ready so] pg fr by (auto simp: elf_sample_phdr)
  from s' this(2) [of "0xC0000002"] this(2) [of "0xC0000005"] show ?thesis unfolding b by simp
qed

section \<open>Validation\<close>

text \<open>What the checks of the header establish, in unbounded arithmetic.\<close>

definition ehdr_ok :: "memory \<Rightarrow> u32 \<Rightarrow> u32 \<Rightarrow> bool" where
  "ehdr_ok m data sz \<longleftrightarrow> data \<noteq> 0 \<and> 52 \<le> unat sz
     \<and> (let h = read_ehdr m data in
        e_ident_magic h = ELF_MAGIC \<and> e_ident_class h = ELFCLASS32 \<and> e_ident_data h = ELFDATA2LSB
        \<and> e_type h = ET_EXEC \<and> e_machine h = EM_386 \<and> 0 < unat (e_phnum h) \<and> 0 < unat (e_phoff h)
        \<and> unat (e_phoff h) + unat (e_phnum h) * unat (e_phentsize h) \<le> unat sz \<and> 0xC0000000 \<le> unat (e_entry h))"

lemma unat_phdr_table: "unat (ucast (n :: u16) * ucast (k :: u16) :: u32) = unat n * unat k"
proof -
  have b: "unat n * unat k \<le> 65535 * 65535" using unat_u16 [of n] unat_u16 [of k] by (intro mult_mono) simp_all
  have u: "unat (ucast x :: u32) = unat x" for x :: u16 using unat_u16 [of x] by (simp add: unsigned_ucast_eq take_bit_nat_eq_self)
  show ?thesis using b by (simp add: unat_word_ariths u)
qed

text \<open>As long as the end of the program header table does not wrap around 32 bits, \<open>elf_validate\<close>
  accepts exactly the files whose header is well formed: magic, class, byte order, type and machine
  as expected, the table inside the file and the entry point at or above \<open>USER_BASE\<close>.\<close>

theorem elf_validate_exact:
  assumes "unat (e_phoff (read_ehdr m data)) + unat (e_phnum (read_ehdr m data)) * unat (e_phentsize (read_ehdr m data)) < 4294967296"
  shows "elf_validate m data sz = 0 \<longleftrightarrow> ehdr_ok m data sz"
proof -
  let ?h = "read_ehdr m data"
  have "unat (e_phoff ?h + ucast (e_phnum ?h) * ucast (e_phentsize ?h)) = unat (e_phoff ?h) + unat (e_phnum ?h) * unat (e_phentsize ?h)"
    using assms unat_phdr_table [of "e_phnum ?h" "e_phentsize ?h"] by (subst unat_add_nowrap) simp_all
  then have "e_phoff ?h + ucast (e_phnum ?h) * ucast (e_phentsize ?h) > sz \<longleftrightarrow>
      unat sz < unat (e_phoff ?h) + unat (e_phnum ?h) * unat (e_phentsize ?h)" by (simp add: word_less_nat_alt)
  moreover have "e_entry ?h < USER_BASE \<longleftrightarrow> unat (e_entry ?h) < 0xC0000000" "sz < EHDR_SIZE \<longleftrightarrow> unat sz < 52"
    by (simp_all add: USER_BASE_def EHDR_SIZE_def word_less_nat_alt)
  moreover have "e_phnum ?h = 0 \<longleftrightarrow> \<not> 0 < unat (e_phnum ?h)" "e_phoff ?h = 0 \<longleftrightarrow> \<not> 0 < unat (e_phoff ?h)"
    by (simp_all add: unat_eq_0)
  ultimately show ?thesis unfolding elf_validate_def ehdr_ok_def Let_def by (auto simp: not_less)
qed

text \<open>A header whose program header table is at \<open>off\<close>, and the words it is made of.\<close>

definition elf_header :: "u32 \<Rightarrow> u32 \<Rightarrow> memory" where
  "elf_header off entry = store32 (store32 (store32 (store32 (store32 (store32 (\<lambda>_. 0) 0x1000 ELF_MAGIC) 0x1004 0x101)
     0x1010 0x30002) 0x1018 entry) 0x101C off) 0x102A 0x10020"

lemma elf_header_fields:
  "read_ehdr (elf_header off entry) 0x1000 = \<lparr>e_ident_magic = ELF_MAGIC, e_ident_class = 1, e_ident_data = 1, e_type = 2, e_machine = 3,
     e_entry = entry, e_phoff = off, e_phentsize = 32, e_phnum = 1\<rparr>"
  unfolding read_ehdr_def elf_header_def
  by (simp add: load32_def load16_def store32_def bytes_of_u32)

lemma elf_validate_exact_witness:
  "elf_validate (elf_header 52 0xC0000000) 0x1000 84 = 0 \<and> elf_validate (elf_header 52 0xC0000000) 0x1000 83 \<noteq> 0"
proof -
  let ?m = "elf_header 52 0xC0000000"
  have "unat (e_phoff (read_ehdr ?m 0x1000)) + unat (e_phnum (read_ehdr ?m 0x1000)) * unat (e_phentsize (read_ehdr ?m 0x1000)) < 4294967296"
    by (simp add: elf_header_fields)
  note ex = elf_validate_exact [OF this]
  show ?thesis unfolding ex
    by (simp add: ehdr_ok_def elf_header_fields Let_def ELFCLASS32_def ELFDATA2LSB_def ET_EXEC_def EM_386_def)
qed

text \<open>The sum that should keep the table inside the file can wrap: this header is accepted although its
  table starts 16 bytes below the top of the address space, far outside the 84 bytes of the file.\<close>

lemma elf_validate_wraps:
  "elf_validate (elf_header 0xFFFFFFF0 0xC0000000) 0x1000 84 = 0 \<and> \<not> ehdr_ok (elf_header 0xFFFFFFF0 0xC0000000) 0x1000 84"
  by (simp add: elf_validate_def ehdr_ok_def elf_header_fields Let_def EHDR_SIZE_def ELFCLASS32_def ELFDATA2LSB_def ET_EXEC_def
      EM_386_def USER_BASE_def)

end
