(* ===== verification/Net.thy ===== *)
theory Net
  imports Cmem Slots
begin

text \<open>
  The network stack, \<^verbatim>\<open>src/net.c\<close>: the RTL8139 driver's receive ring and transmit buffers, the ARP
  cache, ARP, ICMP echo, UDP and the DNS resolver.  Received packets are in memory at \<open>rx_buffer\<close>;
  frames the code builds on its stack are byte lists.  What the card delivers is an argument: the
  interrupt status and the readings of the command register for a poll (\<open>nic_in\<close>), and what happens
  while the processor waits in \<^verbatim>\<open>hlt\<close> (\<open>nic_event\<close>).  A frame handed over to the card is appended to
  \<open>sent\<close>.  \<open>None\<close> is a read far outside every buffer, or a wait for an interrupt that never comes.
\<close>

section \<open>Definitions\<close>

type_synonym ip_addr = "u8 list"
type_synonym mac_addr = "u8 list"

definition ETH_TYPE_ARP :: u16 where "ETH_TYPE_ARP = 0x0806"
definition ETH_TYPE_IP :: u16 where "ETH_TYPE_IP = 0x0800"
definition ARP_OP_REQUEST :: u16 where "ARP_OP_REQUEST = 1"
definition ARP_OP_REPLY :: u16 where "ARP_OP_REPLY = 2"
definition IP_PROTO_ICMP :: u8 where "IP_PROTO_ICMP = 1"
definition IP_PROTO_UDP :: u8 where "IP_PROTO_UDP = 17"
definition ICMP_ECHO_REPLY :: u8 where "ICMP_ECHO_REPLY = 0"
definition ICMP_ECHO_REQUEST :: u8 where "ICMP_ECHO_REQUEST = 8"
definition DNS_PORT :: u16 where "DNS_PORT = 53"
definition DNS_TYPE_A :: u16 where "DNS_TYPE_A = 1"
definition DNS_FLAG_RD :: u16 where "DNS_FLAG_RD = 0x0100"
definition DNS_FLAG_QR :: u16 where "DNS_FLAG_QR = 0x8000"
definition RX_BUF_SIZE :: nat where "RX_BUF_SIZE = 8192 + 16 + 1500"
definition TX_BUF_SIZE :: nat where "TX_BUF_SIZE = 1536"
definition ARP_CACHE_SIZE :: nat where "ARP_CACHE_SIZE = 16"

record arp_entry =
  ar_ip :: ip_addr
  ar_mac :: mac_addr
  ar_valid :: bool

record net_state = mem_state +
  nic_available :: bool
  io_base :: u16
  our_mac :: mac_addr
  our_ip :: ip_addr
  gateway_ip :: ip_addr
  netmask :: ip_addr
  dns_server :: ip_addr
  rx_buffer :: u32
  tx_buffers :: "u8 list list"
  current_tx :: nat
  rx_offset :: u32
  capr :: u16
  arp_cache :: "arp_entry list"
  ping_received :: bool
  ping_recv_time :: u32
  ping_seq :: u16
  udp_handler :: bool
  udp_calls :: "(ip_addr \<times> u16 \<times> u16 \<times> u32 \<times> u32) list"
  dns_received :: bool
  dns_result :: ip_addr
  dns_txn_id :: u16
  ip_id_counter :: u16
  irq_line :: "u8 option"
  net_ticks :: u32
  sent :: "u8 list list"

subsection \<open>Byte order and checksum\<close>

definition htons :: "u16 \<Rightarrow> u16" where
  "htons v = drop_bit 8 v OR push_bit 8 v"

definition ntohs :: "u16 \<Rightarrow> u16" where
  "ntohs v = htons v"

text \<open>A 16-bit field as the two bytes in memory.\<close>

definition le16 :: "u16 \<Rightarrow> u8 list" where
  "le16 v = [ucast v, ucast (drop_bit 8 v)]"

definition ip_eq :: "ip_addr \<Rightarrow> ip_addr \<Rightarrow> bool" where
  "ip_eq a b \<longleftrightarrow> a ! 0 = b ! 0 \<and> a ! 1 = b ! 1 \<and> a ! 2 = b ! 2 \<and> a ! 3 = b ! 3"

fun cksum_sum :: "u8 list \<Rightarrow> u32 \<Rightarrow> u32" where
  "cksum_sum (a # b # p) acc = cksum_sum p (acc + ucast (ucast a OR push_bit 8 (ucast b) :: u16))"
| "cksum_sum [a] acc = acc + ucast a"
| "cksum_sum [] acc = acc"

lemma cksum_fold_step:
  fixes x :: u32
  shows "unat ((x AND 0xFFFF) + drop_bit 16 x) = unat x mod 65536 + unat x div 65536"
proof -
  have l: "unat (x AND 0xFFFF) = unat x mod 65536" using unat_and_mask [of x 16] by (simp add: mask_eq_exp_minus_1)
  have h: "unat (drop_bit 16 x) = unat x div 65536" by (simp add: unat_drop)
  have "unat x div 65536 < 65536" using unat_u32 [of x] by (simp add: less_mult_imp_div_less)
  moreover have "unat x mod 65536 < 65536" by simp
  ultimately have "unat x mod 65536 + unat x div 65536 < 2 ^ LENGTH(32)" by simp
  then show ?thesis unfolding unat_word_ariths(1) l h by (rule mod_less)
qed

function cksum_fold :: "u32 \<Rightarrow> u32" where
  "cksum_fold x = (if drop_bit 16 x \<noteq> 0 then cksum_fold ((x AND 0xFFFF) + drop_bit 16 x) else x)"
  by pat_completeness auto
termination
proof (relation "measure unat", goal_cases)
  case (2 x)
  then have "unat (drop_bit 16 x) \<noteq> 0" by (simp add: unat_eq_0)
  then have "0 < unat x div 65536" unfolding unat_drop by simp
  then have "unat x mod 65536 + unat x div 65536 < unat x" using div_mult_mod_eq [of "unat x" 65536] by linarith
  then show ?case by (simp add: cksum_fold_step)
qed simp

declare cksum_fold.simps [simp del]

definition ip_checksum :: "u8 list \<Rightarrow> u16" where
  "ip_checksum data = NOT (ucast (cksum_fold (cksum_sum data 0)))"

subsection \<open>The ARP cache\<close>

definition arp_match :: "ip_addr \<Rightarrow> arp_entry \<Rightarrow> bool" where
  "arp_match ip e \<longleftrightarrow> ar_valid e \<and> ip_eq (ar_ip e) ip"

definition arp_put :: "ip_addr \<Rightarrow> mac_addr \<Rightarrow> arp_entry list \<Rightarrow> arp_entry list" where
  "arp_put ip mac c =
     (case find_slot (arp_match ip) c of
        Some i \<Rightarrow> c[i := (c ! i)\<lparr>ar_mac := mac\<rparr>]
      | None \<Rightarrow>
          (case find_slot (\<lambda>e. \<not> ar_valid e) c of
             Some i \<Rightarrow> c[i := (c ! i)\<lparr>ar_ip := ip, ar_mac := mac, ar_valid := True\<rparr>]
           | None \<Rightarrow> c))"

definition arp_cache_add :: "ip_addr \<Rightarrow> mac_addr \<Rightarrow> net_state \<Rightarrow> net_state" where
  "arp_cache_add ip mac s = s\<lparr>arp_cache := arp_put ip mac (arp_cache s)\<rparr>"

definition arp_get :: "arp_entry list \<Rightarrow> ip_addr \<Rightarrow> mac_addr option" where
  "arp_get c ip = map_option (\<lambda>i. ar_mac (c ! i)) (find_slot (arp_match ip) c)"

definition net_arp_lookup :: "ip_addr \<Rightarrow> net_state \<Rightarrow> mac_addr option" where
  "net_arp_lookup ip s = arp_get (arp_cache s) ip"

subsection \<open>Frames\<close>

definition eth_header :: "mac_addr \<Rightarrow> mac_addr \<Rightarrow> u16 \<Rightarrow> u8 list" where
  "eth_header dst src ethertype = dst @ src @ le16 (htons ethertype)"

definition arp_packet :: "u16 \<Rightarrow> mac_addr \<Rightarrow> ip_addr \<Rightarrow> mac_addr \<Rightarrow> ip_addr \<Rightarrow> u8 list" where
  "arp_packet oper sha spa tha tpa =
     le16 (htons 1) @ le16 (htons 0x0800) @ [6, 4] @ le16 (htons oper) @ sha @ spa @ tha @ tpa"

definition ip_header :: "u16 \<Rightarrow> u16 \<Rightarrow> u8 \<Rightarrow> u16 \<Rightarrow> ip_addr \<Rightarrow> ip_addr \<Rightarrow> u8 list" where
  "ip_header total_len ident protocol checksum src dst =
     [0x45, 0] @ le16 (htons total_len) @ le16 (htons ident) @ le16 0 @ [64, protocol] @ le16 checksum @ src @ dst"

definition icmp_header :: "u8 \<Rightarrow> u16 \<Rightarrow> u16 \<Rightarrow> u16 \<Rightarrow> u8 list" where
  "icmp_header ty checksum ident sq = [ty, 0] @ le16 checksum @ le16 (htons ident) @ le16 (htons sq)"

definition udp_header :: "u16 \<Rightarrow> u16 \<Rightarrow> u16 \<Rightarrow> u8 list" where
  "udp_header src_port dst_port len = le16 (htons src_port) @ le16 (htons dst_port) @ le16 (htons len) @ le16 0"

definition write_bytes :: "nat \<Rightarrow> u8 list \<Rightarrow> u8 list \<Rightarrow> u8 list" where
  "write_bytes i bs xs = take i xs @ bs @ drop (i + length bs) xs"

definition net_send_raw :: "u8 list \<Rightarrow> net_state \<Rightarrow> net_state" where
  "net_send_raw data s =
     (if \<not> nic_available s \<or> length data > TX_BUF_SIZE then s
      else
        let buf = write_bytes 0 data (tx_buffers s ! current_tx s);
            buf = (if length data < 60 then write_bytes (length data) (replicate (60 - length data) 0) buf else buf);
            len = (if length data < 60 then 60 else length data)
        in s\<lparr>tx_buffers := (tx_buffers s)[current_tx s := buf], sent := sent s @ [take len buf],
             current_tx := (current_tx s + 1) mod 4\<rparr>)"

subsection \<open>UDP and DNS answers\<close>

text \<open>Positions in a DNS message are offsets from its start \<open>q\<close>; \<open>n\<close> is its length.\<close>

function skip_qname :: "memory \<Rightarrow> u32 \<Rightarrow> nat \<Rightarrow> nat \<Rightarrow> nat" where
  "skip_qname m q n p =
     (if p < n \<and> m (q + of_nat p) \<noteq> 0 then
        if m (q + of_nat p) AND 0xC0 = 0xC0 then p + 2 else skip_qname m q n (p + unat (m (q + of_nat p)) + 1)
      else p + 1)"
  by pat_completeness auto
termination by (relation "measure (\<lambda>(m, q, n, p). n - p)") auto

function skip_labels :: "memory \<Rightarrow> u32 \<Rightarrow> nat \<Rightarrow> nat \<Rightarrow> nat" where
  "skip_labels m q n p =
     (if p < n \<and> m (q + of_nat p) \<noteq> 0 then skip_labels m q n (p + unat (m (q + of_nat p)) + 1) else p + 1)"
  by pat_completeness auto
termination by (relation "measure (\<lambda>(m, q, n, p). n - p)") auto

declare skip_qname.simps [simp del] skip_labels.simps [simp del]

definition be16 :: "memory \<Rightarrow> u32 \<Rightarrow> u16" where
  "be16 m p = push_bit 8 (ucast (m p)) OR ucast (m (p + 1))"

fun dns_answers :: "memory \<Rightarrow> u32 \<Rightarrow> nat \<Rightarrow> nat \<Rightarrow> nat \<Rightarrow> ip_addr option" where
  "dns_answers m q n 0 p = None"
| "dns_answers m q n (Suc k) p =
     (if p + 12 \<le> n then
        let p = (if m (q + of_nat p) AND 0xC0 = 0xC0 then p + 2 else skip_labels m q n p)
        in if p + 10 > n then None
           else
             let rtype = be16 m (q + of_nat p);
                 rdlen = be16 m (q + of_nat (p + 8));
                 p = p + 10
             in if rtype = DNS_TYPE_A \<and> rdlen = 4 \<and> p + 4 \<le> n then Some (bytes m (q + of_nat p) 4)
                else dns_answers m q n k (p + unat rdlen)
      else None)"

definition dns_answer :: "memory \<Rightarrow> u32 \<Rightarrow> nat \<Rightarrow> u16 \<Rightarrow> ip_addr option" where
  "dns_answer m q n ancount = dns_answers m q n (unat ancount) (skip_qname m q n 12 + 4)"

definition process_udp :: "ip_addr \<Rightarrow> u32 \<Rightarrow> u32 \<Rightarrow> net_state \<Rightarrow> net_state" where
  "process_udp src_ip data len s =
     (if len < 8 then s
      else
        let sport = ntohs (load16 (mem s) data);
            dport = ntohs (load16 (mem s) (data + 2));
            udp_len = ntohs (load16 (mem s) (data + 4))
        in if udp_len < 8 \<or> ucast udp_len > len then s
           else
             let payload_len = ucast udp_len - 8;
                 payload = data + 8;
                 ancount = ntohs (load16 (mem s) (payload + 6));
                 answer = (if sport = DNS_PORT \<and> payload_len \<ge> 12 \<and> ntohs (load16 (mem s) payload) = dns_txn_id s
                             \<and> ntohs (load16 (mem s) (payload + 2)) AND DNS_FLAG_QR \<noteq> 0 \<and> ancount > 0
                           then dns_answer (mem s) payload (unat payload_len) ancount else None)
             in case answer of
                  Some ip \<Rightarrow> s\<lparr>dns_result := ip, dns_received := True\<rparr>
                | None \<Rightarrow>
                    if udp_handler s then s\<lparr>udp_calls := udp_calls s @ [(src_ip, sport, dport, payload, payload_len)]\<rparr> else s)"

subsection \<open>Received packets\<close>

definition arp_reply :: "u32 \<Rightarrow> net_state \<Rightarrow> u8 list" where
  "arp_reply arp s =
     (let sha = bytes (mem s) (arp + 8) 6; spa = bytes (mem s) (arp + 14) 4 in
      eth_header sha (our_mac s) ETH_TYPE_ARP @ arp_packet ARP_OP_REPLY (our_mac s) (our_ip s) sha spa)"

definition process_arp :: "u32 \<Rightarrow> net_state \<Rightarrow> net_state" where
  "process_arp arp s =
     (let oper = ntohs (load16 (mem s) (arp + 6));
          s = arp_cache_add (bytes (mem s) (arp + 14) 4) (bytes (mem s) (arp + 8) 6) s
      in if oper = ARP_OP_REQUEST \<and> ip_eq (bytes (mem s) (arp + 24) 4) (our_ip s) then net_send_raw (arp_reply arp s) s else s)"

text \<open>The echo reply: the packet copied, addresses exchanged, both checksums computed anew.  Of the
  1500 bytes of the buffer only the packet's are ever read.\<close>

definition echo_reply :: "u32 \<Rightarrow> nat \<Rightarrow> nat \<Rightarrow> net_state \<Rightarrow> u8 list" where
  "echo_reply data ip_hdr_len ip_total s =
     (let pkt_size = 14 + ip_total;
          r = bytes (mem s) data pkt_size @ replicate (1500 - pkt_size) 0;
          r = write_bytes 0 (bytes (mem s) (data + 6) 6) r;
          r = write_bytes 6 (our_mac s) r;
          r = write_bytes 30 (bytes (mem s) (data + 26) 4) r;
          r = write_bytes 26 (our_ip s) r;
          r = write_bytes 24 (le16 0) r;
          r = write_bytes 24 (le16 (ip_checksum (take ip_hdr_len (drop 14 r)))) r;
          r = write_bytes (14 + ip_hdr_len) [ICMP_ECHO_REPLY] r;
          r = write_bytes (14 + ip_hdr_len + 2) (le16 0) r;
          r = write_bytes (14 + ip_hdr_len + 2) (le16 (ip_checksum (take (ip_total - ip_hdr_len) (drop (14 + ip_hdr_len) r)))) r
      in take pkt_size r)"

definition process_ip :: "u32 \<Rightarrow> net_state \<Rightarrow> net_state option" where
  "process_ip data s =
     (let ip = data + 14;
          ip_hdr_len = ucast (mem s ip AND 0x0F) * 4 :: u32;
          ip_total = ucast (ntohs (load16 (mem s) (ip + 2))) :: u32;
          protocol = mem s (ip + 9)
      in if protocol = IP_PROTO_ICMP then
           let icmp_type = mem s (data + 14 + ip_hdr_len) in
           if icmp_type = ICMP_ECHO_REQUEST then
             if 14 + ip_total > 1500 then Some s
             else if ip_total < ip_hdr_len then None
             else Some (net_send_raw (echo_reply data (unat ip_hdr_len) (unat ip_total) s) s)
           else if icmp_type = ICMP_ECHO_REPLY then Some (s\<lparr>ping_received := True, ping_recv_time := net_ticks s\<rparr>)
           else Some s
         else if protocol = IP_PROTO_UDP then
           Some (process_udp (bytes (mem s) (ip + 12) 4) (data + 14 + ip_hdr_len) (ip_total - ip_hdr_len) s)
         else Some s)"

definition process_rx_packet :: "u32 \<Rightarrow> u32 \<Rightarrow> net_state \<Rightarrow> net_state option" where
  "process_rx_packet data len s =
     (if len < 14 then Some s
      else
        let ethertype = ntohs (load16 (mem s) (data + 12)) in
        if ethertype = ETH_TYPE_ARP \<and> len \<ge> 14 + 28 then Some (process_arp (data + 14) s)
        else if ethertype = ETH_TYPE_IP \<and> len \<ge> 14 + 20 then process_ip data s
        else Some s)"

text \<open>What a poll reads from the card: the interrupt status, then the command register before each
  packet, which reads "buffer empty" when the list is used up.\<close>

record nic_in =
  nic_isr :: u16
  nic_cmds :: "u8 list"

definition next_rx_offset :: "u32 \<Rightarrow> u32 \<Rightarrow> u32" where
  "next_rx_offset ofs rx_size =
     (let ofs = (ofs + rx_size + 4 + 3) AND NOT 3 in if ofs \<ge> 8192 then ofs - 8192 else ofs)"

fun irq_rx_loop :: "u8 list \<Rightarrow> net_state \<Rightarrow> net_state option" where
  "irq_rx_loop [] s = Some s"
| "irq_rx_loop (c # cs) s =
     (if c AND 1 \<noteq> 0 then Some s
      else
        let rx_status = load32 (mem s) (rx_buffer s + rx_offset s);
            rx_size = drop_bit 16 rx_status AND 0xFFFF
        in if rx_size = 0 \<or> rx_size > 1500 + 4 then Some s
           else if rx_status AND 1 = 0 then Some s
           else do { s \<leftarrow> process_rx_packet (rx_buffer s + rx_offset s + 4) (rx_size - 4) s;
                     let ofs = next_rx_offset (rx_offset s) rx_size
                     in irq_rx_loop cs (s\<lparr>rx_offset := ofs, capr := ucast (ofs - 16)\<rparr>) })"

definition rtl_irq_handler :: "nic_in \<Rightarrow> net_state \<Rightarrow> net_state option" where
  "rtl_irq_handler inp s = (if nic_isr inp AND 1 \<noteq> 0 then irq_rx_loop (nic_cmds inp) s else Some s)"

fun poll_rx_loop :: "u8 list \<Rightarrow> net_state \<Rightarrow> net_state option" where
  "poll_rx_loop [] s = Some s"
| "poll_rx_loop (c # cs) s =
     (if c AND 1 \<noteq> 0 then Some s
      else
        let rx_status = load32 (mem s) (rx_buffer s + rx_offset s);
            rx_size = drop_bit 16 rx_status AND 0xFFFF
        in if rx_size = 0 \<or> rx_size > 1504 \<or> rx_status AND 1 = 0 then Some s
           else do { s \<leftarrow> process_rx_packet (rx_buffer s + rx_offset s + 4) (rx_size - 4) s;
                     let ofs = next_rx_offset (rx_offset s) rx_size
                     in poll_rx_loop cs (s\<lparr>rx_offset := ofs, capr := ucast (ofs - 16)\<rparr>) })"

definition net_poll :: "nic_in \<Rightarrow> net_state \<Rightarrow> net_state option" where
  "net_poll inp s =
     (if \<not> nic_available s then Some s
      else if nic_isr inp \<noteq> 0 then
        if nic_isr inp AND 1 \<noteq> 0 then poll_rx_loop (nic_cmds inp) s else Some s
      else Some s)"

subsection \<open>Set-up and configuration\<close>

text \<open>\<open>dev\<close> is what \<^verbatim>\<open>pci_find_device\<close> found (the first base address and the interrupt line), \<open>mac\<close> the six
  bytes the card's registers hold.\<close>

definition net_init :: "(u32 \<times> u8) option \<Rightarrow> mac_addr \<Rightarrow> net_state \<Rightarrow> net_state" where
  "net_init dev mac s =
     (let s = s\<lparr>arp_cache := replicate ARP_CACHE_SIZE \<lparr>ar_ip = [0, 0, 0, 0], ar_mac = [0, 0, 0, 0, 0, 0], ar_valid = False\<rparr>\<rparr> in
      case dev of
        None \<Rightarrow> s\<lparr>nic_available := False\<rparr>
      | Some (bar, irq) \<Rightarrow>
          s\<lparr>io_base := ucast (bar AND 0xFFFC), our_mac := mac, irq_line := (if 0 < irq \<and> irq < 16 then Some irq else irq_line s),
            rx_offset := 0, nic_available := True\<rparr>)"

definition net_is_available :: "net_state \<Rightarrow> bool" where "net_is_available s = nic_available s"
definition net_set_ip :: "u8 \<Rightarrow> u8 \<Rightarrow> u8 \<Rightarrow> u8 \<Rightarrow> net_state \<Rightarrow> net_state" where "net_set_ip a b c d s = s\<lparr>our_ip := [a, b, c, d]\<rparr>"
definition net_set_gateway :: "u8 \<Rightarrow> u8 \<Rightarrow> u8 \<Rightarrow> u8 \<Rightarrow> net_state \<Rightarrow> net_state" where "net_set_gateway a b c d s = s\<lparr>gateway_ip := [a, b, c, d]\<rparr>"
definition net_set_netmask :: "u8 \<Rightarrow> u8 \<Rightarrow> u8 \<Rightarrow> u8 \<Rightarrow> net_state \<Rightarrow> net_state" where "net_set_netmask a b c d s = s\<lparr>netmask := [a, b, c, d]\<rparr>"
definition net_set_dns :: "u8 \<Rightarrow> u8 \<Rightarrow> u8 \<Rightarrow> u8 \<Rightarrow> net_state \<Rightarrow> net_state" where "net_set_dns a b c d s = s\<lparr>dns_server := [a, b, c, d]\<rparr>"
definition net_get_ip :: "net_state \<Rightarrow> ip_addr" where "net_get_ip s = our_ip s"
definition net_get_gateway :: "net_state \<Rightarrow> ip_addr" where "net_get_gateway s = gateway_ip s"
definition net_get_netmask :: "net_state \<Rightarrow> ip_addr" where "net_get_netmask s = netmask s"
definition net_dns_get_server :: "net_state \<Rightarrow> ip_addr" where "net_dns_get_server s = dns_server s"
definition net_udp_set_handler :: "bool \<Rightarrow> net_state \<Rightarrow> net_state" where "net_udp_set_handler h s = s\<lparr>udp_handler := h\<rparr>"

subsection \<open>Requests\<close>

definition net_send_arp_request :: "ip_addr \<Rightarrow> net_state \<Rightarrow> net_state" where
  "net_send_arp_request target_ip s =
     net_send_raw (eth_header (replicate 6 0xFF) (our_mac s) ETH_TYPE_ARP
       @ arp_packet ARP_OP_REQUEST (our_mac s) (our_ip s) (replicate 6 0) target_ip) s"

text \<open>One turn of a waiting loop: what the poll sees, then what happens until \<^verbatim>\<open>hlt\<close> returns: bytes the
  card stores in memory, timer ticks, perhaps an interrupt of the card.\<close>

record nic_event =
  ev_poll :: nic_in
  ev_dma :: "(u32 \<times> u8) list"
  ev_dt :: u32
  ev_irq :: "nic_in option"

definition net_hlt :: "nic_event \<Rightarrow> net_state \<Rightarrow> net_state option" where
  "net_hlt ev s =
     (let s = s\<lparr>mem := fold (\<lambda>(a, b) m. m(a := b)) (ev_dma ev) (mem s), net_ticks := net_ticks s + ev_dt ev\<rparr>
      in case ev_irq ev of None \<Rightarrow> Some s | Some inp \<Rightarrow> rtl_irq_handler inp s)"

fun arp_wait :: "u32 \<Rightarrow> nic_event list \<Rightarrow> net_state \<Rightarrow> (nic_event list \<times> net_state) option" where
  "arp_wait start [] s = (if net_ticks s - start < 200 then None else Some ([], s))"
| "arp_wait start (ev # evs) s =
     (if net_ticks s - start < 200 then do { s \<leftarrow> net_poll (ev_poll ev) s; s \<leftarrow> net_hlt ev s; arp_wait start evs s }
      else Some (ev # evs, s))"

definition same_subnet :: "ip_addr \<Rightarrow> net_state \<Rightarrow> bool" where
  "same_subnet target s = list_all (\<lambda>i. target ! i AND netmask s ! i = our_ip s ! i AND netmask s ! i) [0..<4]"

definition resolve_mac :: "ip_addr \<Rightarrow> nic_event list \<Rightarrow> net_state \<Rightarrow> (mac_addr option \<times> nic_event list \<times> net_state) option" where
  "resolve_mac target evs s =
     (let arp_target = (if same_subnet target s then target else gateway_ip s) in
      case net_arp_lookup arp_target s of
        Some mac \<Rightarrow> Some (Some mac, evs, s)
      | None \<Rightarrow>
          let s = net_send_arp_request arp_target s in
          do { (evs, s) \<leftarrow> arp_wait (net_ticks s) evs s;
               Some (net_arp_lookup arp_target s, evs, s) })"

definition ping_packet :: "mac_addr \<Rightarrow> ip_addr \<Rightarrow> net_state \<Rightarrow> u8 list" where
  "ping_packet dst_mac target s =
     (let ip = ip_header (20 + 8 + 32) (ping_seq s) IP_PROTO_ICMP 0 (our_ip s) target;
          ip = ip_header (20 + 8 + 32) (ping_seq s) IP_PROTO_ICMP (ip_checksum ip) (our_ip s) target;
          payload = map of_nat [0..<32];
          icmp = icmp_header ICMP_ECHO_REQUEST 0 0x1234 (ping_seq s);
          icmp = icmp_header ICMP_ECHO_REQUEST (ip_checksum (icmp @ payload)) 0x1234 (ping_seq s)
      in eth_header dst_mac (our_mac s) ETH_TYPE_IP @ ip @ icmp @ payload)"

fun ping_wait :: "u32 \<Rightarrow> u32 \<Rightarrow> nic_event list \<Rightarrow> net_state \<Rightarrow> (u32 option \<times> nic_event list \<times> net_state) option" where
  "ping_wait send_time deadline [] s = (if net_ticks s < deadline then None else Some (None, [], s))"
| "ping_wait send_time deadline (ev # evs) s =
     (if net_ticks s < deadline then
        do { s \<leftarrow> net_poll (ev_poll ev) s;
             if ping_received s then Some (Some ((ping_recv_time s - send_time) * 10), evs, s)
             else do { s \<leftarrow> net_hlt ev s; ping_wait send_time deadline evs s } }
      else Some (None, ev # evs, s))"

text \<open>The result is the round-trip time, \<open>None\<close> when the call returns false.\<close>

definition net_ping :: "ip_addr \<Rightarrow> u32 \<Rightarrow> nic_event list \<Rightarrow> net_state \<Rightarrow> (u32 option \<times> nic_event list \<times> net_state) option" where
  "net_ping target timeout_ms evs s =
     (if \<not> nic_available s then Some (None, evs, s)
      else do {
        (mac, evs, s) \<leftarrow> resolve_mac target evs s;
        case mac of
          None \<Rightarrow> Some (None, evs, s)
        | Some dst_mac \<Rightarrow>
            let pkt = ping_packet dst_mac target s;
                s = s\<lparr>ping_seq := ping_seq s + 1, ping_received := False\<rparr>;
                send_time = net_ticks s;
                s = net_send_raw pkt s
            in ping_wait send_time (send_time + (timeout_ms * 100) div 1000) evs s })"

definition udp_packet :: "mac_addr \<Rightarrow> ip_addr \<Rightarrow> u16 \<Rightarrow> u16 \<Rightarrow> u8 list \<Rightarrow> net_state \<Rightarrow> u8 list" where
  "udp_packet dst_mac dst_ip src_port dst_port data s =
     (let total_len = of_nat (20 + 8 + length data);
          ip = ip_header total_len (ip_id_counter s) IP_PROTO_UDP 0 (our_ip s) dst_ip;
          ip = ip_header total_len (ip_id_counter s) IP_PROTO_UDP (ip_checksum ip) (our_ip s) dst_ip
      in eth_header dst_mac (our_mac s) ETH_TYPE_IP @ ip @ udp_header src_port dst_port (of_nat (8 + length data)) @ data)"

definition net_send_udp :: "ip_addr \<Rightarrow> u16 \<Rightarrow> u16 \<Rightarrow> u8 list \<Rightarrow> nic_event list \<Rightarrow> net_state \<Rightarrow> (bool \<times> nic_event list \<times> net_state) option" where
  "net_send_udp dst_ip src_port dst_port data evs s =
     (if \<not> nic_available s then Some (False, evs, s)
      else if length data > 1400 then Some (False, evs, s)
      else do {
        (mac, evs, s) \<leftarrow> resolve_mac dst_ip evs s;
        case mac of
          None \<Rightarrow> Some (False, evs, s)
        | Some dst_mac \<Rightarrow>
            if 14 + 20 + 8 + length data > 1500 then Some (False, evs, s)
            else
              let pkt = udp_packet dst_mac dst_ip src_port dst_port data s
              in Some (True, evs, net_send_raw pkt (s\<lparr>ip_id_counter := ip_id_counter s + 1\<rparr>)) })"

subsection \<open>The resolver\<close>

definition label_of :: "string \<Rightarrow> string" where
  "label_of p = takeWhile (\<lambda>c. c \<noteq> NUL \<and> c \<noteq> CHR ''.'') p"

definition after_label :: "string \<Rightarrow> string" where
  "after_label p = (let dot = drop (length (label_of p)) p in if deref dot \<noteq> NUL then tl dot else dot)"

text \<open>\<open>out\<close> holds the bytes written so far, \<open>out[0..pos)\<close> in the code.\<close>

function dns_labels :: "string \<Rightarrow> u8 list \<Rightarrow> nat \<Rightarrow> u8 list option" where
  "dns_labels p out mx =
     (if deref p = NUL then Some out
      else if length (label_of p) > 63 \<or> length out + length (label_of p) + 1 \<ge> mx then None
      else dns_labels (after_label p) (out @ of_nat (length (label_of p)) # map of_char (label_of p)) mx)"
  by pat_completeness auto
termination
proof (relation "measure (\<lambda>(p, out, mx). length p)", goal_cases)
  case (2 p out mx)
  then obtain c t where p: "p = c # t" "c \<noteq> NUL" by (cases p) (auto simp: deref_def)
  show ?case by (cases "c = CHR ''.''") (auto simp: p after_label_def label_of_def Let_def deref_def split: list.splits)
qed simp

declare dns_labels.simps [simp del]

definition dns_encode_name :: "string \<Rightarrow> nat \<Rightarrow> u8 list option" where
  "dns_encode_name name mx = map_option (\<lambda>out. if length out < mx then out @ [0] else out) (dns_labels name [] mx)"

definition after_dot :: "string \<Rightarrow> string" where
  "after_dot p = (let p = dropWhile (\<lambda>c. c \<noteq> NUL \<and> c \<noteq> CHR ''.'') p in if deref p \<noteq> NUL then tl p else p)"

definition parse_quad :: "string \<Rightarrow> ip_addr option" where
  "parse_quad p =
     (let a = atoi p; p = after_dot p; b = atoi p; p = after_dot p; c = atoi p; p = after_dot p; d = atoi p
      in if a \<le> 255 \<and> b \<le> 255 \<and> c \<le> 255 \<and> d \<le> 255 then Some [ucast a, ucast b, ucast c, ucast d] else None)"

fun dns_wait :: "u32 \<Rightarrow> nic_event list \<Rightarrow> net_state \<Rightarrow> (ip_addr option \<times> nic_event list \<times> net_state) option" where
  "dns_wait deadline [] s = (if net_ticks s < deadline then None else Some (None, [], s))"
| "dns_wait deadline (ev # evs) s =
     (if net_ticks s < deadline then
        do { s \<leftarrow> net_poll (ev_poll ev) s;
             if dns_received s then Some (Some (dns_result s), evs, s)
             else do { s \<leftarrow> net_hlt ev s; dns_wait deadline evs s } }
      else Some (None, ev # evs, s))"

definition dns_query :: "u16 \<Rightarrow> u8 list \<Rightarrow> u8 list" where
  "dns_query txn name =
     le16 (htons txn) @ le16 (htons DNS_FLAG_RD) @ le16 (htons 1) @ le16 0 @ le16 0 @ le16 0 @ name @ [0, 1, 0, 1]"

definition net_dns_resolve :: "string \<Rightarrow> u32 \<Rightarrow> nic_event list \<Rightarrow> net_state \<Rightarrow> (ip_addr option \<times> nic_event list \<times> net_state) option" where
  "net_dns_resolve hostname timeout_ms evs s =
     (if \<not> nic_available s then Some (None, evs, s)
      else
        case (if isdigit (deref hostname) then parse_quad hostname else None) of
          Some ip \<Rightarrow> Some (Some ip, evs, s)
        | None \<Rightarrow>
            let s = s\<lparr>dns_txn_id := dns_txn_id s + 1\<rparr> in
            case dns_encode_name hostname (512 - 12 - 4) of
              None \<Rightarrow> Some (None, evs, s)
            | Some name \<Rightarrow>
                let s = s\<lparr>dns_received := False\<rparr> in
                do { (ok, evs, s) \<leftarrow> net_send_udp (dns_server s) (1024 + (dns_txn_id s AND 0xFF)) DNS_PORT (dns_query (dns_txn_id s) name) evs s;
                     dns_wait (net_ticks s + (timeout_ms * 100) div 1000) evs s })"

section \<open>The Internet checksum\<close>

text \<open>The sum of the 16-bit words of a byte sequence, in unbounded arithmetic.\<close>

fun word_sum :: "u8 list \<Rightarrow> nat" where
  "word_sum (a # b # p) = unat a + 256 * unat b + word_sum p"
| "word_sum [a] = unat a"
| "word_sum [] = 0"

text \<open>The representative in \<open>1..65535\<close> of a positive number modulo 65535, and 0 for 0: the sum in one's
  complement.\<close>

definition ones_sum :: "nat \<Rightarrow> nat" where
  "ones_sum n = (if n = 0 then 0 else (n - 1) mod 65535 + 1)"

lemma unat_pair: "unat (ucast (ucast (a :: u8) OR push_bit 8 (ucast (b :: u8)) :: u16) :: u32) = unat a + 256 * unat b"
proof -
  have "(ucast a :: u16) AND push_bit 8 (ucast b) = 0"
    by (rule bit_word_eqI) (auto simp: bit_simps dest: bit_imp_le_length)
  then have "ucast a OR push_bit 8 (ucast b) = (ucast a + push_bit 8 (ucast b) :: u16)" by (metis word_plus_and_or add_0)
  moreover have "unat (ucast a + push_bit 8 (ucast b) :: u16) = unat a + 256 * unat b"
    using unat_u8 [of a] unat_u8 [of b]
    by (simp add: unat_word_ariths push_bit_eq_mult unsigned_ucast_eq take_bit_nat_eq_self)
  moreover have "unat (ucast w :: u32) = unat w" for w :: u16 by (simp add: unsigned_ucast_eq take_bit_nat_eq_self order_less_le_trans [OF unsigned_less])
  ultimately show ?thesis by simp
qed

lemma word_sum_bound: "word_sum xs \<le> 65535 * length xs"
proof (induction xs rule: word_sum.induct)
  case (1 a b p)
  then show ?case using unat_u8 [of a] unat_u8 [of b] by simp
next
  case (2 a)
  then show ?case using unat_u8 [of a] by simp
qed simp

lemma cksum_sum_nat: "unat acc + word_sum xs < 4294967296 \<Longrightarrow> unat (cksum_sum xs acc) = unat acc + word_sum xs"
proof (induction xs acc rule: cksum_sum.induct)
  case (1 a b p acc)
  let ?w = "ucast (ucast a OR push_bit 8 (ucast b) :: u16) :: u32"
  have "unat (acc + ?w) = unat acc + (unat a + 256 * unat b)"
    using "1.prems" unat_pair [of a b] by (subst unat_add_nowrap) simp_all
  then show ?case using "1.IH" "1.prems" by simp
next
  case (2 a acc)
  have "unat (ucast a :: u32) = unat a" using unat_u8 [of a] by (simp add: unsigned_ucast_eq take_bit_nat_eq_self)
  then show ?case using 2 by (simp add: unat_add_nowrap)
qed simp

lemma ones_sum_step: "ones_sum (n mod 65536 + n div 65536) = ones_sum n"
proof -
  have n: "n = n mod 65536 + 65536 * (n div 65536)" by simp
  have z: "n mod 65536 + n div 65536 = 0 \<longleftrightarrow> n = 0" using n by (metis add_is_0 mult_is_0 div_0 mod_0)
  have "(n - 1) mod 65535 = (n mod 65536 + n div 65536 - 1) mod 65535" if "n \<noteq> 0"
  proof -
    have "n - 1 = (n mod 65536 + n div 65536 - 1) + 65535 * (n div 65536)" using n that z by linarith
    then show ?thesis by (metis mod_mult_self2)
  qed
  then show ?thesis using z by (simp add: ones_sum_def)
qed

lemma ones_sum_small: "n < 65536 \<Longrightarrow> ones_sum n = n"
  by (simp add: ones_sum_def)

lemma cksum_fold_nat: "unat (cksum_fold x) = ones_sum (unat x)"
proof (induction x rule: cksum_fold.induct)
  case (1 x)
  show ?case
  proof (cases "drop_bit 16 x = 0")
    case True
    then have "unat x div 65536 = 0" using unat_drop [of 16 x] by simp
    then have "unat x < 65536" by simp
    then show ?thesis using True by (subst cksum_fold.simps) (simp add: ones_sum_small)
  next
    case False
    then show ?thesis using 1 [OF False] by (subst cksum_fold.simps) (simp add: cksum_fold_step ones_sum_step)
  qed
qed

lemma ones_sum_less: "ones_sum n < 65536"
  by (simp add: ones_sum_def)

lemma ip_checksum_nat:
  assumes "length xs \<le> 65536"
  shows "unat (ip_checksum xs) = 65535 - ones_sum (word_sum xs)"
proof -
  have "word_sum xs < 4294967296" using word_sum_bound [of xs] assms by linarith
  then have f: "unat (cksum_fold (cksum_sum xs 0)) = ones_sum (word_sum xs)"
    using cksum_sum_nat [of 0 xs] by (simp add: cksum_fold_nat)
  have "unat (ucast (cksum_fold (cksum_sum xs 0)) :: u16) = ones_sum (word_sum xs)"
    using ones_sum_less [of "word_sum xs"] by (simp add: unsigned_ucast_eq f take_bit_nat_eq_self)
  moreover have "unat (NOT x) = 65535 - unat x" for x :: u16
  proof -
    have "NOT x = - 1 - x" by (simp add: not_eq_complement)
    then show ?thesis using unat_sub [of x "- 1"] by (simp add: unsigned_minus_1_eq_mask mask_eq_exp_minus_1)
  qed
  ultimately show ?thesis by (simp add: ip_checksum_def)
qed

text \<open>C28. The checksum the code computes with 32-bit additions and carry folding is the complement of the
  one's complement sum of the 16-bit words, for every packet of at most 65536 bytes.\<close>

theorem ip_checksum_ref:
  "length xs \<le> 65536 \<Longrightarrow> unat (ip_checksum xs) = 65535 - ones_sum (word_sum xs)"
  by (rule ip_checksum_nat)

lemma ip_checksum_ref_witness: "unat (ip_checksum [0x45, 0x00, 0xFF, 0xFF, 0x01]) = 65535 - ones_sum (word_sum [0x45, 0x00, 0xFF, 0xFF, 0x01])"
  by (rule ip_checksum_ref) simp

text \<open>Storing the checksum in a zeroed field at an even offset makes the checksum of the whole 0, which is
  how a receiver verifies it.\<close>

lemma length_le16 [simp]: "length (le16 v) = 2"
  by (simp add: le16_def)

lemma length_write_bytes [simp]: "i + length bs \<le> length xs \<Longrightarrow> length (write_bytes i bs xs) = length xs"
  by (simp add: write_bytes_def)

lemma word_sum_append: "even (length xs) \<Longrightarrow> word_sum (xs @ ys) = word_sum xs + word_sum ys"
  by (induction xs rule: word_sum.induct) simp_all

lemma word_sum_le16: "word_sum (le16 v @ ys) = unat v + word_sum ys"
proof -
  have "unat (ucast v :: u8) = unat v mod 256" by (simp add: unsigned_ucast_eq take_bit_eq_mod)
  moreover have "unat (ucast (drop_bit 8 v) :: u8) = unat v div 256"
  proof -
    have "unat v < 65536" by (rule order_less_le_trans [OF unsigned_less]) simp
    then have "unat v div 256 < 256" by (simp add: less_mult_imp_div_less)
    then show ?thesis by (simp add: unsigned_ucast_eq drop_bit_eq_div unat_div take_bit_nat_eq_self)
  qed
  ultimately show ?thesis by (simp add: le16_def)
qed

lemma write_bytes_twice: "i + length bs \<le> length xs \<Longrightarrow> length bs = length cs \<Longrightarrow> write_bytes i cs (write_bytes i bs xs) = write_bytes i cs xs"
  by (simp add: write_bytes_def)

lemma ones_sum_complement: "ones_sum (w + (65535 - ones_sum w)) = 65535"
proof (cases "w = 0")
  case False
  define r where "r = (w - 1) mod 65535"
  have r: "r < 65535" "ones_sum w = r + 1" using False by (simp_all add: r_def ones_sum_def)
  have "w + (65535 - (r + 1)) - 1 = (w - 1 - r) + 65534" using False r by (simp add: r_def)
  moreover have "(w - 1 - r) mod 65535 = 0" by (simp add: r_def minus_mod_eq_mult_div)
  then have "((w - 1 - r) + 65534) mod 65535 = 65534" using mod_add_left_eq [of "w - 1 - r" 65535 65534] by simp
  ultimately have "(w + (65535 - (r + 1)) - 1) mod 65535 = 65534" by simp
  then show ?thesis using False r by (simp add: ones_sum_def)
qed (simp add: ones_sum_def)

lemma checksum_verifies:
  assumes "even i" "i + 2 \<le> length xs" "length xs \<le> 65536"
  defines "z \<equiv> write_bytes i (le16 0) xs"
  shows "ip_checksum (write_bytes i (le16 (ip_checksum z)) z) = 0"
proof -
  have lz: "length z = length xs" using assms(2) by (simp add: z_def)
  have w: "word_sum (write_bytes i (le16 v) xs) = word_sum (write_bytes i (le16 0) xs) + unat v" for v
    using assms(1,2) by (simp add: write_bytes_def word_sum_append word_sum_le16)
  have "word_sum (write_bytes i (le16 (ip_checksum z)) z) = word_sum z + unat (ip_checksum z)"
    using w [of "ip_checksum z"] assms(2) by (simp add: z_def write_bytes_twice)
  also have "unat (ip_checksum z) = 65535 - ones_sum (word_sum z)" using assms(3) lz by (simp add: ip_checksum_nat)
  finally have "ones_sum (word_sum (write_bytes i (le16 (ip_checksum z)) z)) = 65535" by (simp add: ones_sum_complement)
  then have "unat (ip_checksum (write_bytes i (le16 (ip_checksum z)) z)) = 0"
    using assms(2,3) lz by (simp add: ip_checksum_nat)
  then show ?thesis by (simp add: unat_eq_0)
qed

section \<open>The ARP cache is a bounded map\<close>

definition arp_inv :: "arp_entry list \<Rightarrow> bool" where
  "arp_inv c \<longleftrightarrow> length c = ARP_CACHE_SIZE \<and> (\<forall>e \<in> set c. length (ar_ip e) = 4) \<and> keys_unique ar_valid ar_ip c"

definition arp_room :: "arp_entry list \<Rightarrow> nat" where
  "arp_room c = count_slots (\<lambda>e. \<not> ar_valid e) c"

definition arp_lookup :: "arp_entry list \<Rightarrow> ip_addr \<Rightarrow> mac_addr option" where
  "arp_lookup c ip = (if length ip = 4 then arp_get c ip else None)"

lemma ip_eq_eq: "length a = 4 \<Longrightarrow> length b = 4 \<Longrightarrow> ip_eq a b \<longleftrightarrow> a = b"
proof -
  assume l: "length a = 4" "length b = 4"
  have "{..<4} = {0, 1, 2, 3 :: nat}" by auto
  then have "a = b \<longleftrightarrow> (\<forall>i \<in> {0, 1, 2, 3}. a ! i = b ! i)" using l by (metis nth_equalityI lessThan_iff)
  then show ?thesis by (simp add: ip_eq_def)
qed

lemma find_arp: "arp_inv c \<Longrightarrow> length ip = 4 \<Longrightarrow> find_slot (arp_match ip) c = find_key ar_valid ar_ip c ip"
  unfolding find_key_def by (rule find_slot_cong) (auto simp: arp_match_def arp_inv_def ip_eq_eq)

lemma arp_put_cases:
  assumes inv: "arp_inv c" and ip: "length ip = 4"
  obtains (put) i e where "arp_put ip mac c = c[i := e]" "i < length c" "ar_valid e" "ar_ip e = ip" "ar_mac e = mac"
      "find_key ar_valid ar_ip c ip = Some i \<or> find_key ar_valid ar_ip c ip = None \<and> \<not> ar_valid (c ! i)"
  | (full) "arp_put ip mac c = c" "find_key ar_valid ar_ip c ip = None" "\<forall>e \<in> set c. ar_valid e"
proof (cases "find_key ar_valid ar_ip c ip")
  case (Some i)
  note i = find_key_SomeD [OF Some]
  show thesis by (rule put [of i "(c ! i)\<lparr>ar_mac := mac\<rparr>"]) (use i Some find_arp [OF assms] in \<open>simp_all add: arp_put_def\<close>)
next
  case None
  show thesis
  proof (cases "find_slot (\<lambda>e. \<not> ar_valid e) c")
    case n: None
    then have "\<forall>e \<in> set c. ar_valid e" by (simp add: find_slot_None)
    then show thesis using None n find_arp [OF assms] full by (simp add: arp_put_def)
  next
    case (Some i)
    note i = find_slot_SomeD [OF Some]
    show thesis
      by (rule put [of i "(c ! i)\<lparr>ar_ip := ip, ar_mac := mac, ar_valid := True\<rparr>"])
        (use i None Some find_arp [OF assms] in \<open>simp_all add: arp_put_def\<close>)
  qed
qed

lemma arp_room_0: "arp_room c = 0 \<longleftrightarrow> (\<forall>e \<in> set c. ar_valid e)"
  by (simp add: arp_room_def count_slots_filter filter_empty_conv)

lemma arp_lookup_key: "arp_inv c \<Longrightarrow> arp_lookup c ip = (if length ip = 4 then map_option (\<lambda>i. ar_mac (c ! i)) (find_key ar_valid ar_ip c ip) else None)"
  by (simp add: arp_lookup_def arp_get_def find_arp)

lemma arp_put_inv:
  assumes "arp_inv c" "length ip = 4"
  shows "arp_inv (arp_put ip mac c)"
  using assms
proof (cases rule: arp_put_cases [of c ip mac])
  case (put i e)
  have "keys_unique ar_valid ar_ip (c[i := e])"
    using assms(1) put(2-4,6) by (intro keys_unique_put [where k = ip]) (auto simp: arp_inv_def)
  moreover have "\<forall>x \<in> set (c[i := e]). length (ar_ip x) = 4"
    using assms put(4) by (auto simp: arp_inv_def dest!: set_update_subset_insert [THEN subsetD])
  ultimately show ?thesis using assms(1) put(1) by (simp add: arp_inv_def)
qed (use assms in simp)

interpretation arp: key_table arp_lookup arp_put arp_inv arp_room "\<lambda>ip mac. length ip = 4" "\<lambda>ip. length ip = 4"
proof (unfold_locales, goal_cases)
  case (2 c ip mac ip')
  note inv' = arp_put_inv [OF 2(1,2), of mac]
  from 2(1,2) show ?case
  proof (cases rule: arp_put_cases [of c ip mac])
    case (put i e)
    have "keys_unique ar_valid ar_ip c" using 2(1) by (simp add: arp_inv_def)
    note fk = find_key_put [OF this put(2-4,6)]
    have "j \<noteq> i" if "find_key ar_valid ar_ip c ip' = Some j" "ip' \<noteq> ip" for j
      using that put(6) find_key_SomeD [OF that(1)] find_key_SomeD [of ar_valid ar_ip c ip i] by auto
    then show ?thesis using put inv' fk [of ip'] 2(1,2)
      by (cases "find_key ar_valid ar_ip c ip'") (auto simp: arp_lookup_key)
  next
    case full
    with 2 show ?thesis by (auto simp: arp_lookup_key arp_room_0 [THEN iffD2])
  qed
next
  case (3 c ip mac)
  then have "find_slot (\<lambda>e. \<not> ar_valid e) c = None" by (simp add: find_slot_None arp_room_0)
  with 3 show ?case by (simp add: arp_put_def arp_lookup_key find_arp)
next
  case (4 c ip mac)
  then show ?case by (rule arp_put_inv)
next
  case (5 c ip mac)
  from 5 show ?case
  proof (cases rule: arp_put_cases [of c ip mac])
    case (put i e)
    with count_slots_update [OF put(2), of "\<lambda>e. \<not> ar_valid e" e] 5 show ?thesis
      by (auto simp: arp_room_def arp_lookup_key dest: find_key_SomeD)
  next
    case full
    with 5 show ?thesis by (simp add: arp_lookup_key arp_room_0 [THEN iffD2])
  qed
qed

end
