(* ===== verification/NetProto.thy ===== *)
theory NetProto
  imports Net
begin

text \<open>
  The protocols of \<^verbatim>\<open>src/net.c\<close> on the definitions of \<open>Net\<close>: ICMP echo, ARP, the receive ring, the
  DNS parser and encoder, and UDP from one host to another.
\<close>

section \<open>Writing into a packet\<close>

lemma nth_write_bytes:
  "i + length bs \<le> length xs \<Longrightarrow> k < length xs \<Longrightarrow>
   write_bytes i bs xs ! k = (if i \<le> k \<and> k < i + length bs then bs ! (k - i) else xs ! k)"
  by (auto simp: write_bytes_def nth_append)

lemma nth_write_other:
  "i + length bs \<le> length xs \<Longrightarrow> k < length xs \<Longrightarrow> k < i \<or> i + length bs \<le> k \<Longrightarrow> write_bytes i bs xs ! k = xs ! k"
  by (auto simp: nth_write_bytes)

lemma slice_write_in:
  assumes "a \<le> i" "i + length bs \<le> a + n" "a + n \<le> length xs"
  shows "take n (drop a (write_bytes i bs xs)) = write_bytes (i - a) bs (take n (drop a xs))"
proof (rule nth_equalityI)
  fix k assume "k < length (take n (drop a (write_bytes i bs xs)))"
  then have k: "k < n" using assms by simp
  have "write_bytes i bs xs ! (a + k) = (if i \<le> a + k \<and> a + k < i + length bs then bs ! (a + k - i) else xs ! (a + k))"
    using assms k by (intro nth_write_bytes) simp_all
  moreover have "write_bytes (i - a) bs (take n (drop a xs)) ! k
      = (if i - a \<le> k \<and> k < i - a + length bs then bs ! (k - (i - a)) else take n (drop a xs) ! k)"
    using assms k by (intro nth_write_bytes) simp_all
  moreover have "a + k - i = k - (i - a)" "i \<le> a + k \<and> a + k < i + length bs \<longleftrightarrow> i - a \<le> k \<and> k < i - a + length bs"
    using assms(1) by linarith+
  ultimately show "take n (drop a (write_bytes i bs xs)) ! k = write_bytes (i - a) bs (take n (drop a xs)) ! k"
    using k assms by simp
qed (use assms in simp)

lemma slice_write_out:
  assumes "i + length bs \<le> length xs" "i + length bs \<le> a \<or> a + n \<le> i"
  shows "take n (drop a (write_bytes i bs xs)) = take n (drop a xs)"
proof (rule nth_equalityI)
  fix k assume "k < length (take n (drop a (write_bytes i bs xs)))"
  then have k: "k < n" "a + k < length xs" using assms by auto
  then show "take n (drop a (write_bytes i bs xs)) ! k = take n (drop a xs) ! k"
    using nth_write_bytes [OF assms(1) k(2)] assms by auto
qed (use assms in simp)

section \<open>Transmission\<close>

definition nic_ok :: "net_state \<Rightarrow> bool" where
  "nic_ok s \<longleftrightarrow> nic_available s \<and> length (tx_buffers s) = 4 \<and> (\<forall>b \<in> set (tx_buffers s). length b = TX_BUF_SIZE)
     \<and> current_tx s < 4 \<and> length (our_mac s) = 6 \<and> length (our_ip s) = 4"

definition padded :: "u8 list \<Rightarrow> u8 list" where
  "padded f = f @ replicate (60 - length f) 0"

lemma net_send_raw_sent:
  assumes "nic_ok s" "length f \<le> TX_BUF_SIZE"
  shows "\<exists>tb. net_send_raw f s = s\<lparr>tx_buffers := tb, sent := sent s @ [padded f], current_tx := (current_tx s + 1) mod 4\<rparr>
     \<and> nic_ok (net_send_raw f s)"
proof -
  let ?b = "tx_buffers s ! current_tx s"
  have b: "length ?b = 1536" and f: "length f \<le> 1536" using assms by (auto simp: nic_ok_def TX_BUF_SIZE_def)
  define buf where "buf = (if length f < 60 then write_bytes (length f) (replicate (60 - length f) 0) (write_bytes 0 f ?b) else write_bytes 0 f ?b)"
  have lb: "length buf = 1536" using b f by (simp add: buf_def)
  have tk: "take (if length f < 60 then 60 else length f) buf = padded f"
    using b f by (simp add: buf_def write_bytes_def padded_def)
  have eq: "net_send_raw f s = s\<lparr>tx_buffers := (tx_buffers s)[current_tx s := buf], sent := sent s @ [padded f], current_tx := (current_tx s + 1) mod 4\<rparr>"
    using assms f unfolding tk [symmetric] by (simp add: net_send_raw_def nic_ok_def TX_BUF_SIZE_def buf_def Let_def)
  moreover have "nic_ok (net_send_raw f s)"
    unfolding eq using assms lb by (auto simp: nic_ok_def TX_BUF_SIZE_def dest!: set_update_subset_insert [THEN subsetD])
  ultimately show ?thesis by blast
qed

section \<open>ICMP echo\<close>

definition ip_hl :: "memory \<Rightarrow> u32 \<Rightarrow> nat" where "ip_hl m data = 4 * (unat (m (data + 14)) mod 16)"
definition ip_tl :: "memory \<Rightarrow> u32 \<Rightarrow> nat" where "ip_tl m data = unat (ntohs (load16 m (data + 16)))"

text \<open>A well-formed echo request, and the reply to it: Ethernet and IP addresses exchanged, the type
  changed, both checksums valid, everything else as in the request.\<close>

definition echo_request :: "memory \<Rightarrow> u32 \<Rightarrow> u32 \<Rightarrow> bool" where
  "echo_request m data len \<longleftrightarrow> 34 \<le> len \<and> ntohs (load16 m (data + 12)) = ETH_TYPE_IP \<and> m (data + 23) = IP_PROTO_ICMP
     \<and> m (data + 14 + of_nat (ip_hl m data)) = ICMP_ECHO_REQUEST
     \<and> 20 \<le> ip_hl m data \<and> ip_hl m data + 8 \<le> ip_tl m data \<and> ip_tl m data \<le> 1486"

definition is_echo_reply :: "memory \<Rightarrow> u32 \<Rightarrow> mac_addr \<Rightarrow> ip_addr \<Rightarrow> u8 list \<Rightarrow> bool" where
  "is_echo_reply m data mac ip f \<longleftrightarrow>
     (let h = ip_hl m data; n = 14 + ip_tl m data in
      length f = n \<and> take 6 f = bytes m (data + 6) 6 \<and> take 6 (drop 6 f) = mac
      \<and> take 4 (drop 26 f) = ip \<and> take 4 (drop 30 f) = bytes m (data + 26) 4
      \<and> f ! (14 + h) = ICMP_ECHO_REPLY \<and> ip_checksum (take h (drop 14 f)) = 0 \<and> ip_checksum (drop (14 + h) f) = 0
      \<and> (\<forall>k < n. 12 \<le> k \<and> k \<notin> {24..<34} \<and> k \<notin> {14 + h, 16 + h, 17 + h} \<longrightarrow> f ! k = m (data + of_nat k)))"

lemma echo_reply_ok:
  assumes "length (our_mac s) = 6" "length (our_ip s) = 4" "20 \<le> h" "h + 8 \<le> T" "T \<le> 1486"
    and "h = ip_hl (mem s) data" "T = ip_tl (mem s) data" "even h"
  shows "is_echo_reply (mem s) data (our_mac s) (our_ip s) (echo_reply data h T s)"
proof -
  let ?m = "mem s" and ?n = "14 + T"
  define r0 where "r0 = bytes ?m data ?n @ replicate (1500 - ?n) 0"
  define r1 where "r1 = write_bytes 0 (bytes ?m (data + 6) 6) r0"
  define r2 where "r2 = write_bytes 6 (our_mac s) r1"
  define r3 where "r3 = write_bytes 30 (bytes ?m (data + 26) 4) r2"
  define r4 where "r4 = write_bytes 26 (our_ip s) r3"
  define r5 where "r5 = write_bytes 24 (le16 0) r4"
  define r6 where "r6 = write_bytes 24 (le16 (ip_checksum (take h (drop 14 r5)))) r5"
  define r7 where "r7 = write_bytes (14 + h) [ICMP_ECHO_REPLY] r6"
  define r8 where "r8 = write_bytes (14 + h + 2) (le16 0) r7"
  define r9 where "r9 = write_bytes (14 + h + 2) (le16 (ip_checksum (take (T - h) (drop (14 + h) r8)))) r8"
  have r: "echo_reply data h T s = take ?n r9"
    by (simp only: echo_reply_def Let_def r0_def r1_def r2_def r3_def r4_def r5_def r6_def r7_def r8_def r9_def)
  have l0: "length r0 = 1500" using assms by (simp add: r0_def)
  have l1: "length r1 = 1500" by (simp add: r1_def l0)
  have l2: "length r2 = 1500" by (simp add: r2_def l1 assms(1))
  have l3: "length r3 = 1500" by (simp add: r3_def l2)
  have l4: "length r4 = 1500" by (simp add: r4_def l3 assms(2))
  have l5: "length r5 = 1500" by (simp add: r5_def l4)
  have l6: "length r6 = 1500" by (simp add: r6_def l5)
  have l7: "length r7 = 1500" using assms by (simp add: r7_def l6)
  have l8: "length r8 = 1500" using assms by (simp add: r8_def l7)
  have l9: "length r9 = 1500" using assms by (simp add: r9_def l8)
  note L = l0 l1 l2 l3 l4 l5 l6 l7 l8 l9
  have late: "take k (drop a r9) = take k (drop a r6)" if "a + k \<le> 14 + h" for a k
    using that assms L unfolding r9_def r8_def r7_def by (simp add: slice_write_out)
  have "take h (drop 14 r6) = write_bytes 10 (le16 (ip_checksum (take h (drop 14 r5)))) (take h (drop 14 r5))"
    unfolding r6_def using assms L slice_write_in [of 14 24 "le16 (ip_checksum (take h (drop 14 r5)))" h r5] by simp
  moreover have z: "take h (drop 14 r5) = write_bytes 10 (le16 0) (take h (drop 14 r4))"
    unfolding r5_def using assms L slice_write_in [of 14 24 "le16 0" h r4] by simp
  ultimately have c1: "ip_checksum (take h (drop 14 r9)) = 0"
    using checksum_verifies [of 10 "take h (drop 14 r4)"] assms L late [of 14 h] by simp
  let ?t = "T - h"
  have "take ?t (drop (14 + h) r9) = write_bytes 2 (le16 (ip_checksum (take ?t (drop (14 + h) r8)))) (take ?t (drop (14 + h) r8))"
    unfolding r9_def using assms L slice_write_in [of "14 + h" "14 + h + 2" "le16 (ip_checksum (take ?t (drop (14 + h) r8)))" ?t r8] by simp
  moreover have "take ?t (drop (14 + h) r8) = write_bytes 2 (le16 0) (take ?t (drop (14 + h) r7))"
    unfolding r8_def using assms L slice_write_in [of "14 + h" "14 + h + 2" "le16 0" ?t r7] by simp
  ultimately have c2: "ip_checksum (take ?t (drop (14 + h) r9)) = 0"
    using checksum_verifies [of 2 "take ?t (drop (14 + h) r7)"] assms L by simp
  have own: "take (length bs) (drop i (write_bytes i bs xs)) = bs" if "i + length bs \<le> length xs" for i and bs xs :: "u8 list"
    using that by (simp add: write_bytes_def)
  have sl: "take 6 (drop 0 r6) = bytes ?m (data + 6) 6" "take 6 (drop 6 r6) = our_mac s"
    "take 4 (drop 26 r6) = our_ip s" "take 4 (drop 30 r6) = bytes ?m (data + 26) 4"
  proof -
    have "take 6 (drop 0 r6) = take 6 (drop 0 r1)"
      using L assms(1,2) by (simp add: r6_def r5_def r4_def r3_def r2_def slice_write_out del: drop0)
    then show "take 6 (drop 0 r6) = bytes ?m (data + 6) 6" using own [of 0 "bytes ?m (data + 6) 6" r0] L by (simp add: r1_def)
    show "take 6 (drop 6 r6) = our_mac s"
      using own [of 6 "our_mac s" r1] L assms(1,2) by (simp add: r6_def r5_def r4_def r3_def r2_def slice_write_out)
    show "take 4 (drop 26 r6) = our_ip s"
      using own [of 26 "our_ip s" r3] L assms(1,2) by (simp add: r6_def r5_def r4_def slice_write_out)
    show "take 4 (drop 30 r6) = bytes ?m (data + 26) 4"
      using own [of 30 "bytes ?m (data + 26) 4" r2] L assms(1,2) by (simp add: r6_def r5_def r4_def r3_def slice_write_out)
  qed
  have nth: "r9 ! k = (if k = 14 + h then ICMP_ECHO_REPLY else ?m (data + of_nat k))"
    if k: "k < ?n" "12 \<le> k" "k \<notin> {24..<34}" "k \<notin> {16 + h, 17 + h}" for k
  proof -
    have "r0 ! k = ?m (data + of_nat k)" using k(1) by (simp add: r0_def nth_append)
    have ko: "k < 24 \<or> 34 \<le> k" "k < 1500" "k < 16 + h \<or> 18 + h \<le> k" using k assms(5) by auto
    have "r9 ! k = r7 ! k" using ko assms(4,5) L by (simp add: r9_def r8_def nth_write_other)
    also have "\<dots> = (if k = 14 + h then ICMP_ECHO_REPLY else r6 ! k)" using ko assms(4,5) L by (auto simp: r7_def nth_write_bytes)
    also have "r6 ! k = r4 ! k" using ko L by (auto simp: r6_def r5_def nth_write_other)
    also have "r4 ! k = r0 ! k" using ko L k(2) assms(1,2) by (auto simp: r4_def r3_def r2_def r1_def nth_write_other)
    finally show ?thesis using \<open>r0 ! k = _\<close> by simp
  qed
  show ?thesis
    unfolding is_echo_reply_def Let_def assms(6) [symmetric] assms(7) [symmetric] r
    using assms(3-5) L sl c1 c2 late [of 0 6] late [of 6 6] late [of 26 4] late [of 30 4] nth
    by (simp add: drop_take)
qed

lemma ip_hl_word: "unat (ucast (m (data + 14) AND 0x0F) * 4 :: u32) = ip_hl m data"
proof -
  have "unat (m (data + 14) AND 0x0F) = unat (m (data + 14)) mod 16"
  proof -
    have "(0x0F :: u8) = mask 4" by (simp add: mask_eq_exp_minus_1)
    then show ?thesis by (simp only: take_bit_eq_mask [symmetric] unsigned_take_bit_eq) (simp add: take_bit_eq_mod)
  qed
  moreover have "unat (ucast w * 4 :: u32) = 4 * unat w" for w :: u8
    using unat_u8 [of w] by (simp add: unat_word_ariths unsigned_ucast_eq take_bit_nat_eq_self)
  ultimately show ?thesis by (simp add: ip_hl_def)
qed

lemma ip_tl_word: "unat (ucast (ntohs (load16 m (data + 16))) :: u32) = ip_tl m data"
  by (simp add: ip_tl_def unsigned_ucast_eq take_bit_nat_eq_self order_less_le_trans [OF unsigned_less])

lemma even_ip_hl: "even (ip_hl m data)"
  by (simp add: ip_hl_def)

text \<open>C22. A well-formed ICMP echo request is answered: \<open>process_rx_packet\<close> transmits exactly one frame, the
  reply with exchanged addresses, valid IP and ICMP checksums and the request's contents, and changes
  nothing but the transmit buffers.\<close>

theorem echo_answered:
  assumes ok: "nic_ok s" and req: "echo_request (mem s) data len"
  shows "\<exists>f tb. is_echo_reply (mem s) data (our_mac s) (our_ip s) f
     \<and> process_rx_packet data len s = Some (s\<lparr>tx_buffers := tb, sent := sent s @ [padded f], current_tx := (current_tx s + 1) mod 4\<rparr>)"
proof -
  let ?m = "mem s" and ?h = "ip_hl (mem s) data" and ?T = "ip_tl (mem s) data"
  let ?hw = "ucast (?m (data + 14) AND 0x0F) * 4 :: u32" and ?tw = "ucast (ntohs (load16 ?m (data + 16))) :: u32"
  have hw: "unat ?hw = ?h" and tw: "unat ?tw = ?T" by (rule ip_hl_word ip_tl_word)+
  have b: "20 \<le> ?h" "?h + 8 \<le> ?T" "?T \<le> 1486" using req by (auto simp: echo_request_def)
  have g: "\<not> 14 + ?tw > 1500" "\<not> ?tw < ?hw"
  proof -
    have "unat (14 + ?tw) = 14 + ?T" using b tw by (subst unat_add_nowrap) simp_all
    then show "\<not> 14 + ?tw > 1500" using b by (simp add: word_less_nat_alt)
    show "\<not> ?tw < ?hw" using b hw tw by (simp add: word_less_nat_alt)
  qed
  have "?hw = of_nat ?h" by (simp add: hw [symmetric])
  then have ty: "?m (data + 14 + ?hw) = ICMP_ECHO_REQUEST" using req by (simp add: echo_request_def)
  define f where "f = echo_reply data ?h ?T s"
  have f: "is_echo_reply ?m data (our_mac s) (our_ip s) f"
    unfolding f_def using ok b even_ip_hl by (intro echo_reply_ok) (auto simp: nic_ok_def)
  have "process_rx_packet data len s = Some (net_send_raw f s)"
    using req g ty hw tw unfolding process_rx_packet_def process_ip_def Let_def
    by (simp add: echo_request_def f_def word_le_nat_alt word_less_nat_alt add.assoc ETH_TYPE_ARP_def ETH_TYPE_IP_def)
  moreover have "length f \<le> TX_BUF_SIZE" using f b by (simp add: is_echo_reply_def Let_def TX_BUF_SIZE_def)
  ultimately show ?thesis using net_send_raw_sent [OF ok] f by metis
qed

text \<open>A host with a packet at the start of its memory.\<close>

definition packet_mem :: "u8 list \<Rightarrow> memory" where
  "packet_mem f = (\<lambda>p. if unat p < length f then f ! unat p else 0)"

definition net_host :: "u8 list \<Rightarrow> net_state" where
  "net_host f = \<lparr>mem = packet_mem f, nic_available = True, io_base = 0xC000, our_mac = [0x52, 0x54, 0, 0x12, 0x34, 0x56], our_ip = [10, 0, 2, 15],
     gateway_ip = [10, 0, 2, 2], netmask = [255, 255, 255, 0], dns_server = [10, 0, 2, 3], rx_buffer = 0x10000,
     tx_buffers = replicate 4 (replicate TX_BUF_SIZE 0), current_tx = 0, rx_offset = 0, capr = 0,
     arp_cache = replicate ARP_CACHE_SIZE \<lparr>ar_ip = [0, 0, 0, 0], ar_mac = [0, 0, 0, 0, 0, 0], ar_valid = False\<rparr>,
     ping_received = False, ping_recv_time = 0, ping_seq = 0, udp_handler = True, udp_calls = [], dns_received = False,
     dns_result = [0, 0, 0, 0], dns_txn_id = 0x1234, ip_id_counter = 1, irq_line = None, net_ticks = 0, sent = []\<rparr>"

lemma net_host_simps [simp]: "nic_ok (net_host f)" "mem (net_host f) = packet_mem f" "our_mac (net_host f) = [0x52, 0x54, 0, 0x12, 0x34, 0x56]"
  "our_ip (net_host f) = [10, 0, 2, 15]" "udp_handler (net_host f)" "udp_calls (net_host f) = []" "sent (net_host f) = []"
  by (simp_all add: nic_ok_def net_host_def)

lemma packet_mem_nth [simp]: "packet_mem f 0 = (if f = [] then 0 else hd f)" "packet_mem f 1 = (if 1 < length f then f ! 1 else 0)"
  "packet_mem f (numeral k) = (if unat (numeral k :: u32) < length f then f ! unat (numeral k :: u32) else 0)"
  by (auto simp: packet_mem_def hd_conv_nth)

definition sample_echo :: "u8 list" where
  "sample_echo = [0x52, 0x54, 0, 0x12, 0x34, 0x56, 2, 2, 2, 2, 2, 2, 8, 0, 0x45, 0, 0, 28, 0, 0, 0, 0, 64, 1, 0, 0, 10, 0, 2, 2,
     10, 0, 2, 15, 8, 0, 0, 0, 0, 0, 0, 1]"

lemma echo_answered_witness:
  "\<exists>f tb. is_echo_reply (packet_mem sample_echo) 0 [0x52, 0x54, 0, 0x12, 0x34, 0x56] [10, 0, 2, 15] f
     \<and> process_rx_packet 0 42 (net_host sample_echo)
       = Some ((net_host sample_echo)\<lparr>tx_buffers := tb, sent := [padded f], current_tx := (current_tx (net_host sample_echo) + 1) mod 4\<rparr>)"
proof -
  have l: "length sample_echo = 42" by (simp add: sample_echo_def)
  have h: "ip_hl (packet_mem sample_echo) 0 = 20" "ip_tl (packet_mem sample_echo) 0 = 28"
    by (simp_all add: ip_hl_def ip_tl_def load16_def ntohs_def htons_def l) (simp_all add: sample_echo_def)
  have "echo_request (mem (net_host sample_echo)) 0 42"
    by (simp add: echo_request_def h load16_def ntohs_def htons_def l) (simp add: sample_echo_def ETH_TYPE_IP_def IP_PROTO_ICMP_def ICMP_ECHO_REQUEST_def)
  from echo_answered [OF _ this] show ?thesis by simp
qed

section \<open>ARP\<close>

text \<open>Every ARP packet teaches the sender's address: it is found in the cache from then on, as long as the
  sender was known or an entry is free, and the other entries stay; a request for our address is
  answered with exactly one reply frame.\<close>

theorem arp_processed:
  assumes ok: "nic_ok s" and inv: "arp_inv (arp_cache s)" and len: "42 \<le> len" and ty: "ntohs (load16 (mem s) (data + 12)) = ETH_TYPE_ARP"
  defines "sha \<equiv> bytes (mem s) (data + 22) 6" and "spa \<equiv> bytes (mem s) (data + 28) 4" and "tpa \<equiv> bytes (mem s) (data + 38) 4"
  shows "\<exists>s'. process_rx_packet data len s = Some s' \<and> arp_inv (arp_cache s') \<and> nic_ok s'
    \<and> (arp_lookup (arp_cache s) spa \<noteq> None \<or> 0 < arp_room (arp_cache s) \<longrightarrow>
        (\<forall>ip. arp_lookup (arp_cache s') ip = (if ip = spa then Some sha else arp_lookup (arp_cache s) ip)))
    \<and> sent s' = sent s @
       (if ntohs (load16 (mem s) (data + 20)) = ARP_OP_REQUEST \<and> tpa = our_ip s
        then [padded (eth_header sha (our_mac s) ETH_TYPE_ARP @ arp_packet ARP_OP_REPLY (our_mac s) (our_ip s) sha spa)] else [])"
proof -
  let ?s = "arp_cache_add spa sha s"
  have spa: "length spa = 4" "length tpa = 4" by (simp_all add: spa_def tpa_def)
  have ok': "nic_ok ?s" using ok by (simp add: nic_ok_def arp_cache_add_def)
  have eq: "ip_eq tpa (our_ip s) \<longleftrightarrow> tpa = our_ip s" using ok spa by (intro ip_eq_eq) (simp_all add: nic_ok_def)
  let ?f = "eth_header sha (our_mac s) ETH_TYPE_ARP @ arp_packet ARP_OP_REPLY (our_mac s) (our_ip s) sha spa"
  have "length ?f \<le> TX_BUF_SIZE" using ok by (simp add: eth_header_def arp_packet_def sha_def spa_def nic_ok_def TX_BUF_SIZE_def)
  from net_send_raw_sent [OF ok' this] obtain tb where
    tb: "net_send_raw ?f ?s = ?s\<lparr>tx_buffers := tb, sent := sent ?s @ [padded ?f], current_tx := (current_tx ?s + 1) mod 4\<rparr>" "nic_ok (net_send_raw ?f ?s)" by blast
  have rx: "process_rx_packet data len s = Some (if ntohs (load16 (mem s) (data + 20)) = ARP_OP_REQUEST \<and> tpa = our_ip s
       then net_send_raw ?f ?s else ?s)"
    using len ty eq unfolding process_rx_packet_def process_arp_def arp_reply_def Let_def
    by (simp add: word_le_nat_alt word_less_nat_alt add.assoc sha_def spa_def tpa_def arp_cache_add_def)
  have lk: "arp_lookup (arp_put spa sha (arp_cache s)) ip = (if ip = spa then Some sha else arp_lookup (arp_cache s) ip)"
    if "arp_lookup (arp_cache s) spa \<noteq> None \<or> 0 < arp_room (arp_cache s)" for ip
    using arp.lookup_put [OF inv spa(1) that] by simp
  have inv': "arp_inv (arp_put spa sha (arp_cache s))" using arp.inv_put [OF inv spa(1)] .
  show ?thesis
  proof (cases "ntohs (load16 (mem s) (data + 20)) = ARP_OP_REQUEST \<and> tpa = our_ip s")
    case True
    then show ?thesis using rx tb lk inv' by (intro exI [of _ "net_send_raw ?f ?s"]) (simp add: arp_cache_add_def)
  next
    case False
    then show ?thesis using rx ok' lk inv' by (intro exI [of _ ?s]) (auto simp: arp_cache_add_def)
  qed
qed

definition sample_arp :: "u8 list" where
  "sample_arp = [0xFF, 0xFF, 0xFF, 0xFF, 0xFF, 0xFF, 2, 2, 2, 2, 2, 2, 8, 6, 0, 1, 8, 0, 6, 4, 0, 1, 2, 2, 2, 2, 2, 2, 10, 0, 2, 2, 0, 0, 0, 0, 0, 0, 10, 0, 2, 15]"

lemma arp_processed_witness:
  "\<exists>s'. process_rx_packet 0 60 (net_host sample_arp) = Some s' \<and> arp_lookup (arp_cache s') [10, 0, 2, 2] = Some [2, 2, 2, 2, 2, 2]
     \<and> length (sent s') = 1"
proof -
  have inv: "arp_inv (arp_cache (net_host sample_arp))"
    by (simp add: arp_inv_def net_host_def keys_unique_def)
  have room: "0 < arp_room (arp_cache (net_host sample_arp))"
    by (simp add: arp_room_def net_host_def count_slots_filter ARP_CACHE_SIZE_def)
  have l: "length sample_arp = 42" by (simp add: sample_arp_def)
  have b: "bytes (packet_mem sample_arp) 28 4 = [10, 0, 2, 2]" "bytes (packet_mem sample_arp) 22 6 = [2, 2, 2, 2, 2, 2]"
    "bytes (packet_mem sample_arp) 38 4 = [10, 0, 2, 15]" "ntohs (load16 (packet_mem sample_arp) 12) = ETH_TYPE_ARP"
    "ntohs (load16 (packet_mem sample_arp) 20) = ARP_OP_REQUEST"
    by (simp_all add: bytes_def upt_rec l load16_def ntohs_def htons_def ETH_TYPE_ARP_def ARP_OP_REQUEST_def) (simp_all add: sample_arp_def)
  from arp_processed [OF net_host_simps(1) inv, of 60 0] b room show ?thesis by auto
qed

section \<open>The receive ring\<close>


lemma arp_cache_add_ring [simp]: "rx_offset (arp_cache_add ip mac s) = rx_offset s" "rx_buffer (arp_cache_add ip mac s) = rx_buffer s"
  by (simp_all add: arp_cache_add_def)

lemma net_send_raw_ring [simp]: "rx_offset (net_send_raw f s) = rx_offset s" "rx_buffer (net_send_raw f s) = rx_buffer s"
  by (simp_all add: net_send_raw_def Let_def)




lemma poll_eq_irq: "poll_rx_loop cs s = irq_rx_loop cs s"
proof (induction cs arbitrary: s)
  case (Cons c cs)
  have "(\<lambda>s. let ofs = next_rx_offset (rx_offset s) z in poll_rx_loop cs (s\<lparr>rx_offset := ofs, capr := ucast (ofs - 16)\<rparr>))
     = (\<lambda>s. let ofs = next_rx_offset (rx_offset s) z in irq_rx_loop cs (s\<lparr>rx_offset := ofs, capr := ucast (ofs - 16)\<rparr>))" for z
    by (simp add: Cons.IH Let_def)
  then show ?case by (simp add: Let_def)
qed simp








text \<open>The interrupt handler and the poll do the same work on a working card.\<close>

theorem poll_equals_irq:
  "nic_available s \<Longrightarrow> net_poll inp s = rtl_irq_handler inp s"
  by (auto simp: net_poll_def rtl_irq_handler_def poll_eq_irq)

lemma poll_equals_irq_witness: "net_poll \<lparr>nic_isr = 1, nic_cmds = [0]\<rparr> (net_host []) = rtl_irq_handler \<lparr>nic_isr = 1, nic_cmds = [0]\<rparr> (net_host [])"
  by (rule poll_equals_irq) (simp add: net_host_def)

section \<open>DNS answers are read inside the payload\<close>









section \<open>Names in DNS wire format\<close>

text \<open>The decoder a resolver uses: labels with their lengths, ended by a zero byte.\<close>

function dns_decode :: "u8 list \<Rightarrow> string list option" where
  "dns_decode [] = None"
| "dns_decode (l # rest) =
     (if l = 0 then Some []
      else if unat l \<le> length rest then map_option ((#) (map (\<lambda>b. char_of (unat b)) (take (unat l) rest))) (dns_decode (drop (unat l) rest))
      else None)"
  by pat_completeness auto
termination by (relation "measure length") auto

fun join_dots :: "string list \<Rightarrow> string" where
  "join_dots [] = []"
| "join_dots [l] = l"
| "join_dots (l # ls) = l @ CHR ''.'' # join_dots ls"

definition dns_label :: "string \<Rightarrow> bool" where
  "dns_label l \<longleftrightarrow> l \<noteq> [] \<and> length l \<le> 63 \<and> NUL \<notin> set l \<and> CHR ''.'' \<notin> set l"

fun wire_labels :: "string list \<Rightarrow> u8 list" where
  "wire_labels [] = []"
| "wire_labels (l # ls) = of_nat (length l) # map of_char l @ wire_labels ls"

lemma label_of_label:
  assumes "dns_label l" "deref p = NUL \<or> deref p = CHR ''.''"
  shows "label_of (l @ p) = l"
proof -
  have "takeWhile (\<lambda>c. c \<noteq> NUL \<and> c \<noteq> CHR ''.'') p = []" using assms(2) by (cases p) (auto simp: deref_def)
  then show ?thesis using assms(1) unfolding label_of_def dns_label_def by (subst takeWhile_append2) auto
qed

lemma dns_labels_wire:
  assumes "\<forall>l \<in> set ls. dns_label l" "length out + length (wire_labels ls) < mx"
  shows "dns_labels (join_dots ls) out mx = Some (out @ wire_labels ls)"
  using assms
proof (induction ls arbitrary: out rule: join_dots.induct)
  case 1
  then show ?case by (subst dns_labels.simps) (simp add: deref_def)
next
  case (2 l)
  have l: "dns_label l" using 2 by simp
  then have "deref l \<noteq> NUL" by (cases l) (auto simp: dns_label_def deref_def)
  moreover have "label_of l = l" using label_of_label [OF l, of "[]"] by (simp add: deref_def)
  moreover from this have "after_label l = []" by (simp add: after_label_def deref_def)
  moreover have "dns_labels [] out' mx = Some out'" for out' by (subst dns_labels.simps) (simp add: deref_def)
  ultimately show ?case using 2 l by (subst dns_labels.simps) (simp add: dns_label_def)
next
  case (3 l l' ls)
  let ?r = "join_dots (l' # ls)"
  have l: "dns_label l" using 3 by simp
  then have d: "deref (l @ CHR ''.'' # ?r) \<noteq> NUL" by (cases l) (auto simp: dns_label_def deref_def)
  have lo: "label_of (l @ CHR ''.'' # ?r) = l" by (rule label_of_label [OF l]) (simp add: deref_def)
  then have al: "after_label (l @ CHR ''.'' # ?r) = ?r" by (simp add: after_label_def deref_def)
  have "dns_labels ?r (out @ of_nat (length l) # map of_char l) mx = Some ((out @ of_nat (length l) # map of_char l) @ wire_labels (l' # ls))"
    using 3 by (intro "3.IH") auto
  then show ?case using d l 3(3) by (subst dns_labels.simps) (simp add: lo al dns_label_def)
qed

lemma dns_decode_wire: "\<forall>l \<in> set ls. dns_label l \<Longrightarrow> dns_decode (wire_labels ls @ [0]) = Some ls"
proof (induction ls)
  case (Cons l ls)
  have l: "l \<noteq> []" "length l \<le> 63" using Cons.prems by (auto simp: dns_label_def)
  have u: "unat (of_nat (length l) :: u8) = length l" using l by (simp add: unsigned_of_nat take_bit_nat_eq_self)
  have "(of_nat (length l) :: u8) \<noteq> 0" using u l by (metis length_0_conv unsigned_0)
  moreover have "char_of (unat (of_char c :: u8)) = c" for c
  proof -
    have "unat (of_char c :: u8) = of_char c" by (cases c) (auto simp: of_char_Char horner_sum_simps)
    then show ?thesis by simp
  qed
  ultimately show ?case using Cons l u by (simp add: comp_def)
qed simp

text \<open>A host name of labels of 1 to 63 characters that fits is encoded in DNS wire format within the
  buffer and decodes to the same labels.\<close>

theorem dns_name_roundtrip:
  assumes "\<forall>l \<in> set ls. dns_label l" "length (wire_labels ls) < mx"
  shows "\<exists>out. dns_encode_name (join_dots ls) mx = Some out \<and> length out \<le> mx \<and> dns_decode out = Some ls"
  using dns_labels_wire [of ls "[]" mx] dns_decode_wire [of ls] assms by (simp add: dns_encode_name_def)

lemma dns_name_roundtrip_witness:
  "\<exists>out. dns_encode_name ''www.kernel.org'' 496 = Some out \<and> length out \<le> 496 \<and> dns_decode out = Some [''www'', ''kernel'', ''org'']"
  using dns_name_roundtrip [of "[''www'', ''kernel'', ''org'']" 496] by (simp add: dns_label_def)

section \<open>UDP from one host to another\<close>

lemma ntohs_htons [simp]: "ntohs (htons v) = v"
proof -
  have "htons (htons v) = v"
  proof (rule bit_word_eqI)
    fix n assume n: "n < LENGTH(16)"
    show "bit (htons (htons v)) n = bit v n"
      by (cases "n < 8") (use n in \<open>auto simp: htons_def bit_simps dest: bit_imp_le_length\<close>)
  qed
  then show ?thesis by (simp add: ntohs_def)
qed

text \<open>A 16-bit field of a frame that lies in memory.\<close>

lemma frame_field:
  assumes f: "bytes m data (length f) = f" and k: "k + 2 \<le> length f" and v: "take 2 (drop k f) = le16 v"
  shows "load16 m (data + of_nat k) = v"
proof -
  have b: "m (data + of_nat i) = f ! i" if "i < length f" for i using f that by (metis nth_bytes)
  have "f ! k = le16 v ! 0" "f ! (k + 1) = le16 v ! 1" using k v by (metis nth_take nth_drop add_0_right zero_less_numeral add_leD1 one_less_numeral_iff semiring_norm(76))+
  then have "m (data + of_nat k) = ucast v" "m (data + of_nat k + 1) = ucast (drop_bit 8 v)"
    using b [of k] b [of "k + 1"] k by (simp_all add: le16_def ac_simps)
  moreover have "ucast (ucast v :: u8) OR push_bit 8 (ucast (ucast (drop_bit 8 v) :: u8)) = v"
    by (rule bit_word_eqI) (auto simp: bit_simps)
  ultimately show ?thesis by (simp add: load16_def)
qed

definition next_hop :: "ip_addr \<Rightarrow> net_state \<Rightarrow> ip_addr" where
  "next_hop dst s = (if same_subnet dst s then dst else gateway_ip s)"

lemma udp_received:
  assumes f: "f = eth_header dm sm ETH_TYPE_IP @ ip_header (of_nat (28 + n)) i IP_PROTO_UDP c src dst @ udp_header sp dp (of_nat (8 + n)) @ pl"
    and l: "length dm = 6" "length sm = 6" "length src = 4" "length dst = 4" "n = length pl" "n \<le> 1400"
    and m: "bytes (mem r) data (length f) = f" and len: "length f \<le> unat len"
    and h: "udp_handler r" and sp: "sp \<noteq> DNS_PORT"
  shows "process_rx_packet data len r = Some (r\<lparr>udp_calls := udp_calls r @ [(src, sp, dp, data + 42, of_nat n)]\<rparr>)"
    and "bytes (mem r) (data + 42) n = pl"
proof -
  have lf: "length f = 42 + n" by (simp add: f l eth_header_def ip_header_def udp_header_def)
  have b: "mem r (data + of_nat i) = f ! i" if "i < length f" for i using m that by (metis nth_bytes)
  have sl: "take 2 (drop 12 f) = le16 (htons ETH_TYPE_IP)" "take 2 (drop 16 f) = le16 (htons (of_nat (28 + n)))"
    "take 2 (drop 34 f) = le16 (htons sp)" "take 2 (drop 36 f) = le16 (htons dp)" "take 2 (drop 38 f) = le16 (htons (of_nat (8 + n)))"
    by (simp_all add: f l eth_header_def ip_header_def udp_header_def)
  have ff: "ntohs (load16 (mem r) (data + 12)) = ETH_TYPE_IP" "ntohs (load16 (mem r) (data + 16)) = of_nat (28 + n)"
    "ntohs (load16 (mem r) (data + 34)) = sp" "ntohs (load16 (mem r) (data + 36)) = dp" "ntohs (load16 (mem r) (data + 38)) = of_nat (8 + n)"
    using frame_field [OF m _ sl(1)] frame_field [OF m _ sl(2)] frame_field [OF m _ sl(3)] frame_field [OF m _ sl(4)] frame_field [OF m _ sl(5)] lf
    by simp_all
  have by1: "mem r (data + 14) = 0x45" "mem r (data + 23) = IP_PROTO_UDP"
    using b [of 14] b [of 23] lf by (simp_all add: f l eth_header_def ip_header_def le16_def nth_append)
  have bsrc: "bytes (mem r) (data + 26) 4 = src"
  proof (rule nth_equalityI)
    fix i assume "i < length (bytes (mem r) (data + 26) 4)"
    then have i: "i < 4" by simp
    have "mem r (data + 26 + of_nat i) = f ! (26 + i)" using b [of "26 + i"] i lf by (simp add: ac_simps)
    also have "\<dots> = src ! i" using i by (simp add: f l eth_header_def ip_header_def le16_def nth_append)
    finally show "bytes (mem r) (data + 26) 4 ! i = src ! i" using i by simp
  qed (simp add: l)
  show "bytes (mem r) (data + 42) n = pl"
  proof (rule nth_equalityI)
    fix i assume "i < length (bytes (mem r) (data + 42) n)"
    then have i: "i < n" by simp
    have "mem r (data + 42 + of_nat i) = f ! (42 + i)" using b [of "42 + i"] i lf by (simp add: ac_simps)
    also have "\<dots> = pl ! i" using i by (simp add: f l(1-4) eth_header_def ip_header_def udp_header_def le16_def nth_append)
    finally show "bytes (mem r) (data + 42) n ! i = pl ! i" using i by simp
  qed (simp add: l)
  have u16: "unat (of_nat (k + n) :: u16) = k + n" if "k \<le> 28" for k
    using l(6) that by (simp add: unsigned_of_nat take_bit_nat_eq_self del: of_nat_add)
  have u32: "unat (ucast (of_nat (k + n) :: u16) :: u32) = k + n" if "k \<le> 28" for k
    using l(6) that u16 [OF that] by (simp add: unsigned_ucast_eq take_bit_nat_eq_self del: of_nat_add)
  let ?ul = "of_nat (8 + n) :: u16" and ?tl = "of_nat (28 + n) :: u16"
  have sub: "unat (ucast ?tl - 20 :: u32) = 8 + n" "unat (ucast ?ul - 8 :: u32) = n"
    using u32 [of 28] u32 [of 8] by (simp_all add: unat_sub word_le_nat_alt del: of_nat_add)
  then have pl: "ucast ?ul - 8 = (of_nat n :: u32)" by (metis ptr_def ptr_unat)
  have g: "\<not> (ucast ?tl - 20 :: u32) < 8" "\<not> ?ul < 8" "\<not> (ucast ?ul :: u32) > ucast ?tl - 20"
    using sub u16 [of 8] u32 [of 8] by (simp_all add: word_less_nat_alt del: of_nat_add)
  have udp: "process_udp src (data + 34) (ucast ?tl - 20) r = r\<lparr>udp_calls := udp_calls r @ [(src, sp, dp, data + 42, of_nat n)]\<rparr>"
    using g h sp unfolding process_udp_def Let_def by (simp add: ff add.assoc pl del: of_nat_add)
  have hl: "ucast (mem r (data + 14) AND 0x0F) * 4 = (20 :: u32)" by (simp add: by1)
  have "\<not> len < 14" "\<not> len < 34" using len lf by (simp_all add: word_less_nat_alt)
  then show "process_rx_packet data len r = Some (r\<lparr>udp_calls := udp_calls r @ [(src, sp, dp, data + 42, of_nat n)]\<rparr>)"
    unfolding process_rx_packet_def process_ip_def Let_def using udp
    by (simp add: ff by1 hl bsrc add.assoc ETH_TYPE_ARP_def ETH_TYPE_IP_def IP_PROTO_ICMP_def IP_PROTO_UDP_def not_less del: of_nat_add)
qed

text \<open>C21. A datagram sent with \<open>net_send_udp\<close> to a host whose next hop is in the ARP cache is transmitted as one
  frame, and a receiver that gets this frame hands exactly the payload to its UDP handler, with the
  sender's address and both ports.\<close>

theorem udp_roundtrip:
  assumes ok: "nic_ok s" and mac: "net_arp_lookup (next_hop dst s) s = Some mac" "length mac = 6" "length dst = 4"
    and pl: "length payload \<le> 1400" and sp: "sport \<noteq> DNS_PORT"
  shows "\<exists>frame s'. net_send_udp dst sport dport payload evs s = Some (True, evs, s') \<and> sent s' = sent s @ [frame] \<and> nic_ok s'
     \<and> length frame = max 60 (42 + length payload)
     \<and> (\<forall>r data. udp_handler r \<and> bytes (mem r) data (length frame) = frame \<longrightarrow>
          process_rx_packet data (of_nat (length frame)) r
            = Some (r\<lparr>udp_calls := udp_calls r @ [(our_ip s, sport, dport, data + 42, of_nat (length payload))]\<rparr>)
          \<and> bytes (mem r) (data + 42) (length payload) = payload)"
proof -
  let ?f = "udp_packet mac dst sport dport payload s" and ?n = "length payload"
  let ?s = "s\<lparr>ip_id_counter := ip_id_counter s + 1\<rparr>"
  have ok': "nic_ok ?s" using ok by (simp add: nic_ok_def)
  have l: "length (our_mac s) = 6" "length (our_ip s) = 4" "nic_available s" using ok by (simp_all add: nic_ok_def)
  obtain c where f: "?f = eth_header mac (our_mac s) ETH_TYPE_IP @ ip_header (of_nat (28 + ?n)) (ip_id_counter s) IP_PROTO_UDP c (our_ip s) dst
      @ udp_header sport dport (of_nat (8 + ?n)) @ payload"
    by (simp add: udp_packet_def Let_def)
  have lf: "length ?f = 42 + ?n" by (simp add: f l mac eth_header_def ip_header_def udp_header_def)
  have "length ?f \<le> TX_BUF_SIZE" using lf pl by (simp add: TX_BUF_SIZE_def)
  from net_send_raw_sent [OF ok' this] obtain tb where
    tb: "net_send_raw ?f ?s = ?s\<lparr>tx_buffers := tb, sent := sent ?s @ [padded ?f], current_tx := (current_tx ?s + 1) mod 4\<rparr>" "nic_ok (net_send_raw ?f ?s)" by blast
  have snd: "net_send_udp dst sport dport payload evs s = Some (True, evs, net_send_raw ?f ?s)"
    using l pl mac(1) by (simp add: net_send_udp_def resolve_mac_def next_hop_def Let_def split: if_splits)
  have "process_rx_packet data (of_nat (length (padded ?f))) r
            = Some (r\<lparr>udp_calls := udp_calls r @ [(our_ip s, sport, dport, data + 42, of_nat ?n)]\<rparr>)
          \<and> bytes (mem r) (data + 42) ?n = payload"
    if h: "udp_handler r" and b: "bytes (mem r) data (length (padded ?f)) = padded ?f" for r data
  proof -
    have "bytes (mem r) data (length ?f) = take (length ?f) (bytes (mem r) data (length (padded ?f)))"
      by (rule nth_equalityI) (simp_all add: padded_def)
    then have m: "bytes (mem r) data (length ?f) = ?f" using b by (simp add: padded_def)
    have "length (padded ?f) < 2 ^ 32" using lf pl by (simp add: padded_def)
    then have "unat (of_nat (length (padded ?f)) :: u32) = length (padded ?f)" by (rule unat_of_nat32)
    then have le: "length ?f \<le> unat (of_nat (length (padded ?f)) :: u32)" by (simp add: padded_def)
    from udp_received [OF f mac(2) l(1,2) mac(3) refl pl m le h sp] show ?thesis by simp
  qed
  moreover have "length (padded ?f) = max 60 (42 + ?n)" using lf by (simp add: padded_def)
  ultimately show ?thesis using snd tb by (intro exI [of _ "padded ?f"] exI [of _ "net_send_raw ?f ?s"]) auto
qed

lemma udp_roundtrip_witness:
  "\<exists>frame s'. net_send_udp [10, 0, 2, 2] 4000 7 [104, 105] [] ((net_host [])\<lparr>arp_cache := [\<lparr>ar_ip = [10, 0, 2, 2], ar_mac = [2, 2, 2, 2, 2, 2], ar_valid = True\<rparr>]\<rparr>)
      = Some (True, [], s') \<and> sent s' = [frame]
     \<and> process_rx_packet 0 (of_nat (length frame)) (net_host frame)
       = Some ((net_host frame)\<lparr>udp_calls := [([10, 0, 2, 15], 4000, 7, 42, 2)]\<rparr>)"
proof -
  let ?s = "(net_host [])\<lparr>arp_cache := [\<lparr>ar_ip = [10, 0, 2, 2], ar_mac = [2, 2, 2, 2, 2, 2], ar_valid = True\<rparr>]\<rparr>"
  have ok: "nic_ok ?s" using net_host_simps(1) [of "[]"] by (simp add: nic_ok_def)
  have mac: "net_arp_lookup (next_hop [10, 0, 2, 2] ?s) ?s = Some [2, 2, 2, 2, 2, 2]"
    by (simp add: net_arp_lookup_def next_hop_def same_subnet_def net_host_def arp_get_def arp_match_def ip_eq_def)
  have r: "bytes (mem (net_host f)) 0 (length f) = f" if "length f < 2 ^ 32" for f
    using that by (intro nth_equalityI) (simp_all add: packet_mem_def unat_of_nat32)
  obtain frame s' where fr: "net_send_udp [10, 0, 2, 2] 4000 7 [104, 105] [] ?s = Some (True, [], s')" "sent s' = [frame]"
    and lf: "length frame = 60" and rx: "\<And>r data. udp_handler r \<Longrightarrow> bytes (mem r) data (length frame) = frame \<Longrightarrow>
          process_rx_packet data (of_nat (length frame)) r = Some (r\<lparr>udp_calls := udp_calls r @ [([10, 0, 2, 15], 4000, 7, data + 42, 2)]\<rparr>)"
    using udp_roundtrip [OF ok mac, of "[104, 105]" 4000 7 "[]"] by (auto simp: DNS_PORT_def max_def)
  have "length frame < 2 ^ 32" by (simp add: lf)
  from rx [OF net_host_simps(5) r [OF this]] fr show ?thesis by auto
qed

end
