(* ===== verification/Fat16.thy ===== *)
theory Fat16
  imports Cmem Cstring
begin

text \<open>
  The FAT16 file system, \<^verbatim>\<open>src/fat16.c\<close>, on disks that are arrays of 512-byte sectors.  A disk is
  what the ATA driver promises: reading or writing a sector succeeds when the drive is present, the
  sector is in range and not bad.  Sector buffers and directory entries are byte lists.  File names
  are C strings, the bytes on disk are \<open>u8\<close>.  \<open>None\<close> is a loop that does not end (a cyclic cluster
  chain), a division by zero, the overflow of a path buffer or the use of a buffer a failed read did not fill.
\<close>

section \<open>Definitions\<close>

definition FAT16_MAX_NAME :: nat where "FAT16_MAX_NAME = 128"
definition FAT16_MAX_PATH :: nat where "FAT16_MAX_PATH = 256"
definition FAT_ATTR_VOLUME :: u8 where "FAT_ATTR_VOLUME = 0x08"
definition FAT_ATTR_DIR :: u8 where "FAT_ATTR_DIR = 0x10"
definition FAT_ATTR_ARCHIVE :: u8 where "FAT_ATTR_ARCHIVE = 0x20"
definition FAT_ATTR_LFN :: u8 where "FAT_ATTR_LFN = 0x0F"

record disk =
  dk_present :: bool
  dk_sectors :: u32
  dk_bad :: "u32 \<Rightarrow> bool"
  dk_data :: "u32 \<Rightarrow> u8 list"

record fat_state =
  fat16_drv :: nat
  drives :: "disk list"
  mounted :: bool
  bytes_per_sector :: u16
  sectors_per_cluster :: u8
  reserved_sectors :: u16
  num_fats :: u8
  root_entry_count :: u16
  total_sectors :: u32
  fat_size_sectors :: u16
  fat_start_lba :: u32
  root_dir_lba :: u32
  root_dir_sectors :: u32
  data_start_lba :: u32
  cluster_size :: u32
  total_clusters :: u32
  volume_label :: string

subsection \<open>Sectors\<close>

definition disk_ok :: "disk \<Rightarrow> u32 \<Rightarrow> bool" where
  "disk_ok d lba \<longleftrightarrow> dk_present d \<and> lba < dk_sectors d \<and> \<not> dk_bad d lba"

definition fat_disk :: "fat_state \<Rightarrow> disk" where
  "fat_disk s = drives s ! fat16_drv s"

definition ata_read_sector :: "u32 \<Rightarrow> fat_state \<Rightarrow> u8 list option" where
  "ata_read_sector lba s =
     (if fat16_drv s < length (drives s) \<and> disk_ok (fat_disk s) lba then Some (dk_data (fat_disk s) lba) else None)"

definition ata_write_sector :: "u32 \<Rightarrow> u8 list \<Rightarrow> fat_state \<Rightarrow> bool \<times> fat_state" where
  "ata_write_sector lba buf s =
     (if fat16_drv s < length (drives s) \<and> disk_ok (fat_disk s) lba
      then (True, s\<lparr>drives := (drives s)[fat16_drv s := (fat_disk s)\<lparr>dk_data := (dk_data (fat_disk s))(lba := buf)\<rparr>]\<rparr>)
      else (False, s))"

definition ata_available :: "fat_state \<Rightarrow> bool" where
  "ata_available s \<longleftrightarrow> fat16_drv s < length (drives s) \<and> dk_present (fat_disk s)"

definition get16 :: "u8 list \<Rightarrow> nat \<Rightarrow> u16" where
  "get16 b i = ucast (b ! i) OR push_bit 8 (ucast (b ! (i + 1)))"

definition get32 :: "u8 list \<Rightarrow> nat \<Rightarrow> u32" where
  "get32 b i = ucast (get16 b i) OR push_bit 16 (ucast (get16 b (i + 2)))"

definition put16 :: "nat \<Rightarrow> u16 \<Rightarrow> u8 list \<Rightarrow> u8 list" where
  "put16 i v b = b[i := ucast v, i + 1 := ucast (drop_bit 8 v)]"

definition put32 :: "nat \<Rightarrow> u32 \<Rightarrow> u8 list \<Rightarrow> u8 list" where
  "put32 i v b = put16 (i + 2) (ucast (drop_bit 16 v)) (put16 i (ucast v) b)"

definition put_at :: "nat \<Rightarrow> u8 list \<Rightarrow> u8 list \<Rightarrow> u8 list" where
  "put_at i xs b = take i b @ xs @ drop (i + length xs) b"

subsection \<open>The file allocation table\<close>

definition fat_sector :: "u16 \<Rightarrow> fat_state \<Rightarrow> u32" where
  "fat_sector cluster s = fat_start_lba s + (ucast cluster * 2) div 512"

definition fat_index :: "u16 \<Rightarrow> nat" where
  "fat_index cluster = unat ((ucast cluster * 2 :: u32) mod 512)"

definition fat_read_entry :: "u16 \<Rightarrow> fat_state \<Rightarrow> u16" where
  "fat_read_entry cluster s =
     (case ata_read_sector (fat_sector cluster s) s of None \<Rightarrow> 0xFFFF | Some b \<Rightarrow> get16 b (fat_index cluster))"

definition fat_write_entry :: "u16 \<Rightarrow> u16 \<Rightarrow> fat_state \<Rightarrow> fat_state" where
  "fat_write_entry cluster v s =
     (let sector = fat_sector cluster s in
      case ata_read_sector sector s of
        None \<Rightarrow> s
      | Some b \<Rightarrow>
          let b = put16 (fat_index cluster) v b;
              s = snd (ata_write_sector sector b s)
          in if num_fats s > 1 then snd (ata_write_sector (sector + ucast (fat_size_sectors s)) b s) else s)"

partial_function (option) fat_alloc_loop :: "u16 \<Rightarrow> fat_state \<Rightarrow> (u16 \<times> fat_state) option" where
  "fat_alloc_loop c s =
     (if ucast c < total_clusters s + 2 then
        if fat_read_entry c s = 0 then Some (c, fat_write_entry c 0xFFFF s) else fat_alloc_loop (c + 1) s
      else Some (0, s))"

definition fat_alloc_cluster :: "fat_state \<Rightarrow> (u16 \<times> fat_state) option" where
  "fat_alloc_cluster s = fat_alloc_loop 2 s"

partial_function (option) fat_free_chain :: "u16 \<Rightarrow> fat_state \<Rightarrow> fat_state option" where
  "fat_free_chain c s =
     (if 2 \<le> c \<and> c < 0xFFF8 then fat_free_chain (fat_read_entry c s) (fat_write_entry c 0 s) else Some s)"

definition cluster_to_lba :: "u16 \<Rightarrow> fat_state \<Rightarrow> u32" where
  "cluster_to_lba cluster s = data_start_lba s + (ucast cluster - 2) * ucast (sectors_per_cluster s)"

subsection \<open>Names\<close>

definition chr :: "u8 \<Rightarrow> char" where "chr b = char_of (unat b)"
definition byt :: "char \<Rightarrow> u8" where "byt c = of_char c"

definition last_dot :: "string \<Rightarrow> nat option" where
  "last_dot f = (let n = length (takeWhile (\<lambda>c. c \<noteq> CHR ''.'') (rev (c_str f))) in
     if n < length (c_str f) then Some (length (c_str f) - 1 - n) else None)"

definition decode_83_name :: "u8 list \<Rightarrow> string" where
  "decode_83_name e =
     (let low = (\<lambda>b. if 65 \<le> b \<and> b \<le> 90 then chr (b + 32) else chr b);
          nm = takeWhile (\<lambda>b. b \<noteq> 32) (take 8 e);
          ext = takeWhile (\<lambda>b. b \<noteq> 32) (take 3 (drop 8 e))
      in map low nm @ (if e ! 8 \<noteq> 32 then CHR ''.'' # map low ext else []))"

definition pad_name :: "nat \<Rightarrow> u8 list \<Rightarrow> u8 list" where
  "pad_name n xs = take n xs @ replicate (n - length xs) 32"

definition encode_83_name :: "string \<Rightarrow> u8 list \<times> u8 list" where
  "encode_83_name filename =
     (let f = c_str filename in
      case last_dot f of
        None \<Rightarrow> (pad_name 8 (map (byt \<circ> toupper) f), pad_name 3 [])
      | Some d \<Rightarrow> (pad_name 8 (map (byt \<circ> toupper) (take d f)), pad_name 3 (map (byt \<circ> toupper) (drop (d + 1) f))))"

definition lfn_checksum :: "u8 list \<Rightarrow> u8" where
  "lfn_checksum name83 = foldl (\<lambda>acc b. (if acc AND 1 \<noteq> 0 then 0x80 else 0) + drop_bit 1 acc + b) 0 (take 11 name83)"

definition lfn_char :: "char \<Rightarrow> bool" where
  "lfn_char c \<longleftrightarrow> (97 \<le> schar c \<and> schar c \<le> 122) \<or> c \<in> set '' +,;=[]''"

definition needs_lfn :: "string \<Rightarrow> bool" where
  "needs_lfn name =
     (let f = c_str name in
      if \<exists>c \<in> set f. lfn_char c then True
      else if length (filter (\<lambda>c. c = CHR ''.'') f) > 1 then True
      else
        let baselen = (case last_dot f of None \<Rightarrow> length f | Some d \<Rightarrow> d);
            extlen = (case last_dot f of None \<Rightarrow> 0 | Some d \<Rightarrow> length f - d - 1)
        in baselen > 8 \<or> extlen > 3 \<or> baselen = 0)"

definition lfn_extract_chars :: "u8 list \<Rightarrow> u8 list" where
  "lfn_extract_chars e = map (\<lambda>i. e ! i) ([1, 3, 5, 7, 9] @ [14, 16, 18, 20, 22, 24] @ [28, 30])"

definition generate_short_name :: "string \<Rightarrow> nat \<Rightarrow> u8 list \<times> u8 list" where
  "generate_short_name longname sq =
     (let f = c_str longname;
          ext = (case last_dot f of None \<Rightarrow> [] | Some d \<Rightarrow> map (byt \<circ> toupper) (drop (d + 1) f));
          bas = (case last_dot f of None \<Rightarrow> f | Some d \<Rightarrow> take d f);
          nm = map (byt \<circ> toupper) (take 6 (filter (\<lambda>c. c \<noteq> CHR '' '' \<and> c \<noteq> CHR ''.'') bas));
          nm = (if nm = [] then [95] else nm);
          nm = nm @ [126];
          nm = (if sq < 10 then nm @ [48 + of_nat sq]
                else nm @ [48 + of_nat (sq div 10)] @ (if length nm + 1 < 8 then [48 + of_nat (sq mod 10)] else []))
      in (pad_name 8 nm, pad_name 3 ext))"

text \<open>The UCS-2 character at position \<open>ci\<close> of the long name, as its two bytes.\<close>

definition lfn_unit :: "string \<Rightarrow> nat \<Rightarrow> u8 list" where
  "lfn_unit f ci = (if ci < length f then [byt (f ! ci), 0] else if ci = length f then [0, 0] else [0xFF, 0xFF])"

definition lfn_entry :: "string \<Rightarrow> u8 \<Rightarrow> nat \<Rightarrow> nat \<Rightarrow> u8 list" where
  "lfn_entry f checksum num n =
     (let seq_num = num - n;
          base = (seq_num - 1) * 13
      in [of_nat seq_num OR (if n = 0 then 0x40 else 0)] @ concat (map (\<lambda>i. lfn_unit f (base + i)) [0..<5])
         @ [FAT_ATTR_LFN, 0, checksum] @ concat (map (\<lambda>i. lfn_unit f (base + 5 + i)) [0..<6])
         @ [0, 0] @ concat (map (\<lambda>i. lfn_unit f (base + 11 + i)) [0..<2]))"

definition build_lfn_entries :: "string \<Rightarrow> u8 \<Rightarrow> nat \<Rightarrow> u8 list list" where
  "build_lfn_entries longname checksum max_entries =
     (let f = c_str longname;
          num = (length f + 12) div 13
      in if num > max_entries \<or> num > 20 then [] else map (lfn_entry f checksum num) [0..<num])"

subsection \<open>Paths\<close>

text \<open>The directory part and the last component of a path, in buffers of \<open>FAT16_MAX_PATH\<close> and
  \<open>FAT16_MAX_NAME\<close> bytes.\<close>

definition fat_last_slash :: "string \<Rightarrow> nat option" where
  "fat_last_slash p = (let n = length (takeWhile (\<lambda>c. c \<noteq> CHR ''/'') (rev p)) in if n < length p then Some (length p - 1 - n) else None)"

definition fits :: "nat \<Rightarrow> string \<Rightarrow> string option" where
  "fits n x = (if length x < n then Some x else None)"

definition split_path :: "string \<Rightarrow> (string \<times> string) option" where
  "split_path path =
     (let p = c_str path in
      case fat_last_slash p of
        None \<Rightarrow> do { f \<leftarrow> fits FAT16_MAX_NAME p; Some (''/'', f) }
      | Some 0 \<Rightarrow> do { f \<leftarrow> fits FAT16_MAX_NAME (drop 1 p); Some (''/'', f) }
      | Some i \<Rightarrow> do { d \<leftarrow> fits FAT16_MAX_PATH (take i p); f \<leftarrow> fits FAT16_MAX_NAME (drop (i + 1) p); Some (d, f) })"

subsection \<open>Scanning directories\<close>

text \<open>The long name collected so far and whether a collection is under way.\<close>

record lfn_scan =
  lfn_buf :: "u8 list"
  collecting :: bool

definition lfn_clear :: lfn_scan where
  "lfn_clear = \<lparr>lfn_buf = replicate FAT16_MAX_NAME 0, collecting = False\<rparr>"

fun lfn_store :: "u8 list \<Rightarrow> nat \<Rightarrow> u8 list \<Rightarrow> u8 list" where
  "lfn_store [] i b = b"
| "lfn_store (c # cs) i b =
     (if i < FAT16_MAX_NAME - 1 then if c = 0 \<or> c = 0xFF then b else lfn_store cs (i + 1) (b[i := c]) else b)"

definition lfn_collect :: "u8 list \<Rightarrow> lfn_scan \<Rightarrow> lfn_scan" where
  "lfn_collect e st =
     (let sq = unat (e ! 0 AND 0x1F);
          st = (if e ! 0 AND 0x40 \<noteq> 0 then \<lparr>lfn_buf = replicate FAT16_MAX_NAME 0, collecting = True\<rparr> else st)
      in if collecting st \<and> 1 \<le> sq \<and> sq \<le> 20 then st\<lparr>lfn_buf := lfn_store (lfn_extract_chars e) ((sq - 1) * 13) (lfn_buf st)\<rparr>
         else st)"

text \<open>The collected name: the first padding byte ends it.\<close>

definition lfn_name :: "u8 list \<Rightarrow> string" where
  "lfn_name b = (let b = (case List.find (\<lambda>i. b ! i = 0xFF) [0..<length b] of Some i \<Rightarrow> b[i := 0] | None \<Rightarrow> b)
     in c_str (map chr b))"

definition dir_entry :: "u8 list \<Rightarrow> nat \<Rightarrow> u8 list" where
  "dir_entry b i = take 32 (drop (i * 32) b)"

datatype scan_result = Stop | Next

text \<open>Reading entries: each is the 32 bytes with its long name, empty when it has none.  \<open>mx\<close> bounds the number
  of entries.\<close>

type_synonym ext_entry = "u8 list \<times> string"

fun read_entries :: "u8 list list \<Rightarrow> nat \<Rightarrow> ext_entry list \<Rightarrow> lfn_scan \<Rightarrow> scan_result \<times> ext_entry list \<times> lfn_scan" where
  "read_entries [] mx acc st = (Next, acc, st)"
| "read_entries (e # es) mx acc st =
     (if \<not> length acc < mx then (Next, acc, st)
      else if e ! 0 = 0 then (Stop, acc, st)
      else if e ! 0 = 0xE5 then read_entries es mx acc (st\<lparr>collecting := False\<rparr>)
      else if e ! 11 = FAT_ATTR_LFN then read_entries es mx acc (lfn_collect e st)
      else if e ! 11 AND FAT_ATTR_VOLUME \<noteq> 0 then read_entries es mx acc (st\<lparr>collecting := False\<rparr>)
      else read_entries es mx (acc @ [(e, if collecting st \<and> lfn_buf st ! 0 \<noteq> 0 then take (FAT16_MAX_NAME - 1) (lfn_name (lfn_buf st)) else [])]) lfn_clear)"

definition sector_entries :: "u8 list \<Rightarrow> u8 list list" where
  "sector_entries b = map (dir_entry b) [0..<16]"

fun read_sectors :: "u32 list \<Rightarrow> nat \<Rightarrow> ext_entry list \<Rightarrow> lfn_scan \<Rightarrow> fat_state \<Rightarrow> scan_result \<times> ext_entry list \<times> lfn_scan" where
  "read_sectors [] mx acc st s = (Next, acc, st)"
| "read_sectors (lba # lbas) mx acc st s =
     (if \<not> length acc < mx then (Next, acc, st)
      else case ata_read_sector lba s of
             None \<Rightarrow> (Stop, acc, st)
           | Some b \<Rightarrow>
               (case read_entries (sector_entries b) mx acc st of
                  (Stop, acc, st) \<Rightarrow> (Stop, acc, st)
                | (Next, acc, st) \<Rightarrow> read_sectors lbas mx acc st s))"

definition root_lbas :: "fat_state \<Rightarrow> u32 list" where
  "root_lbas s = map (\<lambda>i. root_dir_lba s + of_nat i) [0..<unat (root_dir_sectors s)]"

definition cluster_lbas :: "u16 \<Rightarrow> fat_state \<Rightarrow> u32 list" where
  "cluster_lbas c s = map (\<lambda>i. cluster_to_lba c s + of_nat i) [0..<unat (sectors_per_cluster s)]"

definition read_root_dir :: "nat \<Rightarrow> fat_state \<Rightarrow> ext_entry list" where
  "read_root_dir mx s = fst (snd (read_sectors (root_lbas s) mx [] lfn_clear s))"

definition chain_end :: "u16 \<Rightarrow> bool" where
  "chain_end c \<longleftrightarrow> \<not> (2 \<le> c \<and> c < 0xFFF8)"

partial_function (option) read_subdir_loop :: "u16 \<Rightarrow> nat \<Rightarrow> ext_entry list \<Rightarrow> lfn_scan \<Rightarrow> fat_state \<Rightarrow> ext_entry list option" where
  "read_subdir_loop c mx acc st s =
     (if \<not> chain_end c \<and> length acc < mx then
        (case read_sectors (cluster_lbas c s) mx acc st s of
           (Stop, acc, st) \<Rightarrow> Some acc
         | (Next, acc, st) \<Rightarrow> read_subdir_loop (fat_read_entry c s) mx acc st s)
      else Some acc)"

definition read_subdir :: "u16 \<Rightarrow> nat \<Rightarrow> fat_state \<Rightarrow> ext_entry list option" where
  "read_subdir c mx s = read_subdir_loop c mx [] lfn_clear s"

definition ext_name :: "ext_entry \<Rightarrow> string" where
  "ext_name e = (if snd e \<noteq> [] then snd e else decode_83_name (fst e))"

text \<open>Comparison without regard to case, as far as both strings go.\<close>

fun casecmp :: "string \<Rightarrow> string \<Rightarrow> bool" where
  "casecmp (a # as) (b # bs) = (if tolower a \<noteq> tolower b then False else casecmp as bs)"
| "casecmp [] [] = True"
| "casecmp _ _ = False"

definition strcasecmp83 :: "u8 list \<Rightarrow> string \<Rightarrow> bool" where
  "strcasecmp83 e filename =
     (let nm = takeWhile (\<lambda>b. b \<noteq> 32) (take 8 e);
          ext = takeWhile (\<lambda>b. b \<noteq> 32) (take 3 (drop 8 e));
          decoded = map (tolower \<circ> chr) nm @ (if e ! 8 \<noteq> 32 then CHR ''.'' # map (tolower \<circ> chr) ext else [])
      in casecmp (c_str decoded) (c_str filename))"

definition entry_cluster :: "u8 list \<Rightarrow> u16" where "entry_cluster e = get16 e 26"
definition entry_size :: "u8 list \<Rightarrow> u32" where "entry_size e = get32 e 28"
definition entry_attr :: "u8 list \<Rightarrow> u8" where "entry_attr e = e ! 11"

definition read_dir :: "u16 \<Rightarrow> fat_state \<Rightarrow> ext_entry list option" where
  "read_dir c s = (if c = 0 then Some (read_root_dir 128 s) else read_subdir c 128 s)"

fun find_component :: "ext_entry list \<Rightarrow> string \<Rightarrow> u16 option" where
  "find_component [] cn = None"
| "find_component (e # es) cn =
     (if strcasecmp83 (fst e) cn \<or> strcmp (ext_name e) cn = 0 then
        if entry_attr (fst e) AND FAT_ATTR_DIR = 0 then None else Some (entry_cluster (fst e))
      else find_component es cn)"

definition component :: "string \<Rightarrow> string" where
  "component p = take (FAT16_MAX_NAME - 1) (takeWhile (\<lambda>c. c \<noteq> CHR ''/'') p)"

definition after_component :: "string \<Rightarrow> string" where
  "after_component p = (let q = drop (length (component p)) p in if deref q = CHR ''/'' then tl q else q)"

lemma after_component_shorter: "p \<noteq> [] \<Longrightarrow> length (after_component p) < length p"
proof -
  assume p: "p \<noteq> []"
  show ?thesis
  proof (cases "component p = []")
    case True
    then have "hd p = CHR ''/''" using p by (cases p) (auto simp: component_def FAT16_MAX_NAME_def split: if_splits)
    then show ?thesis using True p by (cases p) (auto simp: after_component_def)
  next
    case False
    then have "length (drop (length (component p)) p) < length p" using p by simp
    then show ?thesis by (auto simp: after_component_def Let_def)
  qed
qed

text \<open>The rest of the path, the current directory; the result is the cluster, 0 for the root and \<open>0xFFFF\<close> when
  a component is missing.\<close>

function navigate_loop :: "string \<Rightarrow> u16 \<Rightarrow> fat_state \<Rightarrow> u16 option" where
  "navigate_loop p c s =
     (if p = [] then Some c
      else if component p = [] then navigate_loop (after_component p) c s
      else do { es \<leftarrow> read_dir c s;
                case find_component es (component p) of
                  None \<Rightarrow> Some 0xFFFF
                | Some c' \<Rightarrow> navigate_loop (after_component p) c' s })"
  by pat_completeness auto
termination by (relation "measure (\<lambda>(p, c, s). length p)") (auto simp: after_component_shorter)

declare navigate_loop.simps [simp del]

definition navigate_to_dir :: "string \<Rightarrow> fat_state \<Rightarrow> u16 option" where
  "navigate_to_dir path s =
     (let p = c_str path in
      if p = [] \<or> p = ''/'' then Some 0 else navigate_loop (if hd p = CHR ''/'' then tl p else p) 0 s)"

subsection \<open>Finding an entry\<close>

text \<open>\<open>Inl None\<close>: the end of the directory; \<open>Inl (Some \<dots>)\<close>: the entry with its place; \<open>Inr\<close>: not in this sector.\<close>

fun scan_entries :: "(nat \<times> u8 list) list \<Rightarrow> string \<Rightarrow> lfn_scan \<Rightarrow> (u8 list \<times> nat) option + lfn_scan" where
  "scan_entries [] name st = Inr st"
| "scan_entries ((i, e) # es) name st =
     (if e ! 0 = 0 then Inl None
      else if e ! 0 = 0xE5 then scan_entries es name (st\<lparr>collecting := False\<rparr>)
      else if e ! 11 = FAT_ATTR_LFN then scan_entries es name (lfn_collect e st)
      else if e ! 11 AND FAT_ATTR_VOLUME \<noteq> 0 then scan_entries es name (st\<lparr>collecting := False\<rparr>)
      else if (collecting st \<and> lfn_buf st ! 0 \<noteq> 0 \<and> casecmp (lfn_name (lfn_buf st)) (c_str name)) \<or> strcasecmp83 e name
      then Inl (Some (e, i * 32))
      else scan_entries es name lfn_clear)"

fun scan_sectors :: "u32 list \<Rightarrow> string \<Rightarrow> lfn_scan \<Rightarrow> fat_state \<Rightarrow> (u8 list \<times> u32 \<times> nat) option + lfn_scan" where
  "scan_sectors [] name st s = Inr st"
| "scan_sectors (lba # lbas) name st s =
     (case ata_read_sector lba s of
        None \<Rightarrow> Inl None
      | Some b \<Rightarrow>
          (case scan_entries (zip [0..<16] (sector_entries b)) name st of
             Inl None \<Rightarrow> Inl None
           | Inl (Some (e, ofs)) \<Rightarrow> Inl (Some (e, lba, ofs))
           | Inr st \<Rightarrow> scan_sectors lbas name st s))"

partial_function (option) find_chain :: "u16 \<Rightarrow> string \<Rightarrow> lfn_scan \<Rightarrow> fat_state \<Rightarrow> (u8 list \<times> u32 \<times> nat) option option" where
  "find_chain c name st s =
     (if chain_end c then Some None
      else case scan_sectors (cluster_lbas c s) name st s of
             Inl r \<Rightarrow> Some r
           | Inr st \<Rightarrow> find_chain (fat_read_entry c s) name st s)"

definition find_entry_in_dir :: "u16 \<Rightarrow> string \<Rightarrow> fat_state \<Rightarrow> (u8 list \<times> u32 \<times> nat) option option" where
  "find_entry_in_dir c name s =
     (if c = 0 then (case scan_sectors (root_lbas s) name lfn_clear s of Inl r \<Rightarrow> Some r | Inr _ \<Rightarrow> Some None)
      else find_chain c name lfn_clear s)"

subsection \<open>Free slots and new entries\<close>

text \<open>How many free entries in a row have been seen and where they start; \<open>Inl\<close> when they are enough.\<close>

type_synonym slot_run = "nat \<times> u32 \<times> nat"

fun free_run :: "(nat \<times> u8 list) list \<Rightarrow> u32 \<Rightarrow> nat \<Rightarrow> slot_run \<Rightarrow> (u32 \<times> nat) + slot_run" where
  "free_run [] lba cnt run = Inr run"
| "free_run ((i, e) # es) lba cnt (n, l, off) =
     (if e ! 0 = 0 \<or> e ! 0 = 0xE5 then
        let (l, off) = (if n = 0 then (lba, i * 32) else (l, off)) in
        if n + 1 \<ge> cnt then Inl (l, off) else free_run es lba cnt (n + 1, l, off)
      else free_run es lba cnt (0, l, off))"

text \<open>\<open>Inl None\<close> is a failed read.\<close>

fun free_run_sectors :: "u32 list \<Rightarrow> nat \<Rightarrow> slot_run \<Rightarrow> fat_state \<Rightarrow> (u32 \<times> nat) option + slot_run" where
  "free_run_sectors [] cnt run s = Inr run"
| "free_run_sectors (lba # lbas) cnt run s =
     (case ata_read_sector lba s of
        None \<Rightarrow> Inl None
      | Some b \<Rightarrow>
          (case free_run (zip [0..<16] (sector_entries b)) lba cnt run of
             Inl r \<Rightarrow> Inl (Some r)
           | Inr run \<Rightarrow> free_run_sectors lbas cnt run s))"

partial_function (option) free_run_chain :: "u16 \<Rightarrow> nat \<Rightarrow> slot_run \<Rightarrow> fat_state \<Rightarrow> (u32 \<times> nat) option option" where
  "free_run_chain c cnt run s =
     (if chain_end c then Some None
      else case free_run_sectors (cluster_lbas c s) cnt run s of
             Inl r \<Rightarrow> Some r
           | Inr run \<Rightarrow> free_run_chain (fat_read_entry c s) cnt run s)"

definition find_free_dir_slots :: "u16 \<Rightarrow> nat \<Rightarrow> fat_state \<Rightarrow> (u32 \<times> nat) option option" where
  "find_free_dir_slots c cnt s =
     (if c = 0 then (case free_run_sectors (root_lbas s) cnt (0, 0, 0) s of Inl r \<Rightarrow> Some r | Inr _ \<Rightarrow> Some None)
      else free_run_chain c cnt (0, 0, 0) s)"

text \<open>The long-name entries; the result is the place and the buffer for the short-name entry, \<open>None\<close> when a read
  fails.\<close>

fun write_lfn_entries :: "u8 list list \<Rightarrow> u32 \<Rightarrow> nat \<Rightarrow> u8 list \<Rightarrow> fat_state \<Rightarrow> (u32 \<times> nat \<times> u8 list) option \<times> fat_state" where
  "write_lfn_entries [] lba off b s = (Some (lba, off, b), s)"
| "write_lfn_entries (e # es) lba off b s =
     (let b = put_at off e b;
          off = off + 32
      in if off \<ge> 512 then
           let s = snd (ata_write_sector lba b s);
               lba = lba + 1
           in (case ata_read_sector lba s of None \<Rightarrow> (None, s) | Some b \<Rightarrow> write_lfn_entries es lba 0 b s)
         else write_lfn_entries es lba off b s)"

definition write_dir_entries :: "u32 \<Rightarrow> nat \<Rightarrow> u8 list list \<Rightarrow> u8 list \<Rightarrow> fat_state \<Rightarrow> bool \<times> fat_state" where
  "write_dir_entries lba off lfn_ents sfn_entry s =
     (case ata_read_sector lba s of
        None \<Rightarrow> (False, s)
      | Some b \<Rightarrow>
          (case write_lfn_entries lfn_ents lba off b s of
             (None, s) \<Rightarrow> (False, s)
           | (Some (lba, off, b), s) \<Rightarrow> (True, snd (ata_write_sector lba (put_at off sfn_entry b) s))))"

subsection \<open>Mounting\<close>

definition strip_label :: "string \<Rightarrow> string" where
  "strip_label l = rev (dropWhile (\<lambda>c. c = CHR '' '') (rev l))"

text \<open>\<^verbatim>\<open>memset(&fs_info, 0, sizeof(fs_info))\<close>.\<close>

definition clear_info :: "fat_state \<Rightarrow> fat_state" where
  "clear_info s = s\<lparr>mounted := False, bytes_per_sector := 0, sectors_per_cluster := 0, reserved_sectors := 0, num_fats := 0,
     root_entry_count := 0, total_sectors := 0, fat_size_sectors := 0, fat_start_lba := 0, root_dir_lba := 0,
     root_dir_sectors := 0, data_start_lba := 0, cluster_size := 0, total_clusters := 0, volume_label := []\<rparr>"

definition fat16_mount :: "fat_state \<Rightarrow> (bool \<times> fat_state) option" where
  "fat16_mount s =
     (let s = clear_info s
      in if \<not> ata_available s then Some (False, s)
         else case ata_read_sector 0 s of
                None \<Rightarrow> Some (False, s)
              | Some boot \<Rightarrow>
                  if boot ! 510 \<noteq> 0x55 \<or> boot ! 511 \<noteq> 0xAA then Some (False, s)
                  else if get16 boot 11 \<noteq> 512 then Some (False, s)
                  else if boot ! 16 = 0 \<or> boot ! 16 > 2 then Some (False, s)
                  else if get16 boot 22 = 0 then Some (False, s)
                  else if get16 boot 17 = 0 then Some (False, s)
                  else
                    let spc = boot ! 13;
                        total = (if get16 boot 19 \<noteq> 0 then ucast (get16 boot 19) else get32 boot 32);
                        fat_start = ucast (get16 boot 14);
                        root_lba = fat_start + ucast (boot ! 16) * ucast (get16 boot 22);
                        root_secs = (ucast (get16 boot 17) * 32 + 511) div 512;
                        data_start = root_lba + root_secs
                    in if spc = 0 then None
                       else Some (True, s\<lparr>bytes_per_sector := get16 boot 11, sectors_per_cluster := spc, reserved_sectors := get16 boot 14,
                          num_fats := boot ! 16, root_entry_count := get16 boot 17, fat_size_sectors := get16 boot 22,
                          total_sectors := total, fat_start_lba := fat_start, root_dir_lba := root_lba, root_dir_sectors := root_secs,
                          data_start_lba := data_start, cluster_size := ucast spc * 512,
                          total_clusters := (total - data_start) div ucast spc,
                          volume_label := strip_label (map chr (take 11 (drop 43 boot))), mounted := True\<rparr>))"

definition fat16_mount_drive :: "nat \<Rightarrow> fat_state \<Rightarrow> (bool \<times> fat_state) option" where
  "fat16_mount_drive drv s = fat16_mount (s\<lparr>fat16_drv := drv\<rparr>)"

definition fat16_get_drive_idx :: "fat_state \<Rightarrow> nat" where "fat16_get_drive_idx s = fat16_drv s"
definition fat16_unmount :: "fat_state \<Rightarrow> fat_state" where "fat16_unmount s = s\<lparr>mounted := False\<rparr>"
definition fat16_is_mounted :: "fat_state \<Rightarrow> bool" where "fat16_is_mounted s = mounted s"

subsection \<open>Files and directories\<close>

record fat16_dirent =
  de_name :: string
  de_attr :: u8
  de_size :: u32
  de_first_cluster :: u16
  de_date :: u16
  de_time :: u16
  de_is_dir :: bool

definition fat16_list_dir :: "string \<Rightarrow> nat \<Rightarrow> fat_state \<Rightarrow> fat16_dirent list option option" where
  "fat16_list_dir path mx s =
     (if \<not> mounted s then Some None
      else do { c \<leftarrow> navigate_to_dir path s;
                if c = 0xFFFF then Some None
                else do { raw \<leftarrow> read_dir c s;
                          Some (Some (take mx (map (\<lambda>e. \<lparr>de_name = ext_name e, de_attr = entry_attr (fst e), de_size = entry_size (fst e),
                            de_first_cluster = entry_cluster (fst e), de_date = get16 (fst e) 24, de_time = get16 (fst e) 22,
                            de_is_dir = (entry_attr (fst e) AND FAT_ATTR_DIR \<noteq> 0)\<rparr>)
                            (filter (\<lambda>e. chr (fst e ! 0) \<noteq> CHR ''.'') raw)))) } })"

text \<open>The sectors of one cluster, then the chain.  \<open>acc\<close> holds the bytes read so far; the flag tells whether the
  reading goes on.\<close>

fun read_cluster :: "u32 list \<Rightarrow> nat \<Rightarrow> u8 list \<Rightarrow> fat_state \<Rightarrow> bool \<times> u8 list" where
  "read_cluster [] to_read acc s = (True, acc)"
| "read_cluster (lba # lbas) to_read acc s =
     (if length acc < to_read then
        (case ata_read_sector lba s of
           None \<Rightarrow> (False, acc)
         | Some b \<Rightarrow> read_cluster lbas to_read (acc @ take (to_read - length acc) b) s)
      else (True, acc))"

partial_function (option) read_chain :: "u16 \<Rightarrow> nat \<Rightarrow> u8 list \<Rightarrow> fat_state \<Rightarrow> u8 list option" where
  "read_chain c to_read acc s =
     (if \<not> chain_end c \<and> length acc < to_read then
        (case read_cluster (cluster_lbas c s) to_read acc s of
           (ok, acc) \<Rightarrow> if ok then read_chain (fat_read_entry c s) to_read acc s else Some acc)
      else Some acc)"

text \<open>The bytes read, whose number is the result of the call; the inner \<open>None\<close> is the result \<open>-1\<close>.\<close>

definition fat16_read_file :: "string \<Rightarrow> nat \<Rightarrow> fat_state \<Rightarrow> u8 list option option" where
  "fat16_read_file path max_size s =
     (if \<not> mounted s then Some None
      else do { (dir_path, filename) \<leftarrow> split_path path;
                if filename = [] then Some None
                else do { c \<leftarrow> navigate_to_dir dir_path s;
                          if c = 0xFFFF then Some None
                          else do { r \<leftarrow> find_entry_in_dir c filename s;
                                    case r of
                                      None \<Rightarrow> Some None
                                    | Some (e, lba, ofs) \<Rightarrow>
                                        if entry_attr e AND FAT_ATTR_DIR \<noteq> 0 then Some None
                                        else map_option Some (read_chain (entry_cluster e) (min (unat (entry_size e)) max_size) [] s) } } })"

text \<open>The number of clusters for \<open>sz\<close> bytes, in 32-bit arithmetic.\<close>

definition clusters_needed :: "u32 \<Rightarrow> fat_state \<Rightarrow> nat option" where
  "clusters_needed sz s =
     (if cluster_size s = 0 then None
      else let n = (sz + cluster_size s - 1) div cluster_size s in Some (if n = 0 then 1 else unat n))"

text \<open>Allocating a chain of \<open>n\<close> clusters; \<open>None\<close> inside when the disk is full (what was allocated is freed).\<close>

fun alloc_chain :: "nat \<Rightarrow> u16 \<Rightarrow> u16 \<Rightarrow> fat_state \<Rightarrow> (u16 option \<times> fat_state) option" where
  "alloc_chain 0 first prev s = Some (Some first, s)"
| "alloc_chain (Suc n) first prev s =
     do { (c, s) \<leftarrow> fat_alloc_cluster s;
          if c = 0 then do { s \<leftarrow> (if first \<noteq> 0 then fat_free_chain first s else Some s); Some (None, s) }
          else if first = 0 then alloc_chain n c c s
          else alloc_chain n first c (fat_write_entry prev c s) }"

fun write_cluster :: "u32 list \<Rightarrow> u8 list \<Rightarrow> nat \<Rightarrow> fat_state \<Rightarrow> bool \<times> nat \<times> fat_state" where
  "write_cluster [] data written s = (True, written, s)"
| "write_cluster (lba # lbas) data written s =
     (if written < length data then
        let chunk = take 512 (drop written data);
            (ok, s) = ata_write_sector lba (chunk @ replicate (512 - length chunk) 0) s
        in if ok then write_cluster lbas data (written + length chunk) s else (False, written, s)
      else (True, written, s))"

partial_function (option) write_chain :: "u16 \<Rightarrow> u8 list \<Rightarrow> nat \<Rightarrow> fat_state \<Rightarrow> (bool \<times> nat \<times> fat_state) option" where
  "write_chain c data written s =
     (if \<not> chain_end c \<and> written < length data then
        (case write_cluster (cluster_lbas c s) data written s of
           (ok, written, s) \<Rightarrow> if ok then write_chain (fat_read_entry c s) data written s else Some (False, written, s))
      else Some (True, written, s))"

text \<open>The name that is looked up to see whether a short name is taken: each character moved by
  \<^verbatim>\<open>'a' - 'A'\<close>.\<close>

definition check_name :: "u8 list \<times> u8 list \<Rightarrow> string" where
  "check_name = (\<lambda>(nm, ext). map (\<lambda>b. chr (b + 32)) (takeWhile (\<lambda>b. b \<noteq> 32) nm)
     @ (if ext ! 0 \<noteq> 32 then CHR ''.'' # map (\<lambda>b. chr (b + 32)) (takeWhile (\<lambda>b. b \<noteq> 32) ext) else []))"

fun choose_short_name :: "nat list \<Rightarrow> u16 \<Rightarrow> string \<Rightarrow> u8 list \<times> u8 list \<Rightarrow> fat_state \<Rightarrow> (u8 list \<times> u8 list) option" where
  "choose_short_name [] c filename best s = Some best"
| "choose_short_name (sq # sqs) c filename best s =
     (let sn = generate_short_name filename sq in
      do { r \<leftarrow> find_entry_in_dir c (check_name sn) s;
           if r = None then Some sn else choose_short_name sqs c filename sn s })"

definition short_name :: "u16 \<Rightarrow> string \<Rightarrow> fat_state \<Rightarrow> (u8 list \<times> u8 list) option" where
  "short_name c filename s =
     (if needs_lfn filename then choose_short_name [1..<100] c filename (generate_short_name filename 1) s
      else Some (encode_83_name filename))"

definition sfn_entry :: "u8 list \<times> u8 list \<Rightarrow> u8 \<Rightarrow> u16 \<Rightarrow> u32 \<Rightarrow> u8 list" where
  "sfn_entry sn attr cluster sz = fst sn @ snd sn @ [attr] @ replicate 14 0 @ [ucast cluster, ucast (drop_bit 8 cluster)]
     @ [ucast sz, ucast (drop_bit 8 sz), ucast (drop_bit 16 sz), ucast (drop_bit 24 sz)]"

text \<open>Adding the directory entry, with long-name entries when the name needs them.  False when there is no room
  or a read fails.\<close>

definition add_entry :: "u16 \<Rightarrow> string \<Rightarrow> u8 list \<times> u8 list \<Rightarrow> u8 list \<Rightarrow> fat_state \<Rightarrow> (bool \<times> fat_state) option" where
  "add_entry c filename sn e s =
     (if needs_lfn filename then
        let ents = build_lfn_entries filename (lfn_checksum (fst sn @ snd sn)) 20 in
        if ents = [] then Some (False, s)
        else do { slot \<leftarrow> find_free_dir_slots c (length ents + 1) s;
                  case slot of None \<Rightarrow> Some (False, s) | Some (lba, off) \<Rightarrow> Some (write_dir_entries lba off ents e s) }
      else do { slot \<leftarrow> find_free_dir_slots c 1 s;
                case slot of
                  None \<Rightarrow> Some (False, s)
                | Some (lba, off) \<Rightarrow>
                    do { b \<leftarrow> ata_read_sector lba s;
                         Some (True, snd (ata_write_sector lba (put_at off e b) s)) } })"

text \<open>Marking an entry as deleted; the buffer is used unread when the read fails.\<close>

definition delete_entry :: "u32 \<Rightarrow> nat \<Rightarrow> fat_state \<Rightarrow> fat_state option" where
  "delete_entry lba off s = do { b \<leftarrow> ata_read_sector lba s; Some (snd (ata_write_sector lba (b[off := 0xE5]) s)) }"

definition i32 :: "nat \<Rightarrow> int" where "i32 n = sint (of_nat n :: u32)"

definition fat16_write_file :: "string \<Rightarrow> u8 list \<Rightarrow> fat_state \<Rightarrow> (int \<times> fat_state) option" where
  "fat16_write_file path data s =
     (if \<not> mounted s then Some (-1, s)
      else do { (dir_path, filename) \<leftarrow> split_path path;
        if filename = [] then Some (-1, s)
        else do { c \<leftarrow> navigate_to_dir dir_path s;
          if c = 0xFFFF then Some (-1, s)
          else do {
            existing \<leftarrow> find_entry_in_dir c filename s;
            s \<leftarrow> (case existing of
                    Some (e, lba, ofs) \<Rightarrow>
                      if entry_attr e AND FAT_ATTR_DIR = 0
                      then do { s \<leftarrow> fat_free_chain (entry_cluster e) s; delete_entry lba ofs s } else Some s
                  | None \<Rightarrow> Some s);
            needed \<leftarrow> clusters_needed (of_nat (length data)) s;
            (first, s) \<leftarrow> alloc_chain needed 0 0 s;
            case first of
              None \<Rightarrow> Some (-1, s)
            | Some first \<Rightarrow>
                do { (ok, written, s) \<leftarrow> write_chain first data 0 s;
                     if \<not> ok then Some (i32 written, s)
                     else do {
                       sn \<leftarrow> short_name c filename s;
                       (ok, s) \<leftarrow> add_entry c filename sn (sfn_entry sn FAT_ATTR_ARCHIVE first (of_nat (length data))) s;
                       if ok then Some (i32 written, s)
                       else do { s \<leftarrow> fat_free_chain first s; Some (-1, s) } } } } } })"

definition fat16_delete_file :: "string \<Rightarrow> fat_state \<Rightarrow> (int \<times> fat_state) option" where
  "fat16_delete_file path s =
     (if \<not> mounted s then Some (-1, s)
      else do { (dir_path, filename) \<leftarrow> split_path path;
                c \<leftarrow> navigate_to_dir dir_path s;
                if c = 0xFFFF then Some (-1, s)
                else do { r \<leftarrow> find_entry_in_dir c filename s;
                          case r of
                            None \<Rightarrow> Some (-1, s)
                          | Some (e, lba, ofs) \<Rightarrow>
                              do { s \<leftarrow> (if entry_cluster e \<ge> 2 then fat_free_chain (entry_cluster e) s else Some s);
                                   s \<leftarrow> delete_entry lba ofs s;
                                   Some (0, s) } } })"

definition dot_entry :: "u8 list \<Rightarrow> u16 \<Rightarrow> u8 list" where
  "dot_entry nm c = sfn_entry (pad_name 8 nm, pad_name 3 []) FAT_ATTR_DIR c 0"

definition fat16_mkdir :: "string \<Rightarrow> fat_state \<Rightarrow> (int \<times> fat_state) option" where
  "fat16_mkdir path s =
     (if \<not> mounted s then Some (-1, s)
      else do { (dir_path, dirname) \<leftarrow> split_path path;
        if dirname = [] then Some (-1, s)
        else do { parent \<leftarrow> navigate_to_dir dir_path s;
          if parent = 0xFFFF then Some (-1, s)
          else do {
            (new, s) \<leftarrow> fat_alloc_cluster s;
            if new = 0 then Some (-1, s)
            else do {
              let s = fold (\<lambda>lba s. snd (ata_write_sector lba (replicate 512 0) s)) (cluster_lbas new s) s;
              let b = dot_entry [46] new @ dot_entry [46, 46] parent @ replicate 448 0;
              let s = snd (ata_write_sector (cluster_to_lba new s) b s);
              sn \<leftarrow> short_name parent dirname s;
              (ok, s) \<leftarrow> add_entry parent dirname sn (sfn_entry sn FAT_ATTR_DIR new 0) s;
              if ok then Some (0, s) else do { s \<leftarrow> fat_free_chain new s; Some (-1, s) } } } } })"

definition fat16_file_size :: "string \<Rightarrow> fat_state \<Rightarrow> int option" where
  "fat16_file_size path s =
     (if \<not> mounted s then Some (-1)
      else do { (dir_path, filename) \<leftarrow> split_path path;
                c \<leftarrow> navigate_to_dir dir_path s;
                if c = 0xFFFF then Some (-1)
                else do { r \<leftarrow> find_entry_in_dir c filename s;
                          Some (case r of None \<Rightarrow> -1 | Some (e, lba, ofs) \<Rightarrow> sint (entry_size e)) } })"

definition fat16_is_dir :: "string \<Rightarrow> fat_state \<Rightarrow> bool option" where
  "fat16_is_dir path s = (if \<not> mounted s then Some False else map_option (\<lambda>c. c \<noteq> 0xFFFF) (navigate_to_dir path s))"

subsection \<open>Formatting\<close>

definition format_spc :: "u32 \<Rightarrow> u8" where
  "format_spc size_mb =
     (if size_mb \<le> 16 then 4 else if size_mb \<le> 128 then 8 else if size_mb \<le> 256 then 16
      else if size_mb \<le> 512 then 32 else 64)"

definition FORMAT_ROOT_SECTORS :: u32 where "FORMAT_ROOT_SECTORS = (512 * 32 + 511) div 512"

definition format_data_start :: "u32 \<Rightarrow> u32" where
  "format_data_start fat_size = 1 + 2 * fat_size + FORMAT_ROOT_SECTORS"

text \<open>The iteration for the size of the table; \<open>None\<close> when the data area would start beyond the disk.\<close>

fun format_fat_size :: "nat \<Rightarrow> u32 \<Rightarrow> u8 \<Rightarrow> u32 \<Rightarrow> u32 option" where
  "format_fat_size 0 tot spc fat_size = Some fat_size"
| "format_fat_size (Suc n) tot spc fat_size =
     (if format_data_start fat_size \<ge> tot then None
      else
        let clusters = (tot - format_data_start fat_size) div ucast spc;
            needed = ((clusters + 2) * 2 + 511) div 512
        in if needed = fat_size then Some fat_size else format_fat_size n tot spc needed)"

function format_adjust :: "u32 \<Rightarrow> u8 \<Rightarrow> u8" where
  "format_adjust data_sectors spc =
     (if data_sectors div ucast spc > 65524 \<and> spc < 128 then format_adjust data_sectors (spc * 2) else spc)"
  by pat_completeness auto
termination
proof (relation "measure (\<lambda>(d, spc). 256 - unat spc)", goal_cases)
  case (2 d spc)
  then have "0 < unat spc" by (cases "spc = 0") (auto simp: unat_gt_0)
  moreover have "unat (spc * 2) = unat spc * 2" using 2 by (simp add: unat_word_ariths word_less_nat_alt)
  ultimately show ?case using 2 by (auto simp: word_less_nat_alt)
qed simp

declare format_adjust.simps [simp del]

definition format_label :: "string option \<Rightarrow> u8 list" where
  "format_label label =
     (case label of None \<Rightarrow> map byt ''MICROKERNEL'' | Some l \<Rightarrow> pad_name 11 (map (byt \<circ> toupper) (c_str l)))"

definition format_boot :: "u32 \<Rightarrow> u8 \<Rightarrow> u32 \<Rightarrow> string option \<Rightarrow> u8 list" where
  "format_boot tot spc fat_size label =
     [0xEB, 0x3C, 0x90] @ map byt ''MICROOS '' @ [0, 2] @ [spc] @ [1, 0] @ [2] @ [0, 2]
     @ (if tot < 65536 then [ucast tot, ucast (drop_bit 8 tot)] else [0, 0]) @ [0xF8]
     @ [ucast fat_size, ucast (drop_bit 8 fat_size)] @ [63, 0] @ [16, 0] @ [0, 0, 0, 0]
     @ (if tot < 65536 then [0, 0, 0, 0]
        else [ucast tot, ucast (drop_bit 8 tot), ucast (drop_bit 16 tot), ucast (drop_bit 24 tot)])
     @ [0x80] @ [0] @ [0x29] @ [0x78, 0x56, 0x34, 0x12] @ format_label label @ map byt ''FAT16   ''
     @ replicate 448 0 @ [0x55, 0xAA]"

fun write_all :: "(u32 \<times> u8 list) list \<Rightarrow> fat_state \<Rightarrow> bool \<times> fat_state" where
  "write_all [] s = (True, s)"
| "write_all ((lba, b) # ws) s = (case ata_write_sector lba b s of (ok, s) \<Rightarrow> if ok then write_all ws s else (False, s))"

definition format_fat_sector :: "nat \<Rightarrow> u8 list" where
  "format_fat_sector i = (if i = 0 then [0xF8, 0xFF, 0xFF, 0xFF] @ replicate 508 0 else replicate 512 0)"

definition format_writes :: "u8 list \<Rightarrow> u32 \<Rightarrow> (u32 \<times> u8 list) list" where
  "format_writes boot fat_size =
     [(0, boot)]
     @ map (\<lambda>i. (1 + of_nat i, format_fat_sector i)) [0..<unat fat_size]
     @ map (\<lambda>i. (1 + fat_size + of_nat i, format_fat_sector i)) [0..<unat fat_size]
     @ map (\<lambda>i. (1 + 2 * fat_size + of_nat i, replicate 512 0)) [0..<unat FORMAT_ROOT_SECTORS]"

definition fat16_format :: "u32 \<Rightarrow> string option \<Rightarrow> fat_state \<Rightarrow> bool \<times> fat_state" where
  "fat16_format tot label s =
     (if \<not> ata_available s then (False, s)
      else if tot < 4096 then (False, s)
      else
        let spc = format_spc (tot div 2048) in
        case format_fat_size 10 tot spc 1 of
          None \<Rightarrow> (False, s)
        | Some fat_size \<Rightarrow>
            let data_sectors = tot - format_data_start fat_size;
                clusters = data_sectors div ucast spc
            in if clusters < 4085 then (False, s)
               else
                 let spc = format_adjust data_sectors spc in
                 case write_all (format_writes (format_boot tot spc fat_size label) fat_size) s of
                   (ok, s) \<Rightarrow>
                     if ok then
                       (True, snd (ata_write_sector (1 + 2 * fat_size)
                          (format_label label @ [FAT_ATTR_VOLUME] @ replicate 500 0) s))
                     else (False, s))"

end
