(* ===== verification/FatTable.thy ===== *)
theory FatTable
  imports Fat16
begin

text \<open>
  The file allocation table of \<^verbatim>\<open>src/fat16.c\<close>: every operation changes a volume only through the
  contents of its sectors, entries read back what was written, cluster chains are lists linked through
  the table, and the loops over chains end.  The results are stated for a volume whose geometry is the
  one \<open>fat16_mount\<close> computes and whose chains are proper.
\<close>

section \<open>Sectors\<close>

definition secs :: "fat_state \<Rightarrow> u32 \<Rightarrow> u8 list" where
  "secs s = dk_data (fat_disk s)"

definition with_secs :: "(u32 \<Rightarrow> u8 list) \<Rightarrow> fat_state \<Rightarrow> fat_state" where
  "with_secs m s = s\<lparr>drives := (drives s)[fat16_drv s := (fat_disk s)\<lparr>dk_data := m\<rparr>]\<rparr>"

definition drive_ok :: "fat_state \<Rightarrow> bool" where
  "drive_ok s \<longleftrightarrow> fat16_drv s < length (drives s) \<and> dk_present (fat_disk s) \<and> (\<forall>lba. \<not> dk_bad (fat_disk s) lba)"

definition disk_sectors :: "fat_state \<Rightarrow> nat" where
  "disk_sectors s = unat (dk_sectors (fat_disk s))"

lemma with_secs_fields [simp]:
  "fat16_drv (with_secs m s) = fat16_drv s" "mounted (with_secs m s) = mounted s"
  "sectors_per_cluster (with_secs m s) = sectors_per_cluster s" "num_fats (with_secs m s) = num_fats s"
  "fat_size_sectors (with_secs m s) = fat_size_sectors s" "fat_start_lba (with_secs m s) = fat_start_lba s"
  "root_dir_lba (with_secs m s) = root_dir_lba s" "root_dir_sectors (with_secs m s) = root_dir_sectors s"
  "data_start_lba (with_secs m s) = data_start_lba s" "cluster_size (with_secs m s) = cluster_size s"
  "total_clusters (with_secs m s) = total_clusters s" "length (drives (with_secs m s)) = length (drives s)"
  by (simp_all add: with_secs_def)

lemma with_secs_disk:
  "fat16_drv s < length (drives s) \<Longrightarrow> fat_disk (with_secs m s) = (fat_disk s)\<lparr>dk_data := m\<rparr>"
  by (simp add: with_secs_def fat_disk_def)

lemma with_secs_ok [simp]: "drive_ok s \<Longrightarrow> drive_ok (with_secs m s)"
  by (simp add: drive_ok_def with_secs_disk)

lemma secs_with [simp]: "drive_ok s \<Longrightarrow> secs (with_secs m s) = m"
  by (simp add: drive_ok_def secs_def with_secs_disk)

lemma disk_sectors_with [simp]: "drive_ok s \<Longrightarrow> disk_sectors (with_secs m s) = disk_sectors s"
  by (simp add: drive_ok_def disk_sectors_def with_secs_disk)

lemma with_secs_twice [simp]: "drive_ok s \<Longrightarrow> with_secs m (with_secs n s) = with_secs m s"
  by (simp add: drive_ok_def with_secs_disk) (simp add: with_secs_def fat_disk_def)

lemma with_secs_same [simp]: "with_secs (secs s) s = s"
  by (simp add: with_secs_def secs_def fat_disk_def)

lemma read_sector:
  "drive_ok s \<Longrightarrow> ata_read_sector lba s = (if unat lba < disk_sectors s then Some (secs s lba) else None)"
  by (auto simp: ata_read_sector_def drive_ok_def disk_ok_def secs_def disk_sectors_def word_less_nat_alt)

lemma write_sector:
  "drive_ok s \<Longrightarrow> ata_write_sector lba b s =
     (if unat lba < disk_sectors s then (True, with_secs ((secs s)(lba := b)) s) else (False, s))"
  by (auto simp: ata_write_sector_def drive_ok_def disk_ok_def secs_def disk_sectors_def with_secs_def word_less_nat_alt)

section \<open>Fields of a sector\<close>

lemma get16_put16:
  "i + 1 < length b \<Longrightarrow> get16 (put16 i v b) i = v"
proof -
  assume i: "i + 1 < length b"
  have "ucast (ucast v :: u8) OR push_bit 8 (ucast (ucast (drop_bit 8 v) :: u8)) = v"
    by (rule bit_word_eqI) (auto simp: bit_simps)
  then show ?thesis using i by (simp add: get16_def put16_def)
qed

lemma get16_put16_other: "j + 1 < i \<or> i + 1 < j \<Longrightarrow> get16 (put16 i v b) j = get16 b j"
  by (auto simp: get16_def put16_def)

lemma length_put16 [simp]: "length (put16 i v b) = length b"
  by (simp add: put16_def)

lemma length_put_at [simp]: "i + length xs \<le> length b \<Longrightarrow> length (put_at i xs b) = length b"
  by (simp add: put_at_def)

section \<open>The geometry of a mounted volume\<close>

text \<open>The regions follow each other, the table has an entry for every cluster, and the disk holds them all.\<close>

definition volume :: "fat_state \<Rightarrow> bool" where
  "volume s \<longleftrightarrow>
     drive_ok s \<and> mounted s \<and>
     0 < sectors_per_cluster s \<and> cluster_size s = ucast (sectors_per_cluster s) * 512 \<and>
     (num_fats s = 1 \<or> num_fats s = 2) \<and>
     unat (root_dir_lba s) = unat (fat_start_lba s) + unat (num_fats s) * unat (fat_size_sectors s) \<and>
     unat (data_start_lba s) = unat (root_dir_lba s) + unat (root_dir_sectors s) \<and>
     unat (total_clusters s) + 2 \<le> 256 * unat (fat_size_sectors s) \<and> unat (total_clusters s) \<le> 65524 \<and>
     unat (data_start_lba s) + unat (total_clusters s) * unat (sectors_per_cluster s) \<le> disk_sectors s \<and>
     (\<forall>lba. length (secs s lba) = 512)"

definition valid_cluster :: "fat_state \<Rightarrow> u16 \<Rightarrow> bool" where
  "valid_cluster s c \<longleftrightarrow> 2 \<le> unat c \<and> unat c < unat (total_clusters s) + 2"

lemma volumeD:
  assumes "volume s"
  shows "drive_ok s" "mounted s" "0 < unat (sectors_per_cluster s)"
    and "num_fats s = 1 \<or> num_fats s = 2"
    and "unat (root_dir_lba s) = unat (fat_start_lba s) + unat (num_fats s) * unat (fat_size_sectors s)"
    and "unat (data_start_lba s) = unat (root_dir_lba s) + unat (root_dir_sectors s)"
    and "unat (total_clusters s) + 2 \<le> 256 * unat (fat_size_sectors s)" "unat (total_clusters s) \<le> 65524"
    and "unat (data_start_lba s) + unat (total_clusters s) * unat (sectors_per_cluster s) \<le> disk_sectors s"
    and "length (secs s lba) = 512"
  using assms by (auto simp: volume_def word_less_nat_alt)

lemma volume_with: "volume s \<Longrightarrow> \<forall>lba. length (m lba) = 512 \<Longrightarrow> volume (with_secs m s)"
  by (simp add: volume_def)

lemma valid_with [simp]: "valid_cluster (with_secs m s) c = valid_cluster s c"
  by (simp add: valid_cluster_def)

lemma disk_sectors_bound: "disk_sectors s < 4294967296"
  unfolding disk_sectors_def by (rule unat_u32)

lemma unat_ucast16 [simp]: "unat (ucast (x :: u16) :: u32) = unat x"
  using unat_u16 [of x] by (simp add: unsigned_ucast_eq take_bit_nat_eq_self)

lemma unat_ucast8 [simp]: "unat (ucast (x :: u8) :: u32) = unat x"
  using unat_u8 [of x] by (simp add: unsigned_ucast_eq take_bit_nat_eq_self)

lemma valid_not_end: "volume s \<Longrightarrow> valid_cluster s c \<Longrightarrow> \<not> chain_end c"
  using volumeD(8) [of s] by (simp add: valid_cluster_def chain_end_def word_le_nat_alt word_less_nat_alt)

lemma eof_end [simp]: "chain_end 0xFFFF" "chain_end 0"
  by (simp_all add: chain_end_def)

section \<open>Entries\<close>

lemma fat_index_eq: "fat_index c = 2 * (unat c mod 256)"
  and fat_div: "unat ((ucast c * 2 :: u32) div 512) = unat c div 256"
proof -
  have c: "unat (ucast (c :: u16) * 2 :: u32) = unat c * 2"
    using unat_u16 [of c] by (simp add: unat_word_ariths)
  show "fat_index c = 2 * (unat c mod 256)"
    unfolding fat_index_def unat_mod_distrib c by (simp add: mult_mod_right mult.commute)
  show "unat ((ucast c * 2 :: u32) div 512) = unat c div 256"
    unfolding unat_div_distrib c by simp
qed

lemma fat_sector_with [simp]: "fat_sector c (with_secs m s) = fat_sector c s"
  by (simp add: fat_sector_def)

text \<open>The sectors of the first copy of the table and of the second.\<close>

lemma fat_sector_eq:
  assumes "volume s" "unat c < 256 * unat (fat_size_sectors s)"
  shows "unat (fat_sector c s) = unat (fat_start_lba s) + unat c div 256"
    and "unat (fat_sector c s) < unat (fat_start_lba s) + unat (fat_size_sectors s)"
proof -
  have lt: "unat c div 256 < unat (fat_size_sectors s)" using assms(2) by (simp add: less_mult_imp_div_less mult.commute)
  have "unat (fat_start_lba s) + unat (fat_size_sectors s) \<le> unat (root_dir_lba s)"
    using volumeD(4,5) [OF assms(1)] by auto
  also have "\<dots> < 4294967296" by (rule unat_u32)
  finally have b: "unat (fat_start_lba s) + unat (fat_size_sectors s) < 4294967296" .
  show e: "unat (fat_sector c s) = unat (fat_start_lba s) + unat c div 256"
    unfolding fat_sector_def using lt b by (subst unat_add_nowrap) (simp_all add: fat_div)
  show "unat (fat_sector c s) < unat (fat_start_lba s) + unat (fat_size_sectors s)" using e lt by simp
qed

lemma fat_copy:
  assumes "volume s" "unat c < 256 * unat (fat_size_sectors s)" "1 < num_fats s"
  shows "unat (fat_sector c s + ucast (fat_size_sectors s)) = unat (fat_sector c s) + unat (fat_size_sectors s)"
    and "unat (fat_sector c s) + unat (fat_size_sectors s) < unat (root_dir_lba s)"
proof -
  have n: "num_fats s = 2" using volumeD(4) [OF assms(1)] assms(3) by auto
  show l: "unat (fat_sector c s) + unat (fat_size_sectors s) < unat (root_dir_lba s)"
    using fat_sector_eq(2) [OF assms(1,2)] volumeD(5) [OF assms(1)] n by simp
  show "unat (fat_sector c s + ucast (fat_size_sectors s)) = unat (fat_sector c s) + unat (fat_size_sectors s)"
    using l unat_u32 [of "root_dir_lba s"] by (subst unat_add_nowrap) simp_all
qed

lemma root_le_disk: "volume s \<Longrightarrow> unat (root_dir_lba s) \<le> disk_sectors s"
  using volumeD(6,9) [of s] by simp

lemma fat_sector_root:
  "volume s \<Longrightarrow> unat c < 256 * unat (fat_size_sectors s) \<Longrightarrow> unat (fat_sector c s) < unat (root_dir_lba s)"
  using fat_sector_eq(2) [of s c] volumeD(4,5) [of s] by auto

definition in_table :: "fat_state \<Rightarrow> u16 \<Rightarrow> bool" where
  "in_table s c \<longleftrightarrow> unat c < 256 * unat (fat_size_sectors s)"

lemma in_table_with [simp]: "in_table (with_secs m s) c = in_table s c"
  by (simp add: in_table_def)

lemma valid_in_table: "volume s \<Longrightarrow> valid_cluster s c \<Longrightarrow> in_table s c"
  using volumeD(7) [of s] by (simp add: valid_cluster_def in_table_def)

lemma fat_read_entry_eq:
  "volume s \<Longrightarrow> in_table s c \<Longrightarrow> fat_read_entry c s = get16 (secs s (fat_sector c s)) (fat_index c)"
  using fat_sector_root [of s c] root_le_disk [of s]
  by (simp add: fat_read_entry_def read_sector volumeD(1) in_table_def)

text \<open>What a write to the table does to the sectors.\<close>

definition fat_update :: "u16 \<Rightarrow> u16 \<Rightarrow> fat_state \<Rightarrow> u32 \<Rightarrow> u8 list" where
  "fat_update c v s =
     (let l = fat_sector c s; b = put16 (fat_index c) v (secs s l); m = (secs s)(l := b)
      in if 1 < num_fats s then m(l + ucast (fat_size_sectors s) := b) else m)"

lemma fat_write_entry_eq:
  assumes "volume s" "in_table s c"
  shows "fat_write_entry c v s = with_secs (fat_update c v s) s"
proof -
  note d = volumeD(1) [OF assms(1)]
  have l: "unat (fat_sector c s) < disk_sectors s"
    using fat_sector_root [of s c] root_le_disk [of s] assms by (simp add: in_table_def)
  have m: "1 < num_fats s \<Longrightarrow> unat (fat_sector c s + ucast (fat_size_sectors s)) < disk_sectors s"
    using fat_copy [of s c] root_le_disk [of s] assms by (simp add: in_table_def)
  show ?thesis using l m d by (simp add: fat_write_entry_def fat_update_def read_sector write_sector Let_def)
qed

lemma fat_update_length: "volume s \<Longrightarrow> length (fat_update c v s lba) = 512"
  using volumeD(10) [of s] by (simp add: fat_update_def Let_def)

lemma fat_write_volume: "volume s \<Longrightarrow> in_table s c \<Longrightarrow> volume (fat_write_entry c v s)"
  by (simp add: fat_write_entry_eq volume_with fat_update_length)

lemma fat_update_above:
  assumes "volume s" "in_table s c" "unat (root_dir_lba s) \<le> unat lba"
  shows "fat_update c v s lba = secs s lba"
proof -
  have "lba \<noteq> fat_sector c s" using fat_sector_root [of s c] assms by (auto simp: in_table_def)
  moreover have "1 < num_fats s \<Longrightarrow> lba \<noteq> fat_sector c s + ucast (fat_size_sectors s)"
    using fat_copy [of s c] assms by (auto simp: in_table_def)
  ultimately show ?thesis by (simp add: fat_update_def Let_def)
qed

lemma fat_read_write:
  assumes "volume s" "in_table s c" "in_table s d"
  shows "fat_read_entry d (fat_write_entry c v s) = (if d = c then v else fat_read_entry d s)"
proof -
  have len: "length (secs s l) = 512" for l using volumeD(10) [OF assms(1)] .
  have second: "fat_sector d s \<noteq> fat_sector c s + ucast (fat_size_sectors s)" if "1 < num_fats s"
    using fat_copy(1) [of s c] fat_sector_eq [of s c] fat_sector_eq(2) [of s d] that assms
    by (intro notI) (simp add: in_table_def)
  have "fat_sector d s = fat_sector c s \<longleftrightarrow> unat d div 256 = unat c div 256"
    using fat_sector_eq(1) [of s c] fat_sector_eq(1) [of s d] assms by (auto simp: in_table_def word_unat_eq_iff)
  then have split: "d \<noteq> c \<Longrightarrow> fat_sector d s = fat_sector c s \<Longrightarrow> unat d mod 256 \<noteq> unat c mod 256"
    by (metis div_mult_mod_eq unsigned_word_eqI)
  have idx: "fat_index c + 1 < 512" by (simp add: fat_index_eq)
  have "fat_read_entry d (fat_write_entry c v s) = get16 (fat_update c v s (fat_sector d s)) (fat_index d)"
    using fat_read_entry_eq [OF fat_write_volume [OF assms(1,2)], of v d] assms
    by (simp add: fat_write_entry_eq volumeD(1))
  also have "\<dots> = (if d = c then v else get16 (secs s (fat_sector d s)) (fat_index d))"
  proof (cases "fat_sector d s = fat_sector c s")
    case True
    then have "fat_update c v s (fat_sector d s) = put16 (fat_index c) v (secs s (fat_sector c s))"
      using second by (simp add: fat_update_def Let_def)
    moreover have "d \<noteq> c \<Longrightarrow> fat_index d + 1 < fat_index c \<or> fat_index c + 1 < fat_index d"
      using split [OF _ True] by (simp add: fat_index_eq) arith
    ultimately show ?thesis using True idx len by (auto simp: get16_put16 get16_put16_other)
  next
    case False
    then show ?thesis using second by (auto simp: fat_update_def Let_def)
  qed
  finally show ?thesis using assms by (simp add: fat_read_entry_eq)
qed

section \<open>Chains\<close>

primrec chain :: "(u16 \<Rightarrow> u16) \<Rightarrow> u16 \<Rightarrow> u16 list \<Rightarrow> bool" where
  "chain t c [] \<longleftrightarrow> chain_end c"
| "chain t c (x # xs) \<longleftrightarrow> \<not> chain_end c \<and> x = c \<and> chain t (t c) xs"

lemma chain_unique: "chain t c xs \<Longrightarrow> chain t c ys \<Longrightarrow> xs = ys"
proof (induction xs arbitrary: c ys)
  case Nil
  then show ?case by (cases ys) auto
next
  case (Cons x xs)
  then show ?case by (cases ys) auto
qed

lemma chain_suffix: "chain t c (xs @ y # ys) \<Longrightarrow> chain t y (y # ys)"
  by (induction xs arbitrary: c) auto

lemma chain_distinct: "chain t c xs \<Longrightarrow> distinct xs"
proof (induction xs arbitrary: c)
  case (Cons x xs)
  have "x \<notin> set xs"
  proof
    assume "x \<in> set xs"
    then obtain us vs where xs: "xs = us @ x # vs" by (auto simp: in_set_conv_decomp)
    have "chain t (t c) (us @ x # vs)" using Cons.prems xs by auto
    then have "chain t x (x # vs)" by (rule chain_suffix)
    then have "x # vs = x # xs" using chain_unique [of t x "x # vs" "x # xs"] Cons.prems by simp
    then show False using xs by (metis length_append length_Cons list.inject add_Suc_right less_add_Suc2 less_irrefl)
  qed
  then show ?case using Cons by auto
qed simp

lemma chain_cong: "(\<And>x. x \<in> set xs \<Longrightarrow> t x = u x) \<Longrightarrow> chain t c xs = chain u c xs"
  by (induction xs arbitrary: c) auto

lemma chain_extend: "chain t c (xs @ [p]) \<Longrightarrow> chain u q ys \<Longrightarrow> u p = q \<Longrightarrow> \<forall>x \<in> set xs. u x = t x
    \<Longrightarrow> chain u c (xs @ p # ys)"
  by (induction xs arbitrary: c) auto

abbreviation fat_entry :: "fat_state \<Rightarrow> u16 \<Rightarrow> u16" where
  "fat_entry s \<equiv> \<lambda>c. fat_read_entry c s"

text \<open>A change of the volume below the root directory only.\<close>

definition table_only :: "fat_state \<Rightarrow> fat_state \<Rightarrow> bool" where
  "table_only s s' \<longleftrightarrow> volume s' \<and> s' = with_secs (secs s') s \<and>
     (\<forall>lba. unat (root_dir_lba s) \<le> unat lba \<longrightarrow> secs s' lba = secs s lba)"

lemma table_only_refl: "volume s \<Longrightarrow> table_only s s"
  by (simp add: table_only_def)

lemma table_only_fields:
  assumes "table_only s s'"
  shows "volume s'" "valid_cluster s' = valid_cluster s" "in_table s' = in_table s"
    "total_clusters s' = total_clusters s" "root_dir_lba s' = root_dir_lba s" "drive_ok s'"
proof -
  obtain m where s': "s' = with_secs m s" and v: "volume s'" using assms by (auto simp: table_only_def)
  show "volume s'" by (rule v)
  then show "drive_ok s'" by (rule volumeD)
  show "valid_cluster s' = valid_cluster s" "in_table s' = in_table s"
    unfolding s' by (simp_all add: fun_eq_iff)
  show "total_clusters s' = total_clusters s" "root_dir_lba s' = root_dir_lba s"
    unfolding s' by simp_all
qed

lemma table_only_trans: "volume s \<Longrightarrow> table_only s s' \<Longrightarrow> table_only s' s'' \<Longrightarrow> table_only s s''"
  unfolding table_only_def by (metis volumeD(1) with_secs_fields(7) with_secs_twice)

lemma table_only_write: "volume s \<Longrightarrow> in_table s c \<Longrightarrow> table_only s (fat_write_entry c v s)"
  using fat_write_volume [of s c v]
  by (simp add: table_only_def fat_write_entry_eq volumeD(1) fat_update_above)

text \<open>Freeing a chain ends and clears exactly the entries of the chain.\<close>

lemma fat_free_chain_ok:
  assumes "volume s" "chain (fat_entry s) c xs" "\<forall>x \<in> set xs. in_table s x"
  shows "\<exists>s'. fat_free_chain c s = Some s' \<and> table_only s s' \<and>
    (\<forall>d. in_table s d \<longrightarrow> fat_entry s' d = (if d \<in> set xs then 0 else fat_entry s d))"
  using assms
proof (induction xs arbitrary: c s)
  case Nil
  then have "fat_free_chain c s = Some s" by (subst fat_free_chain.simps) (auto simp: chain_end_def)
  then show ?case using Nil by (auto intro: table_only_refl)
next
  case (Cons x xs)
  then have c: "\<not> chain_end c" "x = c" "chain (fat_entry s) (fat_entry s c) xs" "in_table s c" by auto
  have nin: "c \<notin> set xs" using chain_distinct [OF Cons.prems(2)] c(2) by simp
  let ?s = "fat_write_entry c 0 s"
  have e: "in_table s d \<Longrightarrow> fat_entry ?s d = (if d = c then 0 else fat_entry s d)" for d
    using fat_read_write [OF Cons.prems(1) c(4)] .
  note t = table_only_write [OF Cons.prems(1) c(4), of 0]
  have "chain (fat_entry ?s) (fat_entry s c) xs"
    using c(3) nin Cons.prems(3) by (subst chain_cong [of _ _ "fat_entry s"]) (auto simp: e)
  moreover have "\<forall>x \<in> set xs. in_table ?s x" using Cons.prems(3) by (simp add: table_only_fields(3) [OF t])
  ultimately obtain s' where s': "fat_free_chain (fat_entry s c) ?s = Some s'" "table_only ?s s'"
    "\<forall>d. in_table s d \<longrightarrow> fat_entry s' d = (if d \<in> set xs then 0 else fat_entry ?s d)"
    using Cons.IH [of ?s "fat_entry s c"] table_only_fields [OF t] by auto
  have "fat_free_chain c s = Some s'"
    using s'(1) c(1) by (subst fat_free_chain.simps) (auto simp: chain_end_def)
  then show ?case using s' table_only_trans [OF Cons.prems(1) t s'(2)] c(2) e by auto
qed

section \<open>Allocation\<close>

definition all_clusters :: "fat_state \<Rightarrow> u16 list" where
  "all_clusters s = map of_nat [2..<unat (total_clusters s) + 2]"

definition free_clusters :: "fat_state \<Rightarrow> u16 list" where
  "free_clusters s = filter (\<lambda>c. fat_entry s c = 0) (all_clusters s)"

lemma unat_of_nat16: "n < 65536 \<Longrightarrow> unat (of_nat n :: u16) = n"
  by (simp add: unat_of_nat)

lemma in_all_clusters: "c \<in> set (all_clusters s) \<longleftrightarrow> (\<exists>k. 2 \<le> k \<and> k < unat (total_clusters s) + 2 \<and> c = of_nat k)"
  unfolding all_clusters_def set_map set_upt image_iff atLeastLessThan_iff Bex_def by blast

lemma set_all_clusters: "volume s \<Longrightarrow> c \<in> set (all_clusters s) \<longleftrightarrow> valid_cluster s c"
proof
  assume v: "volume s" and "c \<in> set (all_clusters s)"
  then obtain k where k: "2 \<le> k" "k < unat (total_clusters s) + 2" "c = of_nat k" by (auto simp only: in_all_clusters)
  then have "unat c = k" using volumeD(8) [OF v] by (simp add: unat_of_nat16)
  then show "valid_cluster s c" using k by (simp add: valid_cluster_def)
next
  assume "valid_cluster s c"
  then show "c \<in> set (all_clusters s)"
    unfolding in_all_clusters valid_cluster_def by (intro exI [of _ "unat c"]) simp
qed

lemma inj_of_nat16: "\<forall>k \<in> A. k < 65536 \<Longrightarrow> inj_on (of_nat :: nat \<Rightarrow> u16) A"
  by (rule inj_onI) (metis unat_of_nat16)

lemma distinct_all_clusters: "volume s \<Longrightarrow> distinct (all_clusters s)"
  using volumeD(8) [of s] unfolding all_clusters_def distinct_map
  by (simp only: distinct_upt set_upt simp_thms) (rule inj_of_nat16, simp)

lemma unat_limit: "volume s \<Longrightarrow> unat (total_clusters s + 2) = unat (total_clusters s) + 2"
  using volumeD(8) [of s] by (simp add: unat_word_ariths)

lemma fat_alloc_loop_ok:
  assumes "volume s" "k + j = unat (total_clusters s) + 2"
  shows "fat_alloc_loop (of_nat k) s =
    Some (case filter (\<lambda>c. fat_entry s c = 0) (map of_nat [k..<k + j]) of
            [] \<Rightarrow> (0, s) | c # _ \<Rightarrow> (c, fat_write_entry c 0xFFFF s))"
  using assms(2)
proof (induction j arbitrary: k)
  case 0
  then have "unat (of_nat k :: u16) = unat (total_clusters s + 2)"
    unfolding unat_limit [OF assms(1)] using volumeD(8) [OF assms(1)] by (subst unat_of_nat16) simp_all
  then have "\<not> ucast (of_nat k :: u16) < total_clusters s + 2" by (simp add: word_less_nat_alt)
  then show ?case by (subst fat_alloc_loop.simps) simp
next
  case (Suc j)
  then have lt: "ucast (of_nat k :: u16) < total_clusters s + 2"
    using volumeD(8) [OF assms(1)] by (simp add: word_less_nat_alt unat_limit [OF assms(1)] unat_of_nat16)
  have u: "[k..<k + Suc j] = k # [k + 1..<k + 1 + j]" by (simp add: upt_conv_Cons del: upt_Suc)
  have IH: "fat_alloc_loop (of_nat (k + 1)) s =
    Some (case filter (\<lambda>c. fat_entry s c = 0) (map of_nat [k + 1..<k + 1 + j]) of
            [] \<Rightarrow> (0, s) | c # _ \<Rightarrow> (c, fat_write_entry c 0xFFFF s))" by (rule Suc.IH) (use Suc.prems in simp)
  have c1: "of_nat k + 1 = (of_nat (k + 1) :: u16)" by simp
  show ?case unfolding u list.map filter.simps
    by (subst fat_alloc_loop.simps, unfold c1 IH) (simp only: lt if_True if_False simp_thms split: if_split, simp)
qed

lemma fat_alloc_cluster_ok:
  "volume s \<Longrightarrow> fat_alloc_cluster s =
    Some (case free_clusters s of [] \<Rightarrow> (0, s) | c # _ \<Rightarrow> (c, fat_write_entry c 0xFFFF s))"
  using fat_alloc_loop_ok [of s 2 "unat (total_clusters s)"]
  by (simp add: fat_alloc_cluster_def free_clusters_def all_clusters_def add.commute)

lemma free_clusters_valid:
  assumes "volume s" "c \<in> set (free_clusters s)"
  shows "valid_cluster s c" "in_table s c" "fat_entry s c = 0" "c \<noteq> 0" "\<not> chain_end c"
proof -
  show v: "valid_cluster s c" using assms by (simp add: free_clusters_def set_all_clusters)
  then show "in_table s c" by (rule valid_in_table [OF assms(1)])
  show "fat_entry s c = 0" using assms(2) by (simp add: free_clusters_def)
  show "\<not> chain_end c" by (rule valid_not_end [OF assms(1) v])
  then show "c \<noteq> 0" by auto
qed

lemma free_clusters_step:
  assumes "volume s" "table_only s s'" "free_clusters s = f # fs"
    and "\<forall>d. in_table s d \<longrightarrow> (fat_entry s' d = 0 \<longleftrightarrow> fat_entry s d = 0 \<and> d \<noteq> f)"
  shows "free_clusters s' = fs"
proof -
  have "free_clusters s' = filter (\<lambda>c. fat_entry s' c = 0) (all_clusters s)"
    by (simp add: free_clusters_def all_clusters_def table_only_fields(4) [OF assms(2)])
  also have "\<dots> = filter (\<lambda>c. c \<noteq> f) (free_clusters s)"
    unfolding free_clusters_def filter_filter
    by (rule filter_cong) (use assms in \<open>auto simp: set_all_clusters valid_in_table\<close>)
  also have "\<dots> = filter (\<lambda>c. c \<noteq> f) fs" unfolding assms(3) by simp
  also have "\<dots> = fs"
  proof (rule filter_True)
    have "distinct (f # fs)" using distinct_all_clusters [OF assms(1)] assms(3)
      by (metis distinct_filter free_clusters_def)
    then show "\<forall>x \<in> set fs. x \<noteq> f" by auto
  qed
  finally show ?thesis .
qed

text \<open>Linking a fresh cluster behind the last one of a chain.\<close>

lemma link_cluster:
  assumes v: "volume s" and f: "free_clusters s = f # fs"
    and ch: "chain (fat_entry s) first (xs @ [p])" "fat_entry s p = 0xFFFF" "\<forall>x \<in> set (xs @ [p]). in_table s x"
  defines "s' \<equiv> fat_write_entry p f (fat_write_entry f 0xFFFF s)"
  shows "table_only s s'" and "free_clusters s' = fs" and "chain (fat_entry s') first (xs @ [p, f])" and "fat_entry s' f = 0xFFFF"
    and "\<forall>d. in_table s d \<longrightarrow> d \<noteq> p \<longrightarrow> d \<noteq> f \<longrightarrow> fat_entry s' d = fat_entry s d"
proof -
  have ff: "in_table s f" "fat_entry s f = 0" "f \<noteq> 0" "\<not> chain_end f"
    using free_clusters_valid [OF v, of f] f by auto
  have p: "in_table s p" using ch(3) by simp
  have fp: "f \<noteq> p" using ff(2) ch(2) by auto
  note t1 = table_only_write [OF v ff(1), of "0xFFFF"]
  have v1: "volume (fat_write_entry f 0xFFFF s)" and i1: "in_table (fat_write_entry f 0xFFFF s) = in_table s"
    using table_only_fields [OF t1] by auto
  have t2: "table_only (fat_write_entry f 0xFFFF s) s'"
    unfolding s'_def using table_only_write [OF v1, of p f] p i1 by simp
  show t: "table_only s s'" by (rule table_only_trans [OF v t1 t2])
  have e: "in_table s d \<Longrightarrow> fat_entry s' d = (if d = p then f else if d = f then 0xFFFF else fat_entry s d)" for d
    unfolding s'_def using fat_read_write [OF v1, of p d f] fat_read_write [OF v ff(1), of d "0xFFFF"] p i1 by simp
  show "fat_entry s' f = 0xFFFF" using e [OF ff(1)] fp by simp
  show "\<forall>d. in_table s d \<longrightarrow> d \<noteq> p \<longrightarrow> d \<noteq> f \<longrightarrow> fat_entry s' d = fat_entry s d" using e by simp
  show "free_clusters s' = fs" by (rule free_clusters_step [OF v t f]) (use e ff ch(2) in auto)
  have "x \<noteq> f" if "x \<in> set xs" for x
  proof
    assume "x = f"
    with that obtain us vs where "xs = us @ f # vs" by (auto simp: in_set_conv_decomp)
    then have "chain (fat_entry s) f (f # vs @ [p])" using ch(1) chain_suffix [of "fat_entry s" first us f "vs @ [p]"] by simp
    then show False using ff(2) by (cases vs) auto
  qed
  moreover have "p \<notin> set xs" using chain_distinct [OF ch(1)] by simp
  ultimately have "\<forall>x \<in> set xs. fat_entry s' x = fat_entry s x" using e ch(3) by auto
  moreover have "chain (fat_entry s') f [f]" using ff(4) e [OF ff(1)] fp by simp
  ultimately show "chain (fat_entry s') first (xs @ [p, f])"
    by (intro chain_extend [OF ch(1)]) (simp_all add: e [OF p])
qed

lemma alloc_chain_from:
  assumes "volume s" "chain (fat_entry s) first (xs @ [p])" "fat_entry s p = 0xFFFF" "\<forall>x \<in> set (xs @ [p]). in_table s x"
  shows "\<exists>s'. table_only s s' \<and>
    (if n \<le> length (free_clusters s)
     then alloc_chain n first p s = Some (Some first, s') \<and>
          chain (fat_entry s') first (xs @ p # take n (free_clusters s)) \<and>
          (\<forall>d. in_table s d \<longrightarrow> d \<notin> set (p # take n (free_clusters s)) \<longrightarrow> fat_entry s' d = fat_entry s d)
     else alloc_chain n first p s = Some (None, s') \<and>
          (\<forall>d. in_table s d \<longrightarrow> fat_entry s' d = (if d \<in> set (xs @ [p]) then 0 else fat_entry s d)))"
  using assms
proof (induction n arbitrary: s xs p)
  case 0
  then show ?case by (intro exI [of _ s]) (simp add: table_only_refl)
next
  case (Suc n)
  note v = Suc.prems(1)
  have first: "first \<noteq> 0" using Suc.prems(2) by (cases xs) auto
  show ?case
  proof (cases "free_clusters s")
    case Nil
    obtain s' where "fat_free_chain first s = Some s'" "table_only s s'"
      "\<forall>d. in_table s d \<longrightarrow> fat_entry s' d = (if d \<in> set (xs @ [p]) then 0 else fat_entry s d)"
      using fat_free_chain_ok [OF v Suc.prems(2,4)] by auto
    then show ?thesis using Nil first by (intro exI [of _ s']) (simp add: fat_alloc_cluster_ok [OF v])
  next
    case (Cons f fs)
    let ?s = "fat_write_entry p f (fat_write_entry f 0xFFFF s)"
    note L = link_cluster [OF v Cons Suc.prems(2-4)]
    note tf = table_only_fields [OF L(1)]
    have ff: "in_table s f" "f \<noteq> 0" "fat_entry s f = 0" using free_clusters_valid [OF v, of f] Cons by auto
    have step: "alloc_chain (Suc n) first p s = alloc_chain n first f ?s"
      using Cons first ff(2) by (simp add: fat_alloc_cluster_ok [OF v])
    have "chain (fat_entry ?s) first ((xs @ [p]) @ [f])" "\<forall>x \<in> set ((xs @ [p]) @ [f]). in_table ?s x"
      using L(3) Suc.prems(4) ff(1) tf(3) by auto
    from Suc.IH [OF tf(1) this(1) L(4) this(2)] obtain s' where s': "table_only ?s s'"
      "if n \<le> length fs
       then alloc_chain n first f ?s = Some (Some first, s') \<and>
            chain (fat_entry s') first ((xs @ [p]) @ f # take n fs) \<and>
            (\<forall>d. in_table s d \<longrightarrow> d \<notin> set (f # take n fs) \<longrightarrow> fat_entry s' d = fat_entry ?s d)
       else alloc_chain n first f ?s = Some (None, s') \<and>
            (\<forall>d. in_table s d \<longrightarrow> fat_entry s' d = (if d \<in> set ((xs @ [p]) @ [f]) then 0 else fat_entry ?s d))"
      unfolding L(2) tf(3) by blast
    note t = table_only_trans [OF v L(1) s'(1)]
    show ?thesis
    proof (cases "n \<le> length fs")
      case True
      then show ?thesis using s'(2) step Cons t L(5) by (intro exI [of _ s']) simp
    next
      case False
      then show ?thesis using s'(2) step Cons t L(5) ff(3) by (intro exI [of _ s']) auto
    qed
  qed
qed

text \<open>The allocation of a new chain: the first free clusters in order, or nothing.\<close>

lemma alloc_chain_new:
  assumes v: "volume s" and n: "0 < n"
  shows "\<exists>s'. table_only s s' \<and>
    (if n \<le> length (free_clusters s)
     then alloc_chain n 0 0 s = Some (Some (hd (free_clusters s)), s') \<and>
          chain (fat_entry s') (hd (free_clusters s)) (take n (free_clusters s)) \<and>
          (\<forall>d. in_table s d \<longrightarrow> d \<notin> set (take n (free_clusters s)) \<longrightarrow> fat_entry s' d = fat_entry s d)
     else alloc_chain n 0 0 s = Some (None, s') \<and> (\<forall>d. in_table s d \<longrightarrow> fat_entry s' d = fat_entry s d))"
proof -
  obtain m where m: "n = Suc m" using n by (cases n) auto
  show ?thesis
  proof (cases "free_clusters s")
    case Nil
    then show ?thesis using m v by (intro exI [of _ s]) (simp add: fat_alloc_cluster_ok table_only_refl)
  next
    case (Cons f fs)
    let ?s = "fat_write_entry f 0xFFFF s"
    have ff: "in_table s f" "f \<noteq> 0" "fat_entry s f = 0" "\<not> chain_end f" using free_clusters_valid [OF v, of f] Cons by auto
    note t1 = table_only_write [OF v ff(1), of "0xFFFF"]
    note tf = table_only_fields [OF t1]
    have e: "in_table s d \<Longrightarrow> fat_entry ?s d = (if d = f then 0xFFFF else fat_entry s d)" for d
      using fat_read_write [OF v ff(1)] .
    have fs: "free_clusters ?s = fs" by (rule free_clusters_step [OF v t1 Cons]) (use e ff in auto)
    have step: "alloc_chain n 0 0 s = alloc_chain m f f ?s" using Cons ff(2) m by (simp add: fat_alloc_cluster_ok [OF v])
    have c: "chain (fat_entry ?s) f ([] @ [f])" "fat_entry ?s f = 0xFFFF" "\<forall>x \<in> set ([] @ [f]). in_table ?s x"
      using ff(1,4) e tf(3) by auto
    obtain s' where s': "table_only ?s s'"
      "if m \<le> length fs
       then alloc_chain m f f ?s = Some (Some f, s') \<and> chain (fat_entry s') f ([] @ f # take m fs) \<and>
            (\<forall>d. in_table s d \<longrightarrow> d \<notin> set (f # take m fs) \<longrightarrow> fat_entry s' d = fat_entry ?s d)
       else alloc_chain m f f ?s = Some (None, s') \<and>
            (\<forall>d. in_table s d \<longrightarrow> fat_entry s' d = (if d \<in> set ([] @ [f]) then 0 else fat_entry ?s d))"
      using alloc_chain_from [OF tf(1) c, of m] unfolding fs tf(3) by blast
    note t = table_only_trans [OF v t1 s'(1)]
    show ?thesis
    proof (cases "m \<le> length fs")
      case True
      then show ?thesis using s'(2) step Cons t m e by (intro exI [of _ s']) simp
    next
      case False
      then show ?thesis using s'(2) step Cons t m e ff(3) by (intro exI [of _ s']) simp
    qed
  qed
qed

section \<open>The data of a chain\<close>

definition cluster_base :: "fat_state \<Rightarrow> u16 \<Rightarrow> nat" where
  "cluster_base s c = unat (data_start_lba s) + (unat c - 2) * unat (sectors_per_cluster s)"

lemma cluster_end:
  assumes "volume s" "valid_cluster s c"
  shows "cluster_base s c + unat (sectors_per_cluster s) \<le> disk_sectors s"
proof -
  have "unat c - 2 + 1 \<le> unat (total_clusters s)" using assms(2) by (auto simp: valid_cluster_def)
  then have "(unat c - 2 + 1) * unat (sectors_per_cluster s) \<le> unat (total_clusters s) * unat (sectors_per_cluster s)"
    by (rule mult_le_mono1)
  then show ?thesis using volumeD(9) [OF assms(1)] by (simp add: cluster_base_def)
qed

lemma unat_cluster_sector:
  assumes "volume s" "valid_cluster s c" "i < unat (sectors_per_cluster s)"
  shows "unat (cluster_to_lba c s + of_nat i) = cluster_base s c + i"
proof -
  have b: "cluster_base s c + i < 4294967296"
    using cluster_end [OF assms(1,2)] assms(3) disk_sectors_bound [of s] by simp
  have "cluster_to_lba c s = of_nat (cluster_base s c)"
    using assms(2) by (simp add: cluster_to_lba_def cluster_base_def valid_cluster_def of_nat_diff)
  then have "cluster_to_lba c s + of_nat i = of_nat (cluster_base s c + i)" by simp
  then show ?thesis using b by (simp add: unat_of_nat32 del: of_nat_add)
qed

lemma unat_cluster_lbas:
  "volume s \<Longrightarrow> valid_cluster s c \<Longrightarrow>
    map unat (cluster_lbas c s) = [cluster_base s c..<cluster_base s c + unat (sectors_per_cluster s)]"
  by (rule nth_equalityI) (simp_all add: cluster_lbas_def unat_cluster_sector)

lemma cluster_lbas_with [simp]: "cluster_lbas c (with_secs m s) = cluster_lbas c s"
  by (simp add: cluster_lbas_def cluster_to_lba_def)

definition chain_lbas :: "fat_state \<Rightarrow> u16 list \<Rightarrow> u32 list" where
  "chain_lbas s xs = concat (map (\<lambda>c. cluster_lbas c s) xs)"

lemma chain_lbas_simps [simp]:
  "chain_lbas s [] = []" "chain_lbas s (x # xs) = cluster_lbas x s @ chain_lbas s xs"
  "chain_lbas (with_secs m s) xs = chain_lbas s xs"
  by (simp_all add: chain_lbas_def)

lemma in_cluster_lbas:
  assumes "volume s" "valid_cluster s c" "lba \<in> set (cluster_lbas c s)"
  shows "cluster_base s c \<le> unat lba" "unat lba < cluster_base s c + unat (sectors_per_cluster s)"
    "unat lba < disk_sectors s" "unat (data_start_lba s) \<le> unat lba"
proof -
  have "unat lba \<in> set (map unat (cluster_lbas c s))" using assms(3) by simp
  then show "cluster_base s c \<le> unat lba" "unat lba < cluster_base s c + unat (sectors_per_cluster s)"
    unfolding unat_cluster_lbas [OF assms(1,2)] by simp_all
  then show "unat lba < disk_sectors s" "unat (data_start_lba s) \<le> unat lba"
    using cluster_end [OF assms(1,2)] by (simp_all add: cluster_base_def)
qed

lemma clusters_disjoint:
  assumes "volume s" "valid_cluster s c" "valid_cluster s d" "c \<noteq> d"
  shows "set (cluster_lbas c s) \<inter> set (cluster_lbas d s) = {}"
proof -
  let ?n = "unat (sectors_per_cluster s)"
  have "unat c \<noteq> unat d" using assms(4) by (simp add: word_unat_eq_iff)
  moreover have "2 \<le> unat c" "2 \<le> unat d" using assms(2,3) by (auto simp: valid_cluster_def)
  ultimately consider "unat c - 2 + 1 \<le> unat d - 2" | "unat d - 2 + 1 \<le> unat c - 2" by linarith
  then have "cluster_base s c + ?n \<le> cluster_base s d \<or> cluster_base s d + ?n \<le> cluster_base s c"
  proof cases
    case 1
    then have "(unat c - 2 + 1) * ?n \<le> (unat d - 2) * ?n" by (rule mult_le_mono1)
    then show ?thesis by (simp add: cluster_base_def)
  next
    case 2
    then have "(unat d - 2 + 1) * ?n \<le> (unat c - 2) * ?n" by (rule mult_le_mono1)
    then show ?thesis by (simp add: cluster_base_def)
  qed
  then show ?thesis
    using in_cluster_lbas [OF assms(1,2)] in_cluster_lbas [OF assms(1,3)] by fastforce
qed

lemma distinct_cluster_lbas: "volume s \<Longrightarrow> valid_cluster s c \<Longrightarrow> distinct (cluster_lbas c s)"
  by (metis unat_cluster_lbas distinct_map distinct_upt)

lemma distinct_chain_lbas:
  "volume s \<Longrightarrow> distinct xs \<Longrightarrow> \<forall>x \<in> set xs. valid_cluster s x \<Longrightarrow> distinct (chain_lbas s xs)"
proof (induction xs)
  case (Cons x xs)
  have "set (cluster_lbas x s) \<inter> set (chain_lbas s xs) = {}"
    unfolding chain_lbas_def using clusters_disjoint [of s x] Cons.prems by fastforce
  then show ?case using Cons distinct_cluster_lbas [of s x] by simp
qed simp

lemma length_chain_lbas: "length (chain_lbas s xs) = length xs * unat (sectors_per_cluster s)"
  by (induction xs) (simp_all add: cluster_lbas_def)

text \<open>Reading.\<close>

definition bytes_of :: "(u32 \<Rightarrow> u8 list) \<Rightarrow> u32 list \<Rightarrow> u8 list" where
  "bytes_of m lbas = concat (map m lbas)"

lemma bytes_of_simps [simp]:
  "bytes_of m [] = []" "bytes_of m (l # ls) = m l @ bytes_of m ls" "bytes_of m (ls @ ks) = bytes_of m ls @ bytes_of m ks"
  by (simp_all add: bytes_of_def)

lemma length_bytes_of: "\<forall>l. length (m l) = 512 \<Longrightarrow> length (bytes_of m ls) = 512 * length ls"
  by (induction ls) simp_all

lemma read_cluster_ok:
  assumes "drive_ok s" "\<forall>l \<in> set lbas. unat l < disk_sectors s"
  shows "read_cluster lbas n acc s = (True, acc @ take (n - length acc) (bytes_of (secs s) lbas))"
  using assms(2)
proof (induction lbas arbitrary: acc)
  case (Cons l ls)
  show ?case
  proof (cases "length acc < n")
    case True
    then show ?thesis using Cons by (simp add: read_sector [OF assms(1)] diff_diff_add min_def)
  next
    case False
    then show ?thesis by simp
  qed
qed simp

lemma read_chain_ok:
  assumes v: "volume s" and "chain (fat_entry s) c xs" "\<forall>x \<in> set xs. valid_cluster s x"
  shows "read_chain c n acc s = Some (acc @ take (n - length acc) (bytes_of (secs s) (chain_lbas s xs)))"
  using assms(2,3)
proof (induction xs arbitrary: c acc)
  case Nil
  then show ?case by (subst read_chain.simps) simp
next
  case (Cons x xs)
  then have c: "\<not> chain_end c" "x = c" "chain (fat_entry s) (fat_entry s c) xs" "valid_cluster s c" by auto
  have r: "read_cluster (cluster_lbas c s) n acc s = (True, acc @ take (n - length acc) (bytes_of (secs s) (cluster_lbas c s)))"
    by (rule read_cluster_ok [OF volumeD(1) [OF v]]) (use in_cluster_lbas(3) [OF v c(4)] in blast)
  have IH: "read_chain (fat_entry s c) n acc s = Some (acc @ take (n - length acc) (bytes_of (secs s) (chain_lbas s xs)))" for acc
    using Cons.IH [OF c(3)] Cons.prems(2) by simp
  show ?case
    using c(1,2) by (subst read_chain.simps) (simp add: r IH, auto simp: min_def diff_diff_add)
qed

text \<open>Writing: the sectors get the data in pieces, the last one padded with zeros.\<close>

fun write_map :: "u32 list \<Rightarrow> u8 list \<Rightarrow> (u32 \<Rightarrow> u8 list) \<Rightarrow> u32 \<Rightarrow> u8 list" where
  "write_map [] d m = m"
| "write_map (l # ls) d m =
     (if d = [] then m else write_map ls (drop 512 d) (m(l := take 512 d @ replicate (512 - length d) 0)))"

lemma write_map_done [simp]: "write_map ls [] m = m"
  by (cases ls) simp_all

lemma write_map_append: "write_map (ls @ ks) d m = write_map ks (drop (512 * length ls) d) (write_map ls d m)"
  by (induction ls arbitrary: d m) (simp_all add: add.commute)

lemma write_map_frame: "l \<notin> set ls \<Longrightarrow> write_map ls d m l = m l"
  by (induction ls arbitrary: d m) simp_all

lemma write_map_length: "\<forall>l. length (m l) = 512 \<Longrightarrow> length (write_map ls d m l) = 512"
  by (induction ls arbitrary: d m) (simp_all add: min_def)

lemma write_map_bytes:
  "distinct ls \<Longrightarrow> take (length d) (bytes_of (write_map ls d m) ls) = take (512 * length ls) d"
proof (induction ls arbitrary: d m)
  case (Cons l ls)
  let ?m = "m(l := take 512 d @ replicate (512 - length d) 0)"
  show ?case
  proof (cases "d = []")
    case False
    define b where "b = write_map ls (drop 512 d) ?m"
    have "b l = take 512 d @ replicate (512 - length d) 0"
      unfolding b_def using write_map_frame [of l ls "drop 512 d" ?m] Cons.prems by simp
    moreover have "take (length d - 512) (bytes_of b ls) = take (512 * length ls) (drop 512 d)"
      using Cons.IH [of "drop 512 d" ?m] Cons.prems by (simp add: b_def del: fun_upd_apply)
    moreover have "take (512 + 512 * length ls) d = take 512 d @ take (512 * length ls) (drop 512 d)" by (rule take_add)
    moreover have "write_map (l # ls) d m = b" using False by (simp add: b_def)
    ultimately show ?thesis by (simp add: min_def)
  qed simp
qed simp

lemma write_cluster_ok:
  assumes "drive_ok s" "\<forall>l \<in> set lbas. unat l < disk_sectors s" "w \<le> length data"
  shows "write_cluster lbas data w s =
    (True, min (length data) (w + 512 * length lbas), with_secs (write_map lbas (drop w data) (secs s)) s)"
  using assms
proof (induction lbas arbitrary: w s)
  case (Cons l ls)
  let ?c = "take 512 (drop w data)"
  show ?case
  proof (cases "w < length data")
    case True
    have "write_cluster ls data (w + length ?c) (with_secs ((secs s)(l := ?c @ replicate (512 - length ?c) 0)) s) =
      (True, min (length data) (w + length ?c + 512 * length ls),
       with_secs (write_map ls (drop (w + length ?c) data) ((secs s)(l := ?c @ replicate (512 - length ?c) 0))) s)"
      using Cons.IH [of "with_secs ((secs s)(l := ?c @ replicate (512 - length ?c) 0)) s" "w + length ?c"] Cons.prems
      by (simp del: fun_upd_apply)
    moreover have "drop (w + length ?c) data = drop 512 (drop w data)" by (cases "512 \<le> length data - w") (auto simp: add.commute min_def)
    moreover have "min (length data) (w + length ?c + 512 * length ls) = min (length data) (w + 512 * length (l # ls))"
      by (auto simp: min_def)
    moreover have "512 - length ?c = 512 - length (drop w data)" by (simp add: min_def)
    ultimately show ?thesis using True Cons.prems by (simp add: write_sector Let_def del: length_take length_drop fun_upd_apply)
  next
    case False
    then show ?thesis using Cons.prems by simp
  qed
qed simp

lemma entry_above:
  assumes "volume s" "\<forall>lba. length (m lba) = 512" "\<forall>lba. unat lba < unat (root_dir_lba s) \<longrightarrow> m lba = secs s lba" "in_table s d"
  shows "fat_entry (with_secs m s) d = fat_entry s d"
  using fat_read_entry_eq [OF volume_with [OF assms(1,2)], of d] fat_read_entry_eq [OF assms(1,4)] assms fat_sector_root [OF assms(1), of d]
  by (simp add: volumeD(1) in_table_def)

lemma write_chain_ok:
  assumes "volume s" "chain (fat_entry s) c xs" "\<forall>x \<in> set xs. valid_cluster s x" "w \<le> length data"
  shows "write_chain c data w s =
    Some (True, min (length data) (w + 512 * length (chain_lbas s xs)),
      with_secs (write_map (chain_lbas s xs) (drop w data) (secs s)) s)"
  using assms
proof (induction xs arbitrary: c w s)
  case Nil
  then show ?case by (subst write_chain.simps) simp
next
  case (Cons x xs)
  note v = Cons.prems(1)
  have c: "\<not> chain_end c" "x = c" "chain (fat_entry s) (fat_entry s c) xs" "valid_cluster s c" using Cons.prems by auto
  show ?case
  proof (cases "w < length data")
    case True
    let ?m = "write_map (cluster_lbas c s) (drop w data) (secs s)" and ?n = "512 * length (cluster_lbas c s)"
    let ?s = "with_secs ?m s" and ?w = "min (length data) (w + ?n)"
    have r: "write_cluster (cluster_lbas c s) data w s = (True, ?w, ?s)"
      by (rule write_cluster_ok [OF volumeD(1) [OF v]]) (use in_cluster_lbas(3) [OF v c(4)] Cons.prems(4) in auto)
    have l: "\<forall>lba. length (?m lba) = 512" using volumeD(10) [OF v] by (simp add: write_map_length)
    have v': "volume ?s" by (rule volume_with [OF v l])
    have "\<forall>lba. unat lba < unat (root_dir_lba s) \<longrightarrow> ?m lba = secs s lba"
      using in_cluster_lbas(4) [OF v c(4)] volumeD(6) [OF v] by (fastforce intro!: write_map_frame)
    then have e: "in_table s d \<Longrightarrow> fat_entry ?s d = fat_entry s d" for d by (rule entry_above [OF v l])
    have it: "\<forall>y \<in> set (c # xs). in_table s y" using Cons.prems(3) c(2) valid_in_table [OF v] by auto
    have ch: "chain (fat_entry ?s) (fat_entry ?s c) xs"
      using c(3) it by (subst chain_cong [of _ _ "fat_entry s"]) (auto simp: e)
    have "write_chain (fat_entry ?s c) data ?w ?s =
      Some (True, min (length data) (?w + 512 * length (chain_lbas s xs)),
        with_secs (write_map (chain_lbas s xs) (drop ?w data) ?m) s)"
      using Cons.IH [OF v' ch _ min.cobounded1] Cons.prems(3) volumeD(1) [OF v] by simp
    moreover have "drop ?w data = drop ?n (drop w data)" by (auto simp: min_def add.commute)
    moreover have "min (length data) (?w + 512 * length (chain_lbas s xs)) = min (length data) (w + 512 * length (chain_lbas s (x # xs)))"
      using c(2) by (auto simp: min_def)
    ultimately show ?thesis
      using True c(1,2) by (subst write_chain.simps) (simp add: r write_map_append)
  next
    case False
    then show ?thesis using Cons.prems by (subst write_chain.simps) (simp del: chain_lbas_simps)
  qed
qed

text \<open>Data written to a chain is read back.\<close>

lemma chain_roundtrip:
  assumes "volume s" "chain (fat_entry s) c xs" "\<forall>x \<in> set xs. valid_cluster s x"
    and "length data \<le> 512 * length (chain_lbas s xs)"
  defines "s' \<equiv> with_secs (write_map (chain_lbas s xs) data (secs s)) s"
  shows "volume s'" "write_chain c data 0 s = Some (True, length data, s')"
    and "\<forall>lba. unat lba < unat (data_start_lba s) \<longrightarrow> secs s' lba = secs s lba"
    and "take (length data) (bytes_of (secs s') (chain_lbas s xs)) = data"
proof -
  note v = assms(1)
  have l: "\<forall>lba. length (write_map (chain_lbas s xs) data (secs s) lba) = 512"
    using volumeD(10) [OF v] by (simp add: write_map_length)
  show "volume s'" unfolding s'_def by (rule volume_with [OF v l])
  show "write_chain c data 0 s = Some (True, length data, s')"
    using write_chain_ok [OF assms(1-3), of 0 data] assms(4) by (simp add: s'_def min_def)
  show "\<forall>lba. unat lba < unat (data_start_lba s) \<longrightarrow> secs s' lba = secs s lba"
  proof (intro allI impI)
    fix lba :: u32 assume "unat lba < unat (data_start_lba s)"
    then have "lba \<notin> set (chain_lbas s xs)"
      using in_cluster_lbas(4) [OF v] assms(3) by (fastforce simp: chain_lbas_def)
    then show "secs s' lba = secs s lba" by (simp add: s'_def volumeD(1) [OF v] write_map_frame)
  qed
  have "distinct (chain_lbas s xs)" by (rule distinct_chain_lbas [OF v chain_distinct [OF assms(2)] assms(3)])
  from write_map_bytes [OF this, of data "secs s"] assms(4)
  show "take (length data) (bytes_of (secs s') (chain_lbas s xs)) = data"
    by (simp add: s'_def volumeD(1) [OF v])
qed

end
