(* ===== verification/FatDir.thy ===== *)
theory FatDir
  imports FatTable
begin

text \<open>
  Names and directories of \<^verbatim>\<open>src/fat16.c\<close>: short and long names survive their encoding in
  directory entries, and a file written to the root directory is found and read back.
\<close>

section \<open>Characters\<close>

lemma unat_byt: "unat (byt c) = of_char c"
proof -
  have "byt c = of_nat (of_char c)" by (simp add: byt_def of_nat_of_char)
  moreover have "(of_char c :: nat) < 256" using of_char_mod_256 [of c] by (metis mod_less_divisor zero_less_numeral)
  ultimately show ?thesis by (simp add: unat_of_nat)
qed

lemma chr_byt [simp]: "chr (byt c) = c"
  by (simp add: chr_def unat_byt)

lemma byt_eq [simp]: "byt c = byt d \<longleftrightarrow> c = d"
  by (metis chr_byt)

lemma byt_NUL [simp]: "byt c = 0 \<longleftrightarrow> c = NUL"
proof -
  have "byt NUL = 0" by (simp add: byt_def)
  then show ?thesis using byt_eq [of c NUL] by simp
qed

lemma chr_0 [simp]: "chr 0 = NUL"
  using chr_byt [of NUL] by (metis byt_NUL)

lemma byt_space [simp]: "byt c = 32 \<longleftrightarrow> c = CHR '' ''"
proof -
  have "byt (CHR '' '') = 32" by (simp add: byt_def)
  then show ?thesis using byt_eq [of c "CHR '' ''"] by simp
qed

text \<open>The characters below 128, on which \<^verbatim>\<open>char\<close> and \<^verbatim>\<open>uint8_t\<close> agree.\<close>

definition ascii :: "string \<Rightarrow> bool" where
  "ascii f \<longleftrightarrow> (\<forall>c \<in> set f. 0 < uchar c \<and> uchar c < 128)"

lemma ascii_NUL: "ascii f \<Longrightarrow> NUL \<notin> set f"
  by (auto simp: ascii_def uchar_def)

lemma uchar_char_of: "0 \<le> n \<Longrightarrow> n < 256 \<Longrightarrow> uchar (char_of n) = n"
  by (simp add: uchar_def)

lemma uchar_range: "0 \<le> uchar c" "uchar c < 256"
proof -
  have u: "uchar c = of_char c mod 256" by (simp add: uchar_def)
  show "0 \<le> uchar c" "uchar c < 256" unfolding u by (rule pos_mod_sign pos_mod_bound, simp)+
qed

lemma tolower_uchar: "uchar (tolower c) = (if 65 \<le> uchar c \<and> uchar c \<le> 90 then uchar c + 32 else uchar c)"
  using uchar_range [of c] by (simp add: tolower_def schar_def uchar_char_of)

lemma toupper_uchar: "uchar (toupper c) = (if 97 \<le> uchar c \<and> uchar c \<le> 122 then uchar c - 32 else uchar c)"
  using uchar_range [of c] by (simp add: toupper_def schar_def uchar_char_of)

lemma tolower_toupper [simp]: "tolower (toupper c) = tolower c" "tolower (tolower c) = tolower c"
  by (subst uchar_eq [symmetric], simp add: tolower_uchar toupper_uchar)+

lemma NUL_uchar: "c = NUL \<longleftrightarrow> uchar c = 0"
proof -
  have "uchar NUL = 0" by (simp add: uchar_def)
  then show ?thesis using uchar_eq [of c NUL] by simp
qed

lemma case_NUL [simp]: "tolower c = NUL \<longleftrightarrow> c = NUL" "toupper c = NUL \<longleftrightarrow> c = NUL"
  by (auto simp: NUL_uchar tolower_uchar toupper_uchar split: if_splits)

lemma case_NUL' [simp]: "tolower NUL = NUL" "toupper NUL = NUL" "NUL = tolower c \<longleftrightarrow> c = NUL"
  by (simp_all only: case_NUL) (metis case_NUL(1))

lemma toupper_space [simp]: "toupper c = CHR '' '' \<longleftrightarrow> c = CHR '' ''"
proof -
  have "uchar (CHR '' '') = 32" by (simp add: uchar_def)
  then show ?thesis using uchar_eq [of c "CHR '' ''"] uchar_eq [of "toupper c" "CHR '' ''"]
    by (auto simp: toupper_uchar split: if_splits)
qed

lemma casecmp_eq: "casecmp a b \<longleftrightarrow> map tolower a = map tolower b"
  by (induction a b rule: casecmp.induct) auto

section \<open>Short names\<close>

lemma takeWhile_pad:
  "32 \<notin> set xs \<Longrightarrow> length xs \<le> n \<Longrightarrow> takeWhile (\<lambda>b. b \<noteq> 32) (pad_name n xs) = xs"
  by (cases "n - length xs") (auto simp: pad_name_def takeWhile_append2 takeWhile_append)

lemma length_pad [simp]: "length (pad_name n xs) = n"
  by (simp add: pad_name_def)

lemma pad_hd: "xs \<noteq> [] \<Longrightarrow> 0 < n \<Longrightarrow> pad_name n xs ! 0 = xs ! 0"
  by (cases xs) (simp_all add: pad_name_def nth_append)

lemma space_notin: "CHR '' '' \<notin> set xs \<Longrightarrow> 32 \<notin> set (map (byt \<circ> toupper) xs)"
proof
  assume "CHR '' '' \<notin> set xs" "32 \<in> set (map (byt \<circ> toupper) xs)"
  then obtain x where "x \<in> set xs" "byt (toupper x) = 32" by auto
  then have "x = CHR '' ''" by simp
  with \<open>x \<in> set xs\<close> \<open>CHR '' '' \<notin> set xs\<close> show False by simp
qed

lemma strcasecmp83_pad:
  assumes "set nm \<inter> {NUL, CHR '' ''} = {}" "length nm \<le> 8" "set ext \<inter> {NUL, CHR '' ''} = {}" "length ext \<le> 3"
  shows "strcasecmp83 (pad_name 8 (map (byt \<circ> toupper) nm) @ pad_name 3 (map (byt \<circ> toupper) ext) @ rest) f
    \<longleftrightarrow> map tolower (nm @ (if ext = [] then [] else CHR ''.'' # ext)) = map tolower (c_str f)"
proof -
  let ?n = "pad_name 8 (map (byt \<circ> toupper) nm)" and ?x = "pad_name 3 (map (byt \<circ> toupper) ext)"
  have n: "takeWhile (\<lambda>b. b \<noteq> 32) (take 8 (?n @ ?x @ rest)) = map (byt \<circ> toupper) nm"
    using takeWhile_pad [OF space_notin, of nm 8] assms by auto
  have x: "takeWhile (\<lambda>b. b \<noteq> 32) (take 3 (drop 8 (?n @ ?x @ rest))) = map (byt \<circ> toupper) ext"
    using takeWhile_pad [OF space_notin, of ext 3] assms by auto
  have h: "(?n @ ?x @ rest) ! 8 \<noteq> 32 \<longleftrightarrow> ext \<noteq> []"
  proof -
    have "(?n @ ?x @ rest) ! 8 = ?x ! 0" by (simp add: nth_append)
    moreover have "ext \<noteq> [] \<Longrightarrow> ?x ! 0 = byt (toupper (hd ext))" by (simp add: pad_hd hd_conv_nth)
    moreover have "ext \<noteq> [] \<Longrightarrow> hd ext \<noteq> CHR '' ''" using assms(3) by (cases ext) auto
    moreover have "pad_name 3 [] ! 0 = 32" by (simp add: pad_name_def)
    ultimately show ?thesis by (cases "ext = []") simp_all
  qed
  have A: "NUL \<notin> set (map tolower nm)" "NUL \<notin> set (map tolower ext)" using assms(1,3) by auto
  have "c_str (map tolower nm) = map tolower nm" "c_str (map tolower nm @ CHR ''.'' # map tolower ext) = map tolower nm @ CHR ''.'' # map tolower ext"
    using c_str_id [OF A(1)] c_str_append [OF A(1), of "CHR ''.'' # map tolower ext"] c_str_id [OF A(2)] by simp_all
  then show ?thesis
    unfolding strcasecmp83_def Let_def n x h by (simp add: casecmp_eq comp_def)
qed

lemma length_takeWhile_less: "length (takeWhile P xs) < length xs \<longleftrightarrow> (\<exists>x \<in> set xs. \<not> P x)"
  by (induction xs) auto

lemma last_dot_None: "NUL \<notin> set f \<Longrightarrow> last_dot f = None \<longleftrightarrow> CHR ''.'' \<notin> set f"
  using length_takeWhile_less [of "\<lambda>c. c \<noteq> CHR ''.''" "rev f"] by (auto simp: last_dot_def Let_def c_str_id)

lemma last_dot_Some:
  assumes "NUL \<notin> set f" "last_dot f = Some d"
  shows "d < length f" "f = take d f @ CHR ''.'' # drop (d + 1) f" "CHR ''.'' \<notin> set (drop (d + 1) f)"
proof -
  let ?t = "takeWhile (\<lambda>c. c \<noteq> CHR ''.'') (rev f)"
  have lt: "length ?t < length (rev f)" and d: "d = length f - 1 - length ?t"
    using assms by (auto simp: last_dot_def Let_def c_str_id split: if_splits)
  show df: "d < length f" using lt d by simp
  have "rev f ! length ?t = CHR ''.''" using nth_length_takeWhile [OF lt] by simp
  moreover have "rev f ! length ?t = f ! d" using lt d by (simp add: rev_nth)
  ultimately show "f = take d f @ CHR ''.'' # drop (d + 1) f" using df id_take_nth_drop [OF df] by simp
  have "d + 1 = length f - length ?t" using lt d by simp
  then have "drop (d + 1) f = rev (take (length ?t) (rev f))" by (simp only: take_rev rev_rev_ident)
  also have "take (length ?t) (rev f) = ?t" by (metis takeWhile_eq_take)
  finally show "CHR ''.'' \<notin> set (drop (d + 1) f)" by (auto dest: set_takeWhileD)
qed

text \<open>A name that needs no long entry matches its own short entry.\<close>

lemma encode_83_match:
  assumes "NUL \<notin> set f" "f \<noteq> []" "\<not> needs_lfn f" "last f \<noteq> CHR ''.''"
  shows "strcasecmp83 (fst (encode_83_name f) @ snd (encode_83_name f) @ rest) f"
proof -
  have sp: "CHR '' '' \<notin> set f" using assms(1,3) by (auto simp: needs_lfn_def Let_def c_str_id lfn_char_def split: if_splits)
  show ?thesis
  proof (cases "last_dot f")
    case None
    then have "length f \<le> 8" using assms(1,3) by (auto simp: needs_lfn_def Let_def c_str_id split: if_splits)
    then show ?thesis
      using strcasecmp83_pad [of f "[]" rest f] assms(1) sp None by (simp add: encode_83_name_def Let_def c_str_id)
  next
    case (Some d)
    note D = last_dot_Some [OF assms(1) Some]
    have l: "d \<le> 8" "length (drop (d + 1) f) \<le> 3"
      using assms(1,3) Some by (auto simp: needs_lfn_def Let_def c_str_id split: if_splits)
    have ne: "drop (d + 1) f \<noteq> []"
    proof
      assume "drop (d + 1) f = []"
      then have "last f = CHR ''.''" using D(2) by (metis last_snoc)
      then show False using assms(4) by simp
    qed
    have ns: "set (take d f) \<inter> {NUL, CHR '' ''} = {}" "set (drop (d + 1) f) \<inter> {NUL, CHR '' ''} = {}"
      using assms(1) sp by (auto dest: in_set_takeD in_set_dropD)
    have "map tolower f = map tolower (take d f @ CHR ''.'' # drop (d + 1) f)" using D(2) by metis
    then have "strcasecmp83 (pad_name 8 (map (byt \<circ> toupper) (take d f)) @ pad_name 3 (map (byt \<circ> toupper) (drop (d + 1) f)) @ rest) f"
      using strcasecmp83_pad [OF ns(1) _ ns(2) l(2), of rest f] l(1) ne assms(1) by (simp add: c_str_id)
    then show ?thesis using Some assms(1) by (simp add: encode_83_name_def Let_def c_str_id)
  qed
qed

section \<open>Long names\<close>

definition lfn_byte :: "string \<Rightarrow> nat \<Rightarrow> u8" where
  "lfn_byte f i = (if i < length f then byt (f ! i) else if i = length f then 0 else 0xFF)"

lemma lfn_unit_nth: "lfn_unit f i = [lfn_byte f i, if i \<le> length f then 0 else 0xFF]"
  by (simp add: lfn_unit_def lfn_byte_def)

lemma lfn_entry_fields:
  "lfn_entry f ck num n ! 0 = of_nat (num - n) OR (if n = 0 then 0x40 else 0)"
  "lfn_entry f ck num n ! 11 = FAT_ATTR_LFN" "length (lfn_entry f ck num n) = 32"
  "lfn_extract_chars (lfn_entry f ck num n) = map (\<lambda>i. lfn_byte f ((num - n - 1) * 13 + i)) [0..<13]"
  by (simp_all add: lfn_entry_def lfn_unit_nth lfn_extract_chars_def upt_rec Let_def del: upt_Suc) (simp add: eval_nat_numeral)

lemma lfn_store_ok:
  assumes "i + length (takeWhile (\<lambda>c. c \<noteq> 0 \<and> c \<noteq> 0xFF) cs) < FAT16_MAX_NAME" "length b = FAT16_MAX_NAME"
  shows "lfn_store cs i b = take i b @ takeWhile (\<lambda>c. c \<noteq> 0 \<and> c \<noteq> 0xFF) cs
     @ drop (i + length (takeWhile (\<lambda>c. c \<noteq> 0 \<and> c \<noteq> 0xFF) cs)) b"
  using assms
proof (induction cs i b rule: lfn_store.induct)
  case (2 c cs i b)
  show ?case
  proof (cases "c = 0 \<or> c = 0xFF")
    case False
    then have lt: "i < FAT16_MAX_NAME - 1" "i < length b" using "2.prems" by auto
    then have "lfn_store cs (i + 1) (b[i := c]) = take (i + 1) (b[i := c]) @ takeWhile (\<lambda>c. c \<noteq> 0 \<and> c \<noteq> 0xFF) cs
       @ drop (i + 1 + length (takeWhile (\<lambda>c. c \<noteq> 0 \<and> c \<noteq> 0xFF) cs)) (b[i := c])"
      using 2 False by simp
    moreover have "take (i + 1) (b[i := c]) = take i b @ [c]" using lt(2) by (simp add: take_Suc_conv_app_nth)
    ultimately show ?thesis using False lt by simp
  qed auto
qed simp

lemma takeWhile_map_upt:
  assumes "k \<le> n" "\<forall>i < k. P (g i)" "k < n \<Longrightarrow> \<not> P (g k)"
  shows "takeWhile P (map g [0..<n]) = map g [0..<k]"
proof -
  have "map g [0..<n] = map g [0..<k] @ map g [k..<n]" using assms(1) by (metis le_iff_add map_append upt_add_eq_append zero_le)
  moreover have "takeWhile P (map g [k..<n]) = []" using assms(1,3) by (cases "k < n") (auto simp: upt_conv_Cons)
  moreover have "takeWhile P (map g [0..<k] @ map g [k..<n]) = map g [0..<k] @ takeWhile P (map g [k..<n])"
    by (rule takeWhile_append2) (use assms(2) in auto)
  ultimately show ?thesis by simp
qed

lemma lfn_seq:
  assumes "1 \<le> q" "q \<le> 10"
  shows "unat ((of_nat q OR (if b then 0x40 else 0) :: u8) AND 0x1F) = q"
    "((of_nat q OR (if b then 0x40 else 0) :: u8) AND 0x40 = 0) = (\<not> b)"
    "(of_nat q OR (if b then 0x40 else 0) :: u8) \<noteq> 0" "(of_nat q OR (if b then 0x40 else 0) :: u8) \<noteq> 0xE5"
proof -
  have "q = 1 \<or> q = 2 \<or> q = 3 \<or> q = 4 \<or> q = 5 \<or> q = 6 \<or> q = 7 \<or> q = 8 \<or> q = 9 \<or> q = 10" using assms by arith
  then show "unat ((of_nat q OR (if b then 0x40 else 0) :: u8) AND 0x1F) = q"
    "((of_nat q OR (if b then 0x40 else 0) :: u8) AND 0x40 = 0) = (\<not> b)"
    "(of_nat q OR (if b then 0x40 else 0) :: u8) \<noteq> 0" "(of_nat q OR (if b then 0x40 else 0) :: u8) \<noteq> 0xE5"
    by (elim disjE; simp)+
qed

lemma ascii_byt: "ascii f \<Longrightarrow> c \<in> set f \<Longrightarrow> byt c \<noteq> 0 \<and> byt c \<noteq> 0xFF \<and> byt c \<noteq> 0xE5"
proof -
  assume a: "ascii f" "c \<in> set f"
  then have "uchar c < 128" by (simp add: ascii_def)
  then have "unat (byt c) < 128" unfolding unat_byt uchar_def using of_nat_of_char [of c, where ?'a = int] by linarith
  then show ?thesis using a ascii_NUL [of f] by auto
qed

text \<open>The buffer after the entries from the end of the name down to position \<open>lo\<close>.\<close>

definition name_buf :: "string \<Rightarrow> nat \<Rightarrow> u8 list" where
  "name_buf f lo = map (\<lambda>i. if lo \<le> i \<and> i < length f then byt (f ! i) else 0) [0..<FAT16_MAX_NAME]"

lemma lfn_collect_entry:
  assumes f: "ascii f" "length f < FAT16_MAX_NAME" and num: "(num - 1) * 13 < length f" "length f \<le> num * 13" "n < num" "num \<le> 10"
    and st: "n = 0 \<or> st = \<lparr>lfn_buf = name_buf f ((num - n) * 13), collecting = True\<rparr>"
  shows "lfn_collect (lfn_entry f ck num n) st = \<lparr>lfn_buf = name_buf f ((num - Suc n) * 13), collecting = True\<rparr>"
proof -
  let ?e = "lfn_entry f ck num n" and ?base = "(num - n - 1) * 13"
  let ?w = "map (\<lambda>i. byt (f ! (?base + i))) [0..<min 13 (length f - ?base)]"
  have q: "1 \<le> num - n" "num - n \<le> 10" using num by auto
  have nb: "num - n - 1 \<le> num - 1" by simp
  then have "?base \<le> (num - 1) * 13" by (rule mult_le_mono1)
  then have bl: "?base < length f" using num(1) by simp
  have w: "takeWhile (\<lambda>c. c \<noteq> 0 \<and> c \<noteq> 0xFF) (lfn_extract_chars ?e) = ?w"
    unfolding lfn_entry_fields(4)
  proof (subst takeWhile_map_upt [where k = "min 13 (length f - ?base)"])
    show "\<forall>i < min 13 (length f - ?base). lfn_byte f (?base + i) \<noteq> 0 \<and> lfn_byte f (?base + i) \<noteq> 0xFF"
      using ascii_byt [OF f(1)] by (auto simp: lfn_byte_def)
  qed (use bl in \<open>auto simp: lfn_byte_def\<close>)
  have B: "lfn_store (lfn_extract_chars ?e) ?base (name_buf f (?base + 13)) = name_buf f ?base"
  proof (subst lfn_store_ok)
    show "?base + length (takeWhile (\<lambda>c. c \<noteq> 0 \<and> c \<noteq> 0xFF) (lfn_extract_chars ?e)) < FAT16_MAX_NAME"
      unfolding w using bl f(2) by simp
    show "length (name_buf f (?base + 13)) = FAT16_MAX_NAME" by (simp add: name_buf_def)
    show "take ?base (name_buf f (?base + 13)) @ takeWhile (\<lambda>c. c \<noteq> 0 \<and> c \<noteq> 0xFF) (lfn_extract_chars ?e) @
      drop (?base + length (takeWhile (\<lambda>c. c \<noteq> 0 \<and> c \<noteq> 0xFF) (lfn_extract_chars ?e))) (name_buf f (?base + 13)) = name_buf f ?base"
      unfolding w using bl f(2) by (intro nth_equalityI) (auto simp: name_buf_def nth_append min_def)
  qed
  have st': "(if ?e ! 0 AND 0x40 \<noteq> 0 then \<lparr>lfn_buf = replicate FAT16_MAX_NAME 0, collecting = True\<rparr> else st)
    = \<lparr>lfn_buf = name_buf f (?base + 13), collecting = True\<rparr>"
  proof (cases "n = 0")
    case True
    have "?base + 13 = num * 13" using True q by simp
    then have "name_buf f (?base + 13) = replicate FAT16_MAX_NAME 0"
      using num(2) by (intro nth_equalityI) (auto simp: name_buf_def)
    then show ?thesis using True q by (simp add: lfn_entry_fields(1) lfn_seq(2))
  next
    case False
    have "?base + 13 = (num - n) * 13" using q by simp
    then show ?thesis using False st lfn_seq(2) [OF q, of False] by (simp add: lfn_entry_fields(1))
  qed
  have "unat (?e ! 0 AND 0x1F) = num - n" unfolding lfn_entry_fields(1) by (rule lfn_seq(1) [OF q])
  then show ?thesis unfolding lfn_collect_def Let_def st' using B q by simp
qed

lemma build_lfn_eq:
  assumes "ascii f" "length f < FAT16_MAX_NAME" "f \<noteq> []"
  defines "num \<equiv> (length f + 12) div 13"
  shows "build_lfn_entries f ck 20 = map (lfn_entry f ck num) [0..<num]"
    and "(num - 1) * 13 < length f" "length f \<le> num * 13" "0 < num" "num \<le> 10"
proof -
  have l: "1 \<le> length f" "length f \<le> 127" using assms(2,3) by (cases f; auto simp: FAT16_MAX_NAME_def)+
  have k: "length f + 12 = num * 13 + (length f + 12) mod 13" "(length f + 12) mod 13 < 13"
    unfolding num_def by simp_all
  show "(num - 1) * 13 < length f" "length f \<le> num * 13" "0 < num" "num \<le> 10" using k l by (cases num; simp)+
  then show "build_lfn_entries f ck 20 = map (lfn_entry f ck num) [0..<num]"
    by (simp add: build_lfn_entries_def Let_def c_str_id ascii_NUL assms(1) num_def [symmetric])
qed

lemma build_lfn_marks:
  assumes "ascii f" "length f < FAT16_MAX_NAME" "f \<noteq> []"
  shows "\<forall>x \<in> set (build_lfn_entries f ck 20). length x = 32 \<and> x ! 0 \<noteq> 0 \<and> x ! 0 \<noteq> 0xE5 \<and> x ! 11 = FAT_ATTR_LFN"
proof
  note B = build_lfn_eq [OF assms]
  fix x assume "x \<in> set (build_lfn_entries f ck 20)"
  then obtain i where "x = lfn_entry f ck ((length f + 12) div 13) i" "i < (length f + 12) div 13" unfolding B(1) by auto
  then show "length x = 32 \<and> x ! 0 \<noteq> 0 \<and> x ! 0 \<noteq> 0xE5 \<and> x ! 11 = FAT_ATTR_LFN"
    using lfn_seq(3,4) [of "(length f + 12) div 13 - i" "i = 0"] B(5) by (simp add: lfn_entry_fields)
qed

lemma lfn_collect_all:
  assumes "ascii f" "length f < FAT16_MAX_NAME" "f \<noteq> []"
  shows "fold lfn_collect (build_lfn_entries f ck 20) st = \<lparr>lfn_buf = name_buf f 0, collecting = True\<rparr>"
proof -
  let ?num = "(length f + 12) div 13"
  note B = build_lfn_eq [OF assms]
  have "0 < j \<Longrightarrow> j \<le> ?num \<Longrightarrow>
    fold lfn_collect (map (lfn_entry f ck ?num) [0..<j]) st = \<lparr>lfn_buf = name_buf f ((?num - j) * 13), collecting = True\<rparr>" for j
  proof (induction j)
    case (Suc j)
    then have "j = 0 \<or> fold lfn_collect (map (lfn_entry f ck ?num) [0..<j]) st = \<lparr>lfn_buf = name_buf f ((?num - j) * 13), collecting = True\<rparr>"
      by auto
    then show ?case using lfn_collect_entry [OF assms(1,2) B(2,3) _ B(5), of j _ ck] Suc.prems(2) by simp
  qed simp
  from this [OF B(4) order.refl] show ?thesis unfolding B(1) by simp
qed

lemma name_buf_eq:
  "length f < FAT16_MAX_NAME \<Longrightarrow> name_buf f 0 = map byt f @ replicate (FAT16_MAX_NAME - length f) 0"
  by (rule nth_equalityI) (auto simp: name_buf_def nth_append)

lemma lfn_name_buf:
  assumes "ascii f" "length f < FAT16_MAX_NAME"
  shows "lfn_name (name_buf f 0) = f"
proof -
  have "\<forall>i < length (name_buf f 0). name_buf f 0 ! i \<noteq> 0xFF"
    using ascii_byt [OF assms(1)] by (auto simp: name_buf_def)
  then have "List.find (\<lambda>i. name_buf f 0 ! i = 0xFF) [0..<length (name_buf f 0)] = None"
    by (simp add: find_None_iff)
  moreover have "c_str (map chr (name_buf f 0)) = f"
    unfolding name_buf_eq [OF assms(2)] using ascii_NUL [OF assms(1)]
    by (cases "FAT16_MAX_NAME - length f") (simp_all add: c_str_append c_str_id comp_def)
  ultimately show ?thesis by (simp add: lfn_name_def)
qed

lemma name_buf_hd: "ascii f \<Longrightarrow> length f < FAT16_MAX_NAME \<Longrightarrow> f \<noteq> [] \<Longrightarrow> name_buf f 0 ! 0 \<noteq> 0"
  using ascii_NUL [of f] by (cases f) (auto simp: name_buf_def)

section \<open>The entries of a directory\<close>

type_synonym dirent = "u32 \<times> nat \<times> u8 list"

definition sector_dirents :: "u32 \<Rightarrow> u8 list \<Rightarrow> dirent list" where
  "sector_dirents l b = map (\<lambda>i. (l, i * 32, dir_entry b i)) [0..<16]"

definition dirents :: "(u32 \<Rightarrow> u8 list) \<Rightarrow> u32 list \<Rightarrow> dirent list" where
  "dirents m lbas = concat (map (\<lambda>l. sector_dirents l (m l)) lbas)"

lemma dirents_simps [simp]: "dirents m [] = []" "dirents m (l # ls) = sector_dirents l (m l) @ dirents m ls"
  by (simp_all add: dirents_def)

lemma length_dirents [simp]: "length (sector_dirents l b) = 16" "length (dirents m ls) = 16 * length ls"
  by (simp add: sector_dirents_def) (induction ls, simp_all add: sector_dirents_def)


text \<open>Looking for a name in the list of entries.\<close>

fun scan_dir :: "dirent list \<Rightarrow> string \<Rightarrow> lfn_scan \<Rightarrow> (u8 list \<times> u32 \<times> nat) option + lfn_scan" where
  "scan_dir [] name st = Inr st"
| "scan_dir ((l, off, e) # ds) name st =
     (if e ! 0 = 0 then Inl None
      else if e ! 0 = 0xE5 then scan_dir ds name (st\<lparr>collecting := False\<rparr>)
      else if e ! 11 = FAT_ATTR_LFN then scan_dir ds name (lfn_collect e st)
      else if e ! 11 AND FAT_ATTR_VOLUME \<noteq> 0 then scan_dir ds name (st\<lparr>collecting := False\<rparr>)
      else if (collecting st \<and> lfn_buf st ! 0 \<noteq> 0 \<and> casecmp (lfn_name (lfn_buf st)) (c_str name)) \<or> strcasecmp83 e name
      then Inl (Some (e, l, off))
      else scan_dir ds name lfn_clear)"

lemma scan_dir_append:
  "scan_dir (xs @ ys) name st = (case scan_dir xs name st of Inl r \<Rightarrow> Inl r | Inr st \<Rightarrow> scan_dir ys name st)"
  by (induction xs name st rule: scan_dir.induct) auto


lemma scan_entries_dir:
  "scan_dir (map (\<lambda>(i, e). (l, i * 32, e)) es) name st =
     (case scan_entries es name st of
        Inl None \<Rightarrow> Inl None | Inl (Some (e, off)) \<Rightarrow> Inl (Some (e, l, off)) | Inr st \<Rightarrow> Inr st)"
  by (induction es name st rule: scan_entries.induct) simp_all

lemma sector_dirents_zip: "sector_dirents l b = map (\<lambda>(i, e). (l, i * 32, e)) (zip [0..<16] (sector_entries b))"
  by (rule nth_equalityI) (simp_all add: sector_dirents_def sector_entries_def)

lemma scan_sectors_dir:
  assumes "drive_ok s" "\<forall>l \<in> set lbas. unat l < disk_sectors s"
  shows "scan_sectors lbas name st s = scan_dir (dirents (secs s) lbas) name st"
  using assms(2)
proof (induction lbas arbitrary: st)
  case (Cons l ls)
  then show ?case
    by (simp add: read_sector [OF assms(1)] scan_dir_append sector_dirents_zip scan_entries_dir split: sum.splits option.splits)
qed simp








section \<open>Writing entries\<close>











section \<open>New entries\<close>

lemma sfn_entry_fields:
  assumes "length (fst sn) = 8" "length (snd sn) = 3"
  shows "length (sfn_entry sn a c z) = 32" "sfn_entry sn a c z ! 0 = fst sn ! 0" "entry_attr (sfn_entry sn a c z) = a"
    "sfn_entry sn a c z ! 11 = a" "entry_cluster (sfn_entry sn a c z) = c" "entry_size (sfn_entry sn a c z) = z"
proof -
  have c: "ucast (ucast c :: u8) OR push_bit 8 (ucast (ucast (drop_bit 8 c) :: u8)) = c"
    by (rule bit_word_eqI) (auto simp: bit_simps)
  have z: "ucast (ucast (ucast z :: u8) OR push_bit 8 (ucast (ucast (drop_bit 8 z) :: u8)) :: u16) OR
    push_bit 16 (ucast (ucast (ucast (drop_bit 16 z) :: u8) OR push_bit 8 (ucast (ucast (drop_bit 24 z) :: u8)) :: u16)) = z"
  proof (rule bit_word_eqI)
    fix n assume "n < LENGTH(32)"
    then show "bit (ucast (ucast (ucast z :: u8) OR push_bit 8 (ucast (ucast (drop_bit 8 z) :: u8)) :: u16) OR
      push_bit 16 (ucast (ucast (ucast (drop_bit 16 z) :: u8) OR push_bit 8 (ucast (ucast (drop_bit 24 z) :: u8)) :: u16)) :: u32) n = bit z n"
      by (cases "n < 16") (auto simp: bit_simps)
  qed
  show "length (sfn_entry sn a c z) = 32" "sfn_entry sn a c z ! 0 = fst sn ! 0" "entry_attr (sfn_entry sn a c z) = a"
    "sfn_entry sn a c z ! 11 = a" "entry_cluster (sfn_entry sn a c z) = c" "entry_size (sfn_entry sn a c z) = z"
    using assms c z by (simp_all add: sfn_entry_def entry_attr_def entry_cluster_def entry_size_def get16_def get32_def nth_append)
qed

definition good_short :: "u8 list \<times> u8 list \<Rightarrow> bool" where
  "good_short sn \<longleftrightarrow> length (fst sn) = 8 \<and> length (snd sn) = 3 \<and> fst sn ! 0 \<noteq> 0 \<and> fst sn ! 0 \<noteq> 0xE5"

lemma ascii_upper: "ascii f \<Longrightarrow> c \<in> set f \<Longrightarrow> byt (toupper c) \<noteq> 0 \<and> byt (toupper c) \<noteq> 0xE5"
proof -
  assume a: "ascii f" "c \<in> set f"
  then have "ascii [toupper c]" by (auto simp: ascii_def toupper_uchar)
  then show ?thesis using ascii_byt [of "[toupper c]" "toupper c"] by simp
qed


lemma encode_83_good:
  assumes "ascii f" "f \<noteq> []" "\<not> needs_lfn f"
  shows "good_short (encode_83_name f)"
proof -
  have n: "NUL \<notin> set f" by (rule ascii_NUL [OF assms(1)])
  obtain c g where f: "f = c # g" using assms(2) by (cases f) auto
  have h: "byt (toupper c) \<noteq> 0 \<and> byt (toupper c) \<noteq> 0xE5" by (rule ascii_upper [OF assms(1)]) (simp add: f)
  show ?thesis
  proof (cases "last_dot f")
    case None
    then show ?thesis using h n by (simp add: encode_83_name_def Let_def c_str_id good_short_def f pad_hd)
  next
    case (Some d)
    then have "0 < d" using assms(3) n by (auto simp: needs_lfn_def Let_def c_str_id split: if_splits)
    then obtain d' where "d = Suc d'" by (cases d) auto
    then show ?thesis using h n Some by (simp add: encode_83_name_def Let_def c_str_id good_short_def f pad_hd)
  qed
qed





section \<open>The root directory\<close>

lemma root_lbas_facts:
  assumes "volume s"
  shows "distinct (root_lbas s)" "length (root_lbas s) = unat (root_dir_sectors s)"
    "\<forall>l \<in> set (root_lbas s). unat (root_dir_lba s) \<le> unat l \<and> unat l < unat (data_start_lba s)"
    "\<forall>l \<in> set (root_lbas s). unat l < disk_sectors s"
    "\<forall>j. Suc j < length (root_lbas s) \<longrightarrow> root_lbas s ! Suc j = root_lbas s ! j + 1"
proof -
  note v = volumeD [OF assms]
  have u: "unat (root_dir_lba s + of_nat i) = unat (root_dir_lba s) + i" if "i < unat (root_dir_sectors s)" for i
    using that v(6) unat_u32 [of "data_start_lba s"] unat_u32 [of "root_dir_sectors s"]
    by (subst unat_add_nowrap) (simp_all add: unat_of_nat32)
  have m: "map unat (root_lbas s) = [unat (root_dir_lba s)..<unat (data_start_lba s)]"
    by (rule nth_equalityI) (simp_all add: root_lbas_def u v(6))
  then show "distinct (root_lbas s)" by (metis distinct_map distinct_upt)
  show "length (root_lbas s) = unat (root_dir_sectors s)" by (simp add: root_lbas_def)
  have "\<forall>x \<in> set (map unat (root_lbas s)). unat (root_dir_lba s) \<le> x \<and> x < unat (data_start_lba s)" unfolding m by simp
  then show b: "\<forall>l \<in> set (root_lbas s). unat (root_dir_lba s) \<le> unat l \<and> unat l < unat (data_start_lba s)" by simp
  then show "\<forall>l \<in> set (root_lbas s). unat l < disk_sectors s" using v(9) by fastforce
  show "\<forall>j. Suc j < length (root_lbas s) \<longrightarrow> root_lbas s ! Suc j = root_lbas s ! j + 1"
    by (simp add: root_lbas_def add.commute add.left_commute)
qed

definition root_dirents :: "fat_state \<Rightarrow> dirent list" where
  "root_dirents s = dirents (secs s) (root_lbas s)"

lemma find_in_root:
  "volume s \<Longrightarrow> find_entry_in_dir 0 name s = Some (case scan_dir (root_dirents s) name lfn_clear of Inl r \<Rightarrow> r | Inr _ \<Rightarrow> None)"
  by (simp add: find_entry_in_dir_def root_dirents_def scan_sectors_dir volumeD(1) root_lbas_facts(4) split: sum.splits)





section \<open>Writing a file and reading it back\<close>







lemma split_root_path:
  assumes "c_str path = f \<or> c_str path = CHR ''/'' # f" "CHR ''/'' \<notin> set f" "length f < FAT16_MAX_NAME"
  shows "split_path path = Some (''/'', f)"
proof -
  have tw: "takeWhile (\<lambda>c. c \<noteq> CHR ''/'') (rev f) = rev f" using assms(2) by (auto simp: takeWhile_eq_all_conv)
  show ?thesis
  proof (cases "c_str path = f")
    case True
    then have "fat_last_slash (c_str path) = None" unfolding True fat_last_slash_def tw by simp
    then show ?thesis using True assms(3) by (simp add: split_path_def Let_def fits_def)
  next
    case False
    then have p: "c_str path = CHR ''/'' # f" using assms(1) by simp
    have "takeWhile (\<lambda>c. c \<noteq> CHR ''/'') (rev f @ [CHR ''/'']) = rev f" using assms(2) by (subst takeWhile_append2) auto
    then have "fat_last_slash (c_str path) = Some 0" using p by (simp add: fat_last_slash_def)
    then show ?thesis using p assms(3) by (simp add: split_path_def Let_def fits_def)
  qed
qed







text \<open>A small empty volume: one cluster per sector, ten clusters, sixteen root entries.\<close>

definition small_volume :: fat_state where
  "small_volume =
     \<lparr>fat16_drv = 0, drives = [\<lparr>dk_present = True, dk_sectors = 20, dk_bad = (\<lambda>_. False), dk_data = (\<lambda>_. replicate 512 0)\<rparr>],
      mounted = True, bytes_per_sector = 512, sectors_per_cluster = 1, reserved_sectors = 1, num_fats = 2, root_entry_count = 16,
      total_sectors = 20, fat_size_sectors = 1, fat_start_lba = 1, root_dir_lba = 3, root_dir_sectors = 1, data_start_lba = 4,
      cluster_size = 512, total_clusters = 10, volume_label = []\<rparr>"

lemma small_volume_ok: "volume small_volume" "secs small_volume l = replicate 512 0"
  by (simp_all add: small_volume_def volume_def drive_ok_def fat_disk_def secs_def disk_sectors_def)







text \<open>Long names survive the directory: the entries \<open>build_lfn_entries\<close> makes for an ASCII name of up to
  127 characters, followed by the short entry, are read by the directory scan as that short entry with exactly
  the long name.\<close>

theorem long_name_roundtrip:
  assumes "ascii f" "f \<noteq> []" "length f < FAT16_MAX_NAME" "length acc < mx"
    and "e ! 0 \<noteq> 0" "e ! 0 \<noteq> 0xE5" "e ! 11 \<noteq> FAT_ATTR_LFN" "e ! 11 AND FAT_ATTR_VOLUME = 0"
  shows "read_entries (build_lfn_entries f ck 20 @ [e]) mx acc st = (Next, acc @ [(e, f)], lfn_clear)"
proof -
  have lfn: "\<forall>x \<in> set (build_lfn_entries f ck 20). x ! 0 \<noteq> 0 \<and> x ! 0 \<noteq> 0xE5 \<and> x ! 11 = FAT_ATTR_LFN"
    using build_lfn_marks [OF assms(1,3,2)] by simp
  have "\<forall>x \<in> set xs. x ! 0 \<noteq> 0 \<and> x ! 0 \<noteq> 0xE5 \<and> x ! 11 = FAT_ATTR_LFN \<Longrightarrow>
    read_entries (xs @ [e]) mx acc st = read_entries [e] mx acc (fold lfn_collect xs st)" for xs
    using assms(4) by (induction xs arbitrary: st) auto
  from this [OF lfn] show ?thesis
    using assms(3-8) lfn_collect_all [OF assms(1,3,2), of ck st] name_buf_hd [OF assms(1,3,2)] lfn_name_buf [OF assms(1,3)] by simp
qed

theorem long_name_roundtrip_witness:
  "read_entries (build_lfn_entries ''a long name.text'' 7 20 @ [replicate 32 65]) 5 [] lfn_clear
    = (Next, [(replicate 32 65, ''a long name.text'')], lfn_clear)"
  by (rule long_name_roundtrip [where acc = "[]", unfolded append_Nil])
     (simp_all add: ascii_def uchar_def FAT16_MAX_NAME_def FAT_ATTR_LFN_def FAT_ATTR_VOLUME_def)

section \<open>Deleting\<close>

lemma scan_dir_mem: "scan_dir ds name st = Inl (Some (e, l, off)) \<Longrightarrow> (l, off, e) \<in> set ds"
  by (induction ds name st rule: scan_dir.induct) (auto split: if_splits)

lemma root_dirent_place:
  assumes "(l, off, e) \<in> set (root_dirents s)"
  shows "l \<in> set (root_lbas s)" "off < 512"
  using assms by (auto simp: root_dirents_def dirents_def sector_dirents_def)

text \<open>C10. Deleting a file of the root directory ends, gives exactly the clusters of its chain back to the table
  and marks its directory entry; no other table entry and no data sector changes.\<close>

theorem fat16_delete_releases:
  assumes v: "volume s" and p: "split_path path = Some (''/'', f)" and find: "find_entry_in_dir 0 f s = Some (Some (e, l, off))"
    and ch: "chain (\<lambda>c. fat_read_entry c s) (entry_cluster e) xs" "\<forall>x \<in> set xs. valid_cluster s x"
  shows "\<exists>s'. fat16_delete_file path s = Some (0, s') \<and> volume s' \<and>
    (\<forall>c. in_table s c \<longrightarrow> fat_read_entry c s' = (if c \<in> set xs then 0 else fat_read_entry c s)) \<and>
    secs s' l = (secs s l)[off := 0xE5] \<and>
    (\<forall>lba. unat (root_dir_lba s) \<le> unat lba \<longrightarrow> lba \<noteq> l \<longrightarrow> secs s' lba = secs s lba)"
proof -
  have "\<forall>x \<in> set xs. in_table s x" using ch(2) valid_in_table [OF v] by blast
  from fat_free_chain_ok [OF v ch(1) this] obtain s1 where s1: "fat_free_chain (entry_cluster e) s = Some s1" "table_only s s1"
    "\<forall>d. in_table s d \<longrightarrow> fat_entry s1 d = (if d \<in> set xs then 0 else fat_entry s d)" by blast
  note t1 = table_only_fields [OF s1(2)]
  have "scan_dir (root_dirents s) f lfn_clear = Inl (Some (e, l, off))"
    using find by (auto simp: find_in_root [OF v] split: sum.splits)
  then have "l \<in> set (root_lbas s)" using scan_dir_mem root_dirent_place by blast
  then have l: "unat (root_dir_lba s) \<le> unat l" "unat l < disk_sectors s" using root_lbas_facts(3,4) [OF v] by auto
  have ds: "disk_sectors s1 = disk_sectors s" using s1(2) volumeD(1) [OF v] unfolding table_only_def by (metis disk_sectors_with)
  let ?m = "(secs s1)(l := (secs s1 l)[off := 0xE5])"
  let ?s = "with_secs ?m s1"
  have m: "\<forall>lba. length (?m lba) = 512" using volumeD(10) [OF t1(1)] by simp
  have d: "delete_entry l off s1 = Some ?s" using l(2) ds t1(6) by (simp add: delete_entry_def read_sector write_sector)
  have low: "\<forall>lba. unat lba < unat (root_dir_lba s1) \<longrightarrow> ?m lba = secs s1 lba" using l(1) t1(5) by auto
  have free: "(if 2 \<le> entry_cluster e then fat_free_chain (entry_cluster e) s else Some s) = Some s1"
  proof (cases "2 \<le> entry_cluster e")
    case False
    then have "fat_free_chain (entry_cluster e) s = Some s" by (subst fat_free_chain.simps) auto
    then show ?thesis using s1(1) False by simp
  qed (use s1(1) in simp)
  have "navigate_to_dir ''/'' s = Some 0" by (simp add: navigate_to_dir_def)
  then have "fat16_delete_file path s = Some (0, ?s)"
    using p volumeD(2) [OF v] find free d by (simp add: fat16_delete_file_def)
  moreover have "in_table s c \<Longrightarrow> fat_read_entry c ?s = (if c \<in> set xs then 0 else fat_read_entry c s)" for c
    using entry_above [OF t1(1) m low, of c] s1(3) t1(3) by (simp del: fun_upd_apply)
  moreover have "volume ?s" by (rule volume_with [OF t1(1) m])
  ultimately show ?thesis
    using s1(2) t1(6) l(1) by (intro exI [of _ ?s]) (auto simp: table_only_def)
qed

text \<open>The small volume with one file of one cluster.\<close>

definition file_entry :: "u8 list" where
  "file_entry = sfn_entry (encode_83_name ''A.TXT'') FAT_ATTR_ARCHIVE 2 3"

definition file_volume :: fat_state where
  "file_volume = with_secs ((secs small_volume)(1 := put16 4 0xFFFF (replicate 512 0), 2 := put16 4 0xFFFF (replicate 512 0),
     3 := file_entry @ replicate 480 0)) small_volume"

lemma file_volume_ok:
  "volume file_volume" "secs file_volume 3 = file_entry @ replicate 480 0" "fat_read_entry 2 file_volume = 0xFFFF"
  "valid_cluster file_volume 2"
proof -
  have g: "good_short (encode_83_name ''A.TXT'')" by (rule encode_83_good) (simp add: ascii_def uchar_def, simp, code_simp)
  then have l: "length file_entry = 32" by (simp add: file_entry_def good_short_def sfn_entry_fields)
  have d: "drive_ok small_volume" by (rule volumeD(1) [OF small_volume_ok(1)])
  show v: "volume file_volume" unfolding file_volume_def by (rule volume_with [OF small_volume_ok(1)]) (simp add: small_volume_ok(2) l)
  show "secs file_volume 3 = file_entry @ replicate 480 0" using d by (simp add: file_volume_def)
  show val: "valid_cluster file_volume 2" by (simp add: file_volume_def valid_cluster_def small_volume_def)
  have fs: "fat_sector 2 file_volume = 1" by (simp add: fat_sector_def file_volume_def) (simp add: small_volume_def)
  have "fat_read_entry 2 file_volume = get16 (secs file_volume 1) 4"
    using fat_read_entry_eq [OF v valid_in_table [OF v val]] unfolding fs by (simp add: fat_index_eq)
  also have "secs file_volume 1 = put16 4 0xFFFF (replicate 512 0)" using d by (simp add: file_volume_def)
  also have "get16 \<dots> 4 = 0xFFFF" by (rule get16_put16) simp
  finally show "fat_read_entry 2 file_volume = 0xFFFF" .
qed

theorem fat16_delete_releases_witness:
  "\<exists>s'. fat16_delete_file ''/A.TXT'' file_volume = Some (0, s') \<and> volume s' \<and>
    (\<forall>c. in_table file_volume c \<longrightarrow> fat_read_entry c s' = (if c \<in> {2} then 0 else fat_read_entry c file_volume)) \<and>
    secs s' 3 = (secs file_volume 3)[0 := 0xE5]"
proof -
  have a: "ascii ''A.TXT''" by (simp add: ascii_def uchar_def)
  have n: "\<not> needs_lfn ''A.TXT''" by code_simp
  have g: "good_short (encode_83_name ''A.TXT'')" by (rule encode_83_good [OF a _ n]) simp
  then have e: "length file_entry = 32" "file_entry ! 0 \<noteq> 0" "file_entry ! 0 \<noteq> 0xE5" "file_entry ! 11 = FAT_ATTR_ARCHIVE" "entry_cluster file_entry = 2"
    by (simp_all add: file_entry_def good_short_def sfn_entry_fields)
  have m: "strcasecmp83 file_entry ''A.TXT''"
    unfolding file_entry_def sfn_entry_def using encode_83_match [OF ascii_NUL [OF a] _ n] by simp
  have r: "root_lbas file_volume = [3]" by (simp add: root_lbas_def file_volume_def) (simp add: small_volume_def)
  have "root_dirents file_volume = (3, 0, file_entry) # map (\<lambda>i. (3, i * 32, dir_entry (secs file_volume 3) i)) [1..<16]"
    using e(1) by (simp add: root_dirents_def r sector_dirents_def upt_conv_Cons dir_entry_def file_volume_ok(2) del: upt_Suc)
  then have find: "find_entry_in_dir 0 ''A.TXT'' file_volume = Some (Some (file_entry, 3, 0))"
    using e m by (simp add: find_in_root [OF file_volume_ok(1)] FAT_ATTR_ARCHIVE_def FAT_ATTR_LFN_def FAT_ATTR_VOLUME_def)
  have sp: "split_path ''/A.TXT'' = Some (''/'', ''A.TXT'')" by (rule split_root_path) (simp_all add: FAT16_MAX_NAME_def)
  have ch: "chain (\<lambda>c. fat_read_entry c file_volume) (entry_cluster file_entry) [2]"
    using e(5) file_volume_ok(3) by (simp add: chain_end_def)
  from fat16_delete_releases [OF file_volume_ok(1) sp find ch] file_volume_ok(4) show ?thesis by auto
qed

section \<open>The collision check of short names\<close>

lemma generate_short_shape:
  assumes "ascii f" "q < 100"
  shows "\<exists>nm ds ext. generate_short_name f q = (pad_name 8 (nm @ 126 # ds), ext) \<and> length (nm @ 126 # ds) \<le> 8 \<and>
    (\<forall>b \<in> set (nm @ 126 # ds). b \<noteq> 0 \<and> b \<noteq> 32 \<and> b < 128)"
proof -
  define bas where "bas = (case last_dot f of None \<Rightarrow> f | Some d \<Rightarrow> take d f)"
  define cs where "cs = take 6 (filter (\<lambda>c. c \<noteq> CHR '' '' \<and> c \<noteq> CHR ''.'') bas)"
  define nm where "nm = (if cs = [] then [95 :: u8] else map (byt \<circ> toupper) cs)"
  define ds :: "u8 list" where "ds = (if q < 10 then [48 + of_nat q]
     else [48 + of_nat (q div 10)] @ (if length nm + 2 < 8 then [48 + of_nat (q mod 10)] else []))"
  have "\<exists>ext. generate_short_name f q = (pad_name 8 (nm @ 126 # ds), ext)"
    using ascii_NUL [OF assms(1)] unfolding ds_def nm_def cs_def bas_def
    by (auto simp: generate_short_name_def Let_def c_str_id)
  moreover have "length nm \<le> 6" by (simp add: nm_def cs_def)
  then have "length (nm @ 126 # ds) \<le> 8" by (simp add: ds_def)
  moreover have "\<forall>b \<in> set nm. b \<noteq> 0 \<and> b \<noteq> 32 \<and> b < 128"
  proof
    fix b assume b: "b \<in> set nm"
    show "b \<noteq> 0 \<and> b \<noteq> 32 \<and> b < 128"
    proof (cases "cs = []")
      case False
      then obtain c where c: "c \<in> set cs" "b = byt (toupper c)" using b by (auto simp: nm_def)
      then have cf: "c \<in> set f" "c \<noteq> CHR '' ''"
        by (auto simp: cs_def bas_def dest!: in_set_takeD split: option.splits)
      then have "uchar (toupper c) < 128" using assms(1) by (auto simp: ascii_def toupper_uchar)
      then have "unat b < 128" unfolding c(2) unat_byt uchar_def
        using of_nat_of_char [of "toupper c", where ?'a = int] by linarith
      then show ?thesis using c(2) cf ascii_NUL [OF assms(1)] by (auto simp: word_less_nat_alt)
    qed (use b in \<open>simp add: nm_def\<close>)
  qed
  moreover have digit: "48 + of_nat k \<noteq> (0 :: u8) \<and> 48 + of_nat k \<noteq> (32 :: u8) \<and> 48 + of_nat k < (128 :: u8)" if "k < 10" for k :: nat
  proof -
    have "48 + of_nat k = (of_nat (48 + k) :: u8)" by simp
    moreover have "unat (of_nat (48 + k) :: u8) = 48 + k" using that by (simp add: unat_of_nat del: of_nat_add)
    ultimately show ?thesis using that by (simp add: word_unat_eq_iff word_less_nat_alt)
  qed
  then have "\<forall>b \<in> set ds. b \<noteq> 0 \<and> b \<noteq> 32 \<and> b < 128" using assms(2) by (auto simp: ds_def)
  ultimately show ?thesis by fastforce
qed

text \<open>The name under which \<open>fat16_write_file\<close> and \<open>fat16_mkdir\<close> look for a taken short name never
  matches an entry with that short name: every character is moved up by 32, the tilde too.\<close>

theorem short_name_check_blind:
  assumes "ascii f" "q < 100"
  shows "\<not> strcasecmp83 (fst (generate_short_name f q) @ snd (generate_short_name f q) @ rest) (check_name (generate_short_name f q))"
proof -
  obtain nm ds ext where g: "generate_short_name f q = (pad_name 8 (nm @ 126 # ds), ext)" "length (nm @ 126 # ds) \<le> 8"
    "\<forall>b \<in> set (nm @ 126 # ds). b \<noteq> 0 \<and> b \<noteq> 32 \<and> b < 128" using generate_short_shape [OF assms] by blast
  let ?nm = "nm @ 126 # ds"
  have tw: "takeWhile (\<lambda>b. b \<noteq> 32) (pad_name 8 ?nm) = ?nm" by (rule takeWhile_pad) (use g in auto)
  have z: "chr b \<noteq> NUL" "chr (b + 32) \<noteq> NUL" if "b \<in> set ?nm" for b
  proof -
    have "unat b < 128" "unat b \<noteq> 0" using g(3) that by (auto simp: word_less_nat_alt unat_gt_0)
    then have "unat (b + 32) = unat b + 32" by (simp add: unat_word_ariths)
    moreover have "0 < n \<Longrightarrow> n < 256 \<Longrightarrow> char_of n \<noteq> NUL" for n :: nat
      by (metis char_of_eq_iff less_irrefl mod_less of_char_of of_char_eq_iff unat_byt byt_NUL unat_0)
    ultimately show "chr b \<noteq> NUL" "chr (b + 32) \<noteq> NUL"
      using \<open>unat b < 128\<close> \<open>unat b \<noteq> 0\<close> by (simp_all add: chr_def)
  qed
  obtain R1 R2 where A:
    "strcasecmp83 (fst (generate_short_name f q) @ snd (generate_short_name f q) @ rest) (check_name (generate_short_name f q))
      \<longleftrightarrow> casecmp (c_str (map (tolower \<circ> chr) ?nm @ R1)) (c_str (map (\<lambda>b. chr (b + 32)) ?nm @ R2))"
    unfolding strcasecmp83_def check_name_def Let_def g(1) by (simp add: tw)
  have B: "c_str (map (tolower \<circ> chr) ?nm @ R1) = map (tolower \<circ> chr) ?nm @ c_str R1"
    "c_str (map (\<lambda>b. chr (b + 32)) ?nm @ R2) = map (\<lambda>b. chr (b + 32)) ?nm @ c_str R2"
    by (rule c_str_append, use z in fastforce)+
  have C: "map tolower (map (tolower \<circ> chr) ?nm @ c_str R1) ! length nm = tolower (chr 126)"
    "map tolower (map (\<lambda>b. chr (b + 32)) ?nm @ c_str R2) ! length nm = tolower (chr 158)" by (simp_all add: nth_append)
  have D: "tolower (chr 126) \<noteq> tolower (chr 158)" by code_simp
  show ?thesis unfolding A B casecmp_eq
  proof
    assume "map tolower (map (tolower \<circ> chr) ?nm @ c_str R1) = map tolower (map (\<lambda>b. chr (b + 32)) ?nm @ c_str R2)"
    from arg_cong [OF this, of "\<lambda>x. x ! length nm"] show False using D unfolding C by blast
  qed
qed

theorem short_name_check_blind_witness:
  "\<not> strcasecmp83 (fst (generate_short_name ''longname.txt'' 1) @ snd (generate_short_name ''longname.txt'' 1) @ [])
      (check_name (generate_short_name ''longname.txt'' 1))"
  by (rule short_name_check_blind) (simp_all add: ascii_def uchar_def)

end
