(* ===== verification/FatFormat.thy ===== *)
theory FatFormat
  imports FatDir
begin

text \<open>
  \<open>fat16_format\<close> and \<open>fat16_mount\<close> of \<^verbatim>\<open>src/fat16.c\<close>: what formatting writes is read back by mounting
  as a proper volume with an empty root directory, on which files can be written and read.
\<close>

section \<open>The writes of a format\<close>

definition apply_writes :: "(u32 \<times> u8 list) list \<Rightarrow> (u32 \<Rightarrow> u8 list) \<Rightarrow> u32 \<Rightarrow> u8 list" where
  "apply_writes ws m = fold (\<lambda>(l, b) m. m(l := b)) ws m"

lemma apply_writes_simps [simp]:
  "apply_writes [] m = m" "apply_writes ((l, b) # ws) m = apply_writes ws (m(l := b))"
  by (simp_all add: apply_writes_def)

lemma apply_writes_other: "l \<notin> fst ` set ws \<Longrightarrow> apply_writes ws m l = m l"
  by (induction ws arbitrary: m) auto

lemma apply_writes_mem: "distinct (map fst ws) \<Longrightarrow> (l, b) \<in> set ws \<Longrightarrow> apply_writes ws m l = b"
proof (induction ws arbitrary: m)
  case (Cons w ws)
  then show ?case using apply_writes_other [of l ws] by (cases w) auto
qed simp

lemma apply_writes_length:
  "\<forall>l. length (m l) = 512 \<Longrightarrow> \<forall>(l, b) \<in> set ws. length b = 512 \<Longrightarrow> length (apply_writes ws m l) = 512"
  by (induction ws arbitrary: m) auto

lemma write_all_ok:
  "drive_ok s \<Longrightarrow> \<forall>l \<in> fst ` set ws. unat l < disk_sectors s \<Longrightarrow>
    write_all ws s = (True, with_secs (apply_writes ws (secs s)) s)"
proof (induction ws arbitrary: s)
  case (Cons w ws)
  then show ?case by (cases w) (simp add: write_sector del: fun_upd_apply)
qed simp

section \<open>The numbers of a format\<close>

lemma unat_data_start: "unat F < 1000000 \<Longrightarrow> unat (format_data_start F) = 33 + 2 * unat F"
  by (simp add: format_data_start_def FORMAT_ROOT_SECTORS_def unat_word_ariths)

lemma format_spc_ge: "4 \<le> unat (format_spc mb)" "unat (format_spc mb) \<le> 64"
  by (simp_all add: format_spc_def)

lemma format_fat_size_bound:
  assumes "format_fat_size n tot spc F0 = Some F" "4 \<le> unat spc" "unat tot < 8387200" "1024 * unat F0 \<le> unat tot + 1030"
  shows "1024 * unat F \<le> unat tot + 1030"
  using assms(1,4)
proof (induction n arbitrary: F0)
  case (Suc n)
  let ?c = "(tot - format_data_start F0) div ucast spc"
  let ?n = "((?c + 2) * 2 + 511) div 512"
  have ds: "unat (format_data_start F0) = 33 + 2 * unat F0" using Suc.prems(2) assms(3) by (intro unat_data_start) simp
  have lt: "format_data_start F0 < tot" using Suc.prems(1) by (auto split: if_splits)
  have "unat (tot - format_data_start F0) \<le> unat tot" using lt by (simp add: unat_sub word_less_nat_alt word_le_nat_alt)
  then have "unat ?c \<le> unat tot div unat spc" unfolding unat_div_distrib by (simp add: div_le_mono)
  also have "\<dots> \<le> unat tot div 4" by (rule div_le_mono2) (use assms(2) in auto)
  finally have c: "4 * unat ?c \<le> unat tot" by simp
  then have "unat ((?c + 2) * 2 + 511) = (unat ?c + 2) * 2 + 511" using assms(3) by (simp add: unat_word_ariths)
  then have "unat ?n = ((unat ?c + 2) * 2 + 511) div 512" by (simp add: unat_div_distrib)
  then have "512 * unat ?n \<le> (unat ?c + 2) * 2 + 511" by simp
  then have n: "1024 * unat ?n \<le> unat tot + 1030" using c by simp
  show ?case
  proof (cases "?n = F0")
    case True
    then show ?thesis using Suc.prems lt by (simp add: Let_def split: if_splits)
  next
    case False
    then have "format_fat_size n tot spc ?n = Some F" using Suc.prems(1) lt by (simp add: Let_def split: if_splits)
    then show ?thesis using Suc.IH n by blast
  qed
qed simp

lemma format_fat_size_pos:
  assumes "format_fat_size n tot spc F0 = Some F" "4 \<le> unat spc" "unat tot < 8387200" "0 < unat F0"
  shows "0 < unat F"
  using assms(1,4)
proof (induction n arbitrary: F0)
  case (Suc n)
  let ?c = "(tot - format_data_start F0) div ucast spc"
  have lt: "format_data_start F0 < tot" using Suc.prems(1) by (auto split: if_splits)
  have "unat ?c \<le> unat (tot - format_data_start F0)" unfolding unat_div_distrib by (rule div_le_dividend)
  also have "\<dots> \<le> unat tot" using lt by (simp add: unat_sub word_less_nat_alt word_le_nat_alt)
  finally have "unat ((?c + 2) * 2 + 511) = (unat ?c + 2) * 2 + 511" using assms(3) by (simp add: unat_word_ariths)
  then have "0 < unat (((?c + 2) * 2 + 511) div 512)" by (simp add: unat_div_distrib div_greater_zero_iff)
  then show ?case using Suc lt by (simp add: Let_def split: if_splits)
qed simp

lemma format_adjust_ok:
  "unat spc \<le> unat (format_adjust d spc) \<and> \<not> (d div ucast (format_adjust d spc) > 65524 \<and> format_adjust d spc < 128)"
proof (induction d spc rule: format_adjust.induct)
  case (1 d spc)
  show ?case
  proof (cases "d div ucast spc > 65524 \<and> spc < 128")
    case True
    then have "unat (spc * 2) = unat spc * 2" by (auto simp: unat_word_ariths word_less_nat_alt)
    then show ?thesis using 1 True by (subst (1 2 3) format_adjust.simps) auto
  next
    case False
    then show ?thesis by (subst (1 2 3) format_adjust.simps) auto
  qed
qed

section \<open>The boot sector\<close>

lemma length_label [simp]: "length (format_label l) = 11"
  by (simp add: format_label_def split: option.splits)

lemma bytes16: "ucast (ucast (w :: u32) :: u8) OR push_bit 8 (ucast (ucast (drop_bit 8 w) :: u8)) = (ucast w :: u16)"
  by (rule bit_word_eqI) (auto simp: bit_simps)

lemma bytes32: "ucast (ucast w :: u16) OR push_bit 16 (ucast (ucast (ucast (drop_bit 16 w) :: u8) OR push_bit 8 (ucast (ucast (drop_bit 24 w) :: u8)) :: u16)) = (w :: u32)"
proof (rule bit_word_eqI)
  fix n assume "n < LENGTH(32)"
  then show "bit (ucast (ucast w :: u16) OR push_bit 16 (ucast (ucast (ucast (drop_bit 16 w) :: u8) OR push_bit 8 (ucast (ucast (drop_bit 24 w) :: u8)) :: u16)) :: u32) n = bit w n"
    by (cases "n < 16") (auto simp: bit_simps)
qed

lemma format_boot_fields:
  fixes tot spc F label
  defines "b \<equiv> format_boot tot spc F label"
  shows "length b = 512" "b ! 510 = 0x55" "b ! 511 = 0xAA" "get16 b 11 = 512" "b ! 13 = spc" "get16 b 14 = 1" "b ! 16 = 2"
    "get16 b 17 = 512" "get16 b 22 = ucast F"
    "get16 b 19 = (if tot < 65536 then ucast tot else 0)" "get32 b 32 = (if tot < 65536 then 0 else tot)"
  by (simp_all add: b_def format_boot_def get16_def get32_def nth_append bytes16 bytes32)

lemma format_boot_total:
  fixes tot spc F label
  defines "b \<equiv> format_boot tot spc F label"
  shows "(if get16 b 19 \<noteq> 0 then ucast (get16 b 19) else get32 b 32) = tot"
proof (cases "tot < 65536")
  case True
  have "unat (ucast tot :: u16) = unat tot" using True by (simp add: unsigned_ucast_eq take_bit_nat_eq_self word_less_nat_alt)
  then have "ucast (ucast tot :: u16) = tot" by (simp add: word_unat_eq_iff)
  moreover have "(ucast tot :: u16) = 0 \<Longrightarrow> tot = 0" using \<open>unat (ucast tot :: u16) = unat tot\<close> by (simp add: unat_eq_zero)
  ultimately show ?thesis using True by (auto simp: b_def format_boot_fields)
qed (simp add: b_def format_boot_fields)

section \<open>The sectors after a format\<close>

lemma unat_shift: "k + n \<le> 4294967296 \<Longrightarrow> unat b = k \<Longrightarrow> map unat (map (\<lambda>i. b + of_nat i :: u32) [0..<n]) = [k..<k + n]"
  by (rule nth_equalityI) (auto simp: unat_word_ariths unat_of_nat)

lemma format_writes_lbas:
  assumes "unat F < 1000000"
  shows "map unat (map fst (format_writes boot F)) = [0..<33 + 2 * unat F]"
proof -
  have f: "unat (1 + F) = 1 + unat F" "unat (1 + 2 * F) = 1 + 2 * unat F" "unat FORMAT_ROOT_SECTORS = 32"
    using assms by (simp_all add: unat_word_ariths FORMAT_ROOT_SECTORS_def)
  have "map unat (map fst (format_writes boot F)) = [0] @ [1..<1 + unat F] @ [1 + unat F..<1 + unat F + unat F] @ [1 + 2 * unat F..<1 + 2 * unat F + 32]"
    using unat_shift [of 1 "unat F" 1] unat_shift [of "1 + unat F" "unat F" "1 + F"] unat_shift [of "1 + 2 * unat F" 32 "1 + 2 * F"] assms
    by (simp add: format_writes_def f comp_def)
  also have "\<dots> = [0..<33 + 2 * unat F]"
  proof -
    have "[1..<1 + unat F + unat F] = [1..<1 + unat F] @ [1 + unat F..<1 + unat F + unat F]" by (rule upt_add_eq_append) simp
    moreover have "[1..<1 + 2 * unat F + 32] = [1..<1 + 2 * unat F] @ [1 + 2 * unat F..<1 + 2 * unat F + 32]" by (rule upt_add_eq_append) simp
    moreover have "[0..<33 + 2 * unat F] = [0] @ [1..<33 + 2 * unat F]" by (simp add: upt_conv_Cons del: upt_Suc)
    moreover have "1 + unat F + unat F = 1 + 2 * unat F" "1 + 2 * unat F + 32 = 33 + 2 * unat F" by simp_all
    ultimately show ?thesis by (simp only: append_assoc)
  qed
  finally show ?thesis .
qed

text \<open>The clusters of a disk for a table of \<open>F\<close> sectors, before the cluster size is adjusted.\<close>

definition format_clusters :: "u32 \<Rightarrow> u32 \<Rightarrow> u32" where
  "format_clusters tot F = (tot - format_data_start F) div ucast (format_spc (tot div 2048))"

lemma format_result:
  assumes d: "drive_ok s" "\<forall>l. length (secs s l) = 512" and tot: "4096 \<le> unat tot" "unat tot < 8387200" "unat tot \<le> disk_sectors s"
    and F: "format_fat_size 10 tot (format_spc (tot div 2048)) 1 = Some F" "4085 \<le> format_clusters tot F"
  shows "\<exists>spc m. fat16_format tot label s = (True, with_secs m s) \<and> (\<forall>l. length (m l) = 512) \<and> m 0 = format_boot tot spc F label \<and>
    (\<forall>i < unat F. m (1 + of_nat i) = format_fat_sector i) \<and>
    m (1 + 2 * F) = format_label label @ [FAT_ATTR_VOLUME] @ replicate 500 0 \<and>
    (\<forall>i. 0 < i \<longrightarrow> i < 32 \<longrightarrow> m (1 + 2 * F + of_nat i) = replicate 512 0) \<and>
    1024 * unat F \<le> unat tot + 1030 \<and> 0 < unat F \<and> 4 \<le> unat spc \<and>
    unat ((tot - format_data_start F) div ucast spc) \<le> 65524 \<and>
    unat ((tot - format_data_start F) div ucast spc) \<le> unat (format_clusters tot F)"
proof -
  let ?p = "format_spc (tot div 2048)"
  let ?spc = "format_adjust (tot - format_data_start F) ?p"
  let ?boot = "format_boot tot ?spc F label"
  let ?ws = "format_writes ?boot F"
  let ?lab = "format_label label @ [FAT_ATTR_VOLUME] @ replicate 500 0"
  have Fb: "1024 * unat F \<le> unat tot + 1030" by (rule format_fat_size_bound [OF F(1) format_spc_ge(1) tot(2)]) (use tot in simp)
  have Fp: "0 < unat F" by (rule format_fat_size_pos [OF F(1) format_spc_ge(1) tot(2)]) simp
  from Fb have Fs: "unat F < 1000000" "33 + 2 * unat F < unat tot" using tot by auto
  have u: "unat (1 + 2 * F) = 1 + 2 * unat F" using Fs by (simp add: unat_word_ariths)
  have L: "map unat (map fst ?ws) = [0..<33 + 2 * unat F]" by (rule format_writes_lbas [OF Fs(1)])
  then have dist: "distinct (map fst ?ws)" by (metis distinct_map distinct_upt)
  have "unat l < 33 + 2 * unat F" if "l \<in> fst ` set ?ws" for l
  proof -
    have "unat l \<in> set (map unat (map fst ?ws))" using that by auto
    then show ?thesis unfolding L by simp
  qed
  then have rng: "\<forall>l \<in> fst ` set ?ws. unat l < disk_sectors s" using Fs(2) tot(3) by fastforce
  define m where "m = apply_writes ?ws (secs s)"
  have W: "write_all ?ws s = (True, with_secs m s)" unfolding m_def by (rule write_all_ok [OF d(1) rng])
  have "unat (1 + 2 * F) < disk_sectors s" using u Fs(2) tot(3) by simp
  moreover have "ata_available s" using d(1) by (simp add: drive_ok_def ata_available_def)
  moreover have "\<not> tot < 4096" "\<not> format_clusters tot F < 4085" using tot(1) F(2) by (simp_all add: word_less_nat_alt word_le_nat_alt)
  ultimately have s': "fat16_format tot label s = (True, with_secs (m(1 + 2 * F := ?lab)) s)"
    using F W d(1) by (simp add: fat16_format_def Let_def write_sector format_clusters_def)
  have mem: "(l, b) \<in> set ?ws \<Longrightarrow> m l = b" for l b unfolding m_def by (rule apply_writes_mem [OF dist])
  have "\<forall>(l, b) \<in> set ?ws. length b = 512" by (auto simp: format_writes_def format_boot_fields format_fat_sector_def)
  then have len: "length (m l) = 512" for l unfolding m_def using d(2) by (intro apply_writes_length) auto
  have 1: "m 0 = ?boot" by (rule mem) (simp add: format_writes_def)
  have 2: "i < unat F \<Longrightarrow> m (1 + of_nat i) = format_fat_sector i" for i by (rule mem) (auto simp: format_writes_def)
  have 3: "i < 32 \<Longrightarrow> m (1 + 2 * F + of_nat i) = replicate 512 0" for i
    by (rule mem) (auto simp: format_writes_def FORMAT_ROOT_SECTORS_def)
  have "unat (tot - format_data_start F) < 8387167"
    using unat_data_start [OF Fs(1)] Fs(2) tot(2) by (simp add: unat_sub word_le_nat_alt)
  moreover have "\<not> (tot - format_data_start F) div ucast ?spc > 65524 \<or> \<not> ?spc < 128" using format_adjust_ok by blast
  ultimately have cl: "unat ((tot - format_data_start F) div ucast ?spc) \<le> 65524"
  proof (elim disjE)
    assume a: "unat (tot - format_data_start F) < 8387167" "\<not> ?spc < 128"
    have "unat (tot - format_data_start F) div unat ?spc \<le> unat (tot - format_data_start F) div 128"
      using a(2) by (intro div_le_mono2) (simp_all add: word_less_nat_alt)
    then show ?thesis using a(1) unfolding unat_div_distrib by simp
  qed (simp add: word_less_nat_alt)
  have ne: "(0 :: u32) \<noteq> 1 + 2 * F" using u by (metis unat_0 add_is_0 one_neq_zero)
  have ne2: "1 + of_nat i \<noteq> 1 + 2 * F" if "i < unat F" for i
  proof -
    have "unat (1 + of_nat i :: u32) = 1 + i" using that Fs(1) by (simp add: unat_word_ariths unat_of_nat)
    then show ?thesis using u that by (intro notI) simp
  qed
  have ne3: "1 + 2 * F + of_nat i \<noteq> 1 + 2 * F" if "0 < i" "i < 32" for i
    using that unat_of_nat32 [of i] by (intro notI) simp
  have ge: "unat ?p \<le> unat ?spc" using format_adjust_ok [of ?p "tot - format_data_start F"] by blast
  then have spc: "4 \<le> unat ?spc" using format_spc_ge(1) le_trans by blast
  have "0 < unat ?p" using format_spc_ge(1) [of "tot div 2048"] by simp
  then have le: "unat ((tot - format_data_start F) div ucast ?spc) \<le> unat (format_clusters tot F)"
    unfolding format_clusters_def unat_div_distrib unat_ucast8 using ge by (intro div_le_mono2)
  show ?thesis
    by (intro exI [of _ ?spc] exI [of _ "m(1 + 2 * F := ?lab)"])
       (use s' 1 2 3 ne ne2 ne3 len Fb Fp cl spc le in auto)
qed

section \<open>Mounting a formatted disk\<close>

lemma fat16_mount_eq:
  assumes "ata_read_sector 0 s = Some b" "b ! 510 = 0x55" "b ! 511 = 0xAA" "get16 b 11 = 512" "b ! 16 = 2" "get16 b 22 \<noteq> 0"
    "get16 b 17 = 512" "get16 b 14 = 1" "b ! 13 \<noteq> 0"
  shows "\<exists>s'. fat16_mount s = Some (True, s') \<and> mounted s' \<and> fat16_drv s' = fat16_drv s \<and> drives s' = drives s \<and>
    sectors_per_cluster s' = b ! 13 \<and> cluster_size s' = ucast (b ! 13) * 512 \<and> num_fats s' = 2 \<and>
    fat_size_sectors s' = get16 b 22 \<and> fat_start_lba s' = 1 \<and> root_dir_lba s' = 1 + 2 * ucast (get16 b 22) \<and>
    root_dir_sectors s' = 32 \<and> data_start_lba s' = 33 + 2 * ucast (get16 b 22) \<and>
    total_clusters s' = ((if get16 b 19 \<noteq> 0 then ucast (get16 b 19) else get32 b 32) - (33 + 2 * ucast (get16 b 22))) div ucast (b ! 13)"
proof -
  have c: "fat16_drv (clear_info s) = fat16_drv s" "drives (clear_info s) = drives s" by (simp_all add: clear_info_def)
  then have r: "ata_read_sector 0 (clear_info s) = Some b" and a: "ata_available (clear_info s)"
    using assms(1) by (simp_all add: ata_read_sector_def ata_available_def fat_disk_def disk_ok_def split: if_splits)
  define tot where "tot = (if get16 b 19 \<noteq> 0 then ucast (get16 b 19) else get32 b 32)"
  define n :: u32 where "n = ucast (get16 b 22)"
  define s' where "s' = (clear_info s)\<lparr>bytes_per_sector := 512, sectors_per_cluster := b ! 13, reserved_sectors := 1,
    num_fats := 2, root_entry_count := 512, fat_size_sectors := get16 b 22, total_sectors := tot, fat_start_lba := 1,
    root_dir_lba := 1 + 2 * n, root_dir_sectors := 32, data_start_lba := 1 + 2 * n + 32,
    cluster_size := ucast (b ! 13) * 512, total_clusters := (tot - (1 + 2 * n + 32)) div ucast (b ! 13),
    volume_label := strip_label (map chr (take 11 (drop 43 b))), mounted := True\<rparr>"
  have "fat16_mount s = Some (True, s')"
    unfolding fat16_mount_def Let_def s'_def tot_def n_def using assms(2-) by (simp add: r a)
  moreover have "1 + 2 * n + 32 = 33 + 2 * n" by simp
  ultimately show ?thesis
    by (intro exI [of _ s'] conjI) (simp_all add: s'_def c tot_def n_def)
qed

text \<open>A freshly mounted root directory: the volume label, then free entries.\<close>

definition label_dir :: "dirent list \<Rightarrow> bool" where
  "label_dir ds \<longleftrightarrow> (\<exists>d zs. ds = d # zs \<and> snd (snd d) ! 0 \<noteq> 0 \<and> snd (snd d) ! 11 = FAT_ATTR_VOLUME \<and>
     (\<forall>z \<in> set zs. snd (snd z) ! 0 = 0))"


lemma label_hd: "format_label l ! 0 \<noteq> 0"
proof (cases l)
  case None
  then show ?thesis by (simp add: format_label_def byt_def)
next
  case (Some x)
  show ?thesis
  proof (cases "c_str x")
    case Nil
    then show ?thesis using Some by (simp add: format_label_def pad_name_def)
  next
    case (Cons c y)
    have "c \<in> set (c_str x)" by (simp add: Cons)
    then have "c \<noteq> NUL" using NUL_c_str [of x] by metis
    then show ?thesis using Some Cons by (simp add: format_label_def pad_hd)
  qed
qed

lemma label_sector_dir:
  "\<exists>d zs. sector_dirents k (format_label l @ [FAT_ATTR_VOLUME] @ replicate 500 0) = d # zs \<and> snd (snd d) ! 0 \<noteq> 0 \<and>
     snd (snd d) ! 11 = FAT_ATTR_VOLUME \<and> (\<forall>z \<in> set zs. snd (snd z) ! 0 = 0)"
proof -
  let ?b = "format_label l @ [FAT_ATTR_VOLUME] @ replicate 500 0"
  have "sector_dirents k ?b = (k, 0, dir_entry ?b 0) # map (\<lambda>i. (k, i * 32, dir_entry ?b i)) [1..<16]"
    by (simp add: sector_dirents_def upt_conv_Cons del: upt_Suc)
  moreover have "dir_entry ?b 0 ! 0 \<noteq> 0" "dir_entry ?b 0 ! 11 = FAT_ATTR_VOLUME"
    using label_hd [of l] by (simp_all add: dir_entry_def nth_append)
  moreover have "dir_entry ?b i ! 0 = 0" if "1 \<le> i" "i < 16" for i
    using that by (simp add: dir_entry_def nth_append)
  ultimately show ?thesis by auto
qed

lemma zero_sector_dir: "z \<in> set (sector_dirents k (replicate 512 0)) \<Longrightarrow> snd (snd z) ! 0 = 0"
  by (auto simp: sector_dirents_def dir_entry_def)

lemma get16_fat_sector: "i = 0 \<longrightarrow> 4 \<le> j \<Longrightarrow> j + 1 < 512 \<Longrightarrow> get16 (format_fat_sector i) j = 0"
  by (auto simp: get16_def format_fat_sector_def nth_append)

lemma formatted_label_dir:
  assumes "m b = format_label l @ [FAT_ATTR_VOLUME] @ replicate 500 0" "\<forall>i. 0 < i \<longrightarrow> i < n \<longrightarrow> m (b + of_nat i) = replicate 512 0" "0 < n"
  shows "label_dir (dirents m (map (\<lambda>i. b + of_nat i) [0..<n]))"
proof -
  obtain d zs where d: "sector_dirents b (m b) = d # zs" "snd (snd d) ! 0 \<noteq> 0" "snd (snd d) ! 11 = FAT_ATTR_VOLUME" "\<forall>z \<in> set zs. snd (snd z) ! 0 = 0"
    using label_sector_dir [of b l] assms(1) by auto
  have "map (\<lambda>i. b + of_nat i) [0..<n] = b # map (\<lambda>i. b + of_nat i) [1..<n]" using assms(3) by (simp add: upt_conv_Cons)
  then have e: "dirents m (map (\<lambda>i. b + of_nat i) [0..<n]) = d # zs @ dirents m (map (\<lambda>i. b + of_nat i) [1..<n])" using d(1) by simp
  have "\<forall>z \<in> set (dirents m (map (\<lambda>i. b + of_nat i) [1..<n])). snd (snd z) ! 0 = 0"
    using assms(2) zero_sector_dir by (auto simp: dirents_def)
  then show ?thesis using d e unfolding label_dir_def by (intro exI [of _ d]) auto
qed

lemma mount_formatted:
  assumes d: "drive_ok s" "\<forall>l. length (secs s l) = 512" and tot: "4096 \<le> unat tot" "unat tot < 8387200" "unat tot \<le> disk_sectors s"
    and FF: "format_fat_size 10 tot (format_spc (tot div 2048)) 1 = Some F" "4085 \<le> format_clusters tot F"
    and cov: "unat (format_clusters tot F) + 2 \<le> 256 * unat F"
  shows "\<exists>s' s''. fat16_format tot label s = (True, s') \<and> fat16_mount s' = Some (True, s'') \<and> volume s'' \<and>
    free_clusters s'' = all_clusters s'' \<and> label_dir (root_dirents s'') \<and> length (root_dirents s'') = 512 \<and>
    0 < unat (total_clusters s'')"
proof -
  obtain spc m where m: "fat16_format tot label s = (True, with_secs m s)" "\<forall>l. length (m l) = 512" "m 0 = format_boot tot spc F label"
    "\<forall>i < unat F. m (1 + of_nat i) = format_fat_sector i"
    "m (1 + 2 * F) = format_label label @ [FAT_ATTR_VOLUME] @ replicate 500 0"
    "\<forall>i. 0 < i \<longrightarrow> i < 32 \<longrightarrow> m (1 + 2 * F + of_nat i) = replicate 512 0"
    "1024 * unat F \<le> unat tot + 1030" "0 < unat F" "4 \<le> unat spc"
    "unat ((tot - format_data_start F) div ucast spc) \<le> 65524"
    "unat ((tot - format_data_start F) div ucast spc) \<le> unat (format_clusters tot F)"
    using format_result [OF d tot FF] by blast
  define s' where "s' = with_secs m s"
  let ?b = "format_boot tot spc F label"
  note B = format_boot_fields [of tot spc F label]
  have F: "unat F < 65536" "33 + 2 * unat F < unat tot" using m(7) tot by auto
  have uF: "unat (ucast F :: u16) = unat F" using F(1) by (simp add: unsigned_ucast_eq take_bit_nat_eq_self)
  then have cF: "ucast (ucast F :: u16) = F" by (simp add: word_unat_eq_iff)
  have "unat (0 :: u32) < disk_sectors s" using tot by simp
  then have r: "ata_read_sector 0 s' = Some ?b" using d(1) m(3) by (simp add: s'_def read_sector)
  have "spc \<noteq> 0" using m(9) by auto
  moreover have "(ucast F :: u16) \<noteq> 0" using uF m(8) by (metis less_irrefl unat_0)
  ultimately obtain s'' where s'': "fat16_mount s' = Some (True, s'')" "mounted s''" "fat16_drv s'' = fat16_drv s'" "drives s'' = drives s'"
    "sectors_per_cluster s'' = spc" "cluster_size s'' = ucast spc * 512" "num_fats s'' = 2" "fat_size_sectors s'' = ucast F"
    "fat_start_lba s'' = 1" "root_dir_lba s'' = 1 + 2 * F" "root_dir_sectors s'' = 32" "data_start_lba s'' = 33 + 2 * F"
    "total_clusters s'' = (tot - (33 + 2 * F)) div ucast spc"
    using fat16_mount_eq [OF r, unfolded format_boot_total, unfolded B cF] by auto
  have fd: "fat_disk s'' = fat_disk s'" using s''(3,4) by (simp add: fat_disk_def)
  then have ds: "drive_ok s''" "secs s'' = m" "disk_sectors s'' = disk_sectors s"
    using d(1) s'_def s''(3,4) with_secs_ok [OF d(1), of m] secs_with [OF d(1), of m] disk_sectors_with [OF d(1), of m]
    by (simp_all add: drive_ok_def secs_def disk_sectors_def)
  have fds: "format_data_start F = 33 + 2 * F" by (simp add: format_data_start_def FORMAT_ROOT_SECTORS_def)
  have uds: "unat (33 + 2 * F) = 33 + 2 * unat F" using unat_data_start [of F] F(1) fds by simp
  have v: "volume s''"
  proof -
    have "unat (tot - (33 + 2 * F)) = unat tot - (33 + 2 * unat F)" using uds F(2) by (simp add: unat_sub word_le_nat_alt)
    then have "unat (total_clusters s'') * unat spc \<le> unat tot - (33 + 2 * unat F)"
      unfolding s''(13) unat_div_distrib by simp
    then have "unat (data_start_lba s'') + unat (total_clusters s'') * unat spc \<le> disk_sectors s" using uds s''(12) F(2) tot(3) by simp
    moreover have "unat (1 + 2 * F) = 1 + 2 * unat F" using F(1) by (simp add: unat_word_ariths)
    moreover have "unat (total_clusters s'') \<le> 65524" using m(10) unfolding s''(13) fds .
    moreover have "0 < spc" using m(9) by (simp add: word_less_nat_alt)
    moreover have "unat (total_clusters s'') + 2 \<le> 256 * unat F" using m(11) cov unfolding s''(13) fds by simp
    ultimately show ?thesis using s''(2,5-12) ds m(2) uds uF by (simp add: volume_def)
  qed
  have free: "free_clusters s'' = all_clusters s''"
  proof -
    have "fat_entry s'' c = 0" if c: "valid_cluster s'' c" for c
    proof -
      have it: "unat c < 256 * unat (fat_size_sectors s'')" using valid_in_table [OF v c] by (simp add: in_table_def)
      have "unat (fat_sector c s'') = 1 + unat c div 256" using fat_sector_eq(1) [OF v it] s''(9) by simp
      then have fs: "fat_sector c s'' = 1 + of_nat (unat c div 256)"
        using unat_u16 [of c] by (simp add: word_unat_eq_iff unat_word_ariths unat_of_nat)
      have "unat c div 256 < unat F" using it s''(8) uF by simp
      then have "secs s'' (fat_sector c s'') = format_fat_sector (unat c div 256)" using m(4) ds(2) fs by simp
      moreover have "2 \<le> unat c" using c by (simp add: valid_cluster_def)
      then have "unat c div 256 = 0 \<longrightarrow> 4 \<le> fat_index c" by (simp add: fat_index_eq)
      ultimately show ?thesis using fat_read_entry_eq [OF v valid_in_table [OF v c]] by (simp add: get16_fat_sector fat_index_eq)
    qed
    then show ?thesis unfolding free_clusters_def using set_all_clusters [OF v] by (simp add: filter_id_conv)
  qed
  have root: "root_lbas s'' = map (\<lambda>i. 1 + 2 * F + of_nat i) [0..<32]" by (simp add: root_lbas_def s''(10,11))
  have "label_dir (root_dirents s'')" unfolding root_dirents_def root ds(2)
    by (rule formatted_label_dir [OF m(5,6)]) simp
  moreover have "length (root_dirents s'') = 512" by (simp add: root_dirents_def root)
  moreover have "0 < unat (total_clusters s'')"
  proof -
    have "4085 * 4 \<le> unat (format_clusters tot F) * unat (format_spc (tot div 2048))"
      using FF(2) format_spc_ge(1) [of "tot div 2048"] by (intro mult_le_mono) (simp_all add: word_le_nat_alt)
    also have "\<dots> \<le> unat (tot - format_data_start F)" unfolding format_clusters_def unat_div_distrib unat_ucast8 by simp
    finally have "unat spc \<le> unat (tot - (33 + 2 * F))" using unat_u8 [of spc] fds by simp
    then show ?thesis unfolding s''(13) unat_div_distrib unat_ucast8 using m(9) by (simp add: div_greater_zero_iff)
  qed
  ultimately show ?thesis using m(1) s''(1) v free unfolding s'_def by blast
qed

text \<open>C9. Formatting makes a volume: on a working disk of 4096 up to 8387199 sectors, when the loop for the size of
  the table ends with an entry for every cluster and the disk has at least the 4085 clusters of FAT16,
  \<open>fat16_format\<close> succeeds and \<open>fat16_mount\<close> then finds a proper volume whose clusters are all free and
  whose root directory holds the volume label and 511 free entries.\<close>

theorem format_mount_volume:
  assumes "drive_ok s" "\<forall>l. length (secs s l) = 512" "4096 \<le> unat tot" "unat tot < 8387200" "unat tot \<le> disk_sectors s"
    and "format_fat_size 10 tot (format_spc (tot div 2048)) 1 = Some F" "4085 \<le> format_clusters tot F"
    and "unat (format_clusters tot F) + 2 \<le> 256 * unat F"
  shows "\<exists>s' s''. fat16_format tot label s = (True, s') \<and> fat16_mount s' = Some (True, s'') \<and> volume s'' \<and>
    free_clusters s'' = all_clusters s'' \<and> label_dir (root_dirents s'') \<and> length (root_dirents s'') = 512"
  using mount_formatted [OF assms] by blast

text \<open>A blank disk of ten megabytes.\<close>

definition blank_disk :: fat_state where
  "blank_disk = small_volume\<lparr>drives := [\<lparr>dk_present = True, dk_sectors = 20480, dk_bad = (\<lambda>_. False), dk_data = (\<lambda>_. replicate 512 0)\<rparr>]\<rparr>"

lemma blank_disk_ok: "drive_ok blank_disk" "length (secs blank_disk l) = 512" "disk_sectors blank_disk = 20480"
  by (simp_all add: blank_disk_def small_volume_def drive_ok_def fat_disk_def secs_def disk_sectors_def)

lemma blank_format:
  "format_fat_size 10 20480 (format_spc (20480 div 2048)) 1 = Some 20" "format_clusters 20480 20 = 5101"
  by code_simp+

theorem format_mount_volume_witness:
  "\<exists>s' s''. fat16_format 20480 None blank_disk = (True, s') \<and> fat16_mount s' = Some (True, s'') \<and> volume s'' \<and>
    free_clusters s'' = all_clusters s'' \<and> label_dir (root_dirents s'') \<and> length (root_dirents s'') = 512"
  by (rule format_mount_volume [OF blank_disk_ok(1) _ _ _ _ blank_format(1)]) (simp_all add: blank_disk_ok blank_format(2))



text \<open>The loop for the size of the table need not converge: with 20549 sectors it swings between 20 and 21 and its ten
  rounds end at 20, one entry short.\<close>

theorem format_table_short:
  "format_fat_size 10 20549 (format_spc (20549 div 2048)) 1 = Some 20 \<and> 256 * 20 < unat (format_clusters 20549 20) + 2"
  by code_simp

text \<open>A boot sector with no sectors per cluster makes \<open>fat16_mount\<close> divide by zero.\<close>

theorem mount_divides_by_zero:
  assumes "ata_read_sector 0 s = Some b" "b ! 510 = 0x55" "b ! 511 = 0xAA" "get16 b 11 = 512" "b ! 16 = 2" "get16 b 22 \<noteq> 0"
    "get16 b 17 \<noteq> 0" "b ! 13 = 0"
  shows "fat16_mount s = None"
proof -
  have c: "fat16_drv (clear_info s) = fat16_drv s" "drives (clear_info s) = drives s" by (simp_all add: clear_info_def)
  then have "ata_read_sector 0 (clear_info s) = Some b" "ata_available (clear_info s)"
    using assms(1) by (simp_all add: ata_read_sector_def ata_available_def fat_disk_def disk_ok_def split: if_splits)
  then show ?thesis using assms(2-) by (simp add: fat16_mount_def)
qed

end
