(* ===== verification/Ata.thy ===== *)
theory Ata
  imports Fat16
begin

text \<open>
  The ATA disk driver, \<^verbatim>\<open>src/ata.c\<close>.  The hardware is a parameter: four functions that read and write ports on some
  state of the machine.  What the driver relies on is stated with a reference controller, the programming model of
  the PIO interface: a machine conforms to it when its ports behave as those of the controller under an abstraction.
  On such a machine the driver provides the disks that \<open>Fat16\<close> works on.
\<close>

section \<open>Definitions\<close>

record 'd ports =
  p_inb :: "u16 \<Rightarrow> 'd \<Rightarrow> u8 \<times> 'd"
  p_outb :: "u16 \<Rightarrow> u8 \<Rightarrow> 'd \<Rightarrow> 'd"
  p_inw :: "u16 \<Rightarrow> 'd \<Rightarrow> u16 \<times> 'd"
  p_outw :: "u16 \<Rightarrow> u16 \<Rightarrow> 'd \<Rightarrow> 'd"

definition ATA_DATA :: u16 where "ATA_DATA = 0x1F0"
definition ATA_FEATURES :: u16 where "ATA_FEATURES = 0x1F1"
definition ATA_SECT_CNT :: u16 where "ATA_SECT_CNT = 0x1F2"
definition ATA_LBA_LO :: u16 where "ATA_LBA_LO = 0x1F3"
definition ATA_LBA_MID :: u16 where "ATA_LBA_MID = 0x1F4"
definition ATA_LBA_HI :: u16 where "ATA_LBA_HI = 0x1F5"
definition ATA_DRIVE_HEAD :: u16 where "ATA_DRIVE_HEAD = 0x1F6"
definition ATA_STATUS :: u16 where "ATA_STATUS = 0x1F7"
definition ATA_COMMAND :: u16 where "ATA_COMMAND = 0x1F7"
definition ATA_CONTROL :: u16 where "ATA_CONTROL = 0x3F6"
definition ATA_SR_BSY :: u8 where "ATA_SR_BSY = 0x80"
definition ATA_SR_DRQ :: u8 where "ATA_SR_DRQ = 0x08"
definition ATA_SR_ERR :: u8 where "ATA_SR_ERR = 0x01"
definition ATA_CMD_READ_PIO :: u8 where "ATA_CMD_READ_PIO = 0x20"
definition ATA_CMD_WRITE_PIO :: u8 where "ATA_CMD_WRITE_PIO = 0x30"
definition ATA_CMD_IDENTIFY :: u8 where "ATA_CMD_IDENTIFY = 0xEC"
definition ATA_CMD_FLUSH :: u8 where "ATA_CMD_FLUSH = 0xE7"
definition ATA_DH_MASTER :: u8 where "ATA_DH_MASTER = 0xA0"
definition ATA_DH_SLAVE :: u8 where "ATA_DH_SLAVE = 0xB0"
definition ATA_DH_LBA_MASTER :: u8 where "ATA_DH_LBA_MASTER = 0xE0"
definition ATA_DH_LBA_SLAVE :: u8 where "ATA_DH_LBA_SLAVE = 0xF0"
definition ATA_MAX_DRIVES :: nat where "ATA_MAX_DRIVES = 2"

record ata_drive =
  present :: bool
  is_master :: bool
  sectors :: u32
  size_mb :: u32
  model :: string
  serial :: string

record 'd ata_state =
  ata_drives :: "ata_drive list"
  num_drives :: nat
  machine :: 'd

definition drive0 :: ata_drive where
  "drive0 = \<lparr>present = False, is_master = False, sectors = 0, size_mb = 0, model = '''', serial = ''''\<rparr>"

subsection \<open>Waiting\<close>

definition ata_400ns_delay :: "'d ports \<Rightarrow> 'd \<Rightarrow> 'd" where
  "ata_400ns_delay io d = snd (p_inb io ATA_CONTROL (snd (p_inb io ATA_CONTROL (snd (p_inb io ATA_CONTROL (snd (p_inb io ATA_CONTROL d)))))))"

fun wait_ready_loop :: "'d ports \<Rightarrow> nat \<Rightarrow> 'd \<Rightarrow> bool \<times> 'd" where
  "wait_ready_loop io 0 d = (False, d)"
| "wait_ready_loop io (Suc n) d =
     (case p_inb io ATA_STATUS d of (s, d) \<Rightarrow> if s AND ATA_SR_BSY = 0 then (True, d) else wait_ready_loop io n d)"

definition ata_wait_ready :: "'d ports \<Rightarrow> 'd \<Rightarrow> bool \<times> 'd" where
  "ata_wait_ready io d = wait_ready_loop io 100000 d"

fun wait_drq_loop :: "'d ports \<Rightarrow> nat \<Rightarrow> 'd \<Rightarrow> bool \<times> 'd" where
  "wait_drq_loop io 0 d = (False, d)"
| "wait_drq_loop io (Suc n) d =
     (case p_inb io ATA_STATUS d of (s, d) \<Rightarrow>
        if s AND ATA_SR_ERR \<noteq> 0 then (False, d)
        else if s AND ATA_SR_BSY = 0 \<and> s AND ATA_SR_DRQ \<noteq> 0 then (True, d)
        else wait_drq_loop io n d)"

definition ata_wait_drq :: "'d ports \<Rightarrow> 'd \<Rightarrow> bool \<times> 'd" where
  "ata_wait_drq io d = wait_drq_loop io 100000 d"

fun read_words :: "'d ports \<Rightarrow> nat \<Rightarrow> 'd \<Rightarrow> u16 list \<times> 'd" where
  "read_words io 0 d = ([], d)"
| "read_words io (Suc n) d = (case p_inw io ATA_DATA d of (w, d) \<Rightarrow> case read_words io n d of (ws, d) \<Rightarrow> (w # ws, d))"

fun write_words :: "'d ports \<Rightarrow> u16 list \<Rightarrow> 'd \<Rightarrow> 'd" where
  "write_words io [] d = d"
| "write_words io (w # ws) d = write_words io ws (p_outw io ATA_DATA w d)"

subsection \<open>Identification\<close>

fun swapped :: "u16 list \<Rightarrow> string" where
  "swapped [] = []"
| "swapped (w # ws) = char_of (unat (drop_bit 8 w)) # char_of (unat (w AND 0xFF)) # swapped ws"

definition ata_copy_string :: "u16 list \<Rightarrow> string" where
  "ata_copy_string ws = rev (dropWhile (\<lambda>c. c = CHR '' '') (rev (swapped ws)))"

definition identify_data :: "u16 list \<Rightarrow> bool \<Rightarrow> ata_drive" where
  "identify_data ident master =
     (let sec = ucast (ident ! 60) OR push_bit 16 (ucast (ident ! 61));
          sec = (if sec = 0 then ucast (ident ! 1) * ucast (ident ! 3) * ucast (ident ! 6) else sec)
      in \<lparr>present = True, is_master = master, sectors = sec, size_mb = sec div 2048,
          model = ata_copy_string (take 20 (drop 27 ident)), serial = ata_copy_string (take 10 (drop 10 ident))\<rparr>)"

definition outs :: "'d ports \<Rightarrow> (u16 \<times> u8) list \<Rightarrow> 'd \<Rightarrow> 'd" where
  "outs io ws d = fold (\<lambda>(p, v) d. p_outb io p v d) ws d"

definition ata_identify_drive :: "'d ports \<Rightarrow> nat \<Rightarrow> 'd \<Rightarrow> bool \<times> ata_drive \<times> 'd" where
  "ata_identify_drive io idx d =
     (let drv = drive0\<lparr>is_master := (idx = 0)\<rparr>; dh = (if idx = 0 then ATA_DH_MASTER else ATA_DH_SLAVE);
          d = ata_400ns_delay io (p_outb io ATA_DRIVE_HEAD dh d) in
      case ata_wait_ready io d of (ok, d) \<Rightarrow>
      if \<not> ok then (False, drv, d)
      else case p_inb io ATA_STATUS d of (st, d) \<Rightarrow>
      if st = 0 \<or> st = 0xFF then (False, drv, d)
      else
        let d = ata_400ns_delay io (outs io [(ATA_DRIVE_HEAD, dh), (ATA_SECT_CNT, 0), (ATA_LBA_LO, 0), (ATA_LBA_MID, 0), (ATA_LBA_HI, 0),
                  (ATA_COMMAND, ATA_CMD_IDENTIFY)] d) in
        case p_inb io ATA_STATUS d of (st, d) \<Rightarrow>
        if st = 0 then (False, drv, d)
        else case ata_wait_ready io d of (ok, d) \<Rightarrow>
        if \<not> ok then (False, drv, d)
        else case p_inb io ATA_LBA_MID d of (m, d) \<Rightarrow>
        if m \<noteq> 0 then (False, drv, d)
        else case p_inb io ATA_LBA_HI d of (h, d) \<Rightarrow>
        if h \<noteq> 0 then (False, drv, d)
        else case ata_wait_drq io d of (ok, d) \<Rightarrow>
        if \<not> ok then (False, drv, d)
        else case read_words io 256 d of (ident, d) \<Rightarrow> (True, identify_data ident (idx = 0), d))"

definition ata_init :: "'d ports \<Rightarrow> 'd ata_state \<Rightarrow> 'd ata_state" where
  "ata_init io s =
     (let d = ata_400ns_delay io (p_outb io ATA_CONTROL 4 (machine s));
          d = ata_400ns_delay io (p_outb io ATA_CONTROL 0 d) in
      case ata_identify_drive io 0 d of (ok0, drv0, d) \<Rightarrow>
      case ata_identify_drive io 1 d of (ok1, drv1, d) \<Rightarrow>
        \<lparr>ata_drives = [drv0, drv1], num_drives = of_bool ok0 + of_bool ok1, machine = d\<rparr>)"

definition ata_drive_present :: "int \<Rightarrow> 'd ata_state \<Rightarrow> bool" where
  "ata_drive_present idx s \<longleftrightarrow> (if 0 \<le> idx \<and> idx < int ATA_MAX_DRIVES then present (ata_drives s ! nat idx) else False)"

definition ata_drive_count :: "'d ata_state \<Rightarrow> nat" where
  "ata_drive_count s = num_drives s"

definition ata_get_drive_n :: "int \<Rightarrow> 'd ata_state \<Rightarrow> ata_drive option" where
  "ata_get_drive_n idx s = (if 0 \<le> idx \<and> idx < int ATA_MAX_DRIVES then Some (ata_drives s ! nat idx) else None)"

subsection \<open>Sectors\<close>

fun words_of :: "u8 list \<Rightarrow> u16 list" where
  "words_of (a # b # bs) = (ucast a OR push_bit 8 (ucast b)) # words_of bs"
| "words_of bs = []"

fun bytes_of :: "u16 list \<Rightarrow> u8 list" where
  "bytes_of [] = []"
| "bytes_of (w # ws) = ucast w # ucast (drop_bit 8 w) # bytes_of ws"

text \<open>The registers written for a transfer of one sector.\<close>

definition sector_regs :: "int \<Rightarrow> u32 \<Rightarrow> u8 \<Rightarrow> (u16 \<times> u8) list" where
  "sector_regs idx lba cmd =
     (let dh = (if idx = 0 then ATA_DH_LBA_MASTER else ATA_DH_LBA_SLAVE) in
      [(ATA_DRIVE_HEAD, dh OR ucast (drop_bit 24 lba AND 0x0F)), (ATA_FEATURES, 0), (ATA_SECT_CNT, 1),
       (ATA_LBA_LO, ucast (lba AND 0xFF)), (ATA_LBA_MID, ucast (drop_bit 8 lba AND 0xFF)), (ATA_LBA_HI, ucast (drop_bit 16 lba AND 0xFF)),
       (ATA_COMMAND, cmd)])"

text \<open>The buffer is the result: \<open>None\<close> when the read fails.\<close>

definition ata_read_sector_drv :: "'d ports \<Rightarrow> int \<Rightarrow> u32 \<Rightarrow> 'd ata_state \<Rightarrow> u8 list option \<times> 'd ata_state" where
  "ata_read_sector_drv io idx lba s =
     (if idx < 0 \<or> idx \<ge> int ATA_MAX_DRIVES \<or> \<not> present (ata_drives s ! nat idx) then (None, s)
      else if lba \<ge> sectors (ata_drives s ! nat idx) then (None, s)
      else case ata_wait_ready io (machine s) of (ok, d) \<Rightarrow>
      if \<not> ok then (None, s\<lparr>machine := d\<rparr>)
      else case ata_wait_drq io (outs io (sector_regs idx lba ATA_CMD_READ_PIO) d) of (ok, d) \<Rightarrow>
      if \<not> ok then (None, s\<lparr>machine := d\<rparr>)
      else case read_words io 256 d of (ws, d) \<Rightarrow> (Some (bytes_of ws), s\<lparr>machine := ata_400ns_delay io d\<rparr>))"

definition ata_write_sector_drv :: "'d ports \<Rightarrow> int \<Rightarrow> u32 \<Rightarrow> u8 list \<Rightarrow> 'd ata_state \<Rightarrow> bool \<times> 'd ata_state" where
  "ata_write_sector_drv io idx lba buf s =
     (if idx < 0 \<or> idx \<ge> int ATA_MAX_DRIVES \<or> \<not> present (ata_drives s ! nat idx) then (False, s)
      else if lba \<ge> sectors (ata_drives s ! nat idx) then (False, s)
      else case ata_wait_ready io (machine s) of (ok, d) \<Rightarrow>
      if \<not> ok then (False, s\<lparr>machine := d\<rparr>)
      else case ata_wait_drq io (outs io (sector_regs idx lba ATA_CMD_WRITE_PIO) d) of (ok, d) \<Rightarrow>
      if \<not> ok then (False, s\<lparr>machine := d\<rparr>)
      else
        let d = p_outb io ATA_COMMAND ATA_CMD_FLUSH (ata_400ns_delay io (write_words io (words_of buf) d))
        in (True, s\<lparr>machine := snd (ata_wait_ready io d)\<rparr>))"

fun read_sectors_loop :: "'d ports \<Rightarrow> u32 \<Rightarrow> nat \<Rightarrow> u8 list \<Rightarrow> 'd ata_state \<Rightarrow> (bool \<times> u8 list) \<times> 'd ata_state" where
  "read_sectors_loop io lba 0 acc s = ((True, acc), s)"
| "read_sectors_loop io lba (Suc n) acc s =
     (case ata_read_sector_drv io 0 lba s of
        (None, s) \<Rightarrow> ((False, acc), s)
      | (Some buf, s) \<Rightarrow> read_sectors_loop io (lba + 1) n (acc @ buf) s)"

definition ata_read_sectors :: "'d ports \<Rightarrow> u32 \<Rightarrow> u8 \<Rightarrow> 'd ata_state \<Rightarrow> (bool \<times> u8 list) \<times> 'd ata_state" where
  "ata_read_sectors io lba count s = read_sectors_loop io lba (unat count) [] s"

fun write_sectors_loop :: "'d ports \<Rightarrow> u32 \<Rightarrow> nat \<Rightarrow> u8 list \<Rightarrow> 'd ata_state \<Rightarrow> bool \<times> 'd ata_state" where
  "write_sectors_loop io lba 0 buf s = (True, s)"
| "write_sectors_loop io lba (Suc n) buf s =
     (case ata_write_sector_drv io 0 lba (take 512 buf) s of
        (False, s) \<Rightarrow> (False, s)
      | (True, s) \<Rightarrow> write_sectors_loop io (lba + 1) n (drop 512 buf) s)"

definition ata_write_sectors :: "'d ports \<Rightarrow> u32 \<Rightarrow> u8 \<Rightarrow> u8 list \<Rightarrow> 'd ata_state \<Rightarrow> bool \<times> 'd ata_state" where
  "ata_write_sectors io lba count buf s = write_sectors_loop io lba (unat count) buf s"

section \<open>The controller\<close>

text \<open>
  The programming model of the PIO interface: registers, the selected drive, a data phase of 256 words.  After a command
  the controller is busy for some number of status reads, during which the other status bits read as 0.
\<close>

datatype phase = Quiet | Reading "u16 list" | Writing bool u32 "u16 list" | Failed

record ctl =
  r_dh :: u8
  r_lo :: u8
  r_mid :: u8
  r_hi :: u8
  c_phase :: phase
  c_busy :: nat
  c_delay :: nat
  c_present :: "bool \<Rightarrow> bool"
  c_ident :: "bool \<Rightarrow> u16 list"
  c_bad :: "bool \<Rightarrow> u32 \<Rightarrow> bool"
  c_media :: "bool \<Rightarrow> u32 \<Rightarrow> u16 list"

definition c_slave :: "ctl \<Rightarrow> bool" where
  "c_slave c = bit (r_dh c) 4"

definition c_lba :: "ctl \<Rightarrow> u32" where
  "c_lba c = push_bit 24 (ucast (r_dh c AND 0x0F)) OR push_bit 16 (ucast (r_hi c)) OR push_bit 8 (ucast (r_mid c)) OR ucast (r_lo c)"

definition c_status :: "ctl \<Rightarrow> u8" where
  "c_status c =
     (if \<not> c_present c (c_slave c) then 0 else if 0 < c_busy c then 0x80
      else case c_phase c of Quiet \<Rightarrow> 0x40 | Reading ws \<Rightarrow> 0x48 | Writing _ _ _ \<Rightarrow> 0x48 | Failed \<Rightarrow> 0x41)"

definition ctl_inb :: "u16 \<Rightarrow> ctl \<Rightarrow> u8 \<times> ctl" where
  "ctl_inb p c =
     (if p = ATA_STATUS \<or> p = ATA_CONTROL then (c_status c, c\<lparr>c_busy := c_busy c - 1\<rparr>)
      else if p = ATA_LBA_LO then (r_lo c, c) else if p = ATA_LBA_MID then (r_mid c, c) else if p = ATA_LBA_HI then (r_hi c, c)
      else if p = ATA_DRIVE_HEAD then (r_dh c, c) else (0, c))"

definition ctl_command :: "u8 \<Rightarrow> ctl \<Rightarrow> ctl" where
  "ctl_command cmd c =
     (let sl = c_slave c; lba = c_lba c;
          ph = (if \<not> c_present c sl then Quiet
                else if cmd = ATA_CMD_IDENTIFY then Reading (c_ident c sl)
                else if cmd = ATA_CMD_READ_PIO then if c_bad c sl lba then Failed else Reading (c_media c sl lba)
                else if cmd = ATA_CMD_WRITE_PIO then if c_bad c sl lba then Failed else Writing sl lba []
                else Quiet)
      in c\<lparr>c_phase := ph, c_busy := c_delay c\<rparr>)"

definition ctl_outb :: "u16 \<Rightarrow> u8 \<Rightarrow> ctl \<Rightarrow> ctl" where
  "ctl_outb p v c =
     (if p = ATA_LBA_LO then c\<lparr>r_lo := v\<rparr> else if p = ATA_LBA_MID then c\<lparr>r_mid := v\<rparr> else if p = ATA_LBA_HI then c\<lparr>r_hi := v\<rparr>
      else if p = ATA_DRIVE_HEAD then c\<lparr>r_dh := v\<rparr> else if p = ATA_COMMAND then ctl_command v c
      else if p = ATA_CONTROL then (if bit v 2 then c\<lparr>c_phase := Quiet, c_busy := c_delay c\<rparr> else c) else c)"

definition ctl_inw :: "u16 \<Rightarrow> ctl \<Rightarrow> u16 \<times> ctl" where
  "ctl_inw p c =
     (case c_phase c of
        Reading (w # ws) \<Rightarrow> (w, c\<lparr>c_phase := (if ws = [] then Quiet else Reading ws)\<rparr>)
      | _ \<Rightarrow> (0, c))"

definition ctl_outw :: "u16 \<Rightarrow> u16 \<Rightarrow> ctl \<Rightarrow> ctl" where
  "ctl_outw p w c =
     (case c_phase c of
        Writing sl lba ws \<Rightarrow>
          if length ws = 255 then c\<lparr>c_phase := Quiet, c_media := (c_media c)(sl := (c_media c sl)(lba := ws @ [w]))\<rparr>
          else c\<lparr>c_phase := Writing sl lba (ws @ [w])\<rparr>
      | _ \<Rightarrow> c)"

definition ctl_ports :: "ctl ports" where
  "ctl_ports = \<lparr>p_inb = ctl_inb, p_outb = ctl_outb, p_inw = ctl_inw, p_outw = ctl_outw\<rparr>"

text \<open>A machine whose ports behave as those of the controller, seen through \<open>ab\<close>.\<close>

definition conforms :: "'d ports \<Rightarrow> ('d \<Rightarrow> ctl) \<Rightarrow> bool" where
  "conforms io ab \<longleftrightarrow>
     (\<forall>p d. map_prod id ab (p_inb io p d) = ctl_inb p (ab d)) \<and> (\<forall>p v d. ab (p_outb io p v d) = ctl_outb p v (ab d)) \<and>
     (\<forall>d. map_prod id ab (p_inw io ATA_DATA d) = ctl_inw ATA_DATA (ab d)) \<and> (\<forall>w d. ab (p_outw io ATA_DATA w d) = ctl_outw ATA_DATA w (ab d))"

lemmas port_defs = ATA_DATA_def ATA_FEATURES_def ATA_SECT_CNT_def ATA_LBA_LO_def ATA_LBA_MID_def ATA_LBA_HI_def ATA_DRIVE_HEAD_def
  ATA_STATUS_def ATA_COMMAND_def ATA_CONTROL_def ATA_SR_BSY_def ATA_SR_DRQ_def ATA_SR_ERR_def
  ATA_CMD_READ_PIO_def ATA_CMD_WRITE_PIO_def ATA_CMD_IDENTIFY_def ATA_CMD_FLUSH_def

subsection \<open>From the machine to the controller\<close>

lemma conformsD:
  assumes "conforms io ab"
  shows "p_inb io p d = (v, d') \<Longrightarrow> ctl_inb p (ab d) = (v, ab d')" "ab (p_outb io p v d) = ctl_outb p v (ab d)"
    "p_inw io ATA_DATA d = (w, d') \<Longrightarrow> ctl_inw ATA_DATA (ab d) = (w, ab d')" "ab (p_outw io ATA_DATA w d) = ctl_outw ATA_DATA w (ab d)"
  using assms unfolding conforms_def by (metis id_apply map_prod_simp)+

lemma ctl_ports_sel [simp]: "p_inb ctl_ports = ctl_inb" "p_outb ctl_ports = ctl_outb" "p_inw ctl_ports = ctl_inw" "p_outw ctl_ports = ctl_outw"
  by (simp_all add: ctl_ports_def)

lemma hom_wait_ready:
  assumes "conforms io ab"
  shows "map_prod id ab (wait_ready_loop io n d) = wait_ready_loop ctl_ports n (ab d)"
  by (induction n arbitrary: d) (auto split: prod.split dest: conformsD(1) [OF assms])

lemma hom_wait_drq:
  assumes "conforms io ab"
  shows "map_prod id ab (wait_drq_loop io n d) = wait_drq_loop ctl_ports n (ab d)"
  by (induction n arbitrary: d) (auto split: prod.split dest: conformsD(1) [OF assms])

lemma hom_delay:
  assumes "conforms io ab"
  shows "ab (ata_400ns_delay io d) = ata_400ns_delay ctl_ports (ab d)"
proof -
  have "ab (snd (p_inb io p d)) = snd (ctl_inb p (ab d))" for p d using conformsD(1) [OF assms, of p d] by (cases "p_inb io p d") auto
  then show ?thesis by (simp add: ata_400ns_delay_def)
qed

lemma hom_read_words:
  assumes "conforms io ab"
  shows "map_prod id ab (read_words io n d) = read_words ctl_ports n (ab d)"
proof (induction n arbitrary: d)
  case (Suc n)
  obtain w d' where w: "p_inw io ATA_DATA d = (w, d')" by force
  obtain ws d'' where ws: "read_words io n d' = (ws, d'')" by force
  show ?case using Suc [of d'] conformsD(3) [OF assms w] w ws by (simp split: prod.split) force
qed simp


lemma hom_outs:
  assumes "conforms io ab"
  shows "ab (outs io ws d) = outs ctl_ports ws (ab d)"
  unfolding outs_def by (induction ws arbitrary: d) (auto simp: conformsD(2) [OF assms])

definition map_machine :: "('d \<Rightarrow> 'e) \<Rightarrow> 'd ata_state \<Rightarrow> 'e ata_state" where
  "map_machine f s = \<lparr>ata_drives = ata_drives s, num_drives = num_drives s, machine = f (machine s)\<rparr>"

lemma map_machine_simps [simp]:
  "ata_drives (map_machine f s) = ata_drives s" "machine (map_machine f s) = f (machine s)"
  "map_machine f (s\<lparr>machine := d\<rparr>) = (map_machine f s)\<lparr>machine := f d\<rparr>"
  by (simp_all add: map_machine_def)

lemma hom_pair: "map_prod id ab x = y \<Longrightarrow> x = (a, d) \<Longrightarrow> y = (a, ab d)"
  by auto



subsection \<open>The driver on the controller\<close>

lemma ctl_status: "ctl_inb ATA_STATUS c = (c_status c, c\<lparr>c_busy := c_busy c - 1\<rparr>)"
  by (simp add: ctl_inb_def)

lemma status_busy: "c_status c AND ATA_SR_BSY = 0 \<longleftrightarrow> \<not> (c_present c (c_slave c) \<and> 0 < c_busy c)"
  by (auto simp: c_status_def ATA_SR_BSY_def split: phase.splits)

lemma c_slave_upd [simp]: "c_slave (c\<lparr>c_busy := n\<rparr>) = c_slave c" "c_slave (c\<lparr>c_phase := p\<rparr>) = c_slave c"
  by (simp_all add: c_slave_def)

lemma wait_ready_ctl:
  assumes "c_busy c < n"
  shows "\<exists>b. wait_ready_loop ctl_ports n c = (True, c\<lparr>c_busy := b\<rparr>) \<and> b \<le> c_busy c \<and> (c_present c (c_slave c) \<longrightarrow> b = 0)"
  using assms
proof (induction n arbitrary: c)
  case (Suc n)
  show ?case
  proof (cases "c_status c AND ATA_SR_BSY = 0")
    case True
    then show ?thesis using status_busy [of c] by (auto simp: ctl_status)
  next
    case False
    then have "0 < c_busy c" using status_busy by blast
    then show ?thesis using Suc.IH [of "c\<lparr>c_busy := c_busy c - 1\<rparr>"] Suc.prems False by (fastforce simp: ctl_status)
  qed
qed simp

lemma wait_drq_ctl:
  assumes "c_busy c < n" "c_present c (c_slave c)" "c_phase c = Reading ws \<or> c_phase c = Writing sl lba us"
  shows "wait_drq_loop ctl_ports n c = (True, c\<lparr>c_busy := 0\<rparr>)"
  using assms
proof (induction n arbitrary: c)
  case (Suc n)
  show ?case
  proof (cases "c_busy c")
    case 0
    then have "c_status c = 0x48" "c\<lparr>c_busy := 0\<rparr> = c" using Suc.prems by (auto simp: c_status_def)
    then show ?thesis using 0 by (simp add: ctl_status ATA_SR_BSY_def ATA_SR_DRQ_def ATA_SR_ERR_def)
  next
    case (Suc b)
    then have "c_status c = 0x80" using Suc.prems by (simp add: c_status_def)
    then show ?thesis using Suc.IH [of "c\<lparr>c_busy := b\<rparr>"] Suc.prems Suc by (simp add: ctl_status ATA_SR_BSY_def ATA_SR_DRQ_def ATA_SR_ERR_def)
  qed
qed simp


lemma delay_ctl: "ata_400ns_delay ctl_ports c = c\<lparr>c_busy := c_busy c - 4\<rparr>"
  by (simp add: ata_400ns_delay_def ctl_inb_def)

lemma read_words_ctl:
  assumes "c_phase c = Reading ws" "ws \<noteq> []"
  shows "read_words ctl_ports (length ws) c = (ws, c\<lparr>c_phase := Quiet\<rparr>)"
  using assms
proof (induction ws arbitrary: c)
  case (Cons w ws)
  then show ?case by (cases "ws = []") (simp_all add: ctl_inw_def)
qed simp





definition regs_set :: "int \<Rightarrow> u32 \<Rightarrow> ctl \<Rightarrow> ctl" where
  "regs_set idx lba c = c\<lparr>r_dh := (if idx = 0 then ATA_DH_LBA_MASTER else ATA_DH_LBA_SLAVE) OR ucast (drop_bit 24 lba AND 0x0F), r_lo := ucast (lba AND 0xFF),
     r_mid := ucast (drop_bit 8 lba AND 0xFF), r_hi := ucast (drop_bit 16 lba AND 0xFF)\<rparr>"



subsection \<open>Refinement of the disks of FAT16\<close>

lemma length_words_bytes [simp]: "length (bytes_of ws) = 2 * length ws"
  by (induction ws) auto





text \<open>
  The drives the driver knows are there, their sectors are addressable with 28 bits, sectors have 512 bytes, and the controller is
  never busy longer than the driver waits.
\<close>

definition ata_ok :: "ctl ata_state \<Rightarrow> bool" where
  "ata_ok s \<longleftrightarrow> length (ata_drives s) = 2 \<and>
     (\<forall>i < 2. present (ata_drives s ! i) \<longrightarrow> c_present (machine s) (i \<noteq> 0) \<and> sectors (ata_drives s ! i) \<le> 0x10000000) \<and>
     c_busy (machine s) < 100000 \<and> c_delay (machine s) < 100000 \<and> (\<forall>sl lba. length (c_media (machine s) sl lba) = 256)"

lemma ctl_command_sel [simp]: "c_present (ctl_command cmd c) = c_present c" "c_slave (ctl_command cmd c) = c_slave c" "c_busy (ctl_command cmd c) = c_delay c"
  "c_media (ctl_command cmd c) = c_media c" "c_bad (ctl_command cmd c) = c_bad c" "c_delay (ctl_command cmd c) = c_delay c"
  by (simp_all add: ctl_command_def c_slave_def Let_def)

lemma regs_set_sel [simp]: "c_present (regs_set idx lba c) = c_present c" "c_delay (regs_set idx lba c) = c_delay c" "c_media (regs_set idx lba c) = c_media c"
  "c_bad (regs_set idx lba c) = c_bad c"
  by (simp_all add: regs_set_def)






subsection \<open>Identification\<close>

lemma hom_identify:
  assumes "conforms io ab"
  shows "map_prod id (map_prod id ab) (ata_identify_drive io idx d) = ata_identify_drive ctl_ports idx (ab d)"
proof -
  note R = hom_pair [OF hom_wait_ready [OF assms]] and Q = hom_pair [OF hom_wait_drq [OF assms]] and W = hom_pair [OF hom_read_words [OF assms]]
    and B = conformsD(1) [OF assms]
  let ?dh = "if idx = 0 then ATA_DH_MASTER else ATA_DH_SLAVE"
  let ?cmd = "[(ATA_DRIVE_HEAD, ?dh), (ATA_SECT_CNT, 0), (ATA_LBA_LO, 0), (ATA_LBA_MID, 0), (ATA_LBA_HI, 0), (ATA_COMMAND, ATA_CMD_IDENTIFY)]"
  obtain ok1 d1 where 1: "wait_ready_loop io 100000 (ata_400ns_delay io (p_outb io ATA_DRIVE_HEAD ?dh d)) = (ok1, d1)" by force
  obtain st2 d2 where 2: "p_inb io ATA_STATUS d1 = (st2, d2)" by force
  obtain st3 d3 where 3: "p_inb io ATA_STATUS (ata_400ns_delay io (outs io ?cmd d2)) = (st3, d3)" by force
  obtain ok4 d4 where 4: "wait_ready_loop io 100000 d3 = (ok4, d4)" by force
  obtain m d5 where 5: "p_inb io ATA_LBA_MID d4 = (m, d5)" by force
  obtain h d6 where 6: "p_inb io ATA_LBA_HI d5 = (h, d6)" by force
  obtain ok7 d7 where 7: "wait_drq_loop io 100000 d6 = (ok7, d7)" by force
  obtain ws d8 where 8: "read_words io 256 d7 = (ws, d8)" by force
  note H = R [OF 1] B [OF 2] B [OF 3] R [OF 4] B [OF 5] B [OF 6] Q [OF 7] W [OF 8]
  have C: "wait_ready_loop ctl_ports 100000 (ata_400ns_delay ctl_ports (ctl_outb ATA_DRIVE_HEAD ?dh (ab d))) = (ok1, ab d1)"
    "ctl_inb ATA_STATUS (ata_400ns_delay ctl_ports (outs ctl_ports ?cmd (ab d2))) = (st3, ab d3)"
    using H(1,3) by (simp_all only: hom_delay [OF assms] conformsD(2) [OF assms] hom_outs [OF assms])
  show ?thesis
    unfolding ata_identify_drive_def ata_wait_ready_def ata_wait_drq_def Let_def ctl_ports_sel 1 2 3 4 5 6 7 8 C H(2,4-8) prod.case
    by (simp only: map_prod_simp id_apply if_distrib [of "map_prod id (map_prod id ab)"] prod.case 3 4 5 6 7 8 C H)
qed

text \<open>A drive that is there is found, with the data it gives.\<close>

lemma identify_ctl:
  assumes "c_busy c < 100000" "c_delay c < 100000" "length (c_ident c (i \<noteq> 0)) = 256" "i < 2"
  shows "\<exists>c'. ata_identify_drive ctl_ports i c =
      (if c_present c (i \<noteq> 0) then (True, identify_data (c_ident c (i \<noteq> 0)) (i = 0), c') else (False, drive0\<lparr>is_master := (i = 0)\<rparr>, c')) \<and>
    c_present c' = c_present c \<and> c_ident c' = c_ident c \<and> c_bad c' = c_bad c \<and> c_media c' = c_media c \<and> c_delay c' = c_delay c \<and> c_busy c' < 100000"
proof -
  let ?dh = "if i = 0 then ATA_DH_MASTER else ATA_DH_SLAVE"
  let ?cmd = "[(ATA_DRIVE_HEAD, ?dh), (ATA_SECT_CNT, 0), (ATA_LBA_LO, 0), (ATA_LBA_MID, 0), (ATA_LBA_HI, 0), (ATA_COMMAND, ATA_CMD_IDENTIFY)]"
  define c1 where "c1 = ata_400ns_delay ctl_ports (ctl_outb ATA_DRIVE_HEAD ?dh c)"
  have sl: "bit ?dh 4 \<longleftrightarrow> i \<noteq> 0" by (simp add: ATA_DH_MASTER_def ATA_DH_SLAVE_def)
  have c1: "c1 = c\<lparr>r_dh := ?dh, c_busy := c_busy c - 4\<rparr>" by (simp add: c1_def delay_ctl ctl_outb_def port_defs)
  have s1: "c_slave c1 \<longleftrightarrow> i \<noteq> 0" "c_busy c1 < 100000" using assms(1) sl by (simp_all add: c1 c_slave_def)
  obtain b where b: "wait_ready_loop ctl_ports 100000 c1 = (True, c1\<lparr>c_busy := b\<rparr>)" "b \<le> c_busy c1" "c_present c1 (c_slave c1) \<longrightarrow> b = 0"
    using wait_ready_ctl [OF s1(2)] by blast
  let ?c2 = "c1\<lparr>c_busy := b\<rparr>"
  have st: "ctl_inb ATA_STATUS ?c2 = (c_status ?c2, ?c2\<lparr>c_busy := b - 1\<rparr>)" by (simp add: ctl_status)
  show ?thesis
  proof (cases "c_present c (i \<noteq> 0)")
    case False
    then have "c_status ?c2 = 0" using s1(1) by (simp add: c_status_def c1)
    then have "ata_identify_drive ctl_ports i c = (False, drive0\<lparr>is_master := (i = 0)\<rparr>, ?c2\<lparr>c_busy := b - 1\<rparr>)"
      by (simp add: ata_identify_drive_def Let_def c1_def [symmetric] ata_wait_ready_def b(1) st)
    then show ?thesis using False s1(2) b(2) by (simp add: c1)
  next
    case True
    then have b0: "b = 0" using b(3) s1(1) by (simp add: c1)
    have st2: "c_status ?c2 \<noteq> 0" "c_status ?c2 \<noteq> 0xFF" using True s1(1) b0 by (auto simp: c_status_def c1 split: phase.splits)
    define c3 where "c3 = outs ctl_ports ?cmd (?c2\<lparr>c_busy := b - 1\<rparr>)"
    have c3: "c3 = c1\<lparr>r_lo := 0, r_mid := 0, r_hi := 0, c_phase := Reading (c_ident c (i \<noteq> 0)), c_busy := c_delay c\<rparr>"
      using True sl by (simp add: c3_def outs_def ctl_outb_def ctl_command_def port_defs c1 c_slave_def Let_def)
    define c4 where "c4 = ata_400ns_delay ctl_ports c3"
    have c4: "c4 = c3\<lparr>c_busy := c_delay c - 4\<rparr>" by (simp add: c4_def delay_ctl c3)
    have sl4: "c_slave c4 \<longleftrightarrow> i \<noteq> 0" "c_present c4 = c_present c" using s1(1) by (simp_all add: c4 c3 c_slave_def c1)
    have st4: "ctl_inb ATA_STATUS c4 = (c_status c4, c4\<lparr>c_busy := c_delay c - 4 - 1\<rparr>)" "c_status c4 \<noteq> 0"
      using True sl4 by (simp_all add: ctl_status c4 c3 c_status_def)
    let ?c5 = "c4\<lparr>c_busy := c_delay c - 4 - 1\<rparr>"
    have "c_busy ?c5 < 100000" using assms(2) by simp
    from wait_ready_ctl [OF this] have w5: "wait_ready_loop ctl_ports 100000 ?c5 = (True, c4\<lparr>c_busy := 0\<rparr>)" using True sl4 by auto
    let ?c6 = "c4\<lparr>c_busy := 0\<rparr>"
    have m: "ctl_inb ATA_LBA_MID ?c6 = (0, ?c6)" "ctl_inb ATA_LBA_HI ?c6 = (0, ?c6)" by (simp_all add: ctl_inb_def port_defs c4 c3)
    have q: "wait_drq_loop ctl_ports 100000 ?c6 = (True, ?c6)"
      using wait_drq_ctl [of ?c6 100000 "c_ident c (i \<noteq> 0)"] True sl4 by (simp add: c4 c3)
    have ne: "c_ident c (i \<noteq> 0) \<noteq> []" using assms(3) by auto
    have r: "read_words ctl_ports 256 ?c6 = (c_ident c (i \<noteq> 0), ?c6\<lparr>c_phase := Quiet\<rparr>)"
      using read_words_ctl [of ?c6 "c_ident c (i \<noteq> 0)"] ne assms(3) by (simp add: c4 c3)
    have "ata_identify_drive ctl_ports i c = (True, identify_data (c_ident c (i \<noteq> 0)) (i = 0), ?c6\<lparr>c_phase := Quiet\<rparr>)"
      unfolding ata_identify_drive_def Let_def ctl_ports_sel c1_def [symmetric] ata_wait_ready_def ata_wait_drq_def b(1) prod.case st c3_def [symmetric] c4_def [symmetric] st4(1) w5 m q r
      using st2 st4(2) by simp
    then show ?thesis using True by (simp add: c4 c3 c1)
  qed
qed

text \<open>After the start-up sequence on a machine that conforms to the controller, the driver knows exactly the drives that are there, with the
  capacity they report, counts them, and is ready for transfers; the contents of the disks are untouched.\<close>
theorem ata_init_finds:
  assumes "conforms io ab" "c = ab (machine s)" "c_delay c < 100000" "\<forall>sl. length (c_ident c sl) = 256" "\<forall>sl lba. length (c_media c sl lba) = 256"
    "\<forall>sl m. sectors (identify_data (c_ident c sl) m) \<le> 0x10000000"
  shows "ata_ok (map_machine ab (ata_init io s)) \<and> c_media (ab (machine (ata_init io s))) = c_media c \<and> num_drives (ata_init io s) = of_bool (c_present c False) + of_bool (c_present c True) \<and>
    (\<forall>i < 2. ata_drives (ata_init io s) ! i = (if c_present c (i \<noteq> 0) then identify_data (c_ident c (i \<noteq> 0)) (i = 0) else drive0\<lparr>is_master := (i = 0)\<rparr>))"
proof -
  let ?d = "ata_400ns_delay io (p_outb io ATA_CONTROL 0 (ata_400ns_delay io (p_outb io ATA_CONTROL 4 (machine s))))"
  define c0 where "c0 = ab ?d"
  have "c0 = c\<lparr>c_phase := Quiet, c_busy := c_delay c - 4 - 4\<rparr>"
    by (simp add: c0_def hom_delay [OF assms(1)] conformsD(2) [OF assms(1)] assms(2) delay_ctl ctl_outb_def port_defs)
  then have c0: "c_busy c0 < 100000" "c_delay c0 < 100000" "length (c_ident c0 sl) = 256" "c_present c0 = c_present c" "c_ident c0 = c_ident c" "c_media c0 = c_media c" "c_delay c0 = c_delay c" for sl
    using assms(3,4) by simp_all
  obtain ok0 v0 d0 where i0: "ata_identify_drive io 0 ?d = (ok0, v0, d0)" by (metis prod_cases3)
  obtain ok1 v1 d1 where i1: "ata_identify_drive io 1 d0 = (ok1, v1, d1)" by (metis prod_cases3)
  have h0: "ata_identify_drive ctl_ports 0 c0 = (ok0, v0, ab d0)" using hom_identify [OF assms(1), of 0 ?d] i0 by (simp add: c0_def)
  have h1: "ata_identify_drive ctl_ports 1 (ab d0) = (ok1, v1, ab d1)" using hom_identify [OF assms(1), of 1 d0] i1 by simp
  have A: "ok0 = c_present c False" "v0 = (if c_present c False then identify_data (c_ident c False) True else drive0\<lparr>is_master := True\<rparr>)"
    "c_present (ab d0) = c_present c" "c_ident (ab d0) = c_ident c" "c_media (ab d0) = c_media c" "c_delay (ab d0) = c_delay c" "c_busy (ab d0) < 100000"
    using identify_ctl [OF c0(1,2,3), of 0] h0 c0 by (auto split: if_splits)
  have B: "ok1 = c_present c True" "v1 = (if c_present c True then identify_data (c_ident c True) False else drive0\<lparr>is_master := False\<rparr>)"
    "c_present (ab d1) = c_present c" "c_media (ab d1) = c_media c" "c_delay (ab d1) = c_delay c" "c_busy (ab d1) < 100000"
    using identify_ctl [of "ab d0" 1] h1 A(3-7) assms(3,4) by (auto split: if_splits)
  have init: "ata_init io s = \<lparr>ata_drives = [v0, v1], num_drives = of_bool ok0 + of_bool ok1, machine = d1\<rparr>"
    by (simp only: ata_init_def Let_def i0 i1 prod.case)
  show ?thesis using A(1,2) B assms(3,5,6) by (auto simp: init ata_ok_def map_machine_def less_2_cases_iff drive0_def)
qed

text \<open>A machine with one drive: the controller itself.\<close>

definition one_drive :: ctl where
  "one_drive = \<lparr>r_dh = 0, r_lo = 0, r_mid = 0, r_hi = 0, c_phase = Quiet, c_busy = 5, c_delay = 9, c_present = Not,
     c_ident = (\<lambda>_. (replicate 256 0)[60 := 1000]), c_bad = (\<lambda>_ lba. lba = 7), c_media = (\<lambda>_ _. replicate 256 0x4142)\<rparr>"

lemma ctl_ports_conform: "conforms ctl_ports id"
  by (simp add: conforms_def map_prod.id)

lemma one_drive_ident: "sectors (identify_data (c_ident one_drive sl) m) = 1000"
  by (simp add: identify_data_def one_drive_def Let_def)

theorem ata_init_finds_witness:
  "num_drives (ata_init ctl_ports \<lparr>ata_drives = [], num_drives = 0, machine = one_drive\<rparr>) = 1"
proof -
  let ?s = "\<lparr>ata_drives = [], num_drives = 0, machine = one_drive\<rparr>"
  have c: "one_drive = id (machine ?s)" by simp
  have "c_delay one_drive < 100000" "\<forall>sl. length (c_ident one_drive sl) = 256" "\<forall>sl lba. length (c_media one_drive sl lba) = 256"
    by (simp_all add: one_drive_def)
  from ata_init_finds [OF ctl_ports_conform c this] one_drive_ident show ?thesis by (simp add: one_drive_def)
qed




end
