(* ===== verification/Devices.thy ===== *)
theory Devices
  imports Ata Descr
begin

text \<open>
  Small drivers: the scan of the PCI bus (\<^verbatim>\<open>src/pci.c\<close>), the PS/2 mouse (\<^verbatim>\<open>src/mouse.c\<close>) with the tablet
  that stands in for it (the event handling of \<^verbatim>\<open>src/virtio_input.c\<close>), and the clock (\<^verbatim>\<open>src/rtc.c\<close>).  What the hardware
  delivers is an argument: the configuration registers by address, the bytes of the mouse, the events of the tablet, the registers of the
  clock and how long it is updating.
\<close>

section \<open>Definitions\<close>

subsection \<open>PCI\<close>

definition PCI_CONFIG_ADDR :: u16 where "PCI_CONFIG_ADDR = 0xCF8"
definition PCI_CONFIG_DATA :: u16 where "PCI_CONFIG_DATA = 0xCFC"
definition PCI_MAX_DEVICES :: nat where "PCI_MAX_DEVICES = 64"

record pci_device =
  pd_bus :: nat
  pd_slot :: nat
  pd_func :: nat
  vendor_id :: u16
  device_id :: u16
  class_code :: u8
  sub_class :: u8
  prog_if :: u8
  header_type :: u8
  irq_line :: u8
  bar :: "u32 list"
  active :: bool

definition pci_addr :: "nat \<Rightarrow> nat \<Rightarrow> nat \<Rightarrow> u8 \<Rightarrow> u32" where
  "pci_addr bus slot func off =
     push_bit 31 1 OR push_bit 16 (ucast (of_nat bus :: u8)) OR push_bit 11 (ucast (of_nat slot :: u8)) OR push_bit 8 (ucast (of_nat func :: u8)) OR ucast (off AND 0xFC)"

text \<open>\<open>cfg\<close> is what the data port gives for the address written to the address port.\<close>

definition pci_read :: "(u32 \<Rightarrow> u32) \<Rightarrow> nat \<Rightarrow> nat \<Rightarrow> nat \<Rightarrow> u8 \<Rightarrow> u32" where
  "pci_read cfg bus slot func off = cfg (pci_addr bus slot func off)"

text \<open>A write is the two port accesses it makes.\<close>

definition pci_write :: "nat \<Rightarrow> nat \<Rightarrow> nat \<Rightarrow> u8 \<Rightarrow> u32 \<Rightarrow> (u16 \<times> u32) list" where
  "pci_write bus slot func off val = [(PCI_CONFIG_ADDR, pci_addr bus slot func off), (PCI_CONFIG_DATA, val)]"

definition pci_class_name :: "u8 \<Rightarrow> u8 \<Rightarrow> string" where
  "pci_class_name cc sc =
     (if cc = 0x00 then ''Legacy''
      else if cc = 0x01 then
        if sc = 0x00 then ''SCSI Controller'' else if sc = 0x01 then ''IDE Controller'' else if sc = 0x05 then ''ATA Controller''
        else if sc = 0x06 then ''SATA Controller'' else if sc = 0x08 then ''NVMe Controller'' else ''Storage Controller''
      else if cc = 0x02 then if sc = 0x00 then ''Ethernet Controller'' else if sc = 0x80 then ''Network Controller'' else ''Network Controller''
      else if cc = 0x03 then if sc = 0x00 then ''VGA Controller'' else if sc = 0x01 then ''XGA Controller'' else ''Display Controller''
      else if cc = 0x04 then ''Multimedia Controller''
      else if cc = 0x05 then ''Memory Controller''
      else if cc = 0x06 then
        if sc = 0x00 then ''Host Bridge'' else if sc = 0x01 then ''ISA Bridge'' else if sc = 0x04 then ''PCI-PCI Bridge''
        else if sc = 0x80 then ''Other Bridge'' else ''Bridge Device''
      else if cc = 0x07 then ''Communication Controller''
      else if cc = 0x08 then ''System Peripheral''
      else if cc = 0x09 then ''Input Device''
      else if cc = 0x0C then if sc = 0x03 then ''USB Controller'' else if sc = 0x05 then ''SMBus Controller'' else ''Serial Bus Controller''
      else if cc = 0x0D then ''Wireless Controller''
      else if cc = 0xFF then ''Unassigned''
      else ''Unknown Device'')"

definition read_device :: "(u32 \<Rightarrow> u32) \<Rightarrow> nat \<Rightarrow> nat \<Rightarrow> nat \<Rightarrow> pci_device" where
  "read_device cfg bus slot func =
     (let reg0 = pci_read cfg bus slot func 0; reg2 = pci_read cfg bus slot func 0x08 in
      \<lparr>pd_bus = bus, pd_slot = slot, pd_func = func, vendor_id = ucast (reg0 AND 0xFFFF), device_id = ucast (drop_bit 16 reg0 AND 0xFFFF),
       class_code = ucast (drop_bit 24 reg2 AND 0xFF), sub_class = ucast (drop_bit 16 reg2 AND 0xFF), prog_if = ucast (drop_bit 8 reg2 AND 0xFF),
       header_type = ucast (drop_bit 16 (pci_read cfg bus slot func 0x0C) AND 0xFF), irq_line = ucast (pci_read cfg bus slot func 0x3C AND 0xFF),
       bar = map (\<lambda>i. pci_read cfg bus slot func (0x10 + of_nat i * 4)) [0..<6], active = True\<rparr>)"

definition scan_device :: "(u32 \<Rightarrow> u32) \<Rightarrow> nat \<Rightarrow> nat \<Rightarrow> nat \<Rightarrow> pci_device list \<Rightarrow> pci_device list" where
  "scan_device cfg bus slot func ds =
     (if pci_read cfg bus slot func 0 AND 0xFFFF = 0xFFFF then ds
      else if length ds \<ge> PCI_MAX_DEVICES then ds
      else ds @ [read_device cfg bus slot func])"

definition scan_slot :: "(u32 \<Rightarrow> u32) \<Rightarrow> nat \<Rightarrow> nat \<Rightarrow> pci_device list \<Rightarrow> pci_device list" where
  "scan_slot cfg bus slot ds =
     (if pci_read cfg bus slot 0 0 AND 0xFFFF = 0xFFFF then ds
      else
        let ds = scan_device cfg bus slot 0 ds in
        if drop_bit 16 (pci_read cfg bus slot 0 0x0C) AND 0x80 \<noteq> 0 then fold (scan_device cfg bus slot) [1..<8] ds else ds)"

definition pci_init :: "(u32 \<Rightarrow> u32) \<Rightarrow> pci_device list" where
  "pci_init cfg = fold (\<lambda>bus. fold (scan_slot cfg bus) [0..<32]) [0..<256] []"

definition pci_find_device :: "u16 \<Rightarrow> u16 \<Rightarrow> pci_device list \<Rightarrow> pci_device option" where
  "pci_find_device vendor device ds = map_option (nth ds) (find_slot (\<lambda>d. vendor_id d = vendor \<and> device_id d = device) ds)"

fun pci_find_device_nth :: "u16 \<Rightarrow> u16 \<Rightarrow> int \<Rightarrow> int \<Rightarrow> pci_device list \<Rightarrow> pci_device option" where
  "pci_find_device_nth vendor device n found [] = None"
| "pci_find_device_nth vendor device n found (d # ds) =
     (if vendor_id d = vendor \<and> device_id d = device then if found = n then Some d else pci_find_device_nth vendor device n (found + 1) ds
      else pci_find_device_nth vendor device n found ds)"

definition pci_find_class :: "u8 \<Rightarrow> u8 \<Rightarrow> pci_device list \<Rightarrow> pci_device option" where
  "pci_find_class cc sc ds = map_option (nth ds) (find_slot (\<lambda>d. class_code d = cc \<and> sub_class d = sc) ds)"

definition pci_device_count :: "pci_device list \<Rightarrow> nat" where
  "pci_device_count ds = length ds"

subsection \<open>Tablet\<close>

record virtio_input_event =
  ev_type :: u16
  ev_code :: u16
  ev_value :: u32

definition EV_SYN :: u16 where "EV_SYN = 0"
definition EV_KEY :: u16 where "EV_KEY = 1"
definition EV_REL :: u16 where "EV_REL = 2"
definition EV_ABS :: u16 where "EV_ABS = 3"
definition REL_X :: u16 where "REL_X = 0"
definition REL_Y :: u16 where "REL_Y = 1"
definition ABS_X :: u16 where "ABS_X = 0"
definition ABS_Y :: u16 where "ABS_Y = 1"
definition BTN_LEFT :: u16 where "BTN_LEFT = 0x110"
definition BTN_RIGHT :: u16 where "BTN_RIGHT = 0x111"
definition BTN_MIDDLE :: u16 where "BTN_MIDDLE = 0x112"
definition SYN_REPORT :: u16 where "SYN_REPORT = 0"

record vinput_state =
  input_initialized :: bool
  abs_x_max :: u32
  abs_y_max :: u32
  vi_x :: int
  vi_y :: int
  vi_max_x :: int
  vi_max_y :: int
  vi_buttons :: u8
  vi_prev_buttons :: u8
  pending_abs_x :: u32
  pending_abs_y :: u32
  has_pending_x :: bool
  has_pending_y :: bool


definition clip :: "int \<Rightarrow> int \<Rightarrow> int" where
  "clip hi v = (let v = (if v < 0 then 0 else v) in if v > hi then hi else v)"

text \<open>A sum of two \<^verbatim>\<open>int\<close>s; \<open>None\<close> when it overflows.\<close>

definition add_int :: "int \<Rightarrow> int \<Rightarrow> int option" where
  "add_int a b = (if - (2 ^ 31) \<le> a + b \<and> a + b < 2 ^ 31 then Some (a + b) else None)"

definition set_button :: "u8 \<Rightarrow> u32 \<Rightarrow> u8 \<Rightarrow> u8" where
  "set_button m val b = (if val \<noteq> 0 then b OR m else b AND NOT m)"

definition scale_abs :: "u32 \<Rightarrow> int \<Rightarrow> u32 \<Rightarrow> int" where
  "scale_abs a hi amax = sint ((if a > amax then amax else a) * word_of_int hi div amax)"

definition process_event :: "virtio_input_event \<Rightarrow> vinput_state \<Rightarrow> vinput_state option" where
  "process_event ev s =
     (if ev_type ev = EV_ABS then
        Some (if ev_code ev = ABS_X then s\<lparr>pending_abs_x := ev_value ev, has_pending_x := True\<rparr>
              else if ev_code ev = ABS_Y then s\<lparr>pending_abs_y := ev_value ev, has_pending_y := True\<rparr>
              else s)
      else if ev_type ev = EV_REL then
        if ev_code ev = REL_X then map_option (\<lambda>v. s\<lparr>vi_x := clip (vi_max_x s) v\<rparr>) (add_int (vi_x s) (sint (ev_value ev)))
        else if ev_code ev = REL_Y then map_option (\<lambda>v. s\<lparr>vi_y := clip (vi_max_y s) v\<rparr>) (add_int (vi_y s) (sint (ev_value ev)))
        else Some s
      else if ev_type ev = EV_KEY then
        Some (if ev_code ev = BTN_LEFT then s\<lparr>vi_buttons := set_button 1 (ev_value ev) (vi_buttons s)\<rparr>
              else if ev_code ev = BTN_RIGHT then s\<lparr>vi_buttons := set_button 2 (ev_value ev) (vi_buttons s)\<rparr>
              else if ev_code ev = BTN_MIDDLE then s\<lparr>vi_buttons := set_button 4 (ev_value ev) (vi_buttons s)\<rparr>
              else s)
      else if ev_type ev = EV_SYN \<and> ev_code ev = SYN_REPORT then
        Some (s\<lparr>vi_x := (if has_pending_x s \<and> abs_x_max s > 0 then scale_abs (pending_abs_x s) (vi_max_x s) (abs_x_max s) else vi_x s),
                vi_y := (if has_pending_y s \<and> abs_y_max s > 0 then scale_abs (pending_abs_y s) (vi_max_y s) (abs_y_max s) else vi_y s),
                has_pending_x := False, has_pending_y := False\<rparr>)
      else Some s)"

fun process_events :: "virtio_input_event list \<Rightarrow> vinput_state \<Rightarrow> vinput_state option" where
  "process_events [] s = Some s"
| "process_events (ev # evs) s = do { s \<leftarrow> process_event ev s; process_events evs s }"

text \<open>\<open>evs\<close> are the events the device has put into its queue since the last poll.\<close>

definition virtio_input_poll :: "virtio_input_event list \<Rightarrow> vinput_state \<Rightarrow> vinput_state option" where
  "virtio_input_poll evs s = (if \<not> input_initialized s then Some s else process_events evs (s\<lparr>vi_prev_buttons := vi_buttons s\<rparr>))"

definition virtio_input_left_held :: "vinput_state \<Rightarrow> bool" where "virtio_input_left_held s \<longleftrightarrow> vi_buttons s AND 1 \<noteq> 0"
definition virtio_input_right_held :: "vinput_state \<Rightarrow> bool" where "virtio_input_right_held s \<longleftrightarrow> vi_buttons s AND 2 \<noteq> 0"

definition virtio_input_left_click :: "vinput_state \<Rightarrow> bool" where
  "virtio_input_left_click s \<longleftrightarrow> vi_buttons s AND 1 \<noteq> 0 \<and> vi_prev_buttons s AND 1 = 0"

definition virtio_input_right_click :: "vinput_state \<Rightarrow> bool" where
  "virtio_input_right_click s \<longleftrightarrow> vi_buttons s AND 2 \<noteq> 0 \<and> vi_prev_buttons s AND 2 = 0"


definition virtio_input_is_active :: "vinput_state \<Rightarrow> bool" where "virtio_input_is_active s = input_initialized s"

subsection \<open>Mouse\<close>

record mouse_state =
  mx :: int
  my :: int
  mx_max :: int
  my_max :: int
  mouse_buttons :: u8
  prev_buttons :: u8
  packet :: "u8 list"
  pkt_idx :: nat
  ps2_received :: bool
  use_virtio_input :: bool
  tablet :: vinput_state


definition MOUSE_PORT :: u16 where "MOUSE_PORT = 0x60"
definition MOUSE_CMD :: u16 where "MOUSE_CMD = 0x64"
definition MOUSE_STATUS :: u16 where "MOUSE_STATUS = 0x64"

fun mouse_wait_write :: "'d ports \<Rightarrow> nat \<Rightarrow> 'd \<Rightarrow> 'd" where
  "mouse_wait_write io 0 d = d"
| "mouse_wait_write io (Suc n) d = (case p_inb io MOUSE_STATUS d of (s, d) \<Rightarrow> if s AND 0x02 = 0 then d else mouse_wait_write io n d)"

fun mouse_wait_read :: "'d ports \<Rightarrow> nat \<Rightarrow> 'd \<Rightarrow> 'd" where
  "mouse_wait_read io 0 d = d"
| "mouse_wait_read io (Suc n) d = (case p_inb io MOUSE_STATUS d of (s, d) \<Rightarrow> if s AND 0x01 \<noteq> 0 then d else mouse_wait_read io n d)"

definition MOUSE_TIMEOUT :: nat where "MOUSE_TIMEOUT = 100000"

definition mouse_send :: "'d ports \<Rightarrow> u16 \<Rightarrow> u8 \<Rightarrow> 'd \<Rightarrow> 'd" where
  "mouse_send io port v d = p_outb io port v (mouse_wait_write io MOUSE_TIMEOUT d)"

definition mouse_fetch :: "'d ports \<Rightarrow> 'd \<Rightarrow> u8 \<times> 'd" where
  "mouse_fetch io d = p_inb io MOUSE_PORT (mouse_wait_read io MOUSE_TIMEOUT d)"

definition mouse_cmd :: "'d ports \<Rightarrow> u8 \<Rightarrow> 'd \<Rightarrow> 'd" where
  "mouse_cmd io c d = snd (mouse_fetch io (mouse_send io MOUSE_PORT c (mouse_send io MOUSE_CMD 0xD4 d)))"

definition mouse_config :: "u8 \<Rightarrow> u8" where
  "mouse_config c = (c OR 0x02) AND NOT 0x20"

text \<open>\<open>irq_unmask\<close> on ports: the mask is read, and written with the bit of the interrupt cleared.\<close>

definition unmask_ports :: "u8 \<Rightarrow> 'd ports \<Rightarrow> 'd \<Rightarrow> 'd" where
  "unmask_ports irq io d =
     (case p_inb io (if irq < 8 then 0x21 else 0xA1) d of (v, d) \<Rightarrow> case irq_unmask irq (\<lambda>_. v) of (port, w) \<Rightarrow> p_outb io port w d)"

definition mouse_init_ports :: "'d ports \<Rightarrow> 'd \<Rightarrow> 'd" where
  "mouse_init_ports io d =
     (let d = mouse_send io MOUSE_CMD 0x20 (mouse_send io MOUSE_CMD 0xA8 d);
          (c, d) = mouse_fetch io d;
          d = mouse_send io MOUSE_PORT (mouse_config c) (mouse_send io MOUSE_CMD 0x60 d);
          d = mouse_cmd io 0xFF d;
          d = snd (mouse_fetch io d);
          d = snd (mouse_fetch io d)
      in unmask_ports 12 io (fold (mouse_cmd io) [0xF6, 0xF3, 100, 0xE8, 0x02, 0xF4] d))"

text \<open>The result of \<^verbatim>\<open>virtio_input_init\<close>, and the tablet as it leaves it, are arguments.  The entry of \<open>mouse_callback\<close> in the
  handler table is part of \<open>Syscall\<close>'s state and left out here.\<close>

definition mouse_init :: "'d ports \<Rightarrow> bool \<Rightarrow> (vinput_state \<Rightarrow> bool \<times> vinput_state) \<Rightarrow> mouse_state \<Rightarrow> 'd \<Rightarrow> mouse_state \<times> 'd" where
  "mouse_init io available vinit s d =
     (let d = mouse_init_ports io d in
      if available then
        let (ok, vi) = vinit (tablet s); s = s\<lparr>tablet := vi\<rparr> in
        (if ok then s\<lparr>use_virtio_input := True\<rparr> else s, d)
      else (s, d))"

definition apply_packet :: "mouse_state \<Rightarrow> mouse_state" where
  "apply_packet s =
     (let p = packet s;
          dx = uint (p ! 1) - (if p ! 0 AND 0x10 \<noteq> 0 then 256 else 0);
          dy = uint (p ! 2) - (if p ! 0 AND 0x20 \<noteq> 0 then 256 else 0)
      in s\<lparr>pkt_idx := 0, ps2_received := True, prev_buttons := mouse_buttons s, mouse_buttons := p ! 0 AND 0x07,
           mx := clip (mx_max s) (mx s + dx), my := clip (my_max s) (my s - dy)\<rparr>)"

definition mouse_callback :: "u8 \<Rightarrow> u8 \<Rightarrow> mouse_state \<Rightarrow> mouse_state" where
  "mouse_callback status data s =
     (if status AND 0x20 = 0 then s
      else
        let s = s\<lparr>packet := (packet s)[pkt_idx s := data], pkt_idx := pkt_idx s + 1\<rparr> in
        if pkt_idx s = 1 \<and> data AND 0x08 = 0 then s\<lparr>pkt_idx := 0\<rparr>
        else if pkt_idx s \<ge> 3 then apply_packet s else s)"

definition mouse_poll :: "virtio_input_event list \<Rightarrow> mouse_state \<Rightarrow> mouse_state option" where
  "mouse_poll evs s = (if use_virtio_input s then map_option (\<lambda>vi. s\<lparr>tablet := vi\<rparr>) (virtio_input_poll evs (tablet s)) else Some s)"

definition from_virtio :: "mouse_state \<Rightarrow> bool" where
  "from_virtio s \<longleftrightarrow> use_virtio_input s \<and> \<not> ps2_received s"

definition mouse_get_x :: "mouse_state \<Rightarrow> int" where "mouse_get_x s = (if from_virtio s then vi_x (tablet s) else mx s)"
definition mouse_get_y :: "mouse_state \<Rightarrow> int" where "mouse_get_y s = (if from_virtio s then vi_y (tablet s) else my s)"

definition mouse_left_held :: "mouse_state \<Rightarrow> bool" where
  "mouse_left_held s = (if from_virtio s then virtio_input_left_held (tablet s) else mouse_buttons s AND 1 \<noteq> 0)"

definition mouse_right_held :: "mouse_state \<Rightarrow> bool" where
  "mouse_right_held s = (if from_virtio s then virtio_input_right_held (tablet s) else mouse_buttons s AND 2 \<noteq> 0)"

definition mouse_left_click :: "mouse_state \<Rightarrow> bool" where
  "mouse_left_click s = (if from_virtio s then virtio_input_left_click (tablet s) else mouse_buttons s AND 1 \<noteq> 0 \<and> prev_buttons s AND 1 = 0)"

definition mouse_right_click :: "mouse_state \<Rightarrow> bool" where
  "mouse_right_click s = (if from_virtio s then virtio_input_right_click (tablet s) else mouse_buttons s AND 2 \<noteq> 0 \<and> prev_buttons s AND 2 = 0)"


subsection \<open>Clock\<close>

record rtc_time =
  second :: u8
  minute :: u8
  hour :: u8
  day :: u8
  month :: u8
  year :: u16
  weekday :: u8

definition bcd_to_bin :: "u8 \<Rightarrow> u8" where
  "bcd_to_bin b = (b AND 0x0F) + drop_bit 4 b * 10"

definition rtc_decode :: "(u8 \<Rightarrow> u8) \<Rightarrow> rtc_time" where
  "rtc_decode cmos =
     (let regB = cmos 0x0B; bin = (regB AND 0x04 \<noteq> 0); cv = (\<lambda>x. if bin then x else bcd_to_bin x);
          h = (if bin then cmos 0x04 else bcd_to_bin (cmos 0x04 AND 0x7F) OR (cmos 0x04 AND 0x80));
          h = (if regB AND 0x02 = 0 \<and> h AND 0x80 \<noteq> 0 then ((h AND 0x7F) + 12) mod 24 else h)
      in \<lparr>second = cv (cmos 0x00), minute = cv (cmos 0x02), hour = h, day = cv (cmos 0x07), month = cv (cmos 0x08),
          year = ucast (cv (cmos 0x09)) + 2000, weekday = cmos 0x06\<rparr>)"

text \<open>The clock is polled until it is not updating; \<open>upd n\<close> is what the \<open>n\<close>-th poll sees.\<close>

partial_function (option) rtc_wait :: "(nat \<Rightarrow> bool) \<Rightarrow> nat \<Rightarrow> nat option" where
  "rtc_wait upd n = (if upd n then rtc_wait upd (n + 1) else Some n)"

definition rtc_read :: "(nat \<Rightarrow> bool) \<Rightarrow> (u8 \<Rightarrow> u8) \<Rightarrow> rtc_time option" where
  "rtc_read upd cmos = do { n \<leftarrow> rtc_wait upd 0; Some (rtc_decode cmos) }"

section \<open>PCI\<close>

text \<open>The functions a scan finds, in its order.\<close>

definition answers :: "(u32 \<Rightarrow> u32) \<Rightarrow> nat \<times> nat \<times> nat \<Rightarrow> bool" where
  "answers cfg = (\<lambda>(bus, slot, func). pci_read cfg bus slot func 0 AND 0xFFFF \<noteq> 0xFFFF)"

definition multifunction :: "(u32 \<Rightarrow> u32) \<Rightarrow> nat \<Rightarrow> nat \<Rightarrow> bool" where
  "multifunction cfg bus slot \<longleftrightarrow> drop_bit 16 (pci_read cfg bus slot 0 0x0C) AND 0x80 \<noteq> 0"

definition functions_of :: "(u32 \<Rightarrow> u32) \<Rightarrow> nat \<Rightarrow> nat \<Rightarrow> (nat \<times> nat \<times> nat) list" where
  "functions_of cfg bus slot =
     (if answers cfg (bus, slot, 0) then filter (answers cfg) (map (\<lambda>f. (bus, slot, f)) (if multifunction cfg bus slot then [0..<8] else [0])) else [])"

definition all_functions :: "(u32 \<Rightarrow> u32) \<Rightarrow> (nat \<times> nat \<times> nat) list" where
  "all_functions cfg = concat (map (\<lambda>bus. concat (map (functions_of cfg bus) [0..<32])) [0..<256])"

definition devs :: "(u32 \<Rightarrow> u32) \<Rightarrow> (nat \<times> nat \<times> nat) list \<Rightarrow> pci_device list" where
  "devs cfg fs = map (\<lambda>(bus, slot, func). read_device cfg bus slot func) fs"

lemma scan_device_take:
  "scan_device cfg bus slot func (take PCI_MAX_DEVICES ds) =
    take PCI_MAX_DEVICES (ds @ devs cfg (filter (answers cfg) [(bus, slot, func)]))"
  by (auto simp: scan_device_def answers_def devs_def min_def)

lemma scan_functions_take:
  "fold (scan_device cfg bus slot) fs (take PCI_MAX_DEVICES ds) = take PCI_MAX_DEVICES (ds @ devs cfg (filter (answers cfg) (map (\<lambda>f. (bus, slot, f)) fs)))"
proof (induction fs arbitrary: ds)
  case (Cons f fs)
  show ?case using Cons [of "ds @ devs cfg (filter (answers cfg) [(bus, slot, f)])"] 
    by (cases "answers cfg (bus, slot, f)") (simp_all add: scan_device_take devs_def del: take_append)
qed (simp add: devs_def)

lemma scan_slot_take: "scan_slot cfg bus slot (take PCI_MAX_DEVICES ds) = take PCI_MAX_DEVICES (ds @ devs cfg (functions_of cfg bus slot))"
proof -
  have u: "[0..<8] = 0 # [1..<8]" by (simp add: upt_conv_Cons)
  have "scan_slot cfg bus slot (take PCI_MAX_DEVICES ds) =
      (if answers cfg (bus, slot, 0) then fold (scan_device cfg bus slot) (if multifunction cfg bus slot then 0 # [1..<8] else [0]) (take PCI_MAX_DEVICES ds)
       else take PCI_MAX_DEVICES ds)"
    by (simp add: scan_slot_def answers_def multifunction_def Let_def)
  also have "\<dots> = take PCI_MAX_DEVICES (ds @ devs cfg (functions_of cfg bus slot))"
    unfolding functions_of_def u scan_functions_take by (simp add: devs_def)
  finally show ?thesis .
qed

lemma fold_take:
  assumes "\<And>x ds. f x (take n ds) = take n (ds @ g x)"
  shows "fold f xs (take n ds) = take n (ds @ concat (map g xs))"
  by (induction xs arbitrary: ds) (simp_all add: assms del: take_append)

lemma devs_concat: "concat (map (\<lambda>x. devs cfg (g x)) xs) = devs cfg (concat (map g xs))"
  by (induction xs) (simp_all add: devs_def)

text \<open>The scan lists every function that answers, in the order of bus, slot and function and with its registers, up to 64 devices: function 0 of
  every slot and, when its header says so, the functions 1 to 7.\<close>
theorem pci_init_lists: "pci_init cfg = take PCI_MAX_DEVICES (devs cfg (all_functions cfg))"
proof -
  have "fold (scan_slot cfg bus) [0..<32] (take PCI_MAX_DEVICES ds) = take PCI_MAX_DEVICES (ds @ devs cfg (concat (map (functions_of cfg bus) [0..<32])))" for bus ds
    unfolding fold_take [of "scan_slot cfg bus" PCI_MAX_DEVICES "\<lambda>slot. devs cfg (functions_of cfg bus slot)", OF scan_slot_take] devs_concat ..
  from fold_take [of "\<lambda>bus. fold (scan_slot cfg bus) [0..<32]", OF this, of "[0..<256]" "[]"] show ?thesis
    unfolding pci_init_def all_functions_def devs_concat by (simp only: take_Nil append_Nil)
qed

lemma pci_find_nth: "0 \<le> n \<Longrightarrow> pci_find_device_nth v d n k ds =
    (let fs = filter (\<lambda>x. vendor_id x = v \<and> device_id x = d) ds in if k \<le> n \<and> n - k < int (length fs) then Some (fs ! nat (n - k)) else None)"
proof (induction ds arbitrary: k)
  case (Cons x ds)
  show ?case
  proof (cases "vendor_id x = v \<and> device_id x = d \<and> k \<noteq> n \<and> k \<le> n")
    case True
    then have "nat (n - k) = Suc (nat (n - (k + 1)))" by linarith
    then show ?thesis using Cons True by (auto simp: Let_def)
  next
    case False
    then show ?thesis using Cons by (auto simp: Let_def)
  qed
qed (simp add: Let_def)

section \<open>Mouse and tablet\<close>










lemma sint_small32:
  assumes "uint (w :: u32) < 2 ^ 31"
  shows "sint w = uint w"
proof -
  have "sint w = signed_take_bit 31 (uint w)" by (simp add: sint_uint)
  also have "\<dots> = uint w" using assms by (intro signed_take_bit_int_eq_self) (simp_all add: order_trans [OF _ uint_ge_0])
  finally show ?thesis .
qed


lemma scale_abs_exact:
  assumes "0 < amax" "a \<le> amax" "0 \<le> hi" "hi < 2 ^ 31" "uint amax * hi < 2 ^ 32"
  shows "scale_abs a hi amax = uint a * hi div uint amax"
proof -
  have h: "uint (word_of_int hi :: u32) = hi" using assms(3,4) by (simp add: uint_word_of_int)
  have "uint a * hi \<le> uint amax * hi" using assms(2,3) by (simp add: word_le_def mult_right_mono)
  then have p: "uint (a * word_of_int hi :: u32) = uint a * hi"
    using assms(3,5) by (simp add: uint_word_ariths h)
  have "sint (a * word_of_int hi div amax :: u32) = uint (a * word_of_int hi div amax :: u32)"
  proof -
    have "uint (a * word_of_int hi div amax :: u32) \<le> hi"
      using p \<open>uint a * hi \<le> uint amax * hi\<close> assms(1) zdiv_mono1 [of "uint a * hi" "uint amax * hi" "uint amax"]
      by (simp add: uint_div word_less_def)
    then show ?thesis using assms(4) by (intro sint_small32) simp
  qed
  then show ?thesis using assms(2) p by (simp add: scale_abs_def uint_div leD)
qed












lemma mouse_packet:
  assumes "pkt_idx s = 0" "length (packet s) = 3" "a AND 0x08 \<noteq> 0" "st AND 0x20 \<noteq> 0"
  shows "mouse_callback st c (mouse_callback st b (mouse_callback st a s)) = apply_packet (s\<lparr>packet := [a, b, c]\<rparr>)"
proof -
  obtain x y z where p: "packet s = [x, y, z]" using assms(2) by (auto simp: numeral_3_eq_3 length_Suc_conv)
  show ?thesis using assms(1,3,4) by (simp add: mouse_callback_def apply_packet_def p Let_def)
qed

text \<open>A click of the PS/2 mouse is not reported once per press: between two packets it is reported each time it is asked for, because the
  old buttons change only when a packet arrives.  A poll of the tablet clears it.\<close>

lemma mouse_click_stays: "mouse_left_click s \<Longrightarrow> ps2_received s \<Longrightarrow> mouse_poll evs s = Some s' \<Longrightarrow> mouse_left_click s'"
  by (auto simp: mouse_poll_def mouse_left_click_def from_virtio_def split: if_splits)

lemma tablet_click_once:
  assumes "input_initialized s" "virtio_input_left_click s"
  shows "\<exists>s'. virtio_input_poll [] s = Some s' \<and> \<not> virtio_input_left_click s'"
  using assms by (simp add: virtio_input_poll_def virtio_input_left_click_def)

text \<open>The commands a machine sees that records the bytes written to its ports.\<close>

definition records :: "'d ports \<Rightarrow> ('d \<Rightarrow> (u16 \<times> u8) list) \<Rightarrow> bool" where
  "records io lg \<longleftrightarrow> (\<forall>p v d. lg (p_outb io p v d) = lg d @ [(p, v)]) \<and> (\<forall>p d. lg (snd (p_inb io p d)) = lg d)"

lemma wait_log: "records io lg \<Longrightarrow> lg (mouse_wait_write io n d) = lg d" "records io lg \<Longrightarrow> lg (mouse_wait_read io n d) = lg d"
proof -
  have inb: "records io lg \<Longrightarrow> p_inb io p d = (v, d') \<Longrightarrow> lg d' = lg d" for p d d' v
    by (metis records_def snd_conv)
  show "records io lg \<Longrightarrow> lg (mouse_wait_write io n d) = lg d"
    by (induction n arbitrary: d) (auto simp: inb split: prod.splits)
  show "records io lg \<Longrightarrow> lg (mouse_wait_read io n d) = lg d"
    by (induction n arbitrary: d) (auto simp: inb split: prod.splits)
qed

lemma send_log: "records io lg \<Longrightarrow> lg (mouse_send io p v d) = lg d @ [(p, v)]"
  by (simp add: mouse_send_def records_def wait_log(1))

lemma fetch_log: "records io lg \<Longrightarrow> lg (snd (mouse_fetch io d)) = lg d"
  by (simp add: mouse_fetch_def records_def wait_log(2))

lemma cmd_log: "records io lg \<Longrightarrow> lg (mouse_cmd io c d) = lg d @ [(MOUSE_CMD, 0xD4), (MOUSE_PORT, c)]"
  by (simp add: mouse_cmd_def fetch_log send_log)

lemma cmds_log: "records io lg \<Longrightarrow> lg (fold (mouse_cmd io) cs d) = lg d @ concat (map (\<lambda>c. [(MOUSE_CMD, 0xD4), (MOUSE_PORT, c)]) cs)"
  by (induction cs arbitrary: d) (simp_all add: cmd_log)

lemma unmask_log: "records io lg \<Longrightarrow> \<exists>v. lg (unmask_ports 12 io d) = lg d @ [(0xA1, v AND NOT 0x10)]"
proof -
  assume r: "records io lg"
  obtain v d1 where p: "p_inb io 0xA1 d = (v, d1)" by (cases "p_inb io 0xA1 d")
  then have "lg d1 = lg d" using r by (metis records_def snd_conv)
  moreover have "lg (p_outb io q w d1) = lg d1 @ [(q, w)]" for q w using r by (simp add: records_def)
  ultimately show ?thesis by (auto simp: unmask_ports_def p irq_unmask_def)
qed

lemma mouse_init_commands:
  assumes r: "records io lg"
  shows "\<exists>c v. lg (mouse_init_ports io d) = lg d @ [(MOUSE_CMD, 0xA8), (MOUSE_CMD, 0x20), (MOUSE_CMD, 0x60), (MOUSE_PORT, mouse_config c)] @
      concat (map (\<lambda>c. [(MOUSE_CMD, 0xD4), (MOUSE_PORT, c)]) [0xFF, 0xF6, 0xF3, 100, 0xE8, 0x02, 0xF4]) @ [(0xA1, v AND NOT 0x10)]"
proof -
  define d1 where "d1 = mouse_send io MOUSE_CMD 0x20 (mouse_send io MOUSE_CMD 0xA8 d)"
  obtain c d2 where f: "mouse_fetch io d1 = (c, d2)" by (cases "mouse_fetch io d1")
  have l2: "lg d2 = lg d1" using fetch_log [OF r, of d1] f by simp
  have e: "mouse_init_ports io d = unmask_ports 12 io (fold (mouse_cmd io) [0xF6, 0xF3, 100, 0xE8, 0x02, 0xF4]
      (snd (mouse_fetch io (snd (mouse_fetch io (mouse_cmd io 0xFF (mouse_send io MOUSE_PORT (mouse_config c) (mouse_send io MOUSE_CMD 0x60 d2))))))))"
    by (simp only: mouse_init_ports_def Let_def d1_def [symmetric] f prod.case)
  obtain v where "lg (mouse_init_ports io d) = lg (fold (mouse_cmd io) [0xF6, 0xF3, 100, 0xE8, 0x02, 0xF4]
      (snd (mouse_fetch io (snd (mouse_fetch io (mouse_cmd io 0xFF (mouse_send io MOUSE_PORT (mouse_config c) (mouse_send io MOUSE_CMD 0x60 d2)))))))) @ [(0xA1, v AND NOT 0x10)]"
    unfolding e using unmask_log [OF r] by blast
  then show ?thesis by (auto simp: cmds_log [OF r] cmd_log [OF r] fetch_log [OF r] send_log [OF r] l2 d1_def)
qed

section \<open>Clock\<close>

definition bcd :: "nat \<Rightarrow> u8" where
  "bcd n = of_nat (16 * (n div 10) + n mod 10)"

lemma bcd_upto: "\<forall>n \<in> set [0..<100]. bcd_to_bin (bcd n) = of_nat n"
  by code_simp

lemma bcd_roundtrip: "n < 100 \<Longrightarrow> bcd_to_bin (bcd n) = of_nat n"
  using bcd_upto by simp

lemma bcd_hours: "\<forall>n \<in> set [0..<24]. bcd n AND 0x7F = bcd n \<and> bcd n AND 0x80 = 0 \<and> (of_nat n :: u8) AND 0x80 = 0"
  by code_simp

lemma rtc_wait_ends: "\<not> upd (n + k) \<Longrightarrow> \<exists>m. rtc_wait upd n = Some m"
proof (induction k arbitrary: n)
  case 0
  then show ?case by (simp add: rtc_wait.simps [of upd n])
next
  case (Suc k)
  then show ?case by (subst rtc_wait.simps) simp
qed

text \<open>The registers of a clock that counts 24 hours, in binary or decimal digits.\<close>

definition shows_time :: "bool \<Rightarrow> (u8 \<Rightarrow> u8) \<Rightarrow> nat \<Rightarrow> nat \<Rightarrow> nat \<Rightarrow> nat \<Rightarrow> nat \<Rightarrow> nat \<Rightarrow> bool" where
  "shows_time bin cmos y mo d h mi s \<longleftrightarrow>
     (let e = (if bin then of_nat else bcd) in
      (cmos 0x0B AND 0x04 \<noteq> 0) = bin \<and> cmos 0x0B AND 0x02 \<noteq> 0 \<and> cmos 0x00 = e s \<and> cmos 0x02 = e mi \<and> cmos 0x04 = e h \<and>
      cmos 0x07 = e d \<and> cmos 0x08 = e mo \<and> cmos 0x09 = e (y - 2000))"

text \<open>On a clock that counts 24 hours, in binary or in decimal digits, and stops updating some time, the time read is the time it shows.\<close>
theorem rtc_reads_time:
  assumes "shows_time bin cmos y mo d h mi s" "2000 \<le> y" "y < 2100" "mo < 100" "d < 100" "h < 24" "mi < 60" "s < 60" "\<not> upd k"
  shows "rtc_read upd cmos = Some \<lparr>second = of_nat s, minute = of_nat mi, hour = of_nat h, day = of_nat d, month = of_nat mo, year = of_nat y, weekday = cmos 0x06\<rparr>"
proof -
  obtain m where w: "rtc_wait upd 0 = Some m" using rtc_wait_ends [of upd 0 k] assms(9) by auto
  have y: "ucast (of_nat (y - 2000) :: u8) + 2000 = (of_nat y :: u16)"
  proof -
    have "ucast (of_nat (y - 2000) :: u8) = (of_nat (y - 2000) :: u16)" using assms(3) by (simp add: unsigned_of_nat take_bit_nat_eq_self)
    moreover have "(of_nat y :: u16) = of_nat (y - 2000) + of_nat 2000" using assms(2) by (metis le_add_diff_inverse2 of_nat_add)
    ultimately show ?thesis by simp
  qed
  have h: "bcd h AND 0x7F = bcd h" "bcd h AND 0x80 = 0" "(of_nat h :: u8) AND 0x80 = 0" using bcd_hours assms(6) by auto
  have "rtc_decode cmos = \<lparr>second = of_nat s, minute = of_nat mi, hour = of_nat h, day = of_nat d, month = of_nat mo, year = of_nat y, weekday = cmos 0x06\<rparr>"
    using assms y h by (cases bin) (simp_all add: rtc_decode_def shows_time_def Let_def bcd_roundtrip)
  then show ?thesis by (simp add: rtc_read_def w)
qed

text \<open>On a clock that counts 12 hours noon is read as midnight and midnight as noon.\<close>

lemma rtc_noon_midnight:
  assumes "cmos 0x0B AND 0x06 = 0"
  shows "cmos 0x04 = bcd 12 OR 0x80 \<Longrightarrow> hour (rtc_decode cmos) = 0" "cmos 0x04 = bcd 12 \<Longrightarrow> hour (rtc_decode cmos) = 12"
proof -
  have "cmos 0x0B AND 0x04 = (cmos 0x0B AND 0x06) AND 0x04" "cmos 0x0B AND 0x02 = (cmos 0x0B AND 0x06) AND 0x02" by (simp_all add: and.assoc)
  then have "cmos 0x0B AND 0x04 = 0" "cmos 0x0B AND 0x02 = 0" by (simp_all add: assms)
  then show "cmos 0x04 = bcd 12 OR 0x80 \<Longrightarrow> hour (rtc_decode cmos) = 0" "cmos 0x04 = bcd 12 \<Longrightarrow> hour (rtc_decode cmos) = 12"
    by (simp_all add: rtc_decode_def Let_def bcd_def bcd_to_bin_def)
qed

end
