(* ===== verification/Inflate.thy ===== *)
theory Inflate
  imports Prelude
begin

text \<open>
  The DEFLATE decompressor of \<^verbatim>\<open>src/image.c\<close>: the bit reader, Huffman trees in an array of nodes, and
  stored, fixed and dynamic blocks.  The output buffer is the list of the bytes written so far, its length is
  \<^verbatim>\<open>opos\<close>.  \<open>None\<close> is a loop that does not end or a read before the start of the output;
  \<open>Some None\<close> is the result \<open>-1\<close>.  Positions and codes are natural numbers: the input is at most the 8 MB of
  \<^verbatim>\<open>idat_buf\<close>, and the codes of at most 320 symbols stay below \<open>320 * 2 ^ 15\<close>.
\<close>

section \<open>Definitions\<close>

subsection \<open>The bit reader\<close>

record bits =
  b_src :: "u8 list"
  b_pos :: nat
  b_buf :: u32
  b_cnt :: nat

definition bits_init :: "u8 list \<Rightarrow> bits" where
  "bits_init src = \<lparr>b_src = src, b_pos = 0, b_buf = 0, b_cnt = 0\<rparr>"

definition next_byte :: "bits \<Rightarrow> u8 \<times> bits" where
  "next_byte b = (if b_pos b < length (b_src b) then (b_src b ! b_pos b, b\<lparr>b_pos := b_pos b + 1\<rparr>) else (0, b))"

function bits_fill :: "nat \<Rightarrow> bits \<Rightarrow> bits" where
  "bits_fill n b =
     (if b_cnt b < n then
        (case next_byte b of (byte, b) \<Rightarrow> bits_fill n (b\<lparr>b_buf := b_buf b OR push_bit (b_cnt b) (ucast byte), b_cnt := b_cnt b + 8\<rparr>))
      else b)"
  by pat_completeness auto
termination by (relation "measure (\<lambda>(n, b). n - b_cnt b)") (auto simp: next_byte_def split: if_splits)

declare bits_fill.simps [simp del]

definition bits_read :: "nat \<Rightarrow> bits \<Rightarrow> nat \<times> bits" where
  "bits_read n b = (let b = bits_fill n b in
     (unat (b_buf b AND (push_bit n 1 - 1)), b\<lparr>b_buf := drop_bit n (b_buf b), b_cnt := b_cnt b - n\<rparr>))"

subsection \<open>Huffman trees\<close>

text \<open>The nodes in use; a child is an internal node (\<open>\<ge> 0\<close>), empty (\<open>-1\<close>) or a leaf.\<close>

type_synonym htree = "(int \<times> int) list"

definition HT_MAX :: nat where "HT_MAX = 8192"
definition HT_EMPTY :: int where "HT_EMPTY = -1"
definition HT_LEAF :: "nat \<Rightarrow> int" where "HT_LEAF smb = - int smb - 2"
definition HT_SYM :: "int \<Rightarrow> int" where "HT_SYM child = - child - 2"

definition child :: "htree \<Rightarrow> nat \<Rightarrow> bool \<Rightarrow> int" where
  "child t node x = (if x then snd (t ! node) else fst (t ! node))"

definition set_child :: "htree \<Rightarrow> nat \<Rightarrow> bool \<Rightarrow> int \<Rightarrow> htree" where
  "set_child t node x c = t[node := (if x then (fst (t ! node), c) else (c, snd (t ! node)))]"

definition ht_init :: htree where
  "ht_init = [(HT_EMPTY, HT_EMPTY)]"

text \<open>All bits of the code but the last; \<open>None\<close> when the array of nodes is full.\<close>

fun ht_walk :: "nat \<Rightarrow> nat \<Rightarrow> nat \<Rightarrow> htree \<Rightarrow> htree \<times> nat option" where
  "ht_walk 0 code node t = (t, Some node)"
| "ht_walk (Suc i) code node t =
     (let b = bit code (Suc i) in
      if child t node b < 0 then
        if length t \<ge> HT_MAX then (t, None)
        else ht_walk i code (length t) (set_child (t @ [(HT_EMPTY, HT_EMPTY)]) node b (int (length t)))
      else ht_walk i code (nat (child t node b)) t)"

definition ht_insert :: "nat \<Rightarrow> nat \<Rightarrow> nat \<Rightarrow> htree \<Rightarrow> htree" where
  "ht_insert code len smb t =
     (case ht_walk (len - 1) code 0 t of
        (t, None) \<Rightarrow> t
      | (t, Some node) \<Rightarrow> set_child t node (bit code 0) (HT_LEAF smb))"

fun ht_decode_loop :: "nat \<Rightarrow> htree \<Rightarrow> nat \<Rightarrow> bits \<Rightarrow> int \<times> bits" where
  "ht_decode_loop 0 t node b = (-1, b)"
| "ht_decode_loop (Suc depth) t node b =
     (case bits_read 1 b of
        (x, b) \<Rightarrow>
          let c = child t node (x = 1) in
          if c = HT_EMPTY then (-1, b)
          else if c < HT_EMPTY then (HT_SYM c, b)
          else ht_decode_loop depth t (nat c) b)"

definition ht_decode :: "htree \<Rightarrow> bits \<Rightarrow> int \<times> bits" where
  "ht_decode t b = ht_decode_loop 16 t 0 b"

definition bl_count :: "nat list \<Rightarrow> nat list" where
  "bl_count lens = foldl (\<lambda>bc l. if 0 < l \<and> l \<le> 15 then bc[l := bc ! l + 1] else bc) (replicate 16 0) lens"

definition next_codes :: "nat list \<Rightarrow> nat list" where
  "next_codes bc = foldl (\<lambda>nc i. nc @ [(nc ! (i - 1) + bc ! (i - 1)) * 2]) [0] [1..<16]"

fun ht_assign :: "nat list \<Rightarrow> nat \<Rightarrow> nat list \<Rightarrow> htree \<Rightarrow> htree" where
  "ht_assign [] i nc t = t"
| "ht_assign (l # ls) i nc t =
     (if l > 0 then ht_assign ls (i + 1) (nc[l := nc ! l + 1]) (ht_insert (nc ! l) l i t) else ht_assign ls (i + 1) nc t)"

definition ht_build :: "nat list \<Rightarrow> htree" where
  "ht_build lens = ht_assign lens 0 (next_codes (bl_count lens)) ht_init"

subsection \<open>Blocks\<close>

definition fixed_lit_lens :: "nat list" where
  "fixed_lit_lens = replicate 144 8 @ replicate 112 9 @ replicate 24 7 @ replicate 8 8"

definition fixed_dist_lens :: "nat list" where "fixed_dist_lens = replicate 32 5"

definition fixed_lit :: htree where "fixed_lit = ht_build fixed_lit_lens"
definition fixed_dist :: htree where "fixed_dist = ht_build fixed_dist_lens"

definition len_base :: "nat list" where
  "len_base = [3, 4, 5, 6, 7, 8, 9, 10, 11, 13, 15, 17, 19, 23, 27, 31, 35, 43, 51, 59, 67, 83, 99, 115, 131, 163, 195, 227, 258]"

definition len_extra :: "nat list" where
  "len_extra = [0, 0, 0, 0, 0, 0, 0, 0, 1, 1, 1, 1, 2, 2, 2, 2, 3, 3, 3, 3, 4, 4, 4, 4, 5, 5, 5, 5, 0]"

definition dist_base :: "nat list" where
  "dist_base = [1, 2, 3, 4, 5, 7, 9, 13, 17, 25, 33, 49, 65, 97, 129, 193, 257, 385, 513, 769, 1025, 1537, 2049, 3073,
     4097, 6145, 8193, 12289, 16385, 24577]"

definition dist_extra :: "nat list" where
  "dist_extra = [0, 0, 0, 0, 1, 1, 2, 2, 3, 3, 4, 4, 5, 5, 6, 6, 7, 7, 8, 8, 9, 9, 10, 10, 11, 11, 12, 12, 13, 13]"

text \<open>Copying from earlier output, one byte at a time; \<open>None\<close> when the source lies before the output.\<close>

fun copy_back :: "nat \<Rightarrow> nat \<Rightarrow> nat \<Rightarrow> u8 list \<Rightarrow> u8 list option" where
  "copy_back 0 distance omax out = Some out"
| "copy_back (Suc n) distance omax out =
     (if length out < omax then
        if distance \<le> length out then copy_back n distance omax (out @ [out ! (length out - distance)]) else None
      else Some out)"

partial_function (option) decode_block :: "bits \<Rightarrow> htree \<Rightarrow> htree \<Rightarrow> nat \<Rightarrow> u8 list \<Rightarrow> (bits \<times> u8 list) option option" where
  "decode_block b lt dt omax out =
     (case ht_decode lt b of
        (smb, b) \<Rightarrow>
          if smb < 0 \<or> smb > 285 then Some None
          else if smb < 256 then decode_block b lt dt omax (if length out < omax then out @ [of_int smb] else out)
          else if smb = 256 then Some (Some (b, out))
          else
            (let li = nat (smb - 257) in
             case bits_read (len_extra ! li) b of
               (x, b) \<Rightarrow>
                 (case ht_decode dt b of
                    (di, b) \<Rightarrow>
                      if di < 0 \<or> di > 29 then Some None
                      else
                        (case bits_read (dist_extra ! nat di) b of
                           (y, b) \<Rightarrow>
                             do { out \<leftarrow> copy_back (len_base ! li + x) (dist_base ! nat di + y) omax out;
                                  decode_block b lt dt omax out }))))"

definition stored_bytes :: "bits \<Rightarrow> nat \<Rightarrow> u8 list" where
  "stored_bytes b n = take n (drop (b_pos b) (b_src b) @ replicate n 0)"

text \<open>A stored block.\<close>

definition stored_block :: "bits \<Rightarrow> nat \<Rightarrow> u8 list \<Rightarrow> (bits \<times> u8 list) option" where
  "stored_block b omax out =
     (let b = b\<lparr>b_buf := 0, b_cnt := 0\<rparr> in
      if b_pos b + 4 > length (b_src b) then None
      else
        let len = unat (b_src b ! b_pos b) + 256 * unat (b_src b ! (b_pos b + 1));
            b = b\<lparr>b_pos := b_pos b + 4\<rparr>;
            n = min len (omax - length out)
        in Some (b\<lparr>b_pos := min (b_pos b + n) (max (b_pos b) (length (b_src b)))\<rparr>, out @ stored_bytes b n))"

definition cl_order :: "nat list" where
  "cl_order = [16, 17, 18, 0, 8, 7, 9, 6, 10, 5, 11, 4, 12, 3, 13, 2, 14, 1, 15]"

fun read_cl_lens :: "nat list \<Rightarrow> nat list \<Rightarrow> bits \<Rightarrow> nat list \<times> bits" where
  "read_cl_lens [] cl b = (cl, b)"
| "read_cl_lens (o' # os) cl b = (case bits_read 3 b of (x, b) \<Rightarrow> read_cl_lens os (cl[o' := x]) b)"

text \<open>The code lengths of both alphabets; they are appended until there are \<open>tot\<close>.\<close>

function read_lens :: "htree \<Rightarrow> nat \<Rightarrow> nat list \<Rightarrow> bits \<Rightarrow> (nat list \<times> bits) option" where
  "read_lens t tot lens b =
     (if length lens < tot then
        (case ht_decode t b of
           (smb, b) \<Rightarrow>
             if smb < 0 then None
             else if smb < 16 then read_lens t tot (lens @ [nat smb]) b
             else if smb = 16 then
               (case bits_read 2 b of (x, b) \<Rightarrow>
                  read_lens t tot (take tot (lens @ replicate (x + 3) (if lens \<noteq> [] then last lens else 0))) b)
             else if smb = 17 then
               (case bits_read 3 b of (x, b) \<Rightarrow> read_lens t tot (take tot (lens @ replicate (x + 3) 0)) b)
             else if smb = 18 then
               (case bits_read 7 b of (x, b) \<Rightarrow> read_lens t tot (take tot (lens @ replicate (x + 11) 0)) b)
             else None)
      else Some (lens, b))"
  by pat_completeness auto
termination by (relation "measure (\<lambda>(t, tot, lens, b). tot - length lens)") auto

declare read_lens.simps [simp del]

text \<open>The header of a dynamic block: the trees for literals and distances.\<close>

definition dynamic_trees :: "bits \<Rightarrow> (htree \<times> htree \<times> bits) option" where
  "dynamic_trees b =
     (case bits_read 5 b of (x, b) \<Rightarrow>
      case bits_read 5 b of (y, b) \<Rightarrow>
      case bits_read 4 b of (z, b) \<Rightarrow>
        let hlit = x + 257; hdist = y + 1; hclen = z + 4 in
        case read_cl_lens (take hclen cl_order) (replicate 19 0) b of
          (cl_lens, b) \<Rightarrow>
            (case read_lens (ht_build cl_lens) (hlit + hdist) [] b of
               None \<Rightarrow> None
             | Some (lens, b) \<Rightarrow> Some (ht_build (take hlit lens), ht_build (drop hlit lens), b)))"

partial_function (option) deflate_loop :: "bits \<Rightarrow> nat \<Rightarrow> u8 list \<Rightarrow> u8 list option option" where
  "deflate_loop b omax out =
     (case bits_read 1 b of (bfinal, b) \<Rightarrow>
      case bits_read 2 b of (btype, b) \<Rightarrow>
        do { r \<leftarrow> (if btype = 0 then Some (stored_block b omax out)
                   else if btype = 1 then decode_block b fixed_lit fixed_dist omax out
                   else if btype = 2 then
                     (case dynamic_trees b of None \<Rightarrow> Some None | Some (lt, dt, b) \<Rightarrow> decode_block b lt dt omax out)
                   else Some None);
             case r of
               None \<Rightarrow> Some None
             | Some (b, out) \<Rightarrow> if bfinal = 0 then deflate_loop b omax out else Some (Some out) })"

definition deflate_decompress :: "u8 list \<Rightarrow> nat \<Rightarrow> u8 list option option" where
  "deflate_decompress src omax = deflate_loop (bits_init src) omax []"

definition zlib_decompress :: "u8 list \<Rightarrow> nat \<Rightarrow> u8 list option option" where
  "zlib_decompress src omax =
     (if length src < 2 then Some None
      else if src ! 0 AND 0x0F \<noteq> 8 then Some None
      else deflate_decompress (drop 2 src) omax)"

end
