(* ===== verification/Huffman.thy ===== *)
theory Huffman
  imports Inflate "HOL-Library.Sublist"
begin

text \<open>
  The bit reader delivers the bits of the input in order, and a tree built by \<open>ht_build\<close> decodes every
  symbol of a canonical Huffman code.  Trees in the array are related to an inductive type of tries; the nodes a
  subtree occupies are part of the relation.
\<close>

section \<open>The bit reader\<close>

text \<open>The \<open>i\<close>-th bit to come; after the end of the input all bits are 0.\<close>

definition bit_at :: "bits \<Rightarrow> nat \<Rightarrow> bool" where
  "bit_at b i =
     (if i < b_cnt b then bit (b_buf b) i
      else b_pos b + (i - b_cnt b) div 8 < length (b_src b) \<and> bit (b_src b ! (b_pos b + (i - b_cnt b) div 8)) ((i - b_cnt b) mod 8))"

definition bits_clean :: "bits \<Rightarrow> bool" where
  "bits_clean b \<longleftrightarrow> (\<forall>i. b_cnt b \<le> i \<longrightarrow> \<not> bit (b_buf b) i)"

definition bits_ok :: "bits \<Rightarrow> bool" where
  "bits_ok b \<longleftrightarrow> bits_clean b \<and> b_cnt b \<le> 7"

lemma bits_fill_step:
  assumes "bits_clean b" "b_cnt b \<le> 24" "next_byte b = (x, c)"
  defines "b' \<equiv> c\<lparr>b_buf := b_buf c OR push_bit (b_cnt c) (ucast x), b_cnt := b_cnt c + 8\<rparr>"
  shows "bits_clean b'" "bit_at b' i = bit_at b i" "b_cnt b' = b_cnt b + 8"
proof -
  have c: "b_buf c = b_buf b" "b_cnt c = b_cnt b" "b_src c = b_src b"
    "b_pos c = (if b_pos b < length (b_src b) then b_pos b + 1 else b_pos b)" "x = (if b_pos b < length (b_src b) then b_src b ! b_pos b else 0)"
    using assms(3) by (auto simp: next_byte_def split: if_splits)
  show "b_cnt b' = b_cnt b + 8" by (simp add: b'_def c(2))
  have x8: "\<not> bit x j" if "8 \<le> j" for j using that by (simp add: bit_word_def impossible_bit)
  show "bits_clean b'"
    using assms(1,2) x8 by (auto simp: bits_clean_def b'_def c(1,2) bit_simps)
  show "bit_at b' i = bit_at b i"
  proof -
    consider "i < b_cnt b" | "b_cnt b \<le> i" "i < b_cnt b + 8" | "b_cnt b + 8 \<le> i" by linarith
    then show ?thesis
    proof cases
      case 1
      then show ?thesis by (simp add: bit_at_def b'_def c bit_simps)
    next
      case 2
      then have "\<not> bit (b_buf b) i" using assms(1) by (simp add: bits_clean_def)
      then show ?thesis using 2 assms(2) c(5) by (auto simp: bit_at_def b'_def c(1-4) bit_simps)
    next
      case 3
      then obtain j where j: "i = b_cnt b + 8 + j" by (metis le_Suc_ex)
      have "(8 + j) div 8 = Suc (j div 8)" by simp
      then show ?thesis using j by (simp add: bit_at_def b'_def c(1-4))
    qed
  qed
qed

lemma bits_fill_ok:
  assumes "bits_clean b" "n \<le> 16"
  shows "bits_clean (bits_fill n b) \<and> (\<forall>i. bit_at (bits_fill n b) i = bit_at b i) \<and> n \<le> b_cnt (bits_fill n b) \<and>
    b_cnt (bits_fill n b) \<le> max (b_cnt b) (n + 7)"
  using assms
proof (induction n b rule: bits_fill.induct)
  case (1 n b)
  show ?case
  proof (cases "b_cnt b < n")
    case True
    obtain x c where nb: "next_byte b = (x, c)" by (cases "next_byte b")
    let ?b = "c\<lparr>b_buf := b_buf c OR push_bit (b_cnt c) (ucast x), b_cnt := b_cnt c + 8\<rparr>"
    have f: "bits_fill n b = bits_fill n ?b" using True nb by (subst bits_fill.simps) simp
    have le: "b_cnt b \<le> 24" using True "1.prems"(2) by simp
    note S = bits_fill_step [OF "1.prems"(1) le nb]
    note IH = "1.IH" [OF True nb [symmetric] S(1) "1.prems"(2)]
    show ?thesis using IH S(2,3) f True by (simp add: max_def split: if_splits)
  next
    case False
    then have "bits_fill n b = b" by (subst bits_fill.simps) simp
    then show ?thesis using False "1.prems" by simp
  qed
qed

lemma mask_eq: "push_bit n 1 - 1 = (mask n :: u32)"
  by (simp add: mask_eq_exp_minus_1 push_bit_eq_mult)

abbreviation bits_nat :: "bool list \<Rightarrow> nat" where
  "bits_nat xs \<equiv> horner_sum of_bool 2 xs"

text \<open>The bits left in the input, counting those already in the buffer.\<close>

definition avail :: "bits \<Rightarrow> nat" where
  "avail b = b_cnt b + 8 * (length (b_src b) - b_pos b)"

lemma bits_fill_avail: "avail b \<le> avail (bits_fill n b) \<and> 8 dvd b_cnt (bits_fill n b) + 7 * b_cnt b"
proof (induction n b rule: bits_fill.induct)
  case (1 n b)
  show ?case
  proof (cases "b_cnt b < n")
    case True
    obtain x c where nb: "next_byte b = (x, c)" by (cases "next_byte b")
    let ?b = "c\<lparr>b_buf := b_buf c OR push_bit (b_cnt c) (ucast x), b_cnt := b_cnt c + 8\<rparr>"
    have f: "bits_fill n b = bits_fill n ?b" using True nb by (subst bits_fill.simps) simp
    have "avail b \<le> avail ?b" "b_cnt ?b = b_cnt b + 8" using nb by (auto simp: avail_def next_byte_def split: if_splits)
    then have "b_cnt (bits_fill n ?b) + 7 * b_cnt ?b = b_cnt (bits_fill n ?b) + 7 * b_cnt b + 8 * 7" "avail b \<le> avail ?b" by simp_all
    with "1.IH" [OF True nb [symmetric]] show ?thesis unfolding f by (simp only: dvd_add_left_iff dvd_triv_left) simp
  next
    case False
    then have "bits_fill n b = b" by (subst bits_fill.simps) simp
    then show ?thesis by simp
  qed
qed

lemma mod8:
  assumes "8 dvd x + 7 * y"
  shows "x mod 8 = y mod (8 :: nat)"
proof -
  from assms obtain k where "x + 7 * y = 8 * k" by blast
  then have "x + 8 * y = y + 8 * k" by simp
  then show ?thesis by (metis mod_mult_self2)
qed

lemma bits_read_ok:
  assumes "bits_ok b" "n \<le> 16"
  shows "\<exists>b'. bits_read n b = (bits_nat (map (bit_at b) [0..<n]), b') \<and> bits_ok b' \<and> (\<forall>i. bit_at b' i = bit_at b (i + n)) \<and>
    avail b \<le> avail b' + n \<and> (b_cnt b' + n) mod 8 = b_cnt b mod 8"
proof -
  have ok: "bits_clean b" "b_cnt b \<le> 7" using assms(1) by (auto simp: bits_ok_def)
  define f where "f = bits_fill n b"
  have F: "bits_clean f" "\<And>i. bit_at f i = bit_at b i" "n \<le> b_cnt f" "b_cnt f \<le> n + 7"
    using bits_fill_ok [OF ok(1) assms(2)] ok(2) by (auto simp: f_def)
  have A: "avail b \<le> avail f" "8 dvd b_cnt f + 7 * b_cnt b" using bits_fill_avail [of b n] by (auto simp: f_def)
  let ?b = "f\<lparr>b_buf := drop_bit n (b_buf f), b_cnt := b_cnt f - n\<rparr>"
  have m: "map (bit_at b) [0..<n] = map (bit (unat (b_buf f))) [0..<n]"
  proof (rule map_cong [OF refl])
    fix i assume "i \<in> set [0..<n]"
    then show "bit_at b i = bit (unat (b_buf f)) i" using F(2) [of i] F(3) by (auto simp: bit_at_def [of f] bit_unsigned_iff bit_imp_le_length)
  qed
  have "bits_nat (map (bit_at b) [0..<n]) = take_bit n (unat (b_buf f))" unfolding m by (rule horner_sum_bit_eq_take_bit)
  also have "\<dots> = unat (b_buf f AND (push_bit n 1 - 1))"
    unfolding mask_eq take_bit_eq_mask [symmetric] by (simp add: unsigned_take_bit_eq)
  finally have "bits_read n b = (bits_nat (map (bit_at b) [0..<n]), ?b)" by (simp add: bits_read_def f_def [symmetric] Let_def)
  moreover have "bits_ok ?b" using F(1,3,4) by (auto simp: bits_ok_def bits_clean_def bit_simps)
  moreover have "bit_at ?b i = bit_at b (i + n)" for i
  proof -
    have "bit_at ?b i = bit_at f (i + n)"
    proof (cases "i + n < b_cnt f")
      case False
      then obtain j where "i + n = b_cnt f + j" using le_Suc_ex not_less by blast
      then have "\<not> i < b_cnt f - n" "i - (b_cnt f - n) = j" "i + n - b_cnt f = j" using F(3) by auto
      then show ?thesis using False by (simp add: bit_at_def)
    qed (simp add: bit_at_def bit_simps add.commute less_diff_conv)
    then show ?thesis using F(2) by simp
  qed
  moreover have "avail b \<le> avail ?b + n" using A(1) F(3) by (simp add: avail_def)
  moreover have "(b_cnt ?b + n) mod 8 = b_cnt b mod 8" using A(2) F(3) mod8 by simp
  ultimately show ?thesis by blast
qed

text \<open>A reader at bit \<open>off\<close> of the input, about to deliver the bits \<open>xs\<close>.\<close>

definition feeds :: "bits \<Rightarrow> nat \<Rightarrow> bool list \<Rightarrow> bool" where
  "feeds b off xs \<longleftrightarrow> bits_ok b \<and> (off + b_cnt b) mod 8 = 0 \<and> length xs \<le> avail b \<and> (\<forall>i < length xs. bit_at b i = xs ! i)"

lemma bits_read_feeds:
  assumes "feeds b off (xs @ ys)" "length xs = n" "n \<le> 16"
  shows "\<exists>b'. bits_read n b = (bits_nat xs, b') \<and> feeds b' (off + n) ys"
proof -
  have B: "bits_ok b" "(off + b_cnt b) mod 8 = 0" "length (xs @ ys) \<le> avail b" using assms(1) by (auto simp: feeds_def)
  obtain b' where b': "bits_read n b = (bits_nat (map (bit_at b) [0..<n]), b')" "bits_ok b'" "\<forall>i. bit_at b' i = bit_at b (i + n)"
      "avail b \<le> avail b' + n" "(b_cnt b' + n) mod 8 = b_cnt b mod 8"
    using bits_read_ok [OF B(1) assms(3)] by blast
  have at: "bit_at b i = (xs @ ys) ! i" if "i < length (xs @ ys)" for i using assms(1) that by (simp add: feeds_def)
  have "map (bit_at b) [0..<n] = xs"
  proof (rule nth_equalityI)
    fix i assume "i < length (map (bit_at b) [0..<n])"
    then show "map (bit_at b) [0..<n] ! i = xs ! i" using at [of i] assms(2) by (simp add: nth_append)
  qed (use assms(2) in simp)
  moreover have "feeds b' (off + n) ys" unfolding feeds_def
  proof (intro conjI allI impI)
    fix i assume "i < length ys"
    then show "bit_at b' i = ys ! i" using at [of "i + n"] b'(3) assms(2) by (simp add: nth_append)
  next
    have "(off + (b_cnt b' + n)) mod 8 = (off + b_cnt b) mod 8" using b'(5) by (metis mod_add_right_eq)
    then show "(off + n + b_cnt b') mod 8 = 0" using B(2) by (simp add: ac_simps)
  next
    show "length ys \<le> avail b'" using B(3) b'(4) assms(2) by simp
  qed (rule b'(2))
  ultimately show ?thesis using b'(1) by auto
qed

section \<open>Trees\<close>

text \<open>Where the bits \<open>xs\<close> lead from the child \<open>c\<close>.\<close>

fun look :: "htree \<Rightarrow> int \<Rightarrow> bool list \<Rightarrow> int" where
  "look t c [] = c"
| "look t c (x # xs) = (if c < 0 then HT_EMPTY else look t (child t (nat c) x) xs)"

text \<open>Every node is labelled with the path that leads to it.\<close>

definition labelled :: "htree \<Rightarrow> bool list list \<Rightarrow> bool" where
  "labelled t ps \<longleftrightarrow> length ps = length t \<and> t \<noteq> [] \<and> ps ! 0 = [] \<and>
     (\<forall>n < length t. \<forall>x. 0 \<le> child t n x \<longrightarrow> nat (child t n x) < length t \<and> ps ! nat (child t n x) = ps ! n @ [x])"

lemma labelledD:
  assumes "labelled t ps" "n < length t" "0 \<le> child t n x"
  shows "nat (child t n x) < length t" "ps ! nat (child t n x) = ps ! n @ [x]"
  using assms by (auto simp: labelled_def)

lemma child_set_child:
  assumes "n < length t"
  shows "child (set_child t n b c) m x = (if m = n \<and> x = b then c else child t m x)"
  using assms by (cases "m = n") (auto simp: child_def set_child_def)

lemma child_append [simp]: "n < length t \<Longrightarrow> child (t @ us) n x = child t n x"
  by (simp add: child_def nth_append)

lemma length_set_child [simp]: "length (set_child t n b c) = length t"
  by (simp add: set_child_def)

lemma look_neg [simp]: "c < 0 \<Longrightarrow> look t c xs = (if xs = [] then c else HT_EMPTY)"
  by (cases xs) auto

lemma look_append: "look t c (xs @ ys) = (if look t c xs < 0 then if ys = [] then look t c xs else HT_EMPTY else look t (look t c xs) ys)"
proof (induction xs arbitrary: c)
  case (Cons x xs)
  then show ?case by (auto simp: HT_EMPTY_def)
qed simp

lemma look_label:
  assumes "labelled t ps" "m < length t" "0 \<le> look t (int m) xs"
  shows "nat (look t (int m) xs) < length t \<and> ps ! nat (look t (int m) xs) = ps ! m @ xs"
  using assms(2,3)
proof (induction xs arbitrary: m)
  case (Cons x xs)
  have le: "0 \<le> child t m x" using Cons.prems(2) by (cases "child t m x < 0") (auto simp: HT_EMPTY_def split: if_splits)
  note L = labelledD [OF assms(1) Cons.prems(1) le]
  show ?case using Cons.IH [OF L(1)] Cons.prems(2) L(2) le by simp
qed simp

text \<open>Changing a slot changes only paths through it.\<close>

lemma look_set_child:
  assumes "labelled t ps" "n < length t" "m < length t" "\<not> prefix (ps ! n @ [b]) (ps ! m @ xs)"
    "\<And>k x. k < length t \<Longrightarrow> child t' k x = (if k = n \<and> x = b then c else child t k x)"
  shows "look t' (int m) xs = look t (int m) xs"
  using assms(3,4)
proof (induction xs arbitrary: m)
  case (Cons x xs)
  have ne: "\<not> (m = n \<and> x = b)" using Cons.prems(2) by (auto simp: prefix_def)
  have ch: "child t' m x = child t m x" using assms(5) [OF Cons.prems(1)] ne by auto
  show ?case
  proof (cases "child t m x < 0")
    case False
    then have le: "0 \<le> child t m x" by simp
    note L = labelledD [OF assms(1) Cons.prems(1) le]
    show ?thesis using Cons.IH [OF L(1)] Cons.prems(2) L(2) ch le by simp
  qed (simp add: ch)
qed simp

text \<open>The bits of a code, the most significant first.\<close>

definition code_bits :: "nat \<Rightarrow> nat \<Rightarrow> bool list" where
  "code_bits n code = map (bit code) (rev [0..<n])"

definition is_leaf :: "int \<Rightarrow> bool" where "is_leaf c \<longleftrightarrow> c < HT_EMPTY"

text \<open>A leaf that a walk along \<open>full\<close> does not disturb.\<close>

definition apart :: "bool list \<Rightarrow> bool list \<Rightarrow> bool" where
  "apart xs ys \<longleftrightarrow> \<not> prefix xs ys \<and> \<not> prefix ys xs"

definition keeps :: "htree \<Rightarrow> htree \<Rightarrow> bool list \<Rightarrow> bool" where
  "keeps t t' full \<longleftrightarrow> (\<forall>ys. is_leaf (look t 0 ys) \<longrightarrow> apart ys full \<longrightarrow> look t' 0 ys = look t 0 ys)"

lemma keeps_trans: "keeps t u full \<Longrightarrow> keeps u v full \<Longrightarrow> keeps t v full"
  by (auto simp: keeps_def)

lemma new_node:
  assumes "labelled t ps" "n < length t" "child t n b < 0" "look t 0 (ps ! n) = int n"
  defines "t' \<equiv> set_child (t @ [(HT_EMPTY, HT_EMPTY)]) n b (int (length t))" and "ps' \<equiv> ps @ [ps ! n @ [b]]"
  shows "labelled t' ps'" "look t' 0 (ps' ! length t) = int (length t)" "prefix (ps ! n @ [b]) full \<Longrightarrow> keeps t t' full"
proof -
  have len: "length ps = length t" "t \<noteq> []" "ps ! 0 = []" using assms(1) by (auto simp: labelled_def)
  have ch: "child t' m x = (if m = n \<and> x = b then int (length t) else if m = length t then HT_EMPTY else child t m x)" if "m \<le> length t" for m x
    using that assms(2) by (cases "m = length t") (auto simp: t'_def child_set_child, auto simp: child_def nth_append)
  show "labelled t' ps'" unfolding labelled_def
  proof (intro conjI allI impI)
    fix m x assume m: "m < length t'" "0 \<le> child t' m x"
    then have "m \<le> length t" by (simp add: t'_def)
    with ch [OF this] m(2) labelledD [OF assms(1), of m x] assms(2) len
    show "nat (child t' m x) < length t'" "ps' ! nat (child t' m x) = ps' ! m @ [x]"
      by (auto simp: t'_def ps'_def nth_append HT_EMPTY_def split: if_splits)
  qed (use len in \<open>auto simp: t'_def ps'_def nth_append set_child_def\<close>)
  have npre: "\<not> prefix (ps ! n @ [b]) (ps ! 0 @ ps ! n)" using len(3) by (auto simp: prefix_def)
  have same: "look t' (int 0) xs = look t (int 0) xs" if "\<not> prefix (ps ! n @ [b]) xs" for xs
    by (rule look_set_child [OF assms(1,2), of _ b]) (use len that ch in auto)
  have "look t' 0 (ps ! n) = int n" using same [of "ps ! n"] npre assms(4) len(3) by simp
  then show "look t' 0 (ps' ! length t) = int (length t)" using ch [of n b] assms(2) by (simp add: ps'_def look_append len(1)[symmetric])
  show "keeps t t' full" if pre: "prefix (ps ! n @ [b]) full" unfolding keeps_def
  proof (intro allI impI)
    fix ys assume leaf: "is_leaf (look t 0 ys)" and ap: "apart ys full"
    have "\<not> prefix (ps ! n @ [b]) ys"
    proof
      assume "prefix (ps ! n @ [b]) ys"
      then obtain zs where ys: "ys = ps ! n @ b # zs" by (auto simp: prefix_def)
      have "zs = []" using leaf assms(3,4) by (cases zs) (auto simp: ys look_append is_leaf_def HT_EMPTY_def)
      then show False using ap pre by (simp add: ys apart_def)
    qed
    then show "look t' 0 ys = look t 0 ys" using same [of ys] by simp
  qed
qed

text \<open>All bits of the code but the last.\<close>

lemma ht_walk_ok:
  assumes "labelled t ps" "n < length t" "look t 0 (ps ! n) = int n" "length t + i < HT_MAX" "prefix (ps ! n @ map (bit code) (rev [1..<Suc i])) full"
  shows "\<exists>t' ps' n'. ht_walk i code n t = (t', Some n') \<and> labelled t' ps' \<and> n' < length t' \<and> ps' ! n' = ps ! n @ map (bit code) (rev [1..<Suc i]) \<and>
    look t' 0 (ps' ! n') = int n' \<and> length t' \<le> length t + i \<and> keeps t t' full"
  using assms
proof (induction i arbitrary: n t ps)
  case 0
  then show ?case by (auto simp: keeps_def)
next
  case (Suc i)
  let ?b = "bit code (Suc i)"
  have len: "length ps = length t" using Suc.prems(1) by (simp add: labelled_def)
  have split: "rev [1..<Suc (Suc i)] = Suc i # rev [1..<Suc i]" by simp
  show ?case
  proof (cases "child t n ?b < 0")
    case True
    let ?t = "set_child (t @ [(HT_EMPTY, HT_EMPTY)]) n ?b (int (length t))" and ?ps = "ps @ [ps ! n @ [?b]]"
    note N = new_node [OF Suc.prems(1,2) True Suc.prems(3)]
    have at: "?ps ! length t = ps ! n @ [?b]" by (simp add: len [symmetric])
    have pre: "prefix (?ps ! length t @ map (bit code) (rev [1..<Suc i])) full" using Suc.prems(5) by (simp only: at split list.map append_assoc append_Cons append_Nil)
    then have pre': "prefix (ps ! n @ [?b]) full" unfolding at using append_prefixD by blast
    have lt: "length t < length ?t" "length ?t + i < HT_MAX" using Suc.prems(4) by simp_all
    obtain t' ps' n' where I: "ht_walk i code (length t) ?t = (t', Some n')" "labelled t' ps'" "n' < length t'"
        "ps' ! n' = ?ps ! length t @ map (bit code) (rev [1..<Suc i])" "look t' 0 (ps' ! n') = int n'" "length t' \<le> length ?t + i" "keeps ?t t' full"
      using Suc.IH [OF N(1) lt(1) N(2) lt(2) pre] by blast
    have "ht_walk (Suc i) code n t = (t', Some n')" using True I(1) Suc.prems(4) by (simp add: Let_def)
    moreover have "ps' ! n' = ps ! n @ map (bit code) (rev [1..<Suc (Suc i)])" unfolding I(4) at split by simp
    moreover have "length t' \<le> length t + Suc i" using I(6) by simp
    ultimately show ?thesis using I(2,3,5) keeps_trans [OF N(3) [OF pre'] I(7)] by blast
  next
    case False
    then have le: "0 \<le> child t n ?b" by simp
    let ?n = "nat (child t n ?b)"
    note L = labelledD [OF Suc.prems(1,2) le]
    have lk: "look t 0 (ps ! ?n) = int ?n" using Suc.prems(3) L(2) le by (simp add: look_append)
    have pre: "prefix (ps ! ?n @ map (bit code) (rev [1..<Suc i])) full" using Suc.prems(5) by (simp only: L(2) split list.map append_assoc append_Cons append_Nil)
    have lt: "length t + i < HT_MAX" using Suc.prems(4) by simp
    obtain t' ps' n' where I: "ht_walk i code ?n t = (t', Some n')" "labelled t' ps'" "n' < length t'"
        "ps' ! n' = ps ! ?n @ map (bit code) (rev [1..<Suc i])" "look t' 0 (ps' ! n') = int n'" "length t' \<le> length t + i" "keeps t t' full"
      using Suc.IH [OF Suc.prems(1) L(1) lk lt pre] by blast
    have "ht_walk (Suc i) code n t = (t', Some n')" using False I(1) by (simp add: Let_def)
    moreover have "ps' ! n' = ps ! n @ map (bit code) (rev [1..<Suc (Suc i)])" unfolding I(4) L(2) split by simp
    moreover have "length t' \<le> length t + Suc i" using I(6) by simp
    ultimately show ?thesis using I(2,3,5,7) by blast
  qed
qed

lemma code_bits_Suc: "code_bits (Suc i) code = map (bit code) (rev [1..<Suc i]) @ [bit code 0]"
proof -
  have "[0..<Suc i] = 0 # [1..<Suc i]" using upt_conv_Cons [of 0 "Suc i"] by simp
  then show ?thesis unfolding code_bits_def by (simp only: rev.simps map_append list.map)
qed

lemma ht_insert_ok:
  assumes "labelled t ps" "0 < l" "length t + l \<le> HT_MAX"
  shows "\<exists>ps'. labelled (ht_insert code l smb t) ps' \<and> length (ht_insert code l smb t) < length t + l \<and>
    look (ht_insert code l smb t) 0 (code_bits l code) = HT_LEAF smb \<and> keeps t (ht_insert code l smb t) (code_bits l code)"
proof -
  obtain i where i: "l = Suc i" using assms(2) by (cases l) auto
  have t0: "0 < length t" "ps ! 0 = []" using assms(1) by (auto simp: labelled_def)
  have walk: "look t 0 (ps ! 0) = int 0" "length t + i < HT_MAX" "prefix (ps ! 0 @ map (bit code) (rev [1..<Suc i])) (code_bits l code)"
    using t0(2) assms(3) unfolding i code_bits_Suc by auto
  obtain u ps' n where W: "ht_walk i code 0 t = (u, Some n)" "labelled u ps'" "n < length u" "ps' ! n = map (bit code) (rev [1..<Suc i])"
      "look u 0 (ps' ! n) = int n" "length u \<le> length t + i" "keeps t u (code_bits l code)"
    using ht_walk_ok [OF assms(1) t0(1) walk] unfolding t0(2) append_Nil by blast
  let ?b = "bit code 0" let ?v = "set_child u n ?b (HT_LEAF smb)"
  have ins: "ht_insert code l smb t = ?v" using W(1) by (simp add: ht_insert_def i)
  have full: "code_bits l code = ps' ! n @ [?b]" unfolding i code_bits_Suc W(4) by simp
  have u0: "0 < length u" "ps' ! 0 = []" using W(2) by (auto simp: labelled_def)
  have neg: "HT_LEAF smb < 0" by (simp add: HT_LEAF_def)
  have ch: "child ?v k x = (if k = n \<and> x = ?b then HT_LEAF smb else child u k x)" for k x by (rule child_set_child [OF W(3)])
  have same: "look ?v (int 0) ys = look u (int 0) ys" if "\<not> prefix (ps' ! n @ [?b]) ys" for ys
    by (rule look_set_child [OF W(2,3), of 0 ?b]) (use u0 that ch in auto)
  have "labelled ?v ps'" using W(2) neg unfolding labelled_def by (auto simp: ch) (auto simp: set_child_def)
  moreover have "look ?v 0 (code_bits l code) = HT_LEAF smb"
    using same [of "ps' ! n"] W(5) neg by (simp add: full look_append ch prefix_def)
  moreover have "keeps u ?v (code_bits l code)"
    using same by (auto simp: keeps_def apart_def full)
  ultimately show ?thesis unfolding ins using W(6) i keeps_trans [OF W(7)] by auto
qed

text \<open>The codes \<open>ht_assign\<close> gives the symbols.\<close>

fun codes_of :: "nat list \<Rightarrow> nat list \<Rightarrow> nat list" where
  "codes_of [] nc = []"
| "codes_of (l # ls) nc = nc ! l # codes_of ls (if l > 0 then nc[l := nc ! l + 1] else nc)"

definition code_at :: "nat list \<Rightarrow> nat list \<Rightarrow> nat \<Rightarrow> bool list" where
  "code_at ls nc k = code_bits (ls ! k) (codes_of ls nc ! k)"

definition all_apart :: "nat list \<Rightarrow> nat list \<Rightarrow> bool" where
  "all_apart ls nc \<longleftrightarrow> (\<forall>k < length ls. \<forall>j < k. 0 < ls ! j \<longrightarrow> 0 < ls ! k \<longrightarrow> apart (code_at ls nc j) (code_at ls nc k))"

lemma ht_insert_if:
  fixes code smb :: nat
  assumes "labelled t ps" "l \<le> 15" "length t + 15 \<le> HT_MAX"
  defines "u \<equiv> if l > 0 then ht_insert code l smb t else t"
  shows "\<exists>ps'. labelled u ps'" "length u \<le> length t + 15" "0 < l \<Longrightarrow> look u 0 (code_bits l code) = HT_LEAF smb"
    "is_leaf (look t 0 ys) \<Longrightarrow> (0 < l \<Longrightarrow> apart ys (code_bits l code)) \<Longrightarrow> look u 0 ys = look t 0 ys"
  using ht_insert_ok [OF assms(1), of l code smb] assms by (auto simp: u_def keeps_def)

lemma ht_assign_ok:
  assumes "labelled t ps" "\<forall>l \<in> set ls. l \<le> 15" "length t + 15 * length ls \<le> HT_MAX" "all_apart ls nc"
  shows "(\<forall>k < length ls. 0 < ls ! k \<longrightarrow> look (ht_assign ls i nc t) 0 (code_at ls nc k) = HT_LEAF (i + k)) \<and>
    (\<forall>ys. is_leaf (look t 0 ys) \<longrightarrow> (\<forall>k < length ls. 0 < ls ! k \<longrightarrow> apart ys (code_at ls nc k)) \<longrightarrow>
       look (ht_assign ls i nc t) 0 ys = look t 0 ys)"
  using assms
proof (induction ls arbitrary: i nc t ps)
  case (Cons l ls)
  let ?nc = "if l > 0 then nc[l := nc ! l + 1] else nc" and ?t = "if l > 0 then ht_insert (nc ! l) l i t else t"
  have at: "code_at (l # ls) nc (Suc k) = code_at ls ?nc k" "code_at (l # ls) nc 0 = code_bits l (nc ! l)" for k by (simp_all add: code_at_def)
  have asg: "ht_assign (l # ls) i nc t = ht_assign ls (i + 1) ?nc ?t" by simp
  have pre: "l \<le> 15" "length t + 15 \<le> HT_MAX" "\<forall>m \<in> set ls. m \<le> 15" using Cons.prems(2,3) by simp_all
  note I = ht_insert_if [OF Cons.prems(1) pre(1,2), where code = "nc ! l" and smb = i]
  obtain ps' where ps': "labelled ?t ps'" using I(1) by blast
  have len: "length ?t + 15 * length ls \<le> HT_MAX" using I(2) Cons.prems(3) by simp
  have ap: "all_apart ls ?nc" unfolding all_apart_def
  proof (intro allI impI)
    fix j k assume "k < length ls" "j < k" "0 < ls ! j" "0 < ls ! k"
    then show "apart (code_at ls ?nc j) (code_at ls ?nc k)" using Cons.prems(4) at(1) unfolding all_apart_def by (metis Suc_less_eq length_Cons nth_Cons_Suc)
  qed
  have fst: "apart (code_bits l (nc ! l)) (code_at ls ?nc k)" if "0 < l" "k < length ls" "0 < ls ! k" for k
    using Cons.prems(4) that at unfolding all_apart_def by (metis Suc_less_eq length_Cons nth_Cons_Suc nth_Cons_0 zero_less_Suc)
  note IH = Cons.IH [OF ps' pre(3) len ap, of "i + 1"]
  show ?case unfolding asg
  proof (intro conjI allI impI)
    fix k assume k: "k < length (l # ls)" "0 < (l # ls) ! k"
    show "look (ht_assign ls (i + 1) ?nc ?t) 0 (code_at (l # ls) nc k) = HT_LEAF (i + k)"
    proof (cases k)
      case 0
      then have "0 < l" using k by simp
      from I(3) [OF this] have "is_leaf (look ?t 0 (code_bits l (nc ! l)))" "look ?t 0 (code_bits l (nc ! l)) = HT_LEAF i"
        by (auto simp: is_leaf_def HT_LEAF_def HT_EMPTY_def)
      then show ?thesis using IH fst \<open>0 < l\<close> 0 at(2) by simp
    next
      case (Suc j)
      then show ?thesis using IH k at(1) by simp
    qed
  next
    fix ys assume ys: "is_leaf (look t 0 ys)" "\<forall>k < length (l # ls). 0 < (l # ls) ! k \<longrightarrow> apart ys (code_at (l # ls) nc k)"
    have "apart ys (code_bits l (nc ! l))" if "0 < l" using ys(2) that at(2) by force
    with I(4) [OF ys(1)] have u: "look ?t 0 ys = look t 0 ys" by blast
    have "\<forall>k < length ls. 0 < ls ! k \<longrightarrow> apart ys (code_at ls ?nc k)" using ys(2) at(1) by (metis Suc_less_eq length_Cons nth_Cons_Suc)
    with IH u ys(1) show "look (ht_assign ls (i + 1) ?nc ?t) 0 ys = look t 0 ys" by metis
  qed
qed simp

text \<open>Decoding follows the tree.\<close>

lemma code_bits_one: "bits_nat [x] = of_bool x" by simp

lemma ht_decode_loop_ok:
  assumes "feeds b off (xs @ ys)" "look t (int n) xs = HT_LEAF smb" "length xs \<le> depth" "xs \<noteq> []"
  shows "\<exists>b'. ht_decode_loop depth t n b = (int smb, b') \<and> feeds b' (off + length xs) ys"
  using assms
proof (induction xs arbitrary: n b off depth)
  case (Cons x xs)
  obtain d where d: "depth = Suc d" using Cons.prems(3) by (cases depth) auto
  have "feeds b off ([x] @ xs @ ys)" using Cons.prems(1) by simp
  from bits_read_feeds [OF this, of 1] obtain b' where b': "bits_read 1 b = (of_bool x, b')" "feeds b' (off + 1) (xs @ ys)"
    unfolding code_bits_one by auto
  let ?c = "child t n x"
  have l: "look t ?c xs = HT_LEAF smb" using Cons.prems(2) by simp
  show ?case
  proof (cases "xs = []")
    case True
    then have "?c = HT_LEAF smb" using l by simp
    then have "ht_decode_loop depth t n b = (int smb, b')" by (cases x) (simp_all add: d b'(1) [unfolded One_nat_def] Let_def HT_LEAF_def HT_EMPTY_def HT_SYM_def)
    then show ?thesis using b'(2) True by simp
  next
    case False
    then have c: "0 \<le> ?c" using l by (cases "?c < 0") (auto simp: HT_EMPTY_def HT_LEAF_def)
    then have "look t (int (nat ?c)) xs = HT_LEAF smb" using l by simp
    from Cons.IH [OF b'(2) this _ False, of d] obtain b'' where
      "ht_decode_loop d t (nat ?c) b' = (int smb, b'')" "feeds b'' (off + 1 + length xs) ys" using Cons.prems(3) d by auto
    moreover have "ht_decode_loop depth t n b = ht_decode_loop d t (nat ?c) b'" using c by (cases x) (simp_all add: d b'(1) [unfolded One_nat_def] Let_def HT_EMPTY_def)
    ultimately show ?thesis by simp
  qed
qed simp

section \<open>Canonical codes\<close>

text \<open>The reference: the codes of one length are consecutive, those of the next length start after twice the last.\<close>

definition first_code :: "nat list \<Rightarrow> nat \<Rightarrow> nat" where
  "first_code lens l = (\<Sum>j = 1..<l. count_list lens j * 2 ^ (l - j))"

definition canonical :: "nat list \<Rightarrow> nat \<Rightarrow> bool list" where
  "canonical lens k = code_bits (lens ! k) (first_code lens (lens ! k) + count_list (take k lens) (lens ! k))"

text \<open>The code is not over-subscribed.\<close>

definition kraft :: "nat list \<Rightarrow> bool" where
  "kraft lens \<longleftrightarrow> (\<forall>l \<in> set lens. l \<le> 15) \<and> (\<Sum>j = 1..<16. count_list lens j * 2 ^ (15 - j)) \<le> 2 ^ 15"

lemma first_code_Suc: "0 < l \<Longrightarrow> first_code lens (Suc l) = 2 * (first_code lens l + count_list lens l)"
proof -
  assume l: "0 < l"
  have "first_code lens (Suc l) = (\<Sum>j = 1..<l. count_list lens j * 2 ^ (Suc l - j)) + count_list lens l * 2"
    using l by (simp add: first_code_def)
  also have "(\<Sum>j = 1..<l. count_list lens j * 2 ^ (Suc l - j)) = 2 * first_code lens l"
    unfolding first_code_def sum_distrib_left by (rule sum.cong) (auto simp: Suc_diff_le)
  finally show ?thesis by simp
qed

lemma first_code_le:
  assumes "0 < l"
  shows "2 ^ Suc d * (first_code lens l + count_list lens l) \<le> first_code lens (l + Suc d)"
proof (induction d)
  case 0
  then show ?case using first_code_Suc [OF assms, of lens] by simp
next
  case (Suc d)
  have "first_code lens (l + Suc (Suc d)) = 2 * (first_code lens (l + Suc d) + count_list lens (l + Suc d))"
    using first_code_Suc [of "l + Suc d" lens] by simp
  then show ?case using Suc by simp
qed

lemma kraft_fits:
  assumes "kraft lens" "0 < l" "l \<le> 15"
  shows "first_code lens l + count_list lens l \<le> 2 ^ l"
proof -
  have pw: "2 ^ (l - j) * 2 ^ (15 - l) = (2 ^ (15 - j) :: nat)" if "j \<le> l" for j using that assms(3) by (simp flip: power_add)
  have "(first_code lens l + count_list lens l) * 2 ^ (15 - l) = (\<Sum>j = 1..<l. count_list lens j * 2 ^ (15 - j)) + count_list lens l * 2 ^ (15 - l)"
    unfolding first_code_def add_mult_distrib sum_distrib_right mult.assoc by (intro arg_cong2 [where f = plus] sum.cong refl) (simp only: pw atLeastLessThan_iff less_imp_le)
  also have "\<dots> = (\<Sum>j = 1..<Suc l. count_list lens j * 2 ^ (15 - j))" using assms(2) by simp
  also have "\<dots> \<le> (\<Sum>j = 1..<16. count_list lens j * 2 ^ (15 - j))" using assms(3) by (intro sum_mono2) auto
  also have "\<dots> \<le> 2 ^ 15" using assms(1) by (simp add: kraft_def)
  also have "\<dots> = 2 ^ l * (2 ^ (15 - l) :: nat)" using assms(3) by (simp flip: power_add)
  finally show ?thesis by simp
qed

lemma code_bits_nth: "i < n \<Longrightarrow> code_bits n c ! i = bit c (n - Suc i)"
  by (simp add: code_bits_def rev_nth)

lemma length_code_bits [simp]: "length (code_bits n c) = n"
  by (simp add: code_bits_def)

lemma code_prefix:
  assumes "prefix (code_bits l c) (code_bits m d)" "c < 2 ^ l" "d < 2 ^ m"
  shows "l \<le> m \<and> c = d div 2 ^ (m - l)"
proof -
  have lm: "l \<le> m" using prefix_length_le [OF assms(1)] by simp
  have at: "code_bits l c ! i = code_bits m d ! i" if "i < l" for i
    using assms(1) that by (auto simp: prefix_def nth_append)
  have "bit c i = bit (drop_bit (m - l) d) i" for i
  proof (cases "i < l")
    case True
    then have "l - Suc i < l" "l - Suc (l - Suc i) = i" "m - Suc (l - Suc i) = m - l + i" using lm by auto
    then show ?thesis using at [of "l - Suc i"] code_bits_nth [of "l - Suc i" l c] code_bits_nth [of "l - Suc i" m d] lm by (simp add: bit_drop_bit_eq)
  next
    case False
    have "\<not> bit c i" using False assms(2) by (metis bit_take_bit_iff take_bit_nat_eq_self)
    moreover have "\<not> bit d (m - l + i)" using False lm assms(3) bit_take_bit_iff [of m d "m - l + i"] take_bit_nat_eq_self [OF assms(3)] by auto
    ultimately show ?thesis by (simp add: bit_drop_bit_eq)
  qed
  then have "c = drop_bit (m - l) d" by (simp add: bit_eq_iff)
  then show ?thesis using lm by (simp add: drop_bit_eq_div)
qed

lemma count_take_less:
  assumes "j < k" "k \<le> length xs" "xs ! j = x"
  shows "count_list (take j xs) x < count_list (take k xs) x"
proof -
  have "take k xs = take j xs @ xs ! j # take (k - Suc j) (drop (Suc j) xs)"
    using assms(1,2) by (metis Cons_nth_drop_Suc Suc_diff_Suc le_add_diff_inverse less_imp_le less_le_trans take_Suc_Cons take_add)
  then show ?thesis using assms(3) by simp
qed

lemma count_take_le: "count_list (take k xs) x \<le> count_list xs x"
  by (metis append_take_drop_id count_list_append le_add1)

lemma canonical_fits:
  assumes "kraft lens" "k < length lens" "0 < lens ! k"
  shows "lens ! k \<le> 15" "first_code lens (lens ! k) + count_list (take k lens) (lens ! k) < first_code lens (lens ! k) + count_list lens (lens ! k)"
    "first_code lens (lens ! k) + count_list (take k lens) (lens ! k) < 2 ^ (lens ! k)"
proof -
  show l: "lens ! k \<le> 15" using assms(1,2) by (simp add: kraft_def)
  have "count_list (take k lens) (lens ! k) < count_list (take (length lens) lens) (lens ! k)"
    by (rule count_take_less) (use assms(2) in simp_all)
  then show lt: "first_code lens (lens ! k) + count_list (take k lens) (lens ! k) < first_code lens (lens ! k) + count_list lens (lens ! k)" by simp
  show "first_code lens (lens ! k) + count_list (take k lens) (lens ! k) < 2 ^ (lens ! k)"
    using lt kraft_fits [OF assms(1,3) l] by simp
qed

lemma canonical_not_prefix:
  assumes "kraft lens" "j < length lens" "k < length lens" "0 < lens ! j" "0 < lens ! k" "j \<noteq> k"
  shows "\<not> prefix (canonical lens j) (canonical lens k)"
proof
  let ?l = "lens ! j" and ?m = "lens ! k"
  let ?c = "first_code lens ?l + count_list (take j lens) ?l" and ?d = "first_code lens ?m + count_list (take k lens) ?m"
  assume "prefix (canonical lens j) (canonical lens k)"
  then have pre: "prefix (code_bits ?l ?c) (code_bits ?m ?d)" by (simp add: canonical_def)
  note J = canonical_fits [OF assms(1,2,4)] and K = canonical_fits [OF assms(1,3,5)]
  have P: "?l \<le> ?m" "?c = ?d div 2 ^ (?m - ?l)" using code_prefix [OF pre J(3) K(3)] by auto
  show False
  proof (cases "?l = ?m")
    case True
    then have "count_list (take j lens) ?m = count_list (take k lens) ?m" using P(2) by simp
    moreover have "count_list (take j lens) ?m \<noteq> count_list (take k lens) ?m"
      using count_take_less [of j k lens ?m] count_take_less [of k j lens ?m] assms(2,3,6) True by (cases "j < k") auto
    ultimately show False by simp
  next
    case False
    then obtain e where e: "?m = ?l + Suc e" using P(1) by (metis add_Suc_right le_neq_implies_less less_imp_Suc_add)
    have "2 ^ Suc e * (first_code lens ?l + count_list lens ?l) \<le> ?d" using first_code_le [OF assms(4), of e lens] unfolding e by linarith
    then have "first_code lens ?l + count_list lens ?l \<le> ?d div 2 ^ Suc e" by (simp add: less_eq_div_iff_mult_less_eq mult.commute)
    then show False using J(2) P(2) e by simp
  qed
qed

lemma length_bl_count [simp]: "length (bl_count lens) = 16"
proof -
  have "length (foldl (\<lambda>bc l. if 0 < l \<and> l \<le> 15 then bc[l := bc ! l + 1] else bc) bc lens) = length bc" for bc :: "nat list"
    by (induction lens arbitrary: bc) auto
  then show ?thesis by (simp add: bl_count_def)
qed

lemma bl_count_nth: "l < 16 \<Longrightarrow> bl_count lens ! l = (if l = 0 then 0 else count_list lens l)"
proof -
  assume l: "l < 16"
  have "foldl (\<lambda>bc l. if 0 < l \<and> l \<le> 15 then bc[l := bc ! l + 1] else bc) bc lens ! l = bc ! l + (if l = 0 then 0 else count_list lens l)"
    if "length bc = 16" for bc :: "nat list"
    using that
  proof (induction lens arbitrary: bc)
    case (Cons x xs)
    then show ?case using l by (auto simp: nth_list_update)
  qed simp
  then show ?thesis using l by (simp add: bl_count_def)
qed

lemma next_codes_step:
  assumes "i < 15"
  shows "length (next_codes bc) = 16" "next_codes bc ! Suc i = (next_codes bc ! i + bc ! i) * 2"
proof -
  define f where "f n = foldl (\<lambda>nc i. nc @ [(nc ! (i - 1) + bc ! (i - 1)) * 2]) [0] [1..<Suc n]" for n
  have S: "f (Suc n) = f n @ [(f n ! n + bc ! n) * 2]" for n unfolding f_def by simp
  have len: "length (f n) = Suc n" for n
  proof (induction n)
    case (Suc n)
    then show ?case by (simp add: S)
  qed (simp add: f_def)
  have at: "f n ! Suc i = (f n ! i + bc ! i) * 2" if "i < n" for n i
    using that
  proof (induction n)
    case (Suc n)
    then show ?case by (cases "i = n") (simp_all add: S nth_append len)
  qed simp
  have "next_codes bc = f 15" by (simp add: next_codes_def f_def)
  then show "length (next_codes bc) = 16" "next_codes bc ! Suc i = (next_codes bc ! i + bc ! i) * 2" using len at assms by simp_all
qed

lemma next_codes_first:
  assumes "l < 15"
  shows "next_codes (bl_count lens) ! Suc l = first_code lens (Suc l)"
  using assms
proof (induction l)
  case 0
  have "next_codes (bl_count lens) ! 0 = 0" by (simp add: next_codes_def upt_rec)
  then show ?case using next_codes_step(2) [of 0 "bl_count lens"] by (simp add: bl_count_nth first_code_def)
next
  case (Suc l)
  then show ?case using next_codes_step(2) [of "Suc l" "bl_count lens"] first_code_Suc [of "Suc l" lens] by (simp add: bl_count_nth)
qed

lemma codes_of_nth:
  assumes "k < length ls" "0 < ls ! k" "\<forall>l \<in> set ls. l < length nc"
  shows "codes_of ls nc ! k = nc ! (ls ! k) + count_list (take k ls) (ls ! k)"
  using assms
proof (induction ls arbitrary: k nc)
  case (Cons l ls)
  then show ?case by (cases k) (auto simp: nth_list_update)
qed simp

lemma code_at_canonical:
  assumes "kraft lens" "k < length lens" "0 < lens ! k"
  shows "code_at lens (next_codes (bl_count lens)) k = canonical lens k"
proof -
  have len: "\<forall>l \<in> set lens. l < length (next_codes (bl_count lens))" using assms(1) next_codes_step(1) [of 0] by (auto simp: kraft_def)
  obtain l where "lens ! k = Suc l" "l < 15" using canonical_fits(1) [OF assms] assms(3) by (cases "lens ! k") auto
  then have "next_codes (bl_count lens) ! (lens ! k) = first_code lens (lens ! k)" using next_codes_first by simp
  then show ?thesis using codes_of_nth [OF assms(2,3) len] by (simp add: code_at_def canonical_def)
qed

text \<open>A tree built from code lengths decodes the canonical code of every symbol.\<close>

lemma ht_build_look:
  assumes "kraft lens" "length lens \<le> 546" "k < length lens" "0 < lens ! k"
  shows "look (ht_build lens) 0 (canonical lens k) = HT_LEAF k"
proof -
  let ?nc = "next_codes (bl_count lens)"
  have init: "labelled ht_init [[]]" by (auto simp: labelled_def ht_init_def child_def HT_EMPTY_def)
  have len: "\<forall>l \<in> set lens. l \<le> 15" "length ht_init + 15 * length lens \<le> HT_MAX" using assms(1,2) by (auto simp: kraft_def ht_init_def HT_MAX_def)
  have "all_apart lens ?nc" unfolding all_apart_def
  proof (intro allI impI)
    fix j k assume *: "k < length lens" "j < k" "0 < lens ! j" "0 < lens ! k"
    then have "j < length lens" by simp
    then show "apart (code_at lens ?nc j) (code_at lens ?nc k)"
      using * assms(1) canonical_not_prefix [of lens j k] canonical_not_prefix [of lens k j] by (simp add: apart_def code_at_canonical)
  qed
  from ht_assign_ok [OF init len this, of 0] show ?thesis using assms code_at_canonical by (simp add: ht_build_def)
qed

lemma ht_build_decodes:
  assumes "kraft lens" "length lens \<le> 546" "k < length lens" "0 < lens ! k" "feeds b off (canonical lens k @ ys)"
  shows "\<exists>b'. ht_decode (ht_build lens) b = (int k, b') \<and> feeds b' (off + lens ! k) ys"
proof -
  have "look (ht_build lens) (int 0) (canonical lens k) = HT_LEAF k" using ht_build_look [OF assms(1-4)] by simp
  moreover have "length (canonical lens k) = lens ! k" by (simp add: canonical_def)
  moreover have "canonical lens k \<noteq> []" "lens ! k \<le> 16" using assms(4) canonical_fits(1) [OF assms(1,3,4)] by (auto simp: canonical_def code_bits_def)
  ultimately show ?thesis using ht_decode_loop_ok [OF assms(5), of _ 0 k 16] by (simp add: ht_decode_def)
qed

end
