(* ===== verification/Deflate.thy ===== *)
theory Deflate
  imports Huffman
begin

text \<open>
  The decompressor inverts every DEFLATE encoding: tokens and blocks with their meaning as a reference, their
  encoding as bits, and the round trip through \<open>deflate_decompress\<close>.  The output never exceeds the buffer.
\<close>

section \<open>Reference\<close>

subsection \<open>Tokens\<close>

text \<open>A copy names the length and the distance by symbol and extra bits.\<close>

datatype token = Literal u8 | Copy nat nat nat nat

fun lz_copy :: "nat \<Rightarrow> nat \<Rightarrow> u8 list \<Rightarrow> u8 list" where
  "lz_copy 0 d out = out"
| "lz_copy (Suc n) d out = lz_copy n d (out @ [out ! (length out - d)])"

fun expand_token :: "token \<Rightarrow> u8 list \<Rightarrow> u8 list" where
  "expand_token (Literal c) out = out @ [c]"
| "expand_token (Copy li x di y) out = lz_copy (len_base ! li + x) (dist_base ! di + y) out"

definition expand_tokens :: "token list \<Rightarrow> u8 list \<Rightarrow> u8 list" where
  "expand_tokens ts out = fold expand_token ts out"

definition has_code :: "nat list \<Rightarrow> nat \<Rightarrow> bool" where
  "has_code lens k \<longleftrightarrow> k < length lens \<and> 0 < lens ! k"

fun token_ok :: "nat list \<Rightarrow> nat list \<Rightarrow> token \<Rightarrow> u8 list \<Rightarrow> bool" where
  "token_ok lit dist (Literal c) out = has_code lit (unat c)"
| "token_ok lit dist (Copy li x di y) out \<longleftrightarrow> li < 29 \<and> x < 2 ^ (len_extra ! li) \<and> di < 30 \<and> y < 2 ^ (dist_extra ! di) \<and>
     dist_base ! di + y \<le> length out \<and> has_code lit (257 + li) \<and> has_code dist di"

fun tokens_ok :: "nat list \<Rightarrow> nat list \<Rightarrow> token list \<Rightarrow> u8 list \<Rightarrow> bool" where
  "tokens_ok lit dist [] out = has_code lit 256"
| "tokens_ok lit dist (t # ts) out \<longleftrightarrow> token_ok lit dist t out \<and> tokens_ok lit dist ts (expand_token t out)"

definition nat_bits :: "nat \<Rightarrow> nat \<Rightarrow> bool list" where
  "nat_bits n x = map (bit x) [0..<n]"

fun enc_token :: "nat list \<Rightarrow> nat list \<Rightarrow> token \<Rightarrow> bool list" where
  "enc_token lit dist (Literal c) = canonical lit (unat c)"
| "enc_token lit dist (Copy li x di y) =
     canonical lit (257 + li) @ nat_bits (len_extra ! li) x @ canonical dist di @ nat_bits (dist_extra ! di) y"

definition enc_tokens :: "nat list \<Rightarrow> nat list \<Rightarrow> token list \<Rightarrow> bool list" where
  "enc_tokens lit dist ts = concat (map (enc_token lit dist) ts) @ canonical lit 256"

subsection \<open>Code lengths\<close>

datatype item = Len nat | Rep nat | Zeros3 nat | Zeros7 nat

fun expand_item :: "item \<Rightarrow> nat list \<Rightarrow> nat list" where
  "expand_item (Len n) ls = ls @ [n]"
| "expand_item (Rep x) ls = ls @ replicate (x + 3) (if ls \<noteq> [] then last ls else 0)"
| "expand_item (Zeros3 x) ls = ls @ replicate (x + 3) 0"
| "expand_item (Zeros7 x) ls = ls @ replicate (x + 11) 0"

fun item_ok :: "nat list \<Rightarrow> item \<Rightarrow> bool" where
  "item_ok cl (Len n) \<longleftrightarrow> n < 16 \<and> has_code cl n"
| "item_ok cl (Rep x) \<longleftrightarrow> x < 4 \<and> has_code cl 16"
| "item_ok cl (Zeros3 x) \<longleftrightarrow> x < 8 \<and> has_code cl 17"
| "item_ok cl (Zeros7 x) \<longleftrightarrow> x < 128 \<and> has_code cl 18"

fun enc_item :: "nat list \<Rightarrow> item \<Rightarrow> bool list" where
  "enc_item cl (Len n) = canonical cl n"
| "enc_item cl (Rep x) = canonical cl 16 @ nat_bits 2 x"
| "enc_item cl (Zeros3 x) = canonical cl 17 @ nat_bits 3 x"
| "enc_item cl (Zeros7 x) = canonical cl 18 @ nat_bits 7 x"

subsection \<open>Blocks\<close>

text \<open>A dynamic block: the numbers of literal, distance and length codes sent, the code-length code, the items and the tokens.\<close>

datatype block = Stored "u8 list" | Fixed "token list" | Dynamic nat nat nat "nat list" "item list" "token list"

definition lens_of :: "item list \<Rightarrow> nat list" where
  "lens_of items = fold expand_item items []"

fun expand_block :: "block \<Rightarrow> u8 list \<Rightarrow> u8 list" where
  "expand_block (Stored bs) out = out @ bs"
| "expand_block (Fixed ts) out = expand_tokens ts out"
| "expand_block (Dynamic hlit hdist hclen cl items ts) out = expand_tokens ts out"

fun block_ok :: "block \<Rightarrow> u8 list \<Rightarrow> bool" where
  "block_ok (Stored bs) out \<longleftrightarrow> length bs < 65536"
| "block_ok (Fixed ts) out \<longleftrightarrow> tokens_ok fixed_lit_lens fixed_dist_lens ts out"
| "block_ok (Dynamic hlit hdist hclen cl items ts) out \<longleftrightarrow>
     257 \<le> hlit \<and> hlit \<le> 288 \<and> 1 \<le> hdist \<and> hdist \<le> 32 \<and> 4 \<le> hclen \<and> hclen \<le> 19 \<and>
     length cl = 19 \<and> (\<forall>l \<in> set cl. l < 8) \<and> (\<forall>k \<in> set (drop hclen cl_order). cl ! k = 0) \<and> kraft cl \<and>
     list_all (item_ok cl) items \<and> length (lens_of items) = hlit + hdist \<and>
     kraft (take hlit (lens_of items)) \<and> kraft (drop hlit (lens_of items)) \<and>
     tokens_ok (take hlit (lens_of items)) (drop hlit (lens_of items)) ts out"

definition byte_bits :: "u8 \<Rightarrow> bool list" where
  "byte_bits c = map (bit c) [0..<8]"

text \<open>Stored data starts at a byte, after its length and the complement.\<close>

definition padding :: "nat \<Rightarrow> bool list" where
  "padding off = replicate ((8 - off mod 8) mod 8) False"

definition stored_data :: "u8 list \<Rightarrow> u8 list" where
  "stored_data bs = (let n = of_nat (length bs) :: u16 in
     [ucast n, ucast (drop_bit 8 n), ucast (NOT n), ucast (drop_bit 8 (NOT n))] @ bs)"

fun enc_block :: "nat \<Rightarrow> block \<Rightarrow> bool list" where
  "enc_block off (Stored bs) = nat_bits 2 0 @ padding (off + 2) @ concat (map byte_bits (stored_data bs))"
| "enc_block off (Fixed ts) = nat_bits 2 1 @ enc_tokens fixed_lit_lens fixed_dist_lens ts"
| "enc_block off (Dynamic hlit hdist hclen cl items ts) =
     nat_bits 2 2 @ nat_bits 5 (hlit - 257) @ nat_bits 5 (hdist - 1) @ nat_bits 4 (hclen - 4) @
     concat (map (\<lambda>k. nat_bits 3 (cl ! k)) (take hclen cl_order)) @ concat (map (enc_item cl) items) @
     enc_tokens (take hlit (lens_of items)) (drop hlit (lens_of items)) ts"

fun enc_blocks :: "nat \<Rightarrow> block list \<Rightarrow> bool list" where
  "enc_blocks off [] = []"
| "enc_blocks off (k # ks) = (let e = (ks = []) # enc_block (off + 1) k in e @ enc_blocks (off + length e) ks)"

fun blocks_ok :: "block list \<Rightarrow> u8 list \<Rightarrow> bool" where
  "blocks_ok [] out = True"
| "blocks_ok (k # ks) out \<longleftrightarrow> block_ok k out \<and> blocks_ok ks (expand_block k out)"

text \<open>The bits as bytes, the first bit the lowest of the first byte.\<close>

fun pack :: "bool list \<Rightarrow> u8 list" where
  "pack [] = []"
| "pack (x # xs) = of_nat (bits_nat (take 8 (x # xs))) # pack (drop 7 xs)"

section \<open>Tokens\<close>

lemma length_lz_copy [simp]: "length (lz_copy n d out) = length out + n"
  by (induction n d out rule: lz_copy.induct) auto

lemma copy_back_ok: "0 < d \<Longrightarrow> d \<le> length out \<Longrightarrow> length out + n \<le> omax \<Longrightarrow> copy_back n d omax out = Some (lz_copy n d out)"
  by (induction n d omax out rule: copy_back.induct) auto

lemma length_expand_token: "length out \<le> length (expand_token t out)"
  by (cases t) auto

lemma length_expand_tokens: "length out \<le> length (expand_tokens ts out)"
proof (induction ts arbitrary: out)
  case (Cons t ts)
  from Cons [of "expand_token t out"] length_expand_token [of out t] show ?case by (simp add: expand_tokens_def)
qed (simp add: expand_tokens_def)

lemma length_nat_bits [simp]: "length (nat_bits n x) = n"
  by (simp add: nat_bits_def)

lemma bits_nat_nat_bits: "x < 2 ^ n \<Longrightarrow> bits_nat (nat_bits n x) = x"
  unfolding nat_bits_def horner_sum_bit_eq_take_bit by (simp add: take_bit_nat_eq_self)

lemma bits_read_nat:
  assumes "feeds b off (nat_bits n x @ ys)" "n \<le> 16" "x < 2 ^ n"
  shows "\<exists>b'. bits_read n b = (x, b') \<and> feeds b' (off + n) ys"
  using bits_read_feeds [OF assms(1) _ assms(2)] bits_nat_nat_bits [OF assms(3)] by simp

definition codes_ok :: "nat list \<Rightarrow> bool" where
  "codes_ok lens \<longleftrightarrow> kraft lens \<and> length lens \<le> 546"

lemma decode_symbol:
  assumes "codes_ok lens" "has_code lens k" "feeds b off (canonical lens k @ ys)"
  shows "\<exists>b'. ht_decode (ht_build lens) b = (int k, b') \<and> feeds b' (off + length (canonical lens k)) ys"
  using ht_build_decodes [OF _ _ _ _ assms(3)] assms(1,2) by (simp add: codes_ok_def has_code_def canonical_def)

lemma nth_le:
  assumes "list_all (\<lambda>x. lo \<le> x \<and> x \<le> hi) xs" "i < length xs"
  shows "lo \<le> xs ! i" "xs ! i \<le> (hi :: nat)"
  using assms by (auto simp: list_all_length)

lemma table_bounds:
  assumes "li < 29" "di < 30"
  shows "len_extra ! li \<le> 16" "dist_extra ! di \<le> 16" "1 \<le> dist_base ! di"
proof -
  have "list_all (\<lambda>x. 0 \<le> x \<and> x \<le> 16) len_extra" "list_all (\<lambda>x. 0 \<le> x \<and> x \<le> 16) dist_extra" "list_all (\<lambda>x. 1 \<le> x \<and> x \<le> 30000) dist_base"
    by (simp_all add: len_extra_def dist_extra_def dist_base_def)
  moreover have "length len_extra = 29" "length dist_extra = 30" "length dist_base = 30" by (simp_all add: len_extra_def dist_extra_def dist_base_def)
  ultimately show "len_extra ! li \<le> 16" "dist_extra ! di \<le> 16" "1 \<le> dist_base ! di" using nth_le assms by metis+
qed

lemma decode_block_token:
  assumes "codes_ok lit" "codes_ok dist" "token_ok lit dist t out" "feeds b off (enc_token lit dist t @ ys)" "length (expand_token t out) \<le> omax"
  shows "\<exists>b'. decode_block b (ht_build lit) (ht_build dist) omax out = decode_block b' (ht_build lit) (ht_build dist) omax (expand_token t out) \<and>
    feeds b' (off + length (enc_token lit dist t)) ys"
proof (cases t)
  case (Literal c)
  have "int (unat c) < 256" using unat_u8 [of c] by linarith
  then have "uint c < 256" by simp
  moreover obtain b' where "ht_decode (ht_build lit) b = (int (unat c), b')" "feeds b' (off + length (canonical lit (unat c))) ys"
    using decode_symbol [OF assms(1), of "unat c" b off ys] assms(3,4) Literal by auto
  ultimately show ?thesis using Literal assms(5) by (subst decode_block.simps) auto
next
  case (Copy li x di y)
  have ok: "li < 29" "x < 2 ^ (len_extra ! li)" "di < 30" "y < 2 ^ (dist_extra ! di)" "dist_base ! di + y \<le> length out" "has_code lit (257 + li)" "has_code dist di"
    using assms(3) Copy by simp_all
  note tb = table_bounds [OF ok(1,3)]
  have f0: "feeds b off (canonical lit (257 + li) @ nat_bits (len_extra ! li) x @ canonical dist di @ nat_bits (dist_extra ! di) y @ ys)"
    using assms(4) Copy by simp
  obtain b1 where b1: "ht_decode (ht_build lit) b = (int (257 + li), b1)"
      and f1: "feeds b1 (off + length (canonical lit (257 + li))) (nat_bits (len_extra ! li) x @ canonical dist di @ nat_bits (dist_extra ! di) y @ ys)"
    using decode_symbol [OF assms(1) ok(6) f0] by blast
  obtain b2 where b2: "bits_read (len_extra ! li) b1 = (x, b2)"
      and f2: "feeds b2 (off + length (canonical lit (257 + li)) + len_extra ! li) (canonical dist di @ nat_bits (dist_extra ! di) y @ ys)"
    using bits_read_nat [OF f1 tb(1) ok(2)] by blast
  obtain b3 where b3: "ht_decode (ht_build dist) b2 = (int di, b3)"
      and f3: "feeds b3 (off + length (canonical lit (257 + li)) + len_extra ! li + length (canonical dist di)) (nat_bits (dist_extra ! di) y @ ys)"
    using decode_symbol [OF assms(2) ok(7) f2] by blast
  obtain b4 where b4: "bits_read (dist_extra ! di) b3 = (y, b4)"
      and f4: "feeds b4 (off + length (canonical lit (257 + li)) + len_extra ! li + length (canonical dist di) + dist_extra ! di) ys"
    using bits_read_nat [OF f3 tb(2) ok(4)] by blast
  have cb: "copy_back (len_base ! li + x) (dist_base ! di + y) omax out = Some (expand_token t out)"
    using copy_back_ok [of "dist_base ! di + y" out "len_base ! li + x" omax] ok(5) tb(3) assms(5) by (simp add: Copy)
  have nat: "nat (int (257 + li) - 257) = li" by simp
  have "decode_block b (ht_build lit) (ht_build dist) omax out = decode_block b4 (ht_build lit) (ht_build dist) omax (expand_token t out)"
    using ok(1,3) by (subst decode_block.simps) (simp add: b1 [unfolded of_nat_add] b2 b3 b4 cb Let_def)
  then show ?thesis using f4 Copy by (auto simp: add.assoc)
qed

lemma decode_block_ok:
  assumes "codes_ok lit" "codes_ok dist" "tokens_ok lit dist ts out" "feeds b off (enc_tokens lit dist ts @ ys)" "length (expand_tokens ts out) \<le> omax"
  shows "\<exists>b'. decode_block b (ht_build lit) (ht_build dist) omax out = Some (Some (b', expand_tokens ts out)) \<and>
    feeds b' (off + length (enc_tokens lit dist ts)) ys"
  using assms(3-5)
proof (induction ts arbitrary: b off out)
  case Nil
  then obtain b' where "ht_decode (ht_build lit) b = (int 256, b')" "feeds b' (off + length (canonical lit 256)) ys"
    using decode_symbol [OF assms(1), of 256 b off ys] by (auto simp: enc_tokens_def)
  then show ?case by (subst decode_block.simps) (simp add: enc_tokens_def expand_tokens_def)
next
  case (Cons t ts)
  have ex: "expand_tokens (t # ts) out = expand_tokens ts (expand_token t out)" by (simp add: expand_tokens_def)
  have f: "feeds b off (enc_token lit dist t @ enc_tokens lit dist ts @ ys)" using Cons.prems(2) by (simp add: enc_tokens_def)
  have ok: "token_ok lit dist t out" "tokens_ok lit dist ts (expand_token t out)" using Cons.prems(1) by simp_all
  have "length (expand_token t out) \<le> omax" using length_expand_tokens [of "expand_token t out" ts] Cons.prems(3) ex by simp
  from decode_block_token [OF assms(1,2) ok(1) f this] obtain b' where
    b': "decode_block b (ht_build lit) (ht_build dist) omax out = decode_block b' (ht_build lit) (ht_build dist) omax (expand_token t out)"
      "feeds b' (off + length (enc_token lit dist t)) (enc_tokens lit dist ts @ ys)" by blast
  from Cons.IH [OF ok(2) b'(2)] Cons.prems(3) b'(1) ex show ?case by (auto simp: enc_tokens_def add.assoc)
qed

section \<open>Code lengths\<close>

lemma length_expand_item: "length ls < length (expand_item it ls)"
  by (cases it) auto

lemma length_expand_items: "length ls \<le> length (fold expand_item items ls)"
proof (induction items arbitrary: ls)
  case (Cons it items)
  from Cons [of "expand_item it ls"] length_expand_item [of ls it] show ?case by simp
qed simp

lemma read_lens_item:
  assumes "codes_ok cl" "item_ok cl it" "feeds b off (enc_item cl it @ ys)" "length (expand_item it ls) \<le> tot"
  shows "\<exists>b'. read_lens (ht_build cl) tot ls b = read_lens (ht_build cl) tot (expand_item it ls) b' \<and> feeds b' (off + length (enc_item cl it)) ys"
proof -
  have lt: "length ls < tot" using length_expand_item [of ls it] assms(4) by simp
  have two: "\<exists>b' b''. ht_decode (ht_build cl) b = (int k, b') \<and> bits_read n b' = (x, b'') \<and> feeds b'' (off + length (canonical cl k) + n) ys"
    if "has_code cl k" "feeds b off (canonical cl k @ nat_bits n x @ ys)" "x < 2 ^ n" "n \<le> 16" for k n x
    using decode_symbol [OF assms(1) that(1,2)] bits_read_nat [OF _ that(4,3)] by blast
  have step: "read_lens (ht_build cl) tot ls b = (case ht_decode (ht_build cl) b of
           (smb, b) \<Rightarrow>
             if smb < 0 then None
             else if smb < 16 then read_lens (ht_build cl) tot (ls @ [nat smb]) b
             else if smb = 16 then
               (case bits_read 2 b of (x, b) \<Rightarrow>
                  read_lens (ht_build cl) tot (take tot (ls @ replicate (x + 3) (if ls \<noteq> [] then last ls else 0))) b)
             else if smb = 17 then
               (case bits_read 3 b of (x, b) \<Rightarrow> read_lens (ht_build cl) tot (take tot (ls @ replicate (x + 3) 0)) b)
             else if smb = 18 then
               (case bits_read 7 b of (x, b) \<Rightarrow> read_lens (ht_build cl) tot (take tot (ls @ replicate (x + 11) 0)) b)
             else None)"
    using lt by (subst read_lens.simps) (simp only: if_True)
  show ?thesis
  proof (cases it)
    case (Len n)
    then show ?thesis using decode_symbol [OF assms(1), of n b off ys] assms(2,3) unfolding step by auto
  next
    case (Rep x)
    then show ?thesis using two [of 16 2 x] assms(2-4) unfolding step by (auto simp: add.assoc)
  next
    case (Zeros3 x)
    then show ?thesis using two [of 17 3 x] assms(2-4) unfolding step by (auto simp: add.assoc)
  next
    case (Zeros7 x)
    then show ?thesis using two [of 18 7 x] assms(2-4) unfolding step by (auto simp: add.assoc)
  qed
qed

lemma read_lens_ok:
  assumes "codes_ok cl" "list_all (item_ok cl) items" "feeds b off (concat (map (enc_item cl) items) @ ys)" "length (fold expand_item items ls) = tot"
  shows "\<exists>b'. read_lens (ht_build cl) tot ls b = Some (fold expand_item items ls, b') \<and> feeds b' (off + length (concat (map (enc_item cl) items))) ys"
  using assms(2-4)
proof (induction items arbitrary: b off ls)
  case Nil
  then show ?case by (subst read_lens.simps) simp
next
  case (Cons it items)
  have f: "feeds b off (enc_item cl it @ concat (map (enc_item cl) items) @ ys)" "item_ok cl it" "list_all (item_ok cl) items" using Cons.prems by simp_all
  have "length (expand_item it ls) \<le> tot" using length_expand_items [of "expand_item it ls" items] Cons.prems(3) by simp
  from read_lens_item [OF assms(1) f(2,1) this] obtain b' where
    b': "read_lens (ht_build cl) tot ls b = read_lens (ht_build cl) tot (expand_item it ls) b'"
      "feeds b' (off + length (enc_item cl it)) (concat (map (enc_item cl) items) @ ys)" by blast
  from Cons.IH [OF f(3) b'(2)] Cons.prems(3) b'(1) show ?case by (auto simp: add.assoc)
qed

lemma read_cl_lens_ok:
  assumes "feeds b off (concat (map (\<lambda>k. nat_bits 3 (cl ! k)) ks) @ ys)" "\<forall>k \<in> set ks. cl ! k < 8"
  shows "\<exists>b'. read_cl_lens ks acc b = (foldl (\<lambda>c k. c[k := cl ! k]) acc ks, b') \<and> feeds b' (off + 3 * length ks) ys"
  using assms
proof (induction ks arbitrary: acc b off)
  case (Cons k ks)
  have "feeds b off (nat_bits 3 (cl ! k) @ concat (map (\<lambda>k. nat_bits 3 (cl ! k)) ks) @ ys)" "cl ! k < 2 ^ 3" using Cons.prems by simp_all
  from bits_read_nat [OF this(1) _ this(2)] obtain b' where b': "bits_read 3 b = (cl ! k, b')" "feeds b' (off + 3) (concat (map (\<lambda>k. nat_bits 3 (cl ! k)) ks) @ ys)" by auto
  from Cons.IH [OF b'(2), of "acc[k := cl ! k]"] Cons.prems(2) b'(1) show ?case by (auto simp: add.assoc)
qed simp

lemma foldl_upd_nth: "i < length acc \<Longrightarrow> foldl (\<lambda>c k. c[k := cl ! k]) acc ks ! i = (if i \<in> set ks then cl ! i else acc ! i)"
  by (induction ks arbitrary: acc) (auto simp: nth_list_update)

lemma length_foldl_upd: "length (foldl (\<lambda>c k. c[k := cl ! k]) acc ks) = length acc"
  by (induction ks arbitrary: acc) auto

lemma set_cl_order: "set cl_order = {..<19}"
proof (rule card_subset_eq)
  have "distinct cl_order" "length cl_order = 19" by (simp_all add: cl_order_def)
  then show "card (set cl_order) = card {..<19 :: nat}" by (simp add: distinct_card)
qed (auto simp: cl_order_def)

lemma cl_lens_of:
  assumes "length cl = 19" "\<forall>k \<in> set (drop n cl_order). cl ! k = (0 :: nat)"
  shows "foldl (\<lambda>c k. c[k := cl ! k]) (replicate 19 0) (take n cl_order) = cl"
proof (rule nth_equalityI)
  fix i assume "i < length (foldl (\<lambda>c k. c[k := cl ! k]) (replicate 19 0) (take n cl_order))"
  then have i: "i < 19" by (simp add: length_foldl_upd)
  then have "i \<in> set (take n cl_order) \<or> i \<in> set (drop n cl_order)" using set_cl_order by (metis Un_iff append_take_drop_id lessThan_iff set_append)
  then show "foldl (\<lambda>c k. c[k := cl ! k]) (replicate 19 0) (take n cl_order) ! i = cl ! i" using i assms(2) by (auto simp: foldl_upd_nth)
qed (simp add: length_foldl_upd assms(1))

lemma dynamic_trees_ok:
  assumes "block_ok (Dynamic hlit hdist hclen cl items ts) out"
    "feeds b off (nat_bits 5 (hlit - 257) @ nat_bits 5 (hdist - 1) @ nat_bits 4 (hclen - 4) @
       concat (map (\<lambda>k. nat_bits 3 (cl ! k)) (take hclen cl_order)) @ concat (map (enc_item cl) items) @ ys)"
  shows "\<exists>b'. dynamic_trees b = Some (ht_build (take hlit (lens_of items)), ht_build (drop hlit (lens_of items)), b') \<and>
    feeds b' (off + 14 + 3 * hclen + length (concat (map (enc_item cl) items))) ys"
proof -
  have ok: "257 \<le> hlit" "hlit \<le> 288" "1 \<le> hdist" "hdist \<le> 32" "4 \<le> hclen" "hclen \<le> 19" "length cl = 19" "\<forall>l \<in> set cl. l < 8"
      "\<forall>k \<in> set (drop hclen cl_order). cl ! k = 0" "kraft cl" "list_all (item_ok cl) items" "length (lens_of items) = hlit + hdist"
    using assms(1) by simp_all
  have "hlit - 257 < 2 ^ 5" "hdist - 1 < 2 ^ 5" "hclen - 4 < 2 ^ 4" using ok(1-6) by simp_all
  note lt = this
  obtain b1 where b1: "bits_read 5 b = (hlit - 257, b1)" and f1: "feeds b1 (off + 5) (nat_bits 5 (hdist - 1) @ nat_bits 4 (hclen - 4) @
       concat (map (\<lambda>k. nat_bits 3 (cl ! k)) (take hclen cl_order)) @ concat (map (enc_item cl) items) @ ys)"
    using bits_read_nat [OF assms(2) _ lt(1)] by auto
  obtain b2 where b2: "bits_read 5 b1 = (hdist - 1, b2)" and f2: "feeds b2 (off + 5 + 5) (nat_bits 4 (hclen - 4) @
       concat (map (\<lambda>k. nat_bits 3 (cl ! k)) (take hclen cl_order)) @ concat (map (enc_item cl) items) @ ys)"
    using bits_read_nat [OF f1 _ lt(2)] by auto
  obtain b3 where b3: "bits_read 4 b2 = (hclen - 4, b3)" and f3: "feeds b3 (off + 5 + 5 + 4)
       (concat (map (\<lambda>k. nat_bits 3 (cl ! k)) (take hclen cl_order)) @ concat (map (enc_item cl) items) @ ys)"
    using bits_read_nat [OF f2 _ lt(3)] by auto
  have "\<forall>k \<in> set (take hclen cl_order). cl ! k < 8" using ok(7,8) set_cl_order by (metis in_set_takeD lessThan_iff nth_mem)
  from read_cl_lens_ok [OF f3 this, of "replicate 19 0"] obtain b4 where
    b4: "read_cl_lens (take hclen cl_order) (replicate 19 0) b3 = (cl, b4)" and
    f4: "feeds b4 (off + 5 + 5 + 4 + 3 * length (take hclen cl_order)) (concat (map (enc_item cl) items) @ ys)"
    unfolding cl_lens_of [OF ok(7,9)] by blast
  have co: "codes_ok cl" using ok(7,10) by (simp add: codes_ok_def)
  have len: "length (take hclen cl_order) = hclen" using ok(6) by (simp add: cl_order_def)
  have "length (fold expand_item items []) = hlit + hdist" using ok(12) by (simp add: lens_of_def)
  from read_lens_ok [OF co ok(11) f4 this] obtain b5 where b5: "read_lens (ht_build cl) (hlit + hdist) [] b4 = Some (lens_of items, b5)"
     "feeds b5 (off + 5 + 5 + 4 + 3 * hclen + length (concat (map (enc_item cl) items))) ys"
    unfolding len lens_of_def [symmetric] by blast
  have "hlit - 257 + 257 = hlit" "hdist - 1 + 1 = hdist" "hclen - 4 + 4 = hclen" using ok(1,3,5) by simp_all
  then have "dynamic_trees b = Some (ht_build (take hlit (lens_of items)), ht_build (drop hlit (lens_of items)), b5)"
    by (simp only: dynamic_trees_def Let_def b1 b2 b3 b4 b5(1) prod.case option.case)
  then show ?thesis using b5(2) by (auto simp: add.commute)
qed

section \<open>Blocks\<close>

lemma length_byte_bits [simp]: "length (byte_bits c) = 8"
  by (simp add: byte_bits_def)

lemma length_bytes_bits: "length (concat (map byte_bits bs)) = 8 * length bs"
  by (induction bs) auto

lemma bytes_bits_nth: "j < 8 \<Longrightarrow> i < length bs \<Longrightarrow> concat (map byte_bits bs) ! (8 * i + j) = bit (bs ! i) j"
proof (induction bs arbitrary: i)
  case (Cons c bs)
  then show ?case
  proof (cases i)
    case (Suc k)
    then show ?thesis using Cons by (simp add: nth_append)
  qed (simp add: nth_append byte_bits_def)
qed simp

lemma byte_eqI: "(\<And>j. j < 8 \<Longrightarrow> bit x j = bit y j) \<Longrightarrow> x = (y :: u8)"
  by (rule bit_word_eqI) simp

text \<open>At a byte of the input the bits are the bytes themselves.\<close>

lemma feeds_bytes:
  assumes "feeds b off (pad @ concat (map byte_bits bs) @ ys)" "length pad = b_cnt b" "bs \<noteq> []"
  shows "b_pos b + length bs \<le> length (b_src b)" "take (length bs) (drop (b_pos b) (b_src b)) = bs"
    "feeds (b\<lparr>b_buf := 0, b_cnt := 0, b_pos := b_pos b + length bs\<rparr>) (off + length pad + 8 * length bs) ys"
proof -
  let ?xs = "pad @ concat (map byte_bits bs) @ ys" and ?c = "b\<lparr>b_buf := 0, b_cnt := 0, b_pos := b_pos b + length bs\<rparr>"
  have F: "bits_ok b" "(off + b_cnt b) mod 8 = 0" "length ?xs \<le> avail b" "\<And>i. i < length ?xs \<Longrightarrow> bit_at b i = ?xs ! i"
    using assms(1) by (auto simp: feeds_def)
  have le: "8 * length bs + length ys \<le> 8 * (length (b_src b) - b_pos b)" using F(3) assms(2) by (simp add: avail_def length_bytes_bits)
  then show len: "b_pos b + length bs \<le> length (b_src b)" using assms(3) by (cases bs) auto
  have at: "b_src b ! (b_pos b + i) = bs ! i" if "i < length bs" for i
  proof (rule byte_eqI)
    fix j :: nat assume j: "j < 8"
    have "?xs ! (length pad + (8 * i + j)) = bit (bs ! i) j" using that j by (simp add: nth_append length_bytes_bits bytes_bits_nth)
    moreover have "bit_at b (length pad + (8 * i + j)) = bit (b_src b ! (b_pos b + i)) j" using that j len by (simp add: bit_at_def assms(2))
    ultimately show "bit (b_src b ! (b_pos b + i)) j = bit (bs ! i) j" using F(4) [of "length pad + (8 * i + j)"] that j by (simp add: length_bytes_bits)
  qed
  then show "take (length bs) (drop (b_pos b) (b_src b)) = bs" using len by (intro nth_equalityI) auto
  show "feeds ?c (off + length pad + 8 * length bs) ys" unfolding feeds_def
  proof (intro conjI allI impI)
    show "bits_ok ?c" by (simp add: bits_ok_def bits_clean_def)
    show "(off + length pad + 8 * length bs + b_cnt ?c) mod 8 = 0" using F(2) assms(2) by simp
    show "length ys \<le> avail ?c" using le len by (simp add: avail_def)
    fix i assume i: "i < length ys"
    have "?xs ! (length pad + (8 * length bs + i)) = ys ! i" by (simp add: nth_append length_bytes_bits)
    moreover have "bit_at b (length pad + (8 * length bs + i)) = bit_at ?c i" by (simp add: bit_at_def assms(2) add.assoc)
    ultimately show "bit_at ?c i = ys ! i" using F(4) [of "length pad + (8 * length bs + i)"] i by (simp add: length_bytes_bits)
  qed
qed

lemma length_padding: "feeds b off xs \<Longrightarrow> length (padding off) = b_cnt b"
proof -
  assume "feeds b off xs"
  then have c: "b_cnt b \<le> 7" "(off mod 8 + b_cnt b) mod 8 = 0" unfolding feeds_def bits_ok_def by (simp_all add: mod_simps)
  then obtain k where k: "off mod 8 + b_cnt b = 8 * k" by blast
  moreover have "off mod 8 < 8" by simp
  ultimately have "k < 2" using c(1) by linarith
  then consider "k = 0" | "k = 1" by linarith
  then show ?thesis using k c(1) \<open>off mod 8 < 8\<close> by cases (auto simp: padding_def)
qed

lemma length_stored_data [simp]: "length (stored_data bs) = length bs + 4"
  by (simp add: stored_data_def Let_def)

lemma stored_len:
  assumes "length bs < 65536"
  shows "unat (stored_data bs ! 0) + 256 * unat (stored_data bs ! 1) = length bs"
proof -
  let ?n = "of_nat (length bs) :: u16"
  have n: "unat ?n = length bs" using assms by (simp add: unsigned_of_nat take_bit_nat_eq_self)
  have "unat (ucast ?n :: u8) = length bs mod 256" using n by (simp add: unsigned_ucast_eq take_bit_eq_mod)
  moreover have "unat (ucast (drop_bit 8 ?n) :: u8) = length bs div 256"
  proof -
    have "unat (drop_bit 8 ?n) = drop_bit 8 (take_bit 16 (unat ?n))" unfolding unsigned_drop_bit_eq by simp
    also have "\<dots> = length bs div 256" unfolding n using assms by (simp add: take_bit_nat_eq_self drop_bit_eq_div)
    finally have "unat (drop_bit 8 ?n) = length bs div 256" .
    then show ?thesis using assms by (simp add: unsigned_ucast_eq take_bit_eq_mod)
  qed
  ultimately show ?thesis by (simp add: stored_data_def Let_def)
qed

lemma stored_block_ok:
  assumes "feeds b off (padding off @ concat (map byte_bits (stored_data bs)) @ ys)" "length bs < 65536" "length out + length bs \<le> omax"
  shows "\<exists>b'. stored_block b omax out = Some (b', out @ bs) \<and> feeds b' (off + length (padding off) + 8 * length (stored_data bs)) ys"
proof -
  have "stored_data bs \<noteq> []" by (simp add: stored_data_def Let_def)
  note F = feeds_bytes [OF assms(1) length_padding [OF assms(1)] this]
  let ?p = "b_pos b"
  have at: "b_src b ! (?p + i) = stored_data bs ! i" if "i < length bs + 4" for i
  proof -
    have "b_src b ! (?p + i) = take (length (stored_data bs)) (drop ?p (b_src b)) ! i" using that F(1) by simp
    then show ?thesis using F(2) by simp
  qed
  have len: "unat (b_src b ! ?p) + 256 * unat (b_src b ! (?p + 1)) = length bs" using stored_len [OF assms(2)] at [of 0] at [of 1] by simp
  have data: "take (length bs) (drop (?p + 4) (b_src b)) = bs"
  proof -
    have "drop 4 (stored_data bs) = bs" by (simp add: stored_data_def Let_def)
    then have "drop 4 (take (length bs + 4) (drop ?p (b_src b))) = bs" using F(2) by simp
    then show ?thesis by (simp add: drop_take add.commute)
  qed
  have "min (length bs) (omax - length out) = length bs" using assms(3) by simp
  then have "stored_block b omax out = Some (b\<lparr>b_buf := 0, b_cnt := 0, b_pos := ?p + length (stored_data bs)\<rparr>, out @ bs)"
    using F(1) data by (simp add: stored_block_def Let_def len [unfolded One_nat_def add_Suc_right add_0_right] stored_bytes_def)
  then show ?thesis using F(3) by blast
qed

lemma count_list_replicate: "count_list (replicate n x) y = (if x = y then n else 0)"
  by (induction n) auto

lemma fixed_codes: "codes_ok fixed_lit_lens" "codes_ok fixed_dist_lens"
  by (simp_all add: codes_ok_def kraft_def fixed_lit_lens_def fixed_dist_lens_def count_list_replicate atLeastLessThan_nat_numeral)

lemma deflate_step:
  assumes "block_ok k out" "feeds b off ((fin # enc_block (off + 1) k) @ ys)" "length (expand_block k out) \<le> omax"
  shows "\<exists>b'. deflate_loop b omax out = (if fin then Some (Some (expand_block k out)) else deflate_loop b' omax (expand_block k out)) \<and>
    feeds b' (off + length (fin # enc_block (off + 1) k)) ys"
proof -
  have b1: "\<exists>b'. bits_read 1 b = (of_bool fin, b') \<and> feeds b' (off + 1) (enc_block (off + 1) k @ ys)"
    using bits_read_feeds [of b off "[fin]" "enc_block (off + 1) k @ ys" 1] assms(2) by simp
  show ?thesis
  proof (cases k)
    case (Stored bs)
    obtain b2 where b2: "bits_read 1 b = (of_bool fin, b2)"
      "feeds b2 (off + 1) (nat_bits 2 0 @ padding (off + 1 + 2) @ concat (map byte_bits (stored_data bs)) @ ys)" using b1 Stored by auto
    obtain b3 where b3: "bits_read 2 b2 = (0, b3)" "feeds b3 (off + 1 + 2) (padding (off + 1 + 2) @ concat (map byte_bits (stored_data bs)) @ ys)"
      using bits_read_nat [OF b2(2)] by auto
    obtain b4 where b4: "stored_block b3 omax out = Some (b4, out @ bs)"
      "feeds b4 (off + 1 + 2 + length (padding (off + 1 + 2)) + 8 * length (stored_data bs)) ys"
      using stored_block_ok [OF b3(2)] assms(1,3) Stored by auto
    have "deflate_loop b omax out = (if fin then Some (Some (out @ bs)) else deflate_loop b4 omax (out @ bs))"
      by (subst deflate_loop.simps) (simp add: b2(1) [unfolded One_nat_def] b3(1) b4(1))
    then show ?thesis using b4(2) Stored by (auto simp: length_bytes_bits ac_simps)
  next
    case (Fixed ts)
    obtain b2 where b2: "bits_read 1 b = (of_bool fin, b2)"
      "feeds b2 (off + 1) (nat_bits 2 1 @ enc_tokens fixed_lit_lens fixed_dist_lens ts @ ys)" using b1 Fixed by auto
    obtain b3 where b3: "bits_read 2 b2 = (1, b3)" "feeds b3 (off + 1 + 2) (enc_tokens fixed_lit_lens fixed_dist_lens ts @ ys)"
      using bits_read_nat [OF b2(2)] by auto
    obtain b4 where b4: "decode_block b3 fixed_lit fixed_dist omax out = Some (Some (b4, expand_tokens ts out))"
      "feeds b4 (off + 1 + 2 + length (enc_tokens fixed_lit_lens fixed_dist_lens ts)) ys"
      using decode_block_ok [OF fixed_codes _ b3(2)] assms(1,3) Fixed by (auto simp: fixed_lit_def fixed_dist_def)
    have "deflate_loop b omax out = (if fin then Some (Some (expand_tokens ts out)) else deflate_loop b4 omax (expand_tokens ts out))"
      by (subst deflate_loop.simps) (simp add: b2(1) [unfolded One_nat_def] b3(1) [unfolded One_nat_def] b4(1))
    then show ?thesis using b4(2) Fixed by (auto simp: ac_simps)
  next
    case (Dynamic hlit hdist hclen cl items ts)
    let ?lit = "take hlit (lens_of items)" and ?dist = "drop hlit (lens_of items)"
    obtain b2 where b2: "bits_read 1 b = (of_bool fin, b2)"
      "feeds b2 (off + 1) (nat_bits 2 2 @ nat_bits 5 (hlit - 257) @ nat_bits 5 (hdist - 1) @ nat_bits 4 (hclen - 4) @
         concat (map (\<lambda>k. nat_bits 3 (cl ! k)) (take hclen cl_order)) @ concat (map (enc_item cl) items) @ enc_tokens ?lit ?dist ts @ ys)"
      using b1 Dynamic by auto
    obtain b3 where b3: "bits_read 2 b2 = (2, b3)" "feeds b3 (off + 1 + 2) (nat_bits 5 (hlit - 257) @ nat_bits 5 (hdist - 1) @ nat_bits 4 (hclen - 4) @
         concat (map (\<lambda>k. nat_bits 3 (cl ! k)) (take hclen cl_order)) @ concat (map (enc_item cl) items) @ enc_tokens ?lit ?dist ts @ ys)"
      using bits_read_nat [OF b2(2)] by auto
    note ok = assms(1) [unfolded Dynamic]
    obtain b4 where b4: "dynamic_trees b3 = Some (ht_build ?lit, ht_build ?dist, b4)"
      and f4: "feeds b4 (off + 1 + 2 + 14 + 3 * hclen + length (concat (map (enc_item cl) items))) (enc_tokens ?lit ?dist ts @ ys)"
      using dynamic_trees_ok [OF ok b3(2)] by blast
    have co: "codes_ok ?lit" "codes_ok ?dist" "tokens_ok ?lit ?dist ts out" "hclen \<le> 19" using ok by (auto simp: codes_ok_def)
    have le: "length (expand_tokens ts out) \<le> omax" using assms(3) Dynamic by simp
    obtain b5 where b5: "decode_block b4 (ht_build ?lit) (ht_build ?dist) omax out = Some (Some (b5, expand_tokens ts out))"
      "feeds b5 (off + 1 + 2 + 14 + 3 * hclen + length (concat (map (enc_item cl) items)) + length (enc_tokens ?lit ?dist ts)) ys"
      using decode_block_ok [OF co(1-3) f4 le] by blast
    have l3: "length (concat (map (\<lambda>k. nat_bits 3 (cl ! k)) ks)) = 3 * length ks" for ks by (induction ks) auto
    have len: "length (enc_block (off + 1) k) = 16 + 3 * hclen + length (concat (map (enc_item cl) items)) + length (enc_tokens ?lit ?dist ts)"
      using co(4) by (simp only: Dynamic enc_block.simps length_append length_nat_bits l3) (simp add: cl_order_def)
    have "deflate_loop b omax out = (if fin then Some (Some (expand_tokens ts out)) else deflate_loop b5 omax (expand_tokens ts out))"
      by (subst deflate_loop.simps) (simp add: b2(1) [unfolded One_nat_def] b3(1) b4 b5(1))
    moreover have "feeds b5 (off + length (fin # enc_block (off + 1) k)) ys" using b5(2) unfolding list.size len by (simp add: ac_simps)
    ultimately show ?thesis using Dynamic by auto
  qed
qed

definition expand_blocks :: "block list \<Rightarrow> u8 list" where
  "expand_blocks ks = fold expand_block ks []"

lemma length_expand_block: "length out \<le> length (expand_block k out)"
  using length_expand_tokens by (cases k) auto

lemma length_fold_block: "length out \<le> length (fold expand_block ks out)"
proof (induction ks arbitrary: out)
  case (Cons k ks)
  from Cons [of "expand_block k out"] length_expand_block [of out k] show ?case by simp
qed simp

lemma deflate_loop_ok:
  assumes "blocks_ok ks out" "ks \<noteq> []" "feeds b off (enc_blocks off ks @ ys)" "length (fold expand_block ks out) \<le> omax"
  shows "deflate_loop b omax out = Some (Some (fold expand_block ks out))"
  using assms
proof (induction ks arbitrary: b off out)
  case (Cons k ks)
  let ?e = "(ks = []) # enc_block (off + 1) k"
  have f: "feeds b off (?e @ (enc_blocks (off + length ?e) ks @ ys))" using Cons.prems(3) by (simp add: Let_def)
  have ok: "block_ok k out" "blocks_ok ks (expand_block k out)" using Cons.prems(1) by simp_all
  have "length (expand_block k out) \<le> omax" using length_fold_block [of "expand_block k out" ks] Cons.prems(4) by simp
  from deflate_step [OF ok(1) f this] obtain b' where
    b': "deflate_loop b omax out = (if ks = [] then Some (Some (expand_block k out)) else deflate_loop b' omax (expand_block k out))"
      "feeds b' (off + length ?e) (enc_blocks (off + length ?e) ks @ ys)" by blast
  show ?case using Cons.IH [OF ok(2) _ b'(2)] b'(1) Cons.prems(4) by (cases "ks = []") auto
qed simp

section \<open>Packing\<close>

lemma length_pack: "length (pack xs) = (length xs + 7) div 8"
proof (induction xs rule: pack.induct)
  case (2 x xs)
  then show ?case by (cases "length xs < 7") simp_all
qed simp

lemma bit_horner: "bit (horner_sum of_bool (2 :: nat) xs) i \<longleftrightarrow> i < length xs \<and> xs ! i"
  by (simp add: bit_horner_sum_bit_iff)

lemma bit_of_nat_u8: "bit (of_nat n :: u8) i \<longleftrightarrow> i < 8 \<and> bit n i"
  by (auto simp: bit_of_nat_iff possible_bit_def)

lemma pack_nth: "i < length xs \<Longrightarrow> bit (pack xs ! (i div 8)) (i mod 8) = xs ! i"
proof (induction xs arbitrary: i rule: pack.induct)
  case (2 x xs)
  show ?case
  proof (cases "i < 8")
    case True
    then have "pack (x # xs) ! (i div 8) = of_nat (bits_nat (take 8 (x # xs)))" "i mod 8 = i" by simp_all
    then show ?thesis using 2(2) True by (simp only: bit_of_nat_u8 bit_horner length_take nth_take) auto
  next
    case False
    then obtain j where j: "i = 8 + j" by (metis le_Suc_ex not_less)
    have "(8 + j) div 8 = Suc (j div 8)" by simp
    then have "pack (x # xs) ! (i div 8) = pack (drop 7 xs) ! (j div 8)" unfolding j by (simp only: pack.simps nth_Cons_Suc)
    moreover have "drop 7 xs ! j = (x # xs) ! i" using 2(2) by (simp add: j)
    ultimately show ?thesis using 2(1) [of j] 2(2) by (simp add: j)
  qed
qed simp

lemma feeds_pack: "feeds (bits_init (pack xs @ rest)) 0 xs"
  unfolding feeds_def
proof (intro conjI allI impI)
  fix i assume i: "i < length xs"
  then have "i div 8 < length (pack xs)" by (simp add: length_pack)
  then show "bit_at (bits_init (pack xs @ rest)) i = xs ! i" using pack_nth [OF i] by (simp add: bit_at_def bits_init_def nth_append)
next
  show "length xs \<le> avail (bits_init (pack xs @ rest))" by (simp add: avail_def bits_init_def length_pack)
qed (simp_all add: bits_init_def bits_ok_def bits_clean_def)

section \<open>Round trip\<close>

lemma deflate_stream:
  assumes "blocks_ok ks []" "ks \<noteq> []" "length (expand_blocks ks) \<le> omax"
  shows "deflate_decompress (pack (enc_blocks 0 ks) @ rest) omax = Some (Some (expand_blocks ks))"
  using deflate_loop_ok [OF assms(1,2), of "bits_init (pack (enc_blocks 0 ks) @ rest)" 0 "[]" omax] feeds_pack assms(3)
  by (simp add: deflate_decompress_def expand_blocks_def)

text \<open>C13. Whatever the mixture of stored, fixed and dynamic blocks an encoder chooses, and whatever its literals,
  copies and code lengths, as long as the codes are not over-subscribed and the data fits the buffer, the
  decompressor ends and returns the data the blocks denote.
\<close>
theorem deflate_roundtrip:
  assumes "blocks_ok ks []" "ks \<noteq> []" "length (expand_blocks ks) \<le> omax"
  shows "deflate_decompress (pack (enc_blocks 0 ks) @ rest) omax = Some (Some (expand_blocks ks))"
  by (rule deflate_stream [OF assms])

theorem deflate_roundtrip_witness:
  "deflate_decompress (pack (enc_blocks 0 [Stored [1, 2], Fixed [Literal 97, Copy 0 0 2 0]]) @ [7]) 100 = Some (Some [1, 2, 97, 1, 2, 97])"
proof -
  let ?ks = "[Stored [1, 2], Fixed [Literal 97, Copy 0 0 2 0]]"
  have "blocks_ok ?ks []"
    by (simp add: has_code_def fixed_lit_lens_def fixed_dist_lens_def nth_append len_extra_def dist_extra_def dist_base_def)
  moreover have ex: "expand_blocks ?ks = [1, 2, 97, 1, 2, 97]"
    by (simp add: expand_blocks_def expand_tokens_def len_base_def dist_base_def numeral_3_eq_3)
  ultimately show ?thesis using deflate_roundtrip [of ?ks 100 "[7]"] by simp
qed

text \<open>Every length from 3 to 258 and every distance up to 32768 has a symbol and extra bits.\<close>

lemma intervals_cover:
  fixes base extra :: "nat list"
  assumes "\<forall>i < n. base ! Suc i \<le> base ! i + 2 ^ (extra ! i)" "base ! 0 \<le> v" "v < base ! n + 2 ^ (extra ! n)"
  shows "\<exists>i \<le> n. \<exists>x < 2 ^ (extra ! i). v = base ! i + x"
  using assms
proof (induction n)
  case 0
  then show ?case by (metis le_add_diff_inverse le_refl less_diff_conv2 add.commute)
next
  case (Suc n)
  show ?case
  proof (cases "base ! Suc n \<le> v")
    case True
    then obtain x where "v = base ! Suc n + x" by (metis le_Suc_ex)
    then show ?thesis using Suc.prems(3) by auto
  next
    case False
    moreover have "base ! Suc n \<le> base ! n + 2 ^ (extra ! n)" using Suc.prems(1) by simp
    ultimately have "v < base ! n + 2 ^ (extra ! n)" by simp
    then show ?thesis using Suc.IH Suc.prems(1,2) by (metis le_SucI less_SucI)
  qed
qed

lemma steps_nth:
  fixes base extra :: "nat list"
  assumes "list_all (\<lambda>((a, e), b). b \<le> a + 2 ^ e) (zip (zip base extra) (tl base))" "length base = Suc n" "length extra = Suc n"
  shows "\<forall>i < n. base ! Suc i \<le> base ! i + 2 ^ (extra ! i)"
  using assms by (auto simp: list_all_length nth_tl)

lemma lengths_covered: "3 \<le> v \<Longrightarrow> v \<le> 258 \<Longrightarrow> \<exists>li \<le> 28. \<exists>x < 2 ^ (len_extra ! li). v = len_base ! li + x"
  by (rule intervals_cover [OF steps_nth]) (simp_all add: len_base_def len_extra_def)

lemma distances_covered: "1 \<le> v \<Longrightarrow> v \<le> 32768 \<Longrightarrow> \<exists>di \<le> 29. \<exists>y < 2 ^ (dist_extra ! di). v = dist_base ! di + y"
  by (rule intervals_cover [OF steps_nth]) (simp_all add: dist_base_def dist_extra_def)

section \<open>The output buffer\<close>

lemma copy_back_bound: "copy_back n d omax out = Some out' \<Longrightarrow> length out \<le> omax \<Longrightarrow> length out' \<le> omax"
  by (induction n d omax out rule: copy_back.induct) (auto split: if_splits)

definition out_bound :: "nat \<Rightarrow> (bits \<times> u8 list) option \<Rightarrow> bool" where
  "out_bound omax r \<longleftrightarrow> (\<forall>b out. r = Some (b, out) \<longrightarrow> length out \<le> omax)"

lemma decode_block_bound:
  assumes "decode_block b lt dt omax out = Some r"
  shows "length out \<le> omax \<longrightarrow> out_bound omax r"
proof (rule decode_block.raw_induct [where P = "\<lambda>b lt dt omax out r. length out \<le> omax \<longrightarrow> out_bound omax r", OF _ assms], intro impI)
  fix f b lt dt omax out r
  assume IH: "\<And>b lt dt omax out r. f b lt dt omax out = Some r \<Longrightarrow> length out \<le> omax \<longrightarrow> out_bound omax r"
    and eq: "(case ht_decode lt b of
        (smb, b) \<Rightarrow>
          if smb < 0 \<or> smb > 285 then Some None
          else if smb < 256 then f b lt dt omax (if length out < omax then out @ [of_int smb] else out)
          else if smb = 256 then Some (Some (b, out))
          else
            (let li = nat (smb - 257) in
             case bits_read (len_extra ! li) b of
               (x, b) \<Rightarrow>
                 (case ht_decode dt b of
                    (di, b) \<Rightarrow>
                      if di < 0 \<or> di > 29 then Some None
                      else
                        (case bits_read (dist_extra ! nat di) b of
                           (y, b) \<Rightarrow>
                             Option.bind (copy_back (len_base ! li + x) (dist_base ! nat di + y) omax out) (f b lt dt omax))))) = Some r"
    and out: "length out \<le> omax"
  have lit: "length (if length out < omax then out @ [c] else out) \<le> omax" for c using out by simp
  show "out_bound omax r"
    using eq out
    by (auto simp: Let_def bind_eq_Some_conv out_bound_def split: prod.splits if_splits dest!: IH copy_back_bound)
qed

lemma stored_block_bound: "length out \<le> omax \<Longrightarrow> out_bound omax (stored_block b omax out)"
  by (auto simp: out_bound_def stored_block_def stored_bytes_def Let_def split: if_splits)

lemma deflate_loop_bound:
  assumes "deflate_loop b omax out = Some r"
  shows "length out \<le> omax \<longrightarrow> (\<forall>out'. r = Some out' \<longrightarrow> length out' \<le> omax)"
proof (rule deflate_loop.raw_induct [where P = "\<lambda>b omax out r. length out \<le> omax \<longrightarrow> (\<forall>out'. r = Some out' \<longrightarrow> length out' \<le> omax)", OF _ assms],
    intro impI)
  fix f b omax out r
  assume IH: "\<And>b omax out r. f b omax out = Some r \<Longrightarrow> length out \<le> omax \<longrightarrow> (\<forall>out'. r = Some out' \<longrightarrow> length out' \<le> omax)"
    and eq: "(case bits_read 1 b of (bfinal, b) \<Rightarrow>
      case bits_read 2 b of (btype, b) \<Rightarrow>
        Option.bind (if btype = 0 then Some (stored_block b omax out)
                   else if btype = 1 then decode_block b fixed_lit fixed_dist omax out
                   else if btype = 2 then
                     (case dynamic_trees b of None \<Rightarrow> Some None | Some (lt, dt, b) \<Rightarrow> decode_block b lt dt omax out)
                   else Some None)
          (\<lambda>r. case r of None \<Rightarrow> Some None | Some (b, out) \<Rightarrow> if bfinal = 0 then f b omax out else Some (Some out))) = Some r"
    and out: "length out \<le> omax"
  obtain x b1 y b2 where rd: "bits_read 1 b = (x, b1)" "bits_read 2 b1 = (y, b2)" by (metis surj_pair)
  obtain q where q: "(if y = 0 then Some (stored_block b2 omax out)
                   else if y = 1 then decode_block b2 fixed_lit fixed_dist omax out
                   else if y = 2 then
                     (case dynamic_trees b2 of None \<Rightarrow> Some None | Some (lt, dt, b) \<Rightarrow> decode_block b lt dt omax out)
                   else Some None) = Some q"
      "(case q of None \<Rightarrow> Some None | Some (b, out) \<Rightarrow> if x = 0 then f b omax out else Some (Some out)) = Some r"
    using eq unfolding rd prod.case bind_eq_Some_conv by blast
  have "out_bound omax q"
    using q(1) out decode_block_bound stored_block_bound [OF out]
    by (auto simp: out_bound_def [of omax None] split: if_splits option.splits)
  then show "\<forall>out'. r = Some out' \<longrightarrow> length out' \<le> omax"
    using q(2) by (auto simp: out_bound_def split: option.splits if_splits dest!: IH)
qed

text \<open>The decompressor never writes past the end of the output buffer.\<close>
theorem deflate_bounded:
  assumes "deflate_decompress src omax = Some (Some out)"
  shows "length out \<le> omax"
  using deflate_loop_bound assms unfolding deflate_decompress_def by fastforce

section \<open>Truncated input\<close>

text \<open>A reader at the end of its input delivers zeros for ever.\<close>

definition exhausted :: "bits \<Rightarrow> bool" where
  "exhausted b \<longleftrightarrow> length (b_src b) \<le> b_pos b \<and> b_buf b = 0"

lemma bits_fill_exhausted: "exhausted b \<Longrightarrow> exhausted (bits_fill n b)"
proof (induction n b rule: bits_fill.induct)
  case (1 n b)
  show ?case
  proof (cases "b_cnt b < n")
    case True
    have nb: "next_byte b = (0, b)" using "1.prems" by (simp add: next_byte_def exhausted_def)
    let ?b = "b\<lparr>b_buf := b_buf b OR push_bit (b_cnt b) (ucast (0 :: u8)), b_cnt := b_cnt b + 8\<rparr>"
    have "bits_fill n b = bits_fill n ?b" using True nb by (subst bits_fill.simps) (simp only: if_True prod.case)
    moreover have "exhausted ?b" using "1.prems" by (simp add: exhausted_def)
    ultimately show ?thesis using "1.IH" [OF True nb [symmetric]] by (simp only:)
  next
    case False
    then show ?thesis using "1.prems" by (subst bits_fill.simps) simp
  qed
qed

lemma bits_read_exhausted: "exhausted b \<Longrightarrow> \<exists>b'. bits_read n b = (0, b') \<and> exhausted b'"
  using bits_fill_exhausted [of b n] by (auto simp: bits_read_def Let_def exhausted_def)

text \<open>
  A block whose code for a literal is the single bit 0 never ends when the input stops before its end mark: the
  decoder keeps reading zeros.
\<close>

lemma decode_block_hangs:
  assumes "exhausted b" "child lt 0 False = HT_LEAF c" "c < 256"
  shows "decode_block b lt dt omax out = None"
proof (rule ccontr)
  assume "decode_block b lt dt omax out \<noteq> None"
  then obtain r where r: "decode_block b lt dt omax out = Some r" by blast
  have "\<not> (exhausted b \<and> child lt 0 False = HT_LEAF c)"
  proof (rule decode_block.raw_induct [where P = "\<lambda>b lt dt omax out r. \<not> (exhausted b \<and> child lt 0 False = HT_LEAF c)", OF _ r], rule notI)
    fix f b lt dt omax out r
    assume IH: "\<And>b lt dt omax out r. f b lt dt omax out = Some r \<Longrightarrow> \<not> (exhausted b \<and> child lt 0 False = HT_LEAF c)"
      and eq: "(case ht_decode lt b of
        (smb, b) \<Rightarrow>
          if smb < 0 \<or> smb > 285 then Some None
          else if smb < 256 then f b lt dt omax (if length out < omax then out @ [of_int smb] else out)
          else if smb = 256 then Some (Some (b, out))
          else
            (let li = nat (smb - 257) in
             case bits_read (len_extra ! li) b of
               (x, b) \<Rightarrow>
                 (case ht_decode dt b of
                    (di, b) \<Rightarrow>
                      if di < 0 \<or> di > 29 then Some None
                      else
                        (case bits_read (dist_extra ! nat di) b of
                           (y, b) \<Rightarrow>
                             Option.bind (copy_back (len_base ! li + x) (dist_base ! nat di + y) omax out) (f b lt dt omax))))) = Some (r :: (bits \<times> u8 list) option)"
      and ex: "exhausted b \<and> child lt 0 False = HT_LEAF c"
    obtain b' where b': "bits_read 1 b = (0, b')" "exhausted b'" using bits_read_exhausted [of b 1] ex by blast
    have "ht_decode lt b = (int c, b')"
      using b'(1) ex by (simp add: ht_decode_def numeral_eq_Suc Let_def HT_LEAF_def HT_EMPTY_def HT_SYM_def)
    then show False using eq IH b'(2) ex assms(3) by auto
  qed
  then show False using assms by blast
qed

end
