(* ===== verification/Image.thy ===== *)
theory Image
  imports Deflate Cstring
begin

text \<open>
  The image loaders of \<^verbatim>\<open>src/image.c\<close>: BMP, TGA and PNG files into the pixel buffer, the choice by magic
  bytes and extension, and the pool of buffers.  A file is the list of its bytes; positions computed from numbers in
  the file are \<open>u32\<close> as in the code, those of the TGA loader are natural numbers, which is exact for files below 2 GB.
  \<open>None\<close> is a read outside the file, a copy past a buffer, an overflow of a signed number or a loop that does not end.
\<close>

section \<open>Definitions\<close>

subsection \<open>State\<close>

definition IMG_MAX_W :: int where "IMG_MAX_W = 2048"
definition IMG_MAX_H :: int where "IMG_MAX_H = 2048"
definition IMG_SLOT_SIZE :: int where "IMG_SLOT_SIZE = 512 * 512"
definition IMG_SLOTS :: nat where "IMG_SLOTS = 4"

datatype pixel_buf = Big | Slot nat

record image =
  width :: int
  height :: int
  pixels :: pixel_buf
  valid :: bool

record image_state =
  img_pixels :: "nat \<Rightarrow> u32"
  img_pool :: "nat \<Rightarrow> nat \<Rightarrow> u32"
  img_next_slot :: nat

definition img_alloc_pixels :: "image_state \<Rightarrow> nat \<times> image_state" where
  "img_alloc_pixels s = (img_next_slot s, s\<lparr>img_next_slot := (img_next_slot s + 1) mod IMG_SLOTS\<rparr>)"

definition loaded :: "int \<Rightarrow> int \<Rightarrow> image \<Rightarrow> image" where
  "loaded w h img = img\<lparr>width := w, height := h, pixels := Big, valid := True\<rparr>"

subsection \<open>Reading numbers\<close>

definition byte :: "u8 list \<Rightarrow> nat \<Rightarrow> u8 option" where
  "byte d i = (if i < length d then Some (d ! i) else None)"

definition rd16le :: "u8 list \<Rightarrow> nat \<Rightarrow> u16 option" where
  "rd16le d i = do { a \<leftarrow> byte d i; b \<leftarrow> byte d (i + 1); Some (ucast a OR push_bit 8 (ucast b)) }"

definition rd32le :: "u8 list \<Rightarrow> nat \<Rightarrow> u32 option" where
  "rd32le d i = do { a \<leftarrow> byte d i; b \<leftarrow> byte d (i + 1); c \<leftarrow> byte d (i + 2); e \<leftarrow> byte d (i + 3);
     Some (ucast a OR push_bit 8 (ucast b) OR push_bit 16 (ucast c) OR push_bit 24 (ucast e)) }"

definition rd32be :: "u8 list \<Rightarrow> nat \<Rightarrow> u32 option" where
  "rd32be d i = do { a \<leftarrow> byte d i; b \<leftarrow> byte d (i + 1); c \<leftarrow> byte d (i + 2); e \<leftarrow> byte d (i + 3);
     Some (push_bit 24 (ucast a) OR push_bit 16 (ucast b) OR push_bit 8 (ucast c) OR ucast e) }"

definition rgb :: "u8 \<Rightarrow> u8 \<Rightarrow> u8 \<Rightarrow> u32" where
  "rgb r g b = push_bit 16 (ucast r) OR push_bit 8 (ucast g) OR ucast b"

text \<open>Three bytes, blue first.\<close>

definition bgr :: "u8 list \<Rightarrow> nat \<Rightarrow> u32 option" where
  "bgr d i = do { r \<leftarrow> byte d (i + 2); g \<leftarrow> byte d (i + 1); b \<leftarrow> byte d i; Some (rgb r g b) }"

definition ends_with :: "string \<Rightarrow> string \<Rightarrow> bool" where
  "ends_with s suf \<longleftrightarrow> length suf \<le> length s \<and> map tolower (drop (length s - length suf) s) = map tolower suf"

definition image_is_image :: "string \<Rightarrow> bool" where
  "image_is_image name \<longleftrightarrow> ends_with name ''.bmp'' \<or> ends_with name ''.tga'' \<or> ends_with name ''.png'' \<or> ends_with name ''.ppm''"

subsection \<open>BMP\<close>

text \<open>\<open>n\<close> pixels from the byte at \<open>p\<close>, to the buffer from \<open>i\<close>.\<close>

fun bmp_row :: "u8 list \<Rightarrow> nat \<Rightarrow> u32 \<Rightarrow> nat \<Rightarrow> nat \<Rightarrow> (nat \<Rightarrow> u32) \<Rightarrow> (nat \<Rightarrow> u32) option" where
  "bmp_row d bypp p i 0 px = Some px"
| "bmp_row d bypp p i (Suc n) px =
     do { r \<leftarrow> byte d (unat (p + 2)); g \<leftarrow> byte d (unat (p + 1)); b \<leftarrow> byte d (unat p);
          bmp_row d bypp (p + of_nat bypp) (i + 1) n (px(i := rgb r g b)) }"

fun bmp_rows :: "u8 list \<Rightarrow> nat \<Rightarrow> u32 \<Rightarrow> bool \<Rightarrow> nat \<Rightarrow> nat \<Rightarrow> nat list \<Rightarrow> (nat \<Rightarrow> u32) \<Rightarrow> (nat \<Rightarrow> u32) option" where
  "bmp_rows d bypp offset flip w h [] px = Some px"
| "bmp_rows d bypp offset flip w h (y # ys) px =
     (let row_bytes = (w * bypp + 3) div 4 * 4;
          src_y = (if flip then h - 1 - y else y);
          row = offset + of_nat (src_y * row_bytes)
      in if row + of_nat (w * bypp) > of_nat (length d) then Some px
         else do { px \<leftarrow> bmp_row d bypp row (y * w) w px; bmp_rows d bypp offset flip w h ys px })"

definition image_load_bmp :: "u8 list \<Rightarrow> image \<Rightarrow> image_state \<Rightarrow> (bool \<times> image \<times> image_state) option" where
  "image_load_bmp d img s =
     (if length d < 54 \<or> d ! 0 \<noteq> 66 \<or> d ! 1 \<noteq> 77 then Some (False, img, s)
      else do {
        offset \<leftarrow> rd32le d 10;
        w \<leftarrow> map_option sint (rd32le d 18);
        h \<leftarrow> map_option sint (rd32le d 22);
        bpp \<leftarrow> rd16le d 28;
        cmp \<leftarrow> rd32le d 30;
        if cmp \<noteq> 0 \<and> cmp \<noteq> 3 then Some (False, img, s)
        else if bpp \<noteq> 24 \<and> bpp \<noteq> 32 then Some (False, img, s)
        else if h = - (2 ^ 31) then None
        else
          let flip = h > 0; h = \<bar>h\<bar> in
          if w \<le> 0 \<or> w > IMG_MAX_W \<or> h > IMG_MAX_H then Some (False, img, s)
          else do {
            px \<leftarrow> bmp_rows d (unat bpp div 8) offset flip (nat w) (nat h) [0..<nat h] (img_pixels s);
            Some (True, loaded w h img, s\<lparr>img_pixels := px\<rparr>) } })"

subsection \<open>TGA\<close>

text \<open>Uncompressed pixels: the loop over \<open>x\<close> within the loop over \<open>y\<close>, as one list of coordinates.\<close>

fun tga_plain :: "u8 list \<Rightarrow> nat \<Rightarrow> nat \<Rightarrow> nat \<Rightarrow> bool \<Rightarrow> nat \<Rightarrow> nat \<Rightarrow> (nat \<times> nat) list \<Rightarrow> (nat \<Rightarrow> u32) \<Rightarrow> (nat \<Rightarrow> u32) option" where
  "tga_plain d src src_left bypp up w h [] px = Some px"
| "tga_plain d src src_left bypp up w h ((y, x) # cs) px =
     (let dy = (if up then y else h - 1 - y); off = (dy * w + x) * bypp in
      if off + bypp > src_left then Some px
      else do { c \<leftarrow> bgr d (src + off); tga_plain d src src_left bypp up w h cs (px(y * w + x := c)) })"

definition tga_put :: "bool \<Rightarrow> nat \<Rightarrow> nat \<Rightarrow> nat \<Rightarrow> u32 \<Rightarrow> (nat \<Rightarrow> u32) \<Rightarrow> (nat \<Rightarrow> u32)" where
  "tga_put up w h p col px = (let y = (if up then p div w else h - 1 - p div w) in px(y * w + p mod w := col))"

text \<open>A run: \<open>n\<close> times the same colour.\<close>

fun tga_run :: "bool \<Rightarrow> nat \<Rightarrow> nat \<Rightarrow> u32 \<Rightarrow> nat \<Rightarrow> nat \<Rightarrow> (nat \<Rightarrow> u32) \<Rightarrow> nat \<times> (nat \<Rightarrow> u32)" where
  "tga_run up w h col 0 p px = (p, px)"
| "tga_run up w h col (Suc n) p px = (if p < w * h then tga_run up w h col n (p + 1) (tga_put up w h p col px) else (p, px))"

fun tga_raw :: "u8 list \<Rightarrow> nat \<Rightarrow> nat \<Rightarrow> nat \<Rightarrow> bool \<Rightarrow> nat \<Rightarrow> nat \<Rightarrow> nat \<Rightarrow> nat \<Rightarrow> nat \<Rightarrow> (nat \<Rightarrow> u32) \<Rightarrow> (nat \<times> nat \<times> (nat \<Rightarrow> u32)) option" where
  "tga_raw d src src_left bypp up w h 0 p si px = Some (p, si, px)"
| "tga_raw d src src_left bypp up w h (Suc n) p si px =
     (if p < w * h then
        if si + bypp > src_left then Some (p, si, px)
        else do { c \<leftarrow> bgr d (src + si); tga_raw d src src_left bypp up w h n (p + 1) (si + bypp) (tga_put up w h p c px) }
      else Some (p, si, px))"

lemma tga_raw_pos: "tga_raw d src src_left bypp up w h n p si px = Some (p', si', px') \<Longrightarrow> si \<le> si'"
  by (induction n arbitrary: p si px) (fastforce split: if_splits bind_splits)+

function tga_rle :: "u8 list \<Rightarrow> nat \<Rightarrow> nat \<Rightarrow> nat \<Rightarrow> bool \<Rightarrow> nat \<Rightarrow> nat \<Rightarrow> nat \<Rightarrow> nat \<Rightarrow> (nat \<Rightarrow> u32) \<Rightarrow> (nat \<Rightarrow> u32) option" where
  "tga_rle d src src_left bypp up w h p si px =
     (if p < w * h \<and> si < src_left then
        case byte d (src + si) of
          None \<Rightarrow> None
        | Some hdr \<Rightarrow>
            let si = si + 1; count = unat (hdr AND 0x7F) + 1 in
            if hdr AND 0x80 \<noteq> 0 then
              if si + bypp > src_left then Some px
              else
                (case bgr d (src + si) of
                   None \<Rightarrow> None
                 | Some col \<Rightarrow> (case tga_run up w h col count p px of (p, px) \<Rightarrow> tga_rle d src src_left bypp up w h p (si + bypp) px))
            else
              (case tga_raw d src src_left bypp up w h count p si px of
                 None \<Rightarrow> None
               | Some (p, si, px) \<Rightarrow> tga_rle d src src_left bypp up w h p si px)
      else Some px)"
  by pat_completeness auto
termination by (relation "measure (\<lambda>(d, src, src_left, bypp, up, w, h, p, si, px). src_left - si)") (auto simp del: tga_raw.simps dest!: tga_raw_pos)

declare tga_rle.simps [simp del]

definition image_load_tga :: "u8 list \<Rightarrow> image \<Rightarrow> image_state \<Rightarrow> (bool \<times> image \<times> image_state) option" where
  "image_load_tga d img s =
     (if length d < 18 then Some (False, img, s)
      else
        let id_len = unat (d ! 0); img_type = d ! 2; bpp = d ! 16; top_origin = (d ! 17 AND 0x20 \<noteq> 0) in
        do {
          w \<leftarrow> map_option unat (rd16le d 12);
          h \<leftarrow> map_option unat (rd16le d 14);
          if w = 0 \<or> h = 0 \<or> int w > IMG_MAX_W \<or> int h > IMG_MAX_H then Some (False, img, s)
          else if img_type \<noteq> 2 \<and> img_type \<noteq> 10 then Some (False, img, s)
          else if bpp \<noteq> 24 \<and> bpp \<noteq> 32 then Some (False, img, s)
          else
            let bypp = unat bpp div 8; src = 18 + id_len; src_left = unat (of_nat (length d) - 18 - of_nat id_len :: u32) in
            do {
              px \<leftarrow> (if img_type = 2 then tga_plain d src src_left bypp top_origin w h (List.product [0..<h] [0..<w]) (img_pixels s)
                      else tga_rle d src src_left bypp top_origin w h 0 0 (img_pixels s));
              Some (True, loaded (int w) (int h) img, s\<lparr>img_pixels := px\<rparr>) } })"

subsection \<open>PNG\<close>

definition png_sig :: "u8 list" where "png_sig = [137, 80, 78, 71, 13, 10, 26, 10]"
definition IDAT_MAX :: u32 where "IDAT_MAX = 8 * 1024 * 1024"
definition INFLATE_MAX :: nat where "INFLATE_MAX = 20 * 1024 * 1024"

definition tag_IHDR :: "u8 list" where "tag_IHDR = [73, 72, 68, 82]"
definition tag_PLTE :: "u8 list" where "tag_PLTE = [80, 76, 84, 69]"
definition tag_IDAT :: "u8 list" where "tag_IDAT = [73, 68, 65, 84]"
definition tag_IEND :: "u8 list" where "tag_IEND = [73, 69, 78, 68]"

text \<open>What the chunks have told so far.\<close>

record png =
  p_w :: int
  p_h :: int
  p_ctype :: u8
  p_palette :: "(u8 \<times> u8 \<times> u8) list"
  p_idat :: "u8 list"
  got_ihdr :: bool

definition png0 :: png where
  "png0 = \<lparr>p_w = 0, p_h = 0, p_ctype = 0, p_palette = [], p_idat = [], got_ihdr = False\<rparr>"

definition paeth_predict :: "u8 \<Rightarrow> u8 \<Rightarrow> u8 \<Rightarrow> u8" where
  "paeth_predict a b c =
     (let p = uint a + uint b - uint c; pa = \<bar>p - uint a\<bar>; pb = \<bar>p - uint b\<bar>; pc = \<bar>p - uint c\<bar> in
      if pa \<le> pb \<and> pa \<le> pc then a else if pb \<le> pc then b else c)"

fun read_palette :: "u8 list \<Rightarrow> nat \<Rightarrow> nat \<Rightarrow> (u8 \<times> u8 \<times> u8) list option" where
  "read_palette d pos 0 = Some []"
| "read_palette d pos (Suc n) =
     do { r \<leftarrow> byte d pos; g \<leftarrow> byte d (pos + 1); b \<leftarrow> byte d (pos + 2);
          ps \<leftarrow> read_palette d (pos + 3) n; Some ((r, g, b) # ps) }"

text \<open>The image header; the inner \<open>None\<close> rejects the file.\<close>

definition png_ihdr :: "u8 list \<Rightarrow> nat \<Rightarrow> png \<Rightarrow> png option option" where
  "png_ihdr d c p =
     do { w \<leftarrow> map_option sint (rd32be d c);
          h \<leftarrow> map_option sint (rd32be d (c + 4));
          depth \<leftarrow> byte d (c + 8);
          ctype \<leftarrow> byte d (c + 9);
          interlace \<leftarrow> byte d (c + 12);
          if interlace \<noteq> 0 then Some None
          else if depth \<noteq> 8 then Some None
          else if w \<le> 0 \<or> h \<le> 0 \<or> w > IMG_MAX_W \<or> h > IMG_MAX_H then Some None
          else Some (Some (p\<lparr>p_w := w, p_h := h, p_ctype := ctype, got_ihdr := True\<rparr>)) }"

definition png_idat :: "u8 list \<Rightarrow> nat \<Rightarrow> u32 \<Rightarrow> png \<Rightarrow> png option" where
  "png_idat d c clen p =
     (if of_nat (length (p_idat p)) + clen \<le> IDAT_MAX then
        if c + unat clen \<le> length d \<and> length (p_idat p) + unat clen \<le> unat IDAT_MAX
        then Some (p\<lparr>p_idat := p_idat p @ take (unat clen) (drop c d)\<rparr>) else None
      else Some p)"

partial_function (option) png_chunks :: "u8 list \<Rightarrow> u32 \<Rightarrow> png \<Rightarrow> png option option" where
  "png_chunks d pos p =
     (if pos + 12 \<le> of_nat (length d) then
        do { clen \<leftarrow> rd32be d (unat pos);
             let tag = take 4 (drop (unat (pos + 4)) d);
             let c = unat (pos + 8);
             if pos + 12 + clen > of_nat (length d) then Some (Some p)
             else if tag = tag_IHDR \<and> clen \<ge> 13 then
               do { r \<leftarrow> png_ihdr d c p;
                    case r of None \<Rightarrow> Some None | Some p \<Rightarrow> png_chunks d (pos + 12 + clen) p }
             else if tag = tag_PLTE then
               do { ps \<leftarrow> read_palette d c (min (unat clen div 3) 256);
                    png_chunks d (pos + 12 + clen) (p\<lparr>p_palette := ps\<rparr>) }
             else if tag = tag_IDAT then
               do { p \<leftarrow> png_idat d c clen p; png_chunks d (pos + 12 + clen) p }
             else if tag = tag_IEND then Some (Some p)
             else png_chunks d (pos + 12 + clen) p }
      else Some (Some p))"

definition png_bpp :: "u8 \<Rightarrow> nat option" where
  "png_bpp ctype =
     (if ctype = 0 then Some 1 else if ctype = 2 then Some 3 else if ctype = 3 then Some 1
      else if ctype = 4 then Some 2 else if ctype = 6 then Some 4 else None)"

definition predict :: "u8 \<Rightarrow> u8 \<Rightarrow> u8 \<Rightarrow> u8 \<Rightarrow> u8" where
  "predict flt a b c =
     (if flt = 1 then a else if flt = 2 then b else if flt = 3 then of_nat ((unat a + unat b) div 2)
      else if flt = 4 then paeth_predict a b c else 0)"

text \<open>One row: \<open>cur\<close> is the part reconstructed so far.\<close>

fun unfilter :: "nat \<Rightarrow> u8 \<Rightarrow> u8 list \<Rightarrow> u8 list \<Rightarrow> u8 list \<Rightarrow> u8 list" where
  "unfilter bpp flt prev [] cur = cur"
| "unfilter bpp flt prev (r # raw) cur =
     (let x = length cur;
          a = (if bpp \<le> x then cur ! (x - bpp) else 0);
          b = prev ! x;
          c = (if bpp \<le> x then prev ! (x - bpp) else 0)
      in unfilter bpp flt prev raw (cur @ [r + predict flt a b c]))"

definition png_pixel :: "u8 \<Rightarrow> (u8 \<times> u8 \<times> u8) list \<Rightarrow> u8 list \<Rightarrow> nat \<Rightarrow> u32" where
  "png_pixel ctype pal cur x =
     (if ctype = 0 then rgb (cur ! x) (cur ! x) (cur ! x)
      else if ctype = 2 then rgb (cur ! (x * 3)) (cur ! (x * 3 + 1)) (cur ! (x * 3 + 2))
      else if ctype = 3 then
        (let idx = unat (cur ! x) in if idx < length pal then (case pal ! idx of (r, g, b) \<Rightarrow> rgb r g b) else 0)
      else if ctype = 4 then rgb (cur ! (x * 2)) (cur ! (x * 2)) (cur ! (x * 2))
      else if ctype = 6 then rgb (cur ! (x * 4)) (cur ! (x * 4 + 1)) (cur ! (x * 4 + 2))
      else 0)"

definition png_put_row :: "nat \<Rightarrow> nat \<Rightarrow> u8 \<Rightarrow> (u8 \<times> u8 \<times> u8) list \<Rightarrow> u8 list \<Rightarrow> (nat \<Rightarrow> u32) \<Rightarrow> (nat \<Rightarrow> u32)" where
  "png_put_row w y ctype pal cur px = fold (\<lambda>x px. px(y * w + x := png_pixel ctype pal cur x)) [0..<w] px"

text \<open>The rows from \<open>y\<close> on; \<open>raw\<close> is the rest of the decompressed data.\<close>

fun png_rows :: "nat \<Rightarrow> nat \<Rightarrow> nat \<Rightarrow> nat \<Rightarrow> u8 \<Rightarrow> (u8 \<times> u8 \<times> u8) list \<Rightarrow> u8 list \<Rightarrow> u8 list \<Rightarrow> (nat \<Rightarrow> u32) \<Rightarrow> (nat \<Rightarrow> u32)" where
  "png_rows 0 y w bpp ctype pal prev raw px = px"
| "png_rows (Suc n) y w bpp ctype pal prev raw px =
     (let cur = unfilter bpp (raw ! 0) prev (take (w * bpp) (drop 1 raw)) [] in
      png_rows n (y + 1) w bpp ctype pal cur (drop (1 + w * bpp) raw) (png_put_row w y ctype pal cur px))"

definition image_load_png :: "u8 list \<Rightarrow> image \<Rightarrow> image_state \<Rightarrow> (bool \<times> image \<times> image_state) option" where
  "image_load_png d img s =
     (if length d < 8 \<or> take 8 d \<noteq> png_sig then Some (False, img, s)
      else do {
        r \<leftarrow> png_chunks d 8 png0;
        case r of
          None \<Rightarrow> Some (False, img, s)
        | Some p \<Rightarrow>
            if \<not> got_ihdr p \<or> p_idat p = [] then Some (False, img, s)
            else
              (case png_bpp (p_ctype p) of
                 None \<Rightarrow> Some (False, img, s)
               | Some bpp \<Rightarrow>
                   let w = nat (p_w p); h = nat (p_h p); raw_size = h * (1 + w * bpp) in
                   if raw_size > INFLATE_MAX then Some (False, img, s)
                   else do {
                     r \<leftarrow> zlib_decompress (p_idat p) INFLATE_MAX;
                     case r of
                       None \<Rightarrow> Some (False, img, s)
                     | Some raw \<Rightarrow>
                         if length raw < raw_size then Some (False, img, s)
                         else Some (True, loaded (p_w p) (p_h p) img,
                                s\<lparr>img_pixels := png_rows h 0 w bpp (p_ctype p) (p_palette p) (replicate (w * bpp) 0) raw (img_pixels s)\<rparr>) }) })"

subsection \<open>Loading\<close>

definition image_decode :: "string option \<Rightarrow> u8 list \<Rightarrow> image \<Rightarrow> image_state \<Rightarrow> (bool \<times> image \<times> image_state) option" where
  "image_decode name d =
     (if 8 \<le> length d \<and> take 8 d = png_sig then image_load_png d
      else if 2 \<le> length d \<and> d ! 0 = 66 \<and> d ! 1 = 77 then image_load_bmp d
      else case name of
        None \<Rightarrow> image_load_tga d
      | Some nm \<Rightarrow> if ends_with nm ''.bmp'' then image_load_bmp d
          else if ends_with nm ''.tga'' then image_load_tga d
          else if ends_with nm ''.png'' then image_load_png d
          else image_load_tga d)"

definition copy_pixels :: "nat \<Rightarrow> (nat \<Rightarrow> u32) \<Rightarrow> (nat \<Rightarrow> u32) \<Rightarrow> (nat \<Rightarrow> u32)" where
  "copy_pixels n src dst = (\<lambda>i. if i < n then src i else dst i)"

definition image_load :: "u8 list \<Rightarrow> string option \<Rightarrow> image \<Rightarrow> image_state \<Rightarrow> (bool \<times> image \<times> image_state) option" where
  "image_load d name img s =
     do { (ok, img, s) \<leftarrow> image_decode name d (img\<lparr>valid := False\<rparr>) s;
          if ok \<and> valid img \<and> pixels img = Big then
            let npx = width img * height img in
            if npx \<le> IMG_SLOT_SIZE then
              (case img_alloc_pixels s of
                 (slot, s) \<Rightarrow>
                   Some (ok, img\<lparr>pixels := Slot slot\<rparr>,
                     s\<lparr>img_pool := (img_pool s)(slot := copy_pixels (nat npx) (img_pixels s) (img_pool s slot))\<rparr>))
            else Some (ok, img, s)
          else Some (ok, img, s) }"

section \<open>PNG files\<close>

subsection \<open>Filters\<close>

text \<open>The reference encoder: every byte less its prediction from the row itself and the row above.\<close>

definition around :: "nat \<Rightarrow> u8 \<Rightarrow> u8 list \<Rightarrow> u8 list \<Rightarrow> nat \<Rightarrow> u8" where
  "around bpp flt prev cur x = predict flt (if bpp \<le> x then cur ! (x - bpp) else 0) (prev ! x) (if bpp \<le> x then prev ! (x - bpp) else 0)"

definition filter_row :: "nat \<Rightarrow> u8 \<Rightarrow> u8 list \<Rightarrow> u8 list \<Rightarrow> u8 list" where
  "filter_row bpp flt prev cur = map (\<lambda>x. cur ! x - around bpp flt prev cur x) [0..<length cur]"


lemma length_filter_row [simp]: "length (filter_row bpp flt prev cur) = length cur"
  by (simp add: filter_row_def)







subsection \<open>Chunks\<close>


definition be32 :: "u32 \<Rightarrow> u8 list" where
  "be32 n = [ucast (drop_bit 24 n), ucast (drop_bit 16 n), ucast (drop_bit 8 n), ucast n]"





lemma length_be32 [simp]: "length (be32 n) = 4"
  by (simp add: be32_def)

lemma byte_append: "byte (pre @ d) (length pre + i) = byte d i"
  by (simp add: byte_def nth_append)

lemma be32_word: "push_bit 24 (ucast (ucast (drop_bit 24 n) :: u8)) OR push_bit 16 (ucast (ucast (drop_bit 16 n) :: u8)) OR
    push_bit 8 (ucast (ucast (drop_bit 8 n) :: u8)) OR ucast (ucast n :: u8) = (n :: u32)"
proof (rule bit_word_eqI)
  fix i assume i: "i < LENGTH(32)"
  then consider "i < 8" | "8 \<le> i" "i < 16" | "16 \<le> i" "i < 24" | "24 \<le> i" "i < 32" by force
  then show "bit (push_bit 24 (ucast (ucast (drop_bit 24 n) :: u8)) OR push_bit 16 (ucast (ucast (drop_bit 16 n) :: u8)) OR
    push_bit 8 (ucast (ucast (drop_bit 8 n) :: u8)) OR ucast (ucast n :: u8) :: u32) i = bit n i"
    by cases (auto simp: bit_simps)
qed

lemma rd32be_be32: "rd32be (pre @ be32 n @ post) (length pre) = Some n"
proof -
  have "rd32be (pre @ d) (length pre) = rd32be d 0" for d
    using byte_append [of pre d 0] by (simp only: rd32be_def byte_append add_0_left add_0_right)
  moreover have "rd32be (be32 n @ post) 0 = Some n" by (simp add: rd32be_def be32_def byte_def be32_word)
  ultimately show ?thesis by simp
qed









subsection \<open>Round trip\<close>












section \<open>BMP files\<close>

text \<open>The pixel at \<open>i\<close> in the file.\<close>

definition bgr_at :: "u8 list \<Rightarrow> nat \<Rightarrow> u32" where
  "bgr_at d i = rgb (d ! (i + 2)) (d ! (i + 1)) (d ! i)"

lemma unat_of_nat_small: "n < 2 ^ 32 \<Longrightarrow> unat (of_nat n :: u32) = n"
  by (simp add: unsigned_of_nat take_bit_nat_eq_self)

lemma unat_add_small: "unat p + n < 2 ^ 32 \<Longrightarrow> unat (p + of_nat n :: u32) = unat p + n"
  by (simp add: unsigned_of_nat unat_word_ariths take_bit_eq_mod)

lemma bmp_row_ok:
  assumes "3 \<le> bypp" "unat p + n * bypp \<le> length d" "length d < 2 ^ 31"
  shows "bmp_row d bypp p i n px = Some (\<lambda>j. if i \<le> j \<and> j < i + n then bgr_at d (unat p + (j - i) * bypp) else px j)"
  using assms(2)
proof (induction n arbitrary: p i px)
  case 0
  then show ?case by (auto simp: fun_eq_iff)
next
  case (Suc n)
  have lt: "unat p + bypp < 2 ^ 32" "unat p + bypp \<le> length d" using Suc.prems assms(3) by simp_all
  have u: "unat (p + 2) = unat p + 2" "unat (p + 1) = unat p + 1" "unat (p + of_nat bypp) = unat p + bypp"
    using unat_add_small [of p 2] unat_add_small [of p 1] unat_add_small [of p bypp] lt assms(1) by simp_all
  have bt: "byte d (unat p + 2) = Some (d ! (unat p + 2))" "byte d (unat p + 1) = Some (d ! (unat p + 1))" "byte d (unat p) = Some (d ! unat p)"
    using lt(2) assms(1) by (simp_all add: byte_def)
  have "bmp_row d bypp p i (Suc n) px = bmp_row d bypp (p + of_nat bypp) (i + 1) n (px(i := bgr_at d (unat p)))"
    by (simp only: bmp_row.simps u bt Option.bind.simps bgr_at_def)
  also have "\<dots> = Some (\<lambda>j. if i + 1 \<le> j \<and> j < i + 1 + n then bgr_at d (unat p + bypp + (j - (i + 1)) * bypp) else (px(i := bgr_at d (unat p))) j)"
    by (rule Suc.IH [of "p + of_nat bypp" "i + 1" "px(i := bgr_at d (unat p))", unfolded u(3)]) (use Suc.prems in simp)
  also have "\<dots> = Some (\<lambda>j. if i \<le> j \<and> j < i + Suc n then bgr_at d (unat p + (j - i) * bypp) else px j)"
  proof (intro arg_cong [where f = Some] ext)
    fix j
    show "(if i + 1 \<le> j \<and> j < i + 1 + n then bgr_at d (unat p + bypp + (j - (i + 1)) * bypp) else (px(i := bgr_at d (unat p))) j) =
      (if i \<le> j \<and> j < i + Suc n then bgr_at d (unat p + (j - i) * bypp) else px j)"
    proof (cases "i + 1 \<le> j")
      case True
      then have "j - i = Suc (j - (i + 1))" by simp
      then show ?thesis using True by (simp add: add.assoc)
    qed auto
  qed
  finally show ?case .
qed

text \<open>Rows are padded to four bytes; they run from the bottom when the height is positive.\<close>

definition bmp_at :: "u8 list \<Rightarrow> nat \<Rightarrow> nat \<Rightarrow> bool \<Rightarrow> nat \<Rightarrow> nat \<Rightarrow> nat \<Rightarrow> nat \<Rightarrow> u32" where
  "bmp_at d bypp offset flip w h y x = bgr_at d (offset + (if flip then h - 1 - y else y) * ((w * bypp + 3) div 4 * 4) + x * bypp)"

lemma pad4: "n \<le> (n + 3) div 4 * (4 :: nat)"
  by presburger

lemma row_index: "0 < w \<Longrightarrow> y * w \<le> i \<Longrightarrow> i < y * w + w \<Longrightarrow> i div w = y \<and> i mod w = i - y * (w :: nat)"
  by (metis add.commute div_nat_eqI minus_div_mult_eq_mod mult.commute mult_Suc_right)

lemma bmp_rows_ok:
  assumes "3 \<le> bypp" "0 < w" "unat offset + h * ((w * bypp + 3) div 4 * 4) \<le> length d" "length d < 2 ^ 31" "y + n = h"
  shows "bmp_rows d bypp offset flip w h [y..<h] px =
    Some (\<lambda>i. if y * w \<le> i \<and> i < h * w then bmp_at d bypp (unat offset) flip w h (i div w) (i mod w) else px i)"
  using assms(5)
proof (induction n arbitrary: y px)
  case 0
  then show ?case by (auto simp: fun_eq_iff)
next
  case (Suc n)
  let ?rb = "(w * bypp + 3) div 4 * 4" let ?sy = "if flip then h - 1 - y else y" let ?row = "offset + of_nat (?sy * ?rb)"
  have l: "[y..<h] = y # [Suc y..<h]" using Suc.prems by (simp add: upt_conv_Cons)
  have "Suc ?sy \<le> h" using Suc.prems by auto
  then have "Suc ?sy * ?rb \<le> h * ?rb" by (rule mult_le_mono1)
  then have le: "unat offset + ?sy * ?rb + ?rb \<le> length d" using assms(3) by simp
  then have fit: "unat offset + ?sy * ?rb + w * bypp \<le> length d" using pad4 [of "w * bypp"] by linarith
  define q where "q = ?sy * ?rb"
  have fit': "unat offset + q + w * bypp \<le> length d" using fit by (simp only: q_def)
  have rowq: "unat (offset + of_nat q) = unat offset + q" by (rule unat_add_small) (use fit' assms(4) in simp)
  then have row: "unat ?row = unat offset + ?sy * ?rb" by (simp only: q_def)
  have "unat (offset + of_nat q + of_nat (w * bypp)) = unat offset + q + w * bypp" unfolding rowq [symmetric] by (rule unat_add_small) (use fit' rowq assms(4) in simp)
  moreover have "unat (of_nat (length d) :: u32) = length d" using assms(4) by (simp add: unsigned_of_nat take_bit_nat_eq_self)
  ultimately have no: "\<not> ?row + of_nat (w * bypp) > of_nat (length d)" unfolding word_less_nat_alt q_def [symmetric] using fit' by linarith
  have r: "bmp_row d bypp ?row (y * w) w px = Some (\<lambda>j. if y * w \<le> j \<and> j < y * w + w then bgr_at d (unat ?row + (j - y * w) * bypp) else px j)"
    by (rule bmp_row_ok [OF assms(1) _ assms(4)]) (use fit row in \<open>simp add: mult.commute\<close>)
  let ?px = "\<lambda>j. if y * w \<le> j \<and> j < y * w + w then bgr_at d (unat ?row + (j - y * w) * bypp) else px j"
  have "bmp_rows d bypp offset flip w h [y..<h] px = bmp_rows d bypp offset flip w h [Suc y..<h] ?px"
    unfolding l bmp_rows.simps Let_def using no r by (simp only: if_False Option.bind.simps)
  also have "\<dots> = Some (\<lambda>i. if Suc y * w \<le> i \<and> i < h * w then bmp_at d bypp (unat offset) flip w h (i div w) (i mod w) else ?px i)"
    using Suc.IH [of "Suc y"] Suc.prems by simp
  also have "\<dots> = Some (\<lambda>i. if y * w \<le> i \<and> i < h * w then bmp_at d bypp (unat offset) flip w h (i div w) (i mod w) else px i)"
  proof (intro arg_cong [where f = Some] ext)
    fix i
    have hw: "Suc y * w \<le> h * w" using Suc.prems by (intro mult_le_mono1) simp
    show "(if Suc y * w \<le> i \<and> i < h * w then bmp_at d bypp (unat offset) flip w h (i div w) (i mod w) else ?px i) =
      (if y * w \<le> i \<and> i < h * w then bmp_at d bypp (unat offset) flip w h (i div w) (i mod w) else px i)"
    proof (cases "y * w \<le> i \<and> i < y * w + w")
      case True
      then have "i div w = y" "i mod w = i - y * w" using row_index [OF assms(2)] by auto
      then show ?thesis using True hw row by (simp add: bmp_at_def)
    next
      case False
      then show ?thesis by auto
    qed
  qed
  finally show ?case .
qed

text \<open>C20. A BMP file whose header announces 24 or 32 bits, at most 2048 by 2048 pixels and pixel data inside the file loads, with
  every pixel taken from its place in the file: rows padded to four bytes, bottom up unless the height is negative.
\<close>
theorem bmp_pixels:
  assumes "54 \<le> length d" "length d < 2 ^ 31" "d ! 0 = 66" "d ! 1 = 77" "rd32le d 10 = Some offset" "rd32le d 18 = Some w'" "rd32le d 22 = Some h'"
    "rd16le d 28 = Some bpp" "bpp = 24 \<or> bpp = 32" "rd32le d 30 = Some 0"
    "sint w' = int w" "1 \<le> w" "w \<le> 2048" "\<bar>sint h'\<bar> = int h" "h \<le> 2048"
    "unat offset + h * ((w * (unat bpp div 8) + 3) div 4 * 4) \<le> length d"
  shows "image_load_bmp d img s = Some (True, loaded (int w) (int h) img, s\<lparr>img_pixels :=
    (\<lambda>i. if i < h * w then bmp_at d (unat bpp div 8) (unat offset) (sint h' > 0) w h (i div w) (i mod w) else img_pixels s i)\<rparr>)"
proof -
  have "3 \<le> unat bpp div 8" using assms(9) by auto
  note R = bmp_rows_ok [OF this _ assms(16,2), of 0 h "sint h' > 0" "img_pixels s"]
  have "sint h' \<noteq> - (2 ^ 31)" using assms(14,15) by auto
  then show ?thesis using assms R by (auto simp: image_load_bmp_def Let_def IMG_MAX_W_def IMG_MAX_H_def)
qed

section \<open>The pool of buffers\<close>

text \<open>A picture that fits a slot is moved to the next slot of the pool, which takes turns over four; the pictures
  in the other slots stay as they are.
\<close>
theorem image_load_slot:
  assumes "image_decode name d (img\<lparr>valid := False\<rparr>) s = Some (True, img1, s1)" "valid img1" "pixels img1 = Big"
    "width img1 * height img1 \<le> IMG_SLOT_SIZE" "i < width img1 * height img1" "0 \<le> i"
  shows "\<exists>img' s'. image_load d name img s = Some (True, img', s') \<and> pixels img' = Slot (img_next_slot s1) \<and>
    img_pool s' (img_next_slot s1) (nat i) = img_pixels s1 (nat i) \<and> img_next_slot s' = (img_next_slot s1 + 1) mod 4 \<and>
    (\<forall>k. k \<noteq> img_next_slot s1 \<longrightarrow> img_pool s' k = img_pool s1 k)"
  using assms by (auto simp: image_load_def img_alloc_pixels_def copy_pixels_def IMG_SLOTS_def Let_def zless_nat_conj nat_less_eq_zless)

section \<open>TGA files\<close>

text \<open>The packets of a compressed picture; a pixel is its bytes.\<close>

datatype packet = Run nat "u8 list" | Raw "u8 list list"

fun packet_ok :: "nat \<Rightarrow> packet \<Rightarrow> bool" where
  "packet_ok bypp (Run n c) \<longleftrightarrow> 1 \<le> n \<and> n \<le> 128 \<and> length c = bypp"
| "packet_ok bypp (Raw cs) \<longleftrightarrow> 1 \<le> length cs \<and> length cs \<le> 128 \<and> (\<forall>c \<in> set cs. length c = bypp)"

fun enc_packet :: "packet \<Rightarrow> u8 list" where
  "enc_packet (Run n c) = (0x80 OR of_nat (n - 1)) # c"
| "enc_packet (Raw cs) = of_nat (length cs - 1) # concat cs"

fun packet_pixels :: "packet \<Rightarrow> u8 list list" where
  "packet_pixels (Run n c) = replicate n c"
| "packet_pixels (Raw cs) = cs"

text \<open>Pixels put in order from number \<open>p\<close>.\<close>

fun put_all :: "bool \<Rightarrow> nat \<Rightarrow> nat \<Rightarrow> nat \<Rightarrow> u8 list list \<Rightarrow> (nat \<Rightarrow> u32) \<Rightarrow> (nat \<Rightarrow> u32)" where
  "put_all up w h p [] px = px"
| "put_all up w h p (c # cs) px = put_all up w h (p + 1) cs (tga_put up w h p (bgr_at c 0) px)"

lemma put_all_append: "put_all up w h p (cs @ ds) px = put_all up w h (p + length cs) ds (put_all up w h p cs px)"
  by (induction cs arbitrary: p px) auto

lemma tga_run_ok: "p + n \<le> w * h \<Longrightarrow> tga_run up w h (bgr_at c 0) n p px = (p + n, put_all up w h p (replicate n c) px)"
  by (induction n arbitrary: p px) auto

lemma byte_here: "drop i d = c @ rest \<Longrightarrow> j < length c \<Longrightarrow> byte d (i + j) = Some (c ! j)"
proof -
  assume d: "drop i d = c @ rest" and j: "j < length c"
  then have "length (take i d) = i" by (cases "i \<le> length d") auto
  moreover have "d = take i d @ c @ rest" using d by (metis append_take_drop_id)
  ultimately have "byte d (i + j) = byte (c @ rest) j" using byte_append [of "take i d" "c @ rest" j] by simp
  then show ?thesis using j by (simp add: byte_def nth_append)
qed

lemma bgr_here:
  assumes "drop i d = c @ rest" "3 \<le> length c"
  shows "bgr d i = Some (bgr_at c 0)"
proof -
  have "byte d (i + 0) = Some (c ! 0)" "byte d (i + 1) = Some (c ! 1)" "byte d (i + 2) = Some (c ! 2)"
    by (rule byte_here [OF assms(1)], use assms(2) in linarith)+
  then show ?thesis by (simp add: bgr_def bgr_at_def numeral_2_eq_2)
qed

lemma packet_header:
  assumes "m < 128"
  shows "(0x80 OR of_nat m :: u8) AND 0x80 = 0x80" "unat ((0x80 OR of_nat m :: u8) AND 0x7F) = m"
    "(of_nat m :: u8) AND 0x80 = 0" "unat ((of_nat m :: u8) AND 0x7F) = m"
proof -
  have u: "unat (of_nat m :: u8) = m" using assms by (simp add: unsigned_of_nat take_bit_nat_eq_self)
  have "take_bit 7 (of_nat m :: u8) = of_nat m"
    by (rule word_unat_eq_iff [THEN iffD2]) (use u assms in \<open>simp add: unsigned_take_bit_eq take_bit_nat_eq_self\<close>)
  then have m: "(of_nat m :: u8) AND 0x7F = of_nat m" by (simp add: take_bit_eq_mask mask_eq_exp_minus_1)
  have "(of_nat m :: u8) AND 0x80 = (of_nat m AND 0x7F) AND 0x80" using m by simp
  also have "\<dots> = of_nat m AND (0x7F AND 0x80)" by (rule and.assoc)
  finally show z: "(of_nat m :: u8) AND 0x80 = 0" by simp
  show "unat ((of_nat m :: u8) AND 0x7F) = m" using m u by simp
  show "(0x80 OR of_nat m :: u8) AND 0x80 = 0x80" using z by (simp add: bit.conj_disj_distrib2)
  show "unat ((0x80 OR of_nat m :: u8) AND 0x7F) = m" using m u by (simp add: bit.conj_disj_distrib2)
qed

lemma tga_raw_ok:
  assumes "p + length cs \<le> w * h" "\<forall>c \<in> set cs. length c = bypp" "3 \<le> bypp" "drop (src + si) d = concat cs @ rest" "si + length cs * bypp \<le> src_left"
  shows "tga_raw d src src_left bypp up w h (length cs) p si px = Some (p + length cs, si + length cs * bypp, put_all up w h p cs px)"
  using assms
proof (induction cs arbitrary: p si px)
  case (Cons c cs)
  have b: "bgr d (src + si) = Some (bgr_at c 0)" using bgr_here [of "src + si" d c "concat cs @ rest"] Cons.prems by simp
  have "drop (src + (si + bypp)) d = drop bypp (drop (src + si) d)" by (simp add: ac_simps)
  then have "drop (src + (si + bypp)) d = concat cs @ rest" using Cons.prems(2,4) by simp
  from Cons.IH [OF _ _ assms(3) this, of "p + 1"] show ?case using Cons.prems b by (simp add: ac_simps)
qed simp

lemma tga_rle_ok:
  assumes "\<forall>k \<in> set ks. packet_ok bypp k" "3 \<le> bypp" "p + length (concat (map packet_pixels ks)) = w * h"
    "drop (src + si) d = concat (map enc_packet ks) @ rest" "si + length (concat (map enc_packet ks)) \<le> src_left"
  shows "tga_rle d src src_left bypp up w h p si px = Some (put_all up w h p (concat (map packet_pixels ks)) px)"
  using assms(1,3-5)
proof (induction ks arbitrary: p si px)
  case Nil
  then show ?case by (subst tga_rle.simps) simp
next
  case (Cons k ks)
  let ?n = "length (packet_pixels k)" and ?e = "length (enc_packet k)"
  have k: "packet_ok bypp k" "\<forall>k \<in> set ks. packet_ok bypp k" using Cons.prems(1) by simp_all
  have n: "1 \<le> ?n" "?n \<le> 128" using k(1) by (cases k; simp)+
  have here: "drop (src + si) d = enc_packet k @ concat (map enc_packet ks) @ rest" using Cons.prems(3) by simp
  have e: "1 \<le> ?e" by (cases k) simp_all
  have hdr: "byte d (src + si) = Some (enc_packet k ! 0)" using byte_here [OF here, of 0] e by force
  have tl: "drop (src + (si + 1)) d = tl (enc_packet k) @ concat (map enc_packet ks) @ rest"
    using here by (cases k) (simp_all, (metis add_Suc_right drop_Suc list.sel(3) tl_drop)+)
  have after: "drop (src + (si + ?e)) d = concat (map enc_packet ks) @ rest"
    using here by (metis add.assoc add.commute append_eq_conv_conj drop_drop)
  have lt: "p < w * h \<and> si < src_left" using Cons.prems(2,4) n(1) e by simp
  have le: "p + ?n \<le> w * h" "si + ?e \<le> src_left" using Cons.prems(2,4) by simp_all
  have IH: "tga_rle d src src_left bypp up w h (p + ?n) (si + ?e) (put_all up w h p (packet_pixels k) px) =
      Some (put_all up w h (p + ?n) (concat (map packet_pixels ks)) (put_all up w h p (packet_pixels k) px))"
    by (rule Cons.IH [OF k(2)]) (use Cons.prems(2,4) after in \<open>simp_all add: ac_simps\<close>)
  have "tga_rle d src src_left bypp up w h p si px = tga_rle d src src_left bypp up w h (p + ?n) (si + ?e) (put_all up w h p (packet_pixels k) px)"
  proof (cases k)
    case (Run m c)
    have c: "length c = bypp" "1 \<le> m" "m - 1 < 128" using k(1) Run by auto
    note H = packet_header [OF c(3)]
    have b: "bgr d (src + (si + 1)) = Some (bgr_at c 0)" using bgr_here [of "src + (si + 1)" d c] tl Run c(1) assms(2) by simp
    have run: "tga_run up w h (bgr_at c 0) m p px = (p + m, put_all up w h p (replicate m c) px)" using tga_run_ok le(1) Run by simp
    have cnt: "unat ((0x80 OR of_nat (m - 1) :: u8) AND 0x7F) + 1 = m" unfolding H(2) using c(2) by simp
    have "\<not> si + 1 + bypp > src_left" using le(2) Run c(1) by simp
    moreover have "(0x80 :: u8) \<noteq> 0" by simp
    ultimately show ?thesis
      unfolding tga_rle.simps [of d src src_left bypp up w h p si px] hdr Run enc_packet.simps nth_Cons_0 option.case Let_def H(1) cnt b
      using lt run c(1) Run by (simp only: if_True if_False prod.case option.case not_False_eq_True simp_thms) (simp add: ac_simps)
  next
    case (Raw cs)
    have c: "\<forall>c \<in> set cs. length c = bypp" "1 \<le> length cs" "length cs - 1 < 128" using k(1) Raw by auto
    note H = packet_header [OF c(3)]
    have len: "length (concat cs) = length cs * bypp" using c(1) by (induction cs) auto
    have raw: "tga_raw d src src_left bypp up w h (length cs) p (si + 1) px = Some (p + length cs, si + 1 + length cs * bypp, put_all up w h p cs px)"
      by (rule tga_raw_ok) (use c(1) assms(2) le tl Raw len in simp_all)
    have cnt: "unat ((of_nat (length cs - 1) :: u8) AND 0x7F) + 1 = length cs" unfolding H(4) using c(2) by simp
    show ?thesis
      unfolding tga_rle.simps [of d src src_left bypp up w h p si px] hdr Raw enc_packet.simps nth_Cons_0 option.case Let_def H(3) cnt raw
      using lt len by (simp add: ac_simps)
  qed
  then show ?case using IH by (simp add: put_all_append)
qed

text \<open>Every pixel ends up at its own place.\<close>

definition tga_index :: "bool \<Rightarrow> nat \<Rightarrow> nat \<Rightarrow> nat \<Rightarrow> nat" where
  "tga_index up w h p = (if up then p div w else h - 1 - p div w) * w + p mod w"

lemma tga_index_inj:
  assumes "p < w * h" "q < w * h" "tga_index up w h p = tga_index up w h q"
  shows "p = q"
proof -
  have w: "0 < w" using assms(1) by (cases w) auto
  have "p mod w = q mod w" using arg_cong [OF assms(3), of "\<lambda>i. i mod w"] w by (simp add: tga_index_def)
  moreover have "(if up then p div w else h - 1 - p div w) = (if up then q div w else h - 1 - q div w)"
    using arg_cong [OF assms(3), of "\<lambda>i. i div w"] w by (simp add: tga_index_def split: if_splits)
  moreover have "p div w < h" "q div w < h" using assms(1,2) by (simp_all add: less_mult_imp_div_less mult.commute)
  ultimately have "p mod w = q mod w" "p div w = q div w" by (auto split: if_splits)
  then show ?thesis by (metis div_mult_mod_eq)
qed

lemma put_all_at:
  assumes "p + length cs \<le> w * h" "q < w * h"
  shows "put_all up w h p cs px (tga_index up w h q) = (if p \<le> q \<and> q < p + length cs then bgr_at (cs ! (q - p)) 0 else px (tga_index up w h q))"
  using assms(1)
proof (induction cs arbitrary: p px)
  case (Cons c cs)
  have "tga_put up w h p (bgr_at c 0) px (tga_index up w h q) = (if q = p then bgr_at c 0 else px (tga_index up w h q))"
    using tga_index_inj [of p w h q up] Cons.prems assms(2) by (auto simp: tga_put_def tga_index_def Let_def)
  moreover have "(c # cs) ! (q - p) = cs ! (q - (p + 1))" if "p + 1 \<le> q" using that by (simp add: nth_Cons')
  ultimately show ?case using Cons.IH [of "p + 1"] Cons.prems by auto
qed auto

text \<open>The file: header, image identification, packets.\<close>

definition tga_file :: "u8 \<Rightarrow> u16 \<Rightarrow> u16 \<Rightarrow> u8 \<Rightarrow> u8 \<Rightarrow> u8 list \<Rightarrow> u8 list \<Rightarrow> u8 list" where
  "tga_file img_type w h bpp desc ident body =
     [of_nat (length ident), 0, img_type, 0, 0, 0, 0, 0, 0, 0, 0, 0, ucast w, ucast (drop_bit 8 w), ucast h, ucast (drop_bit 8 h), bpp, desc] @ ident @ body"

lemma u16_bytes: "ucast (ucast n :: u8) OR push_bit 8 (ucast (ucast (drop_bit 8 n) :: u8)) = (n :: u16)"
proof (rule bit_word_eqI)
  fix i assume i: "i < LENGTH(16)"
  then consider "i < 8" | "8 \<le> i" "i < 16" by force
  then show "bit (ucast (ucast n :: u8) OR push_bit 8 (ucast (ucast (drop_bit 8 n) :: u8)) :: u16) i = bit n i"
    by cases (auto simp: bit_simps)
qed

text \<open>C19. A TGA file with run-length packets loads, whatever the division of the picture into runs and raw packets, with pixel
  \<open>q\<close> of the picture at its place: row by row from the top, or from the bottom when the descriptor says so.
\<close>
theorem tga_rle_pixels:
  assumes "w \<noteq> 0" "w \<le> 2048" "h \<noteq> 0" "h \<le> 2048" "bpp = 24 \<or> bpp = 32" "length ident < 256"
    "\<forall>k \<in> set ks. packet_ok (unat bpp div 8) k" "length (concat (map packet_pixels ks)) = unat w * unat h"
    "d = tga_file 10 w h bpp desc ident (concat (map enc_packet ks) @ rest)" "length d < 2 ^ 31"
  shows "\<exists>px. image_load_tga d img s = Some (True, loaded (uint w) (uint h) img, s\<lparr>img_pixels := px\<rparr>) \<and>
    (\<forall>q < unat w * unat h. px (tga_index (desc AND 0x20 \<noteq> 0) (unat w) (unat h) q) = bgr_at (concat (map packet_pixels ks) ! q) 0)"
proof -
  let ?up = "desc AND 0x20 \<noteq> 0" and ?bypp = "unat bpp div 8" and ?body = "concat (map enc_packet ks)" and ?cs = "concat (map packet_pixels ks)"
  have b3: "3 \<le> ?bypp" using assms(5) by auto
  have id: "unat (of_nat (length ident) :: u8) = length ident" using assms(6) by (simp add: unsigned_of_nat take_bit_nat_eq_self)
  have len: "length d = 18 + length ident + length ?body + length rest" by (simp add: assms(9) tga_file_def)
  have hd: "d ! 0 = of_nat (length ident)" "d ! 2 = 10" "d ! 16 = bpp" "d ! 17 = desc" "rd16le d 12 = Some w" "rd16le d 14 = Some h"
    using u16_bytes [of w] u16_bytes [of h] by (simp_all add: assms(9) tga_file_def rd16le_def byte_def)
  have "drop 18 d = ident @ ?body @ rest" by (simp add: assms(9) tga_file_def)
  then have drop: "drop (18 + length ident + 0) d = ?body @ rest" by (metis add.commute add_0_right append_eq_conv_conj drop_drop)
  have left: "unat (of_nat (length d) - 18 - of_nat (length ident) :: u32) = length ?body + length rest"
  proof -
    have "(of_nat (length d) - 18 - of_nat (length ident) :: u32) = of_nat (length ?body + length rest)" unfolding len by simp
    moreover have "length ?body + length rest < 2 ^ 32" using assms(10) len by simp
    ultimately show ?thesis by (simp only: unat_of_nat_small)
  qed
  let ?px = "put_all ?up (unat w) (unat h) 0 ?cs (img_pixels s)"
  have rle: "tga_rle d (18 + length ident) (length ?body + length rest) ?bypp ?up (unat w) (unat h) 0 0 (img_pixels s) = Some ?px"
    by (rule tga_rle_ok [OF assms(7) b3 _ drop]) (use assms(8) in simp_all)
  have wh: "unat w \<noteq> 0" "unat h \<noteq> 0" "unat w \<le> 2048" "unat h \<le> 2048"
    using assms(1-4) by (simp_all add: unat_eq_0 word_le_nat_alt)
  have "\<not> length d < 18" using len by simp
  then have "image_load_tga d img s = Some (True, loaded (uint w) (uint h) img, s\<lparr>img_pixels := ?px\<rparr>)"
    using assms(5) wh rle by (auto simp: image_load_tga_def Let_def hd id left IMG_MAX_W_def IMG_MAX_H_def)
  moreover have "?px (tga_index ?up (unat w) (unat h) q) = bgr_at (?cs ! q) 0" if "q < unat w * unat h" for q
    using put_all_at [of 0 ?cs "unat w" "unat h" q ?up "img_pixels s"] that assms(8) by simp
  ultimately show ?thesis by blast
qed

theorem tga_rle_pixels_witness:
  "\<exists>px. image_load_tga (tga_file 10 2 1 24 0x20 [7] [0x81, 1, 2, 3]) \<lparr>width = 0, height = 0, pixels = Big, valid = False\<rparr>
      \<lparr>img_pixels = (\<lambda>_. 0), img_pool = (\<lambda>_ _. 0), img_next_slot = 0\<rparr> =
    Some (True, \<lparr>width = 2, height = 1, pixels = Big, valid = True\<rparr>, \<lparr>img_pixels = px, img_pool = (\<lambda>_ _. 0), img_next_slot = 0\<rparr>) \<and>
    px 0 = 0x030201 \<and> px 1 = 0x030201"
proof -
  let ?ks = "[Run 2 [1, 2, 3]]"
  have d: "tga_file 10 2 1 24 0x20 [7] [0x81, 1, 2, 3] = tga_file 10 2 1 24 0x20 [7] (concat (map enc_packet ?ks) @ [])" by simp
  have lt: "length (tga_file 10 2 1 24 0x20 [7] [0x81, 1, 2, 3]) < 2 ^ 31" by (simp add: tga_file_def)
  have ok: "\<forall>k \<in> set ?ks. packet_ok (unat (24 :: u8) div 8) k" "length (concat (map packet_pixels ?ks)) = unat (2 :: u16) * unat (1 :: u16)" by simp_all
  have "\<exists>px. image_load_tga (tga_file 10 2 1 24 0x20 [7] [0x81, 1, 2, 3]) \<lparr>width = 0, height = 0, pixels = Big, valid = False\<rparr>
        \<lparr>img_pixels = (\<lambda>_. 0), img_pool = (\<lambda>_ _. 0), img_next_slot = 0\<rparr> =
      Some (True, loaded (uint (2 :: u16)) (uint (1 :: u16)) \<lparr>width = 0, height = 0, pixels = Big, valid = False\<rparr>,
        \<lparr>img_pixels = (\<lambda>_. 0), img_pool = (\<lambda>_ _. 0), img_next_slot = 0\<rparr>\<lparr>img_pixels := px\<rparr>) \<and>
      (\<forall>q < unat (2 :: u16) * unat (1 :: u16). px (tga_index ((0x20 :: u8) AND 0x20 \<noteq> 0) (unat (2 :: u16)) (unat (1 :: u16)) q) =
         bgr_at (concat (map packet_pixels ?ks) ! q) 0)"
    by (rule tga_rle_pixels [OF _ _ _ _ _ _ ok d lt]) simp_all
  then obtain px where px: "image_load_tga (tga_file 10 2 1 24 0x20 [7] [0x81, 1, 2, 3]) \<lparr>width = 0, height = 0, pixels = Big, valid = False\<rparr>
        \<lparr>img_pixels = (\<lambda>_. 0), img_pool = (\<lambda>_ _. 0), img_next_slot = 0\<rparr> =
      Some (True, loaded (uint (2 :: u16)) (uint (1 :: u16)) \<lparr>width = 0, height = 0, pixels = Big, valid = False\<rparr>,
        \<lparr>img_pixels = (\<lambda>_. 0), img_pool = (\<lambda>_ _. 0), img_next_slot = 0\<rparr>\<lparr>img_pixels := px\<rparr>)"
      "\<And>q. q < unat (2 :: u16) * unat (1 :: u16) \<Longrightarrow> px (tga_index ((0x20 :: u8) AND 0x20 \<noteq> 0) (unat (2 :: u16)) (unat (1 :: u16)) q) = bgr_at (concat (map packet_pixels ?ks) ! q) 0"
    by blast
  have i: "tga_index True 2 1 0 = 0" "tga_index True 2 1 1 = 1" by (simp_all add: tga_index_def)
  have c: "bgr_at [1, 2, 3] 0 = 0x030201" by (simp add: bgr_at_def rgb_def)
  have cs: "concat (map packet_pixels ?ks) = [[1, 2, 3], [1, 2, 3]]" by (simp add: numeral_2_eq_2)
  have "px 0 = 0x030201" "px 1 = 0x030201" using px(2) [of 0] px(2) [of 1] unfolding cs by (simp_all add: i [unfolded One_nat_def] c)
  then show ?thesis using px(1) by (auto simp: loaded_def)
qed

theorem bmp_pixels_witness:
  "image_load_bmp ([66, 77] @ replicate 8 0 @ [54, 0, 0, 0] @ replicate 4 0 @ [1, 0, 0, 0, 1, 0, 0, 0, 1, 0, 24, 0] @ replicate 24 0 @ [3, 2, 1, 0])
      \<lparr>width = 0, height = 0, pixels = Big, valid = False\<rparr> \<lparr>img_pixels = (\<lambda>_. 0), img_pool = (\<lambda>_ _. 0), img_next_slot = 0\<rparr> =
    Some (True, \<lparr>width = 1, height = 1, pixels = Big, valid = True\<rparr>,
      \<lparr>img_pixels = (\<lambda>i. if i < 1 then 0x010203 else 0), img_pool = (\<lambda>_ _. 0), img_next_slot = 0\<rparr>)"
proof -
  let ?d = "[66, 77] @ replicate 8 0 @ [54, 0, 0, 0] @ replicate 4 0 @ [1, 0, 0, 0, 1, 0, 0, 0, 1, 0, 24, 0] @ replicate 24 0 @ [3, 2, 1, 0] :: u8 list"
  have at: "rd32le ?d 10 = Some 54" "rd32le ?d 18 = Some 1" "rd32le ?d 22 = Some 1" "rd16le ?d 28 = Some 24" "rd32le ?d 30 = Some 0"
    by (simp_all add: rd32le_def rd16le_def byte_def nth_append nth_Cons')
  show ?thesis
    using bmp_pixels [OF _ _ _ _ at(1-4) _ at(5), of 1 1 "\<lparr>width = 0, height = 0, pixels = Big, valid = False\<rparr>"
      "\<lparr>img_pixels = (\<lambda>_. 0), img_pool = (\<lambda>_ _. 0), img_next_slot = 0\<rparr>"]
    by (simp add: loaded_def bmp_at_def bgr_at_def rgb_def nth_append nth_Cons' cong: if_cong)
qed

section \<open>A file that hangs the loader\<close>

text \<open>
  The length of a chunk is not checked against wrap-around: with the length \<open>0xFFFFFFF4\<close> the position after the chunk is the
  position of the chunk, and the loop over the chunks never ends.
\<close>

definition stuck_png :: "u8 list" where
  "stuck_png = png_sig @ be32 0xFFFFFFF4 @ [0, 0, 0, 0] @ [0, 0, 0, 0]"

lemma stuck_parts: "rd32be stuck_png 8 = Some 0xFFFFFFF4" "length stuck_png = 20" "take 4 (drop 12 stuck_png) = [0, 0, 0, 0]"
proof -
  have "length png_sig = 8" by (simp add: png_sig_def)
  then show "rd32be stuck_png 8 = Some 0xFFFFFFF4"
    using rd32be_be32 [of png_sig "0xFFFFFFF4" "[0, 0, 0, 0] @ [0, 0, 0, 0]"] by (simp only: stuck_png_def)
qed (simp_all add: stuck_png_def png_sig_def be32_def)

lemma png_chunks_stuck: "png_chunks stuck_png 8 p = None"
proof (rule ccontr)
  assume "png_chunks stuck_png 8 p \<noteq> None"
  then obtain r where r: "png_chunks stuck_png 8 p = Some r" by blast
  have "\<not> (stuck_png = stuck_png \<and> (8 :: u32) = 8)"
  proof (rule png_chunks.raw_induct [where P = "\<lambda>d pos p r. \<not> (d = stuck_png \<and> pos = 8)", OF _ r], rule notI)
    fix f d pos p and r :: "png option"
    assume IH: "\<And>d pos p r. f d pos p = Some r \<Longrightarrow> \<not> (d = stuck_png \<and> pos = 8)" and at: "d = stuck_png \<and> pos = 8"
      and eq: "(if pos + 12 \<le> of_nat (length d) then
        Option.bind (rd32be d (unat pos)) (\<lambda>clen.
             let tag = take 4 (drop (unat (pos + 4)) d) in
             let c = unat (pos + 8) in
             if pos + 12 + clen > of_nat (length d) then Some (Some p)
             else if tag = tag_IHDR \<and> clen \<ge> 13 then
               Option.bind (png_ihdr d c p) (\<lambda>r. case r of None \<Rightarrow> Some None | Some p \<Rightarrow> f d (pos + 12 + clen) p)
             else if tag = tag_PLTE then
               Option.bind (read_palette d c (min (unat clen div 3) 256)) (\<lambda>ps. f d (pos + 12 + clen) (p\<lparr>p_palette := ps\<rparr>))
             else if tag = tag_IDAT then Option.bind (png_idat d c clen p) (f d (pos + 12 + clen))
             else if tag = tag_IEND then Some (Some p)
             else f d (pos + 12 + clen) p)
      else Some (Some p)) = Some r"
    have "f stuck_png 4294967304 p = Some r"
      using eq at stuck_parts by (simp add: Let_def tag_IHDR_def tag_PLTE_def tag_IDAT_def tag_IEND_def)
    moreover have "(4294967304 :: u32) = 8" by simp
    ultimately show False using IH by metis
  qed
  then show False by simp
qed

lemma png_hangs: "image_load_png stuck_png img s = None"
proof -
  have "take 8 stuck_png = png_sig" by (simp add: stuck_png_def png_sig_def)
  then show ?thesis using stuck_parts by (simp add: image_load_png_def png_chunks_stuck)
qed

end
