(* ===== verification/Spec2Isabelle.thy ===== *)
theory Spec2Isabelle
  imports Env Login RamfsMap Elf NetProto FatFormat Devices Image
begin

text \<open>
  \<^bold>\<open>A model of the kernel and its correctness.\<close>  The program under \<^verbatim>\<open>src/\<close> is a microkernel for
  32-bit x86 with a shell, a window system, file systems and a network stack, in one binary.  This development
  models the parts with logic of their own and proves what makes each of them correct.  Definitions carry the
  names of the C functions they translate; the file \<^verbatim>\<open>PROJECT.json\<close> maps each of them to its lines.

  \<^bold>\<open>Parts and how they interact.\<close>  \<open>pmm_init\<close> and \<open>paging_init\<close> set up pages and the kernel's page tables;
  the kernel heap takes one area of them.  Tasks have kernel stacks and page directories made by the
  page allocator, the heap and paging; the timer interrupt and blocking calls enter the scheduler.  System calls and interrupts
  arrive through gates of the interrupt table, and reach the scheduler, message passing and the file system in
  memory, whose file contents live in the kernel heap.  The ELF loader builds the address space of a program with the page
  allocator and paging and hands it to the scheduler.  The network stack, FAT16, the image loaders, the keyboard driver, the
  environment and the accounts have their own state.

  \<^bold>\<open>State.\<close>  The state of the kernel is one chain of extended records, in the order in which the parts build on each other:
  \<open>mem_state\<close> (byte-addressed physical memory), \<open>pmm_state\<close>, \<open>heap_state\<close>, \<open>paging_state\<close>,
  \<open>task_state\<close>, \<open>ipc_state\<close>, \<open>kernel_state\<close>, \<open>fs_state\<close>.  \<open>net_state\<close> extends
  \<open>mem_state\<close> on its own; \<open>kbd_state\<close>, \<open>login_state\<close>, \<open>fat_state\<close>, \<open>ata_state\<close>, \<open>mouse_state\<close> and \<open>image_state\<close> stand
  alone.  An operation takes the state and returns it changed, together with its result.  Integers have the width
  they have in C wherever the code computes with them; indices bounded by a constant table size are natural numbers.

  \<^bold>\<open>Results.\<close>  Error codes of the code are values of the model.  \<open>None\<close> of the outermost option stands for
  behaviour that has no result in C: a loop that does not end, an access outside memory or outside a buffer, a
  division by zero, the overflow of a signed number.  A theorem that an operation works therefore says that it is
  \<open>Some\<close>.  Where a call blocks, the outcome says so and the operation ends; resuming is a later step.  No operation takes fuel: loops are
  structural, have a termination proof, or are \<open>partial_function (option)\<close>, and then returning is proved.

  \<^bold>\<open>Theories.\<close>

  \<^item> \<open>Prelude\<close>, \<open>Cmem\<close>, \<open>Cstring\<close> (\<^verbatim>\<open>include/types.h\<close>, \<^verbatim>\<open>mem.c\<close>): word types, first-match loops, memory
    with little-endian access, the memory and string functions.  \<open>Slots\<close>: fixed tables of named entries, with
    the contracts \<open>key_table\<close>, \<open>name_table\<close> and \<open>name_table_del\<close> as locales.

  \<^item> \<open>Pmm\<close> (\<^verbatim>\<open>pmm.c\<close>): the page bitmap.  Every sequence of operations keeps bitmap and counter consistent;
    kernel pages are never handed out; \<open>pmm_alloc_page\<close> takes the lowest free page.  The locale
    \<open>page_allocator\<close> is the contract of pages, interpreted as \<open>pmm\<close>.

  \<^item> \<open>Kheap\<close> (\<^verbatim>\<open>heap.c\<close>): the list of block headers in memory.  Every run of \<open>kmalloc\<close> and \<open>kfree\<close>
    refines first fit with coalescing on an abstract list of blocks; areas are disjoint and keep
    their contents.  The locales \<open>allocator\<close> and \<open>arena_allocator\<close> are what clients use, interpreted as \<open>kheap\<close> and \<open>kheap_arena\<close>.

  \<^item> \<open>Paging\<close> (\<^verbatim>\<open>paging.c\<close>): the walk of the memory management unit on the tables in memory; identity map at the start;
    mapping and unmapping change one translation; mapping into another address space through the two windows;
    cloning and destroying address spaces; what the isolated space shares.

  \<^item> \<open>Tasks\<close>, \<open>Sched\<close> (\<^verbatim>\<open>task.c\<close>, \<^verbatim>\<open>timer.c\<close>): the task table, initial stack frames, choice of the
    next task, switches, sleep, exit.  The timer dispatches the first runnable task of least priority value in circular order;
    slices last a quantum; sleepers wake; creation either fails cleanly or fills a free slot.

  \<^item> \<open>Ipc\<close> (\<^verbatim>\<open>ipc.c\<close>): send, receive, call, reply, notify and the service registry.  Rendezvous gives the same result in
    either order; a call gets its reply; notifications arrive once; the registry is a map (interpretation \<open>svc\<close>).

  \<^item> \<open>Descr\<close> (\<^verbatim>\<open>gdt.c\<close>, \<^verbatim>\<open>idt.c\<close>), \<open>Syscall\<close> (\<^verbatim>\<open>syscall.c\<close>, \<^verbatim>\<open>idt.c\<close>): segments and gates; the whole
    system-call handler and interrupt dispatch.  The invariant of the kernel's tables holds in every state reachable by
    system calls, exceptions, interrupts and scheduler operations.

  \<^item> \<open>Ramfs\<close>, \<open>RamfsMap\<close> (\<^verbatim>\<open>ramfs.c\<close>): nodes, paths and contents.  Every run refines a map from paths to
    entries, using the heap only through \<open>arena_allocator\<close>; paths printed are found again.

  \<^item> \<open>Elf\<close> (\<^verbatim>\<open>elf.c\<close>): validation, segments, user stack and the task.  A loaded segment translates, byte by byte, to
    the contents of the file and zeros.

  \<^item> \<open>Env\<close> (\<^verbatim>\<open>env.c\<close>), \<open>Keyboard\<close> (\<^verbatim>\<open>keyboard.c\<close>), \<open>Login\<close> (\<^verbatim>\<open>login.c\<close>): the environment is a finite map
    (interpretation \<open>env\<close>) and its expansion ends within the buffer; the key ring is a bounded queue (locale
    \<open>bounded_queue\<close>, interpretation \<open>kbd\<close>) and the line editor a text with a cursor; access needs a matching
    hash and the root account is permanent.

  \<^item> \<open>Net\<close>, \<open>NetProto\<close> (\<^verbatim>\<open>net.c\<close>): the receive ring, ARP (interpretation \<open>arp\<close>), ICMP echo, UDP and DNS.
    Checksum, echo answers, datagram round trip, bounds of the ring and of the DNS parser.

  \<^item> \<open>Fat16\<close>, \<open>FatTable\<close>, \<open>FatDir\<close>, \<open>FatFormat\<close> (\<^verbatim>\<open>fat16.c\<close>): the whole file system on disks of
    sectors.  Chains and their data; short and long names; files written are read back, deletion releases exactly the chain, a
    full disk changes nothing; formatting and mounting give a proper empty volume.

  \<^item> \<open>Ata\<close> (\<^verbatim>\<open>ata.c\<close>): the disk driver as port accesses.  On every machine that conforms to a reference
    controller it provides the disks FAT16 works on, and identification finds exactly the drives present.

  \<^item> \<open>Devices\<close> (\<^verbatim>\<open>pci.c\<close>, \<^verbatim>\<open>mouse.c\<close>, \<^verbatim>\<open>virtio_input.c\<close>, \<^verbatim>\<open>rtc.c\<close>): the PCI scan lists every function that answers;
    the pointer stays on the screen whatever mouse and tablet deliver; the controller gets the right commands; the clock is read as it shows.

  \<^item> \<open>Inflate\<close>, \<open>Huffman\<close>, \<open>Deflate\<close>, \<open>Image\<close> (\<^verbatim>\<open>image.c\<close>): the bit reader, Huffman trees in an array,
    decompression and the three image formats.  A tree built from code lengths decodes every canonical code;
    every DEFLATE encoding is inverted and the output stays in its buffer; PNG, TGA and BMP files give the pixels of the picture.

  \<^bold>\<open>Parameters.\<close>  What is not C code of the repository or not modelled here is an argument: the GUI and GPU
  entry points of the system calls (record \<open>drivers\<close>), the file systems on disk as the file system in memory
  calls them (record \<open>disks\<close>), the bytes the network card stores, the key codes the keyboard delivers,
  the sectors of a disk, which of them are bad, the load address of static data, and for the drivers of \<open>Ata\<close> and
  \<open>Devices\<close> the machine behind the ports (record \<open>ports\<close>), the PCI configuration registers, the clock's registers and the tablet's events.

  \<^bold>\<open>Bounds.\<close>  Array sizes are those of the code (a key ring of 256, 64 file nodes, 8 accounts and so on, each a constant with the name of its macro).  A Huffman tree of at most 546 symbols fits the 8192 nodes: each code adds at most 15 and DEFLATE has at most 288.
  Theorems on files assume sizes below \<open>2 ^ 31\<close> where the code computes positions in 32 bits.

  \<^bold>\<open>Not modelled.\<close>  Text output; the shell, the window system, games, editor and demonstration programs, whose
  results are pictures and text; the drivers for VirtIO queues, VirGL and sound, which exchange
  commands with hardware whose protocol is defined elsewhere; NTFS and the reports of \<^verbatim>\<open>/proc\<close>; the user-level servers and
  programs; assembly, caches and the order of memory accesses between processors (the kernel runs on one).
\<close>

end
